(* ===== verification/Prelude.thy ===== *)
theory Prelude
  imports Main "HOL-Library.Monad_Syntax" "HOL-Library.Word" "HOL-Library.Signed_Division"
begin

text \<open>
  What every component of the Yalnix kernel model shares: the reading of undefined
  behaviour as \<^const>\<open>None\<close>, array access with its bounds written out, 32-bit unsigned
  arithmetic on \<open>nat\<close>, and the collections of rewrite rules the component proofs use.

  A C function that returns a value becomes a function into \<open>('a \<times> state) option\<close>, a
  \<open>void\<close> function one into \<open>state option\<close>.  \<^const>\<open>None\<close> stands for a run with no defined
  result: a NULL or dangling pointer is dereferenced, an index leaves its array, a pointer
  is freed twice, or a loop does not return.  The error codes that the kernel itself
  returns are ordinary values and never \<^const>\<open>None\<close>.
\<close>

section \<open>Collections of rules\<close>

named_theorems heap_simps "access to the kernel heap"
named_theorems frame_simps "what an operation leaves alone"

section \<open>Pointers and arrays\<close>

type_synonym addr = nat
type_synonym byte = "8 word"

abbreviation (input) NULL :: addr where
  "NULL \<equiv> 0"

text \<open>Reading and writing \<open>xs[i]\<close>; an index outside the array has no defined result.\<close>

definition aread :: "'a list \<Rightarrow> int \<Rightarrow> 'a option" where
  "aread xs i = (if 0 \<le> i \<and> i < int (length xs) then Some (xs ! nat i) else None)"

definition awrite :: "'a list \<Rightarrow> int \<Rightarrow> 'a \<Rightarrow> 'a list option" where
  "awrite xs i v = (if 0 \<le> i \<and> i < int (length xs) then Some (xs[nat i := v]) else None)"

lemma aread_Some [simp]: "aread xs i = Some v \<longleftrightarrow> 0 \<le> i \<and> i < int (length xs) \<and> v = xs ! nat i"
  by (auto simp: aread_def)

lemma aread_in [simp]: "0 \<le> i \<Longrightarrow> i < int (length xs) \<Longrightarrow> aread xs i = Some (xs ! nat i)"
  by (simp add: aread_def)

lemma awrite_Some [simp]:
  "awrite xs i v = Some ys \<longleftrightarrow> 0 \<le> i \<and> i < int (length xs) \<and> ys = xs[nat i := v]"
  by (auto simp: awrite_def)

lemma awrite_in [simp]:
  "0 \<le> i \<Longrightarrow> i < int (length xs) \<Longrightarrow> awrite xs i v = Some (xs[nat i := v])"
  by (simp add: awrite_def)

section \<open>32-bit unsigned arithmetic\<close>

text \<open>
  Addresses are C's \<open>unsigned int\<close>.  They are natural numbers below \<open>2 ^ 32\<close>; every sum and
  difference of the source is reduced as the hardware reduces it.
\<close>

definition u32 :: "int \<Rightarrow> nat" where
  "u32 x = nat (x mod 2 ^ 32)"

definition usub :: "nat \<Rightarrow> nat \<Rightarrow> nat" where
  "usub a b = u32 (int a - int b)"

definition uadd :: "nat \<Rightarrow> nat \<Rightarrow> nat" where
  "uadd a b = u32 (int a + int b)"

lemma u32_less [simp]: "u32 x < 2 ^ 32"
  by (simp add: u32_def nat_less_iff)

lemma u32_id: "0 \<le> x \<Longrightarrow> x < 2 ^ 32 \<Longrightarrow> u32 x = nat x"
  by (simp add: u32_def)

lemma usub_exact: "b \<le> a \<Longrightarrow> a < 2 ^ 32 \<Longrightarrow> usub a b = a - b"
  by (simp add: usub_def u32_def nat_diff_distrib')

lemma uadd_exact: "a + b < 2 ^ 32 \<Longrightarrow> uadd a b = a + b"
  by (simp add: uadd_def u32_def nat_add_distrib)

section \<open>Lists\<close>

text \<open>The first element of a segment, or what follows it; the last, or what precedes it.\<close>

definition first :: "'a list \<Rightarrow> 'a \<Rightarrow> 'a" where
  "first xs q = (case xs of [] \<Rightarrow> q | x # _ \<Rightarrow> x)"

definition final :: "'a \<Rightarrow> 'a list \<Rightarrow> 'a" where
  "final p xs = (if xs = [] then p else last xs)"

lemma first_simps [simp]: "first [] q = q" "first (x # xs) q = x"
  by (simp_all add: first_def)

lemma final_simps [simp]: "final p [] = p" "final p (x # xs) = final x xs" "final p (xs @ [x]) = x"
  by (simp_all add: final_def)

lemma first_append [simp]: "first (xs @ ys) q = first xs (first ys q)"
  by (cases xs) simp_all

lemma final_append [simp]: "final p (xs @ ys) = final (final p xs) ys"
  by (simp add: final_def)

lemma first_in: "xs \<noteq> [] \<Longrightarrow> first xs q \<in> set xs"
  by (cases xs) simp_all

lemma first_or: "first xs q \<in> set xs \<or> first xs q = q"
  by (cases xs) simp_all

lemma final_in: "xs \<noteq> [] \<Longrightarrow> final p xs \<in> set xs"
  by (simp add: final_def)

lemma final_or: "final p xs \<in> set xs \<or> final p xs = p"
  by (simp add: final_def)

lemma bind_Some_iff: "Option.bind m f = Some y \<longleftrightarrow> (\<exists>x. m = Some x \<and> f x = Some y)"
  by (cases m) simp_all

section \<open>Counted loops\<close>

text \<open>
  \<open>for (i = a; i < b; i++)\<close> and \<open>for (i = b - 1; i >= a; i--)\<close> over a body that may have no
  result.  A loop is proved with an invariant indexed by its counter.
\<close>

fun for_each :: "int list \<Rightarrow> (int \<Rightarrow> 's \<Rightarrow> 's option) \<Rightarrow> 's \<Rightarrow> 's option" where
  "for_each [] f s = Some s"
| "for_each (i # is) f s = do { s \<leftarrow> f i s; for_each is f s }"

definition for_up :: "int \<Rightarrow> int \<Rightarrow> (int \<Rightarrow> 's \<Rightarrow> 's option) \<Rightarrow> 's \<Rightarrow> 's option" where
  "for_up a b f s = for_each [a..b - 1] f s"

definition for_down :: "int \<Rightarrow> int \<Rightarrow> (int \<Rightarrow> 's \<Rightarrow> 's option) \<Rightarrow> 's \<Rightarrow> 's option" where
  "for_down a b f s = for_each (rev [a..b - 1]) f s"

text \<open>What every round keeps, the loop keeps.\<close>

lemma for_each_rel:
  "\<lbrakk>for_each is f s = Some s'; \<And>i s s'. f i s = Some s' \<Longrightarrow> R s s'; \<And>s. R s s; \<And>s s' s''. R s s' \<Longrightarrow> R s' s'' \<Longrightarrow> R s s''\<rbrakk> \<Longrightarrow> R s s'"
proof (induction "is" arbitrary: s)
  case (Cons i "is")
  then obtain s1 where "f i s = Some s1" "for_each is f s1 = Some s'" by (auto simp: bind_Some_iff)
  with Cons show ?case by blast
qed simp

lemma for_up_empty [simp]: "b \<le> a \<Longrightarrow> for_up a b f s = Some s"
  by (simp add: for_up_def)

lemma for_down_empty [simp]: "b \<le> a \<Longrightarrow> for_down a b f s = Some s"
  by (simp add: for_down_def)

lemma for_up_step: "a < b \<Longrightarrow> for_up a b f s = do { s \<leftarrow> f a s; for_up (a + 1) b f s }"
  by (simp add: for_up_def upto_rec1)

lemma for_down_step: "a < b \<Longrightarrow> for_down a b f s = do { s \<leftarrow> f (b - 1) s; for_down a (b - 1) f s }"
  by (simp add: for_down_def upto_rec2)

lemma for_up_shift: "for_up a b (\<lambda>i. f (i - c)) s = for_up (a - c) (b - c) f (s :: 's)"
proof (induction "nat (b - a)" arbitrary: a s)
  case 0
  then show ?case by simp
next
  case (Suc n)
  then have "a < b" by simp
  moreover have "for_up (a + 1) b (\<lambda>i. f (i - c)) s' = for_up (a + 1 - c) (b - c) f s'" for s'
    using Suc.hyps(2) by (intro Suc.hyps(1)) simp
  ultimately show ?case by (simp add: for_up_step algebra_simps)
qed

lemma for_down_shift: "for_down a b (\<lambda>i. f (i - c)) s = for_down (a - c) (b - c) f (s :: 's)"
proof (induction "nat (b - a)" arbitrary: b s)
  case 0
  then show ?case by simp
next
  case (Suc n)
  then have "a < b" by simp
  moreover have "for_down a (b - 1) (\<lambda>i. f (i - c)) s' = for_down (a - c) (b - 1 - c) f s'" for s'
    using Suc.hyps(2) by (intro Suc.hyps(1)) simp
  ultimately show ?case by (simp add: for_down_step algebra_simps)
qed

lemma for_up_rule:
  "\<lbrakk>a \<le> b; P a s; \<And>i s. \<lbrakk>a \<le> i; i < b; P i s\<rbrakk> \<Longrightarrow> \<exists>s'. f i s = Some s' \<and> P (i + 1) s'\<rbrakk>
   \<Longrightarrow> \<exists>s'. for_up a b f s = Some s' \<and> P b s'"
proof (induction "nat (b - a)" arbitrary: a s)
  case 0
  then show ?case by simp
next
  case (Suc n)
  then have ab: "a < b" by simp
  with Suc.prems obtain s1 where s1: "f a s = Some s1" "P (a + 1) s1" by blast
  have "\<exists>s'. for_up (a + 1) b f s1 = Some s' \<and> P b s'"
    by (rule Suc.hyps(1)) (use Suc.hyps(2) Suc.prems ab s1 in auto)
  with s1 ab show ?case by (simp add: for_up_step)
qed

lemma for_down_rule:
  "\<lbrakk>a \<le> b; P b s; \<And>i s. \<lbrakk>a \<le> i; i < b; P (i + 1) s\<rbrakk> \<Longrightarrow> \<exists>s'. f i s = Some s' \<and> P i s'\<rbrakk>
   \<Longrightarrow> \<exists>s'. for_down a b f s = Some s' \<and> P a s'"
proof (induction "nat (b - a)" arbitrary: b s)
  case 0
  then show ?case by simp
next
  case (Suc n)
  then have ab: "a < b" by simp
  have "a \<le> b - 1" "b - 1 < b" "P (b - 1 + 1) s" using ab Suc.prems by simp_all
  with Suc.prems(3) obtain s1 where s1: "f (b - 1) s = Some s1" "P (b - 1) s1" by blast
  have "\<exists>s'. for_down a (b - 1) f s1 = Some s' \<and> P a s'"
    by (rule Suc.hyps(1)) (use Suc.hyps(2) Suc.prems ab s1 in auto)
  with s1 ab show ?case by (simp add: for_down_step)
qed

declare Option.bind_cong [fundef_cong]

end
