(* ===== verification/Machine.thy ===== *)
theory Machine
  imports Prelude
begin

text \<open>
  What the kernel takes from headers that are not part of this repository (\<open>hardware.h\<close>,
  \<open>yalnix.h\<close>, \<open>ykernel.h\<close>) and from the linker: the memory layout, the page macros, the
  return codes and sizes.  They are the fields of a record that the definitions take as an
  argument; \<open>hw_ok\<close> collects what the kernel relies on.  \<open>demo\<close> is one machine that meets it.
\<close>

text \<open>The system calls; each has a number in \<open>yalnix.h\<close>.\<close>

datatype syscall =
    YALNIX_FORK | YALNIX_EXEC | YALNIX_EXIT | YALNIX_WAIT | YALNIX_GETPID | YALNIX_BRK | YALNIX_DELAY
  | YALNIX_TTY_READ | YALNIX_TTY_WRITE | YALNIX_PIPE_INIT | YALNIX_PIPE_READ | YALNIX_PIPE_WRITE
  | YALNIX_LOCK_INIT | YALNIX_LOCK_ACQUIRE | YALNIX_LOCK_RELEASE
  | YALNIX_CVAR_INIT | YALNIX_CVAR_SIGNAL | YALNIX_CVAR_BROADCAST | YALNIX_CVAR_WAIT | YALNIX_RECLAIM

text \<open>
  Executable files: what \<open>LoadInfo\<close> finds in the header, \<^const>\<open>None\<close> for a file that is not in
  Yalnix format, and the bytes that \<open>lseek\<close> and \<open>read\<close> work on.
\<close>

record load_info =
  li_entry :: nat
  li_t_vaddr :: nat
  li_t_faddr :: nat
  li_t_npg :: int
  li_id_vaddr :: nat
  li_id_faddr :: nat
  li_id_npg :: int
  li_id_end :: nat
  li_ud_npg :: int
  li_ud_end :: nat

record exec_file =
  ef_info :: "load_info option"
  ef_bytes :: "byte list"

text \<open>
  \<open>files\<close> is the file \<open>open\<close> finds under a name.  \<open>helper_new_pid\<close> is given the pids in use; \<open>uninit\<close> is what a local variable holds that the
  source reads before it writes it.
\<close>

record hw =
  PAGESHIFT :: nat
  PAGESIZE :: nat
  VMEM_0_BASE :: nat
  VMEM_0_SIZE :: nat
  VMEM_0_LIMIT :: nat
  VMEM_1_BASE :: nat
  VMEM_1_SIZE :: nat
  VMEM_1_LIMIT :: nat
  KERNEL_STACK_BASE :: nat
  KERNEL_STACK_MAXSIZE :: nat
  KERNEL_STACK_LIMIT :: nat
  PMEM_BASE :: nat
  MAX_PT_LEN :: int
  DOWN_TO_PAGE :: "nat \<Rightarrow> nat"
  UP_TO_PAGE :: "nat \<Rightarrow> nat"
  PROT_READ :: int
  PROT_WRITE :: int
  PROT_EXEC :: int
  PROT_ALL :: int
  ERROR :: int
  SUCCESS :: int
  KILL :: int
  NUM_TERMINALS :: int
  TERMINAL_MAX_LINE :: int
  PIPE_BUFFER_LEN :: int
  kernel_data_start :: nat
  kernel_data_end :: nat
  kernel_orig_brk :: nat
  code_of :: "syscall \<Rightarrow> int"
  helper_new_pid :: "int list \<Rightarrow> addr \<Rightarrow> int"
  DoIdle :: nat
  uninit :: int
  files :: "byte list \<Rightarrow> exec_file option"
  POST_ARGV_NULL_SPACE :: int
  INITIAL_STACK_FRAME_SIZE :: int

section \<open>The derived constants of memory.h\<close>

definition NUM_PAGES_1 :: "hw \<Rightarrow> int" where
  "NUM_PAGES_1 hw = int (VMEM_1_SIZE hw div PAGESIZE hw)"

definition NUM_PAGES_0 :: "hw \<Rightarrow> int" where
  "NUM_PAGES_0 hw = int (VMEM_0_SIZE hw div PAGESIZE hw)"

definition NUM_KSTACK_PAGES :: "hw \<Rightarrow> int" where
  "NUM_KSTACK_PAGES hw = int (KERNEL_STACK_MAXSIZE hw div PAGESIZE hw)"

definition BASE_PAGE_0 :: "hw \<Rightarrow> int" where
  "BASE_PAGE_0 hw = int (drop_bit (PAGESHIFT hw) (VMEM_0_BASE hw))"

definition LIM_PAGE_0 :: "hw \<Rightarrow> int" where
  "LIM_PAGE_0 hw = int (drop_bit (PAGESHIFT hw) (VMEM_0_LIMIT hw))"

definition BASE_PAGE_1 :: "hw \<Rightarrow> int" where
  "BASE_PAGE_1 hw = int (drop_bit (PAGESHIFT hw) (VMEM_1_BASE hw))"

definition LIM_PAGE_1 :: "hw \<Rightarrow> int" where
  "LIM_PAGE_1 hw = int (drop_bit (PAGESHIFT hw) (VMEM_1_LIMIT hw))"

definition BASE_PAGE_KSTACK :: "hw \<Rightarrow> int" where
  "BASE_PAGE_KSTACK hw = int (drop_bit (PAGESHIFT hw) (KERNEL_STACK_BASE hw))"

definition LIM_PAGE_KSTACK :: "hw \<Rightarrow> int" where
  "LIM_PAGE_KSTACK hw = int (drop_bit (PAGESHIFT hw) (KERNEL_STACK_LIMIT hw))"

definition BASE_FRAME :: "hw \<Rightarrow> int" where
  "BASE_FRAME hw = int (drop_bit (PAGESHIFT hw) (PMEM_BASE hw))"

definition CELL_SIZE :: int where
  "CELL_SIZE = push_bit 3 1"

definition AUTO :: int where
  "AUTO = 1"

definition FIXED :: int where
  "FIXED = 0"

definition NONE :: int where
  "NONE = 0"

definition MAX_CHECK :: int where
  "MAX_CHECK = 256"

section \<open>What the kernel relies on\<close>

text \<open>
  Pages are powers of two; the two regions and the kernel stack are made of whole pages,
  region 1 lies directly above region 0 and the kernel stack at the top of region 0, with
  room below it; the page macros round down and up; the codes \<open>ERROR\<close>, \<open>SUCCESS\<close> and
  \<open>KILL\<close> differ and \<open>ERROR\<close> is negative; writing is a bit of a
  protection; system calls have different numbers, and a new pid is none of those in use.
\<close>

definition hw_ok :: "hw \<Rightarrow> bool" where
  "hw_ok hw \<longleftrightarrow>
     PAGESIZE hw = 2 ^ PAGESHIFT hw \<and>
     VMEM_0_LIMIT hw = VMEM_0_BASE hw + VMEM_0_SIZE hw \<and>
     VMEM_1_BASE hw = VMEM_0_LIMIT hw \<and> VMEM_1_LIMIT hw = VMEM_1_BASE hw + VMEM_1_SIZE hw \<and>
     VMEM_1_LIMIT hw < 2 ^ 32 \<and>
     KERNEL_STACK_LIMIT hw = VMEM_0_LIMIT hw \<and>
     KERNEL_STACK_BASE hw + KERNEL_STACK_MAXSIZE hw = KERNEL_STACK_LIMIT hw \<and>
     VMEM_0_BASE hw + 2 * PAGESIZE hw \<le> KERNEL_STACK_BASE hw \<and>
     PAGESIZE hw dvd VMEM_0_BASE hw \<and> PAGESIZE hw dvd VMEM_0_SIZE hw \<and>
     PAGESIZE hw dvd VMEM_1_SIZE hw \<and> PAGESIZE hw dvd KERNEL_STACK_MAXSIZE hw \<and>
     0 < VMEM_1_SIZE hw \<and> 0 < KERNEL_STACK_MAXSIZE hw \<and>
     MAX_PT_LEN hw = int (VMEM_1_SIZE hw div PAGESIZE hw) \<and>
     (\<forall>a. DOWN_TO_PAGE hw a = a div PAGESIZE hw * PAGESIZE hw) \<and>
     (\<forall>a. a + PAGESIZE hw \<le> 2 ^ 32 \<longrightarrow>
        UP_TO_PAGE hw a = (a + PAGESIZE hw - 1) div PAGESIZE hw * PAGESIZE hw) \<and>
     ERROR hw < 0 \<and> SUCCESS hw \<noteq> ERROR hw \<and> SUCCESS hw \<noteq> KILL hw \<and> ERROR hw \<noteq> KILL hw \<and>
     PROT_READ hw \<noteq> 0 \<and> PROT_WRITE hw \<noteq> 0 \<and>
     inj (code_of hw) \<and> (\<forall>P a. helper_new_pid hw P a \<notin> set P) \<and>
     0 < NUM_TERMINALS hw \<and> 0 < TERMINAL_MAX_LINE hw \<and> 0 < PIPE_BUFFER_LEN hw"

text \<open>
  A small machine: pages of 16 bytes, 16 pages of region 0 with a kernel stack of two, and
  16 pages of region 1.
\<close>

definition demo :: hw where
  "demo =
     \<lparr>PAGESHIFT = 4, PAGESIZE = 16, VMEM_0_BASE = 0, VMEM_0_SIZE = 256, VMEM_0_LIMIT = 256,
      VMEM_1_BASE = 256, VMEM_1_SIZE = 256, VMEM_1_LIMIT = 512,
      KERNEL_STACK_BASE = 224, KERNEL_STACK_MAXSIZE = 32, KERNEL_STACK_LIMIT = 256,
      PMEM_BASE = 0, MAX_PT_LEN = 16,
      DOWN_TO_PAGE = (\<lambda>a. a div 16 * 16), UP_TO_PAGE = (\<lambda>a. (a + 15) div 16 * 16),
      PROT_READ = 1, PROT_WRITE = 2, PROT_EXEC = 4, PROT_ALL = 7,
      ERROR = - 1, SUCCESS = 0, KILL = - 2,
      NUM_TERMINALS = 4, TERMINAL_MAX_LINE = 1024, PIPE_BUFFER_LEN = 256,
      kernel_data_start = 32, kernel_data_end = 64, kernel_orig_brk = 80,
      code_of = (\<lambda>c. case c of
          YALNIX_FORK \<Rightarrow> 1 | YALNIX_EXEC \<Rightarrow> 2 | YALNIX_EXIT \<Rightarrow> 3 | YALNIX_WAIT \<Rightarrow> 4 | YALNIX_GETPID \<Rightarrow> 5
        | YALNIX_BRK \<Rightarrow> 6 | YALNIX_DELAY \<Rightarrow> 7 | YALNIX_TTY_READ \<Rightarrow> 8 | YALNIX_TTY_WRITE \<Rightarrow> 9
        | YALNIX_PIPE_INIT \<Rightarrow> 10 | YALNIX_PIPE_READ \<Rightarrow> 11 | YALNIX_PIPE_WRITE \<Rightarrow> 12
        | YALNIX_LOCK_INIT \<Rightarrow> 13 | YALNIX_LOCK_ACQUIRE \<Rightarrow> 14 | YALNIX_LOCK_RELEASE \<Rightarrow> 15
        | YALNIX_CVAR_INIT \<Rightarrow> 16 | YALNIX_CVAR_SIGNAL \<Rightarrow> 17 | YALNIX_CVAR_BROADCAST \<Rightarrow> 18
        | YALNIX_CVAR_WAIT \<Rightarrow> 19 | YALNIX_RECLAIM \<Rightarrow> 20),
      helper_new_pid = (\<lambda>P a. foldr max P 0 + 1), DoIdle = 32, uninit = 0,
      files = (\<lambda>_. None), POST_ARGV_NULL_SPACE = 1, INITIAL_STACK_FRAME_SIZE = 8\<rparr>"

lemma above_foldr_max: "foldr max P 0 + 1 \<notin> set (P :: int list)"
proof -
  have "x \<in> set P \<Longrightarrow> x \<le> foldr max P 0" for x
    by (induction P) (auto simp: le_max_iff_disj)
  then show ?thesis by fastforce
qed

lemma demo_codes: "inj (code_of demo)"
  by (rule injI) (simp add: demo_def split: syscall.splits)

lemma demo_ok: "hw_ok demo"
  using demo_codes above_foldr_max by (simp add: hw_ok_def demo_def add.commute)

lemma demo_simps [simp]:
  "PAGESHIFT demo = 4" "PAGESIZE demo = 16" "VMEM_0_BASE demo = 0" "VMEM_0_SIZE demo = 256" "VMEM_0_LIMIT demo = 256"
  "VMEM_1_BASE demo = 256" "VMEM_1_SIZE demo = 256" "VMEM_1_LIMIT demo = 512" "KERNEL_STACK_BASE demo = 224"
  "KERNEL_STACK_MAXSIZE demo = 32" "KERNEL_STACK_LIMIT demo = 256" "PMEM_BASE demo = 0" "MAX_PT_LEN demo = 16"
  "DOWN_TO_PAGE demo a = a div 16 * 16" "UP_TO_PAGE demo a = (a + 15) div 16 * 16"
  "PROT_READ demo = 1" "PROT_WRITE demo = 2" "PROT_EXEC demo = 4" "PROT_ALL demo = 7"
  "ERROR demo = - 1" "SUCCESS demo = 0" "KILL demo = - 2" "NUM_TERMINALS demo = 4" "TERMINAL_MAX_LINE demo = 1024"
  "PIPE_BUFFER_LEN demo = 256" "kernel_data_start demo = 32" "kernel_data_end demo = 64" "kernel_orig_brk demo = 80"
  "uninit demo = 0" "DoIdle demo = 32" "code_of demo YALNIX_GETPID = 5" "code_of demo YALNIX_EXEC = 2"
  by (simp_all add: demo_def)

lemma demo_pages [simp]:
  "NUM_PAGES_1 demo = 16" "NUM_PAGES_0 demo = 16" "NUM_KSTACK_PAGES demo = 2" "BASE_PAGE_0 demo = 0"
  "LIM_PAGE_0 demo = 16" "BASE_PAGE_1 demo = 16" "LIM_PAGE_1 demo = 32" "BASE_PAGE_KSTACK demo = 14"
  "LIM_PAGE_KSTACK demo = 16" "BASE_FRAME demo = 0"
  by (simp_all add: NUM_PAGES_1_def NUM_PAGES_0_def NUM_KSTACK_PAGES_def BASE_PAGE_0_def LIM_PAGE_0_def
      BASE_PAGE_1_def LIM_PAGE_1_def BASE_PAGE_KSTACK_def LIM_PAGE_KSTACK_def BASE_FRAME_def drop_bit_eq_div)

section \<open>Page numbers\<close>

lemma hw_size: "hw_ok hw \<Longrightarrow> PAGESIZE hw = 2 ^ PAGESHIFT hw" "hw_ok hw \<Longrightarrow> 0 < PAGESIZE hw"
  by (simp_all add: hw_ok_def)

lemma page_of: "hw_ok hw \<Longrightarrow> drop_bit (PAGESHIFT hw) a = a div PAGESIZE hw"
  by (simp add: drop_bit_eq_div hw_size)

lemma down_page: "hw_ok hw \<Longrightarrow> DOWN_TO_PAGE hw a = a div PAGESIZE hw * PAGESIZE hw"
  by (simp add: hw_ok_def)

lemma up_page: "hw_ok hw \<Longrightarrow> a + PAGESIZE hw \<le> 2 ^ 32 \<Longrightarrow>
  UP_TO_PAGE hw a = (a + PAGESIZE hw - 1) div PAGESIZE hw * PAGESIZE hw"
  by (simp add: hw_ok_def)

lemma div_add_pages: "(d::nat) dvd a \<Longrightarrow> (a + b) div d = a div d + b div d"
  by (cases "d = 0") auto

lemma region_1:
  assumes "hw_ok hw"
  shows "LIM_PAGE_1 hw - BASE_PAGE_1 hw = NUM_PAGES_1 hw" and "0 < NUM_PAGES_1 hw"
proof -
  have d: "PAGESIZE hw dvd VMEM_1_BASE hw" "PAGESIZE hw dvd VMEM_1_SIZE hw" "0 < VMEM_1_SIZE hw"
    "VMEM_1_LIMIT hw = VMEM_1_BASE hw + VMEM_1_SIZE hw"
    using assms by (auto simp: hw_ok_def)
  show "LIM_PAGE_1 hw - BASE_PAGE_1 hw = NUM_PAGES_1 hw"
    by (simp add: LIM_PAGE_1_def BASE_PAGE_1_def NUM_PAGES_1_def page_of [OF assms] d(4) div_add_pages [OF d(1)])
  show "0 < NUM_PAGES_1 hw"
    using d(2,3) hw_size [OF assms] by (auto simp: NUM_PAGES_1_def dvd_def)
qed

lemma region_0:
  assumes "hw_ok hw"
  shows "LIM_PAGE_0 hw - BASE_PAGE_0 hw = NUM_PAGES_0 hw" and "LIM_PAGE_0 hw = BASE_PAGE_1 hw"
    and "BASE_PAGE_0 hw + 2 \<le> BASE_PAGE_KSTACK hw" and "LIM_PAGE_KSTACK hw = LIM_PAGE_0 hw"
    and "LIM_PAGE_KSTACK hw - BASE_PAGE_KSTACK hw = NUM_KSTACK_PAGES hw" and "0 < NUM_KSTACK_PAGES hw"
proof -
  have d: "PAGESIZE hw dvd VMEM_0_BASE hw" "PAGESIZE hw dvd VMEM_0_SIZE hw"
    "PAGESIZE hw dvd KERNEL_STACK_MAXSIZE hw" "0 < KERNEL_STACK_MAXSIZE hw"
    "VMEM_0_LIMIT hw = VMEM_0_BASE hw + VMEM_0_SIZE hw" "VMEM_1_BASE hw = VMEM_0_LIMIT hw"
    "KERNEL_STACK_LIMIT hw = VMEM_0_LIMIT hw"
    "KERNEL_STACK_LIMIT hw = KERNEL_STACK_BASE hw + KERNEL_STACK_MAXSIZE hw"
    "VMEM_0_BASE hw + 2 * PAGESIZE hw \<le> KERNEL_STACK_BASE hw"
    using assms by (auto simp: hw_ok_def)
  note p = page_of [OF assms] and z = hw_size(2) [OF assms]
  have kd: "PAGESIZE hw dvd KERNEL_STACK_BASE hw"
    using d(1,2,3,5,7,8) by (metis dvd_add dvd_add_left_iff)
  show "LIM_PAGE_0 hw - BASE_PAGE_0 hw = NUM_PAGES_0 hw"
    by (simp add: LIM_PAGE_0_def BASE_PAGE_0_def NUM_PAGES_0_def p d(5) div_add_pages [OF d(1)])
  show "LIM_PAGE_0 hw = BASE_PAGE_1 hw"
    by (simp add: LIM_PAGE_0_def BASE_PAGE_1_def d(6))
  show "LIM_PAGE_KSTACK hw = LIM_PAGE_0 hw"
    by (simp add: LIM_PAGE_KSTACK_def LIM_PAGE_0_def d(7))
  show "LIM_PAGE_KSTACK hw - BASE_PAGE_KSTACK hw = NUM_KSTACK_PAGES hw"
    by (simp add: LIM_PAGE_KSTACK_def BASE_PAGE_KSTACK_def NUM_KSTACK_PAGES_def p d(8) div_add_pages [OF kd])
  show "0 < NUM_KSTACK_PAGES hw"
    using d(3,4) z by (auto simp: NUM_KSTACK_PAGES_def dvd_def)
  have "(VMEM_0_BASE hw + 2 * PAGESIZE hw) div PAGESIZE hw \<le> KERNEL_STACK_BASE hw div PAGESIZE hw"
    using d(9) by (rule div_le_mono)
  then show "BASE_PAGE_0 hw + 2 \<le> BASE_PAGE_KSTACK hw"
    using z by (simp add: BASE_PAGE_0_def BASE_PAGE_KSTACK_def p)
qed

text \<open>The page just below the kernel stack, which the kernel uses to reach other frames.\<close>

lemma dummy_page:
  assumes "hw_ok hw"
  shows "0 \<le> BASE_PAGE_KSTACK hw - 1 - BASE_PAGE_0 hw" "BASE_PAGE_KSTACK hw - 1 - BASE_PAGE_0 hw < NUM_PAGES_0 hw"
    "BASE_PAGE_KSTACK hw - 1 < BASE_PAGE_1 hw"
  using region_0 [OF assms] by linarith+

text \<open>The page number of an address of region 1.\<close>

lemma page_in_1:
  assumes "hw_ok hw" and "VMEM_1_BASE hw \<le> a" and "a < VMEM_1_LIMIT hw"
  shows "BASE_PAGE_1 hw \<le> int (drop_bit (PAGESHIFT hw) a)" "int (drop_bit (PAGESHIFT hw) a) < LIM_PAGE_1 hw"
proof -
  have "PAGESIZE hw dvd VMEM_1_LIMIT hw" using assms(1) by (auto simp: hw_ok_def)
  then have "a div PAGESIZE hw < VMEM_1_LIMIT hw div PAGESIZE hw"
    using assms(3) hw_size(2) [OF assms(1)] by (auto simp: dvd_def div_less_iff_less_mult mult.commute)
  then show "int (drop_bit (PAGESHIFT hw) a) < LIM_PAGE_1 hw"
    by (simp add: LIM_PAGE_1_def page_of [OF assms(1)])
  show "BASE_PAGE_1 hw \<le> int (drop_bit (PAGESHIFT hw) a)"
    using div_le_mono [OF assms(2)] by (simp add: BASE_PAGE_1_def page_of [OF assms(1)])
qed

end
