(* ===== verification/Frames.thy ===== *)
theory Frames
  imports Machine
begin

text \<open>
  The allocator of physical frames in \<open>memory.c\<close>: a bit vector, a count of the frames in
  use and the lowest frame that may be free.  Taking a frame always gives one that nobody
  holds, and the allocator refuses only when none is left.
\<close>

section \<open>The allocator\<close>

text \<open>\<open>struct f_frame\<close>; frame numbers are integers, so that \<open>ERROR\<close> is one of the results.\<close>

record free_frame =
  ff_size :: int
  ff_bits :: "byte list"
  ff_avail :: int
  ff_filled :: int

text \<open>
  \<open>CELL_SIZE\<close> is a \<open>size_t\<close>, so the division is unsigned: a negative index becomes one far
  beyond the end of the vector.
\<close>

definition get_bit :: "byte list \<Rightarrow> int \<Rightarrow> int option" where
  "get_bit bit_array index = do {
     let cell = index div CELL_SIZE;
     let offset = index mod CELL_SIZE;
     if index < 0 then None else do {
       c \<leftarrow> aread bit_array cell;
       Some (if and c (push_bit (nat offset) 1) = 0 then 0 else 1)
     }
   }"

definition set_bit :: "byte list \<Rightarrow> int \<Rightarrow> int \<Rightarrow> byte list option" where
  "set_bit bit_array index b = do {
     let cell = index div CELL_SIZE;
     let offset = index mod CELL_SIZE;
     if index < 0 then None else do {
       c \<leftarrow> aread bit_array cell;
       if b \<noteq> 0 then awrite bit_array cell (or c (push_bit (nat offset) 1))
       else awrite bit_array cell (and c (not (push_bit (nat offset) 1)))
     }
   }"

definition vacate_frame :: "hw \<Rightarrow> int \<Rightarrow> free_frame \<Rightarrow> (int \<times> free_frame) option" where
  "vacate_frame hw pfn ff = do {
     bits \<leftarrow> set_bit (ff_bits ff) (pfn - BASE_FRAME hw) 0;
     let ff = ff\<lparr>ff_bits := bits\<rparr>;
     let ff = ff\<lparr>ff_filled := ff_filled ff - 1\<rparr>;
     let ff = (if pfn < ff_avail ff then ff\<lparr>ff_avail := pfn\<rparr> else ff);
     Some (0, ff)
   }"

text \<open>The scan for the next free frame: the \<open>for\<close> loop of \<open>get_frame\<close>.\<close>

function next_free :: "hw \<Rightarrow> free_frame \<Rightarrow> int \<Rightarrow> int option" where
  "next_free hw ff next_pfn = do {
     b \<leftarrow> get_bit (ff_bits ff) (next_pfn - BASE_FRAME hw);
     if b \<noteq> 0 \<and> next_pfn - BASE_FRAME hw < ff_size ff then next_free hw ff (next_pfn + 1)
     else Some next_pfn
   }"
  by pat_completeness auto
termination
  by (relation "measure (\<lambda>(hw, ff, p). nat (ff_size ff - (p - BASE_FRAME hw)))") auto

declare next_free.simps [simp del]

definition get_frame :: "hw \<Rightarrow> int \<Rightarrow> int \<Rightarrow> free_frame \<Rightarrow> (int \<times> free_frame) option" where
  "get_frame hw pfn auto_assign ff =
     (if ff_filled ff \<ge> ff_size ff then Some (ERROR hw, ff)
      else do {
        let pfn = (if auto_assign \<noteq> 0 then ff_avail ff else pfn);
        bits \<leftarrow> set_bit (ff_bits ff) (pfn - BASE_FRAME hw) 1;
        let ff = ff\<lparr>ff_bits := bits\<rparr>;
        let ff = ff\<lparr>ff_filled := ff_filled ff + 1\<rparr>;
        if pfn = ff_avail ff then do {
          next_pfn \<leftarrow> next_free hw ff pfn;
          Some (pfn, ff\<lparr>ff_avail := next_pfn\<rparr>)
        } else Some (pfn, ff)
      })"

definition frames_left :: "free_frame \<Rightarrow> int" where
  "frames_left ff = ff_size ff - ff_filled ff"

section \<open>The bits\<close>

text \<open>Bit \<open>i\<close> of the vector, for an index within it.\<close>

definition bit_at :: "byte list \<Rightarrow> nat \<Rightarrow> bool" where
  "bit_at bv i = bit (bv ! (i div 8)) (i mod 8)"

lemma cell_of: "0 \<le> i \<Longrightarrow> i div CELL_SIZE = int (nat i div 8)" "0 \<le> i \<Longrightarrow> i mod CELL_SIZE = int (nat i mod 8)"
  by (auto simp: CELL_SIZE_def zdiv_int zmod_int)

lemma get_bit_in:
  assumes "0 \<le> i" and "i < 8 * int (length bv)"
  shows "get_bit bv i = Some (if bit_at bv (nat i) then 1 else 0)"
proof -
  have "nat i div 8 < length bv" using assms by linarith
  then show ?thesis
    using assms(1) and_exp_eq_0_iff_not_bit [of "bv ! (nat i div 8)" "nat i mod 8"]
    by (simp add: get_bit_def cell_of bit_at_def push_bit_eq_mult Let_def)
qed

lemma bit_at_update:
  assumes "i div 8 < length bv" and "\<And>k. k < 8 \<Longrightarrow> bit c k = (if k = i mod 8 then v else bit (bv ! (i div 8)) k)"
  shows "bit_at (bv[i div 8 := c]) j = (if j = i then v else bit_at bv j)"
proof (cases "j div 8 = i div 8")
  case True
  then have "j = i \<longleftrightarrow> j mod 8 = i mod 8" by (metis div_mult_mod_eq)
  with True assms show ?thesis by (simp add: bit_at_def)
next
  case False
  then show ?thesis by (auto simp: bit_at_def)
qed

lemma set_bit_in:
  assumes "0 \<le> i" and "i < 8 * int (length bv)"
  shows "\<exists>bv'. set_bit bv i b = Some bv' \<and> length bv' = length bv \<and>
    (\<forall>j. bit_at bv' j = (if j = nat i then b \<noteq> 0 else bit_at bv j))"
proof -
  have i: "nat i div 8 < length bv" using assms by linarith
  let ?c = "bv ! (nat i div 8)" and ?m = "push_bit (nat i mod 8) (1 :: byte)"
  let ?c' = "if b \<noteq> 0 then or ?c ?m else and ?c (not ?m)"
  have "set_bit bv i b = Some (bv[nat i div 8 := ?c'])"
    using assms(1) i by (simp add: set_bit_def cell_of Let_def)
  moreover have "bit ?c' k = (if k = nat i mod 8 then b \<noteq> 0 else bit ?c k)" if "k < 8" for k
    using that by (auto simp: bit_simps)
  ultimately show ?thesis using bit_at_update [OF i, of ?c' "b \<noteq> 0"] by simp
qed

section \<open>The frames in use\<close>

definition used :: "hw \<Rightarrow> free_frame \<Rightarrow> int set" where
  "used hw ff =
     {pfn. BASE_FRAME hw \<le> pfn \<and> pfn < BASE_FRAME hw + ff_size ff \<and> bit_at (ff_bits ff) (nat (pfn - BASE_FRAME hw))}"

text \<open>
  The allocator is consistent: the vector has a bit per frame, the count is the number of
  frames in use, every frame below \<open>avail_pfn\<close> is in use and \<open>avail_pfn\<close> itself is not.
\<close>

definition frames_ok :: "hw \<Rightarrow> free_frame \<Rightarrow> bool" where
  "frames_ok hw ff \<longleftrightarrow>
     0 \<le> ff_size ff \<and> ff_size ff < 8 * int (length (ff_bits ff)) \<and>
     ff_filled ff = int (card (used hw ff)) \<and>
     BASE_FRAME hw \<le> ff_avail ff \<and> ff_avail ff \<le> BASE_FRAME hw + ff_size ff \<and>
     {BASE_FRAME hw..<ff_avail ff} \<subseteq> used hw ff \<and> ff_avail ff \<notin> used hw ff"

lemma used_range: "used hw ff \<subseteq> {BASE_FRAME hw..<BASE_FRAME hw + ff_size ff}"
  by (auto simp: used_def)

lemma finite_used [simp]: "finite (used hw ff)"
  by (rule finite_subset [OF used_range]) simp

lemma used_bits:
  assumes "BASE_FRAME hw \<le> pfn" and "pfn < BASE_FRAME hw + ff_size ff"
    and "\<forall>j. bit_at bits j = (if j = nat (pfn - BASE_FRAME hw) then v else bit_at (ff_bits ff) j)"
    and "ff_bits ff' = bits" and "ff_size ff' = ff_size ff"
  shows "used hw ff' = (if v then insert pfn (used hw ff) else used hw ff - {pfn})"
  using assms by (auto simp: used_def nat_eq_iff split: if_splits)

text \<open>A frame is left exactly when the allocator's pointer is inside the memory.\<close>

lemma avail_in:
  assumes "frames_ok hw ff" and "ff_filled ff < ff_size ff"
  shows "ff_avail ff < BASE_FRAME hw + ff_size ff"
proof (rule ccontr)
  assume "\<not> ?thesis"
  with assms(1) have "{BASE_FRAME hw..<BASE_FRAME hw + ff_size ff} \<subseteq> used hw ff"
    by (auto simp: frames_ok_def)
  then have "card {BASE_FRAME hw..<BASE_FRAME hw + ff_size ff} \<le> card (used hw ff)"
    by (intro card_mono) simp_all
  with assms show False by (simp add: frames_ok_def)
qed

lemma used_full:
  assumes "frames_ok hw ff" and "ff_filled ff \<ge> ff_size ff"
  shows "used hw ff = {BASE_FRAME hw..<BASE_FRAME hw + ff_size ff}"
proof (rule card_subset_eq)
  have "card (used hw ff) \<le> nat (ff_size ff)"
    using card_mono [OF _ used_range [of hw ff]] by simp
  then show "card (used hw ff) = card {BASE_FRAME hw..<BASE_FRAME hw + ff_size ff}"
    using assms by (simp add: frames_ok_def)
qed (use used_range in auto)

text \<open>The scan stops at the first free frame, or just past the last one.\<close>

lemma next_free_scan:
  "\<lbrakk>ff_size ff < 8 * int (length (ff_bits ff)); BASE_FRAME hw \<le> p; p \<le> BASE_FRAME hw + ff_size ff\<rbrakk> \<Longrightarrow>
   \<exists>q. next_free hw ff p = Some q \<and> p \<le> q \<and> q \<le> BASE_FRAME hw + ff_size ff \<and>
     {p..<q} \<subseteq> used hw ff \<and> q \<notin> used hw ff"
proof (induction hw ff p rule: next_free.induct)
  case (1 hw ff p)
  let ?b = "bit_at (ff_bits ff) (nat (p - BASE_FRAME hw))"
  have g: "get_bit (ff_bits ff) (p - BASE_FRAME hw) = Some (if ?b then 1 else 0)"
    using "1.prems" by (intro get_bit_in) auto
  show ?case
  proof (cases "?b \<and> p - BASE_FRAME hw < ff_size ff")
    case True
    then have p: "p \<in> used hw ff" using "1.prems" by (simp add: used_def)
    have "\<exists>q. next_free hw ff (p + 1) = Some q \<and> p + 1 \<le> q \<and> q \<le> BASE_FRAME hw + ff_size ff \<and>
        {p + 1..<q} \<subseteq> used hw ff \<and> q \<notin> used hw ff"
      by (rule "1.IH" [OF g]) (use True "1.prems" in auto)
    then obtain q where q: "next_free hw ff (p + 1) = Some q" "p + 1 \<le> q" "q \<le> BASE_FRAME hw + ff_size ff"
        "{p + 1..<q} \<subseteq> used hw ff" "q \<notin> used hw ff" by blast
    have "{p..<q} = insert p {p + 1..<q}" using q(2) by auto
    with q p True g show ?thesis by (simp add: next_free.simps [of hw ff p])
  next
    case False
    with g "1.prems" show ?thesis by (auto simp: next_free.simps [of hw ff p] used_def)
  qed
qed

section \<open>Taking and returning frames\<close>

text \<open>Automatic assignment: the frame given was free, and is the lowest free one.\<close>

lemma get_frame_auto:
  assumes ok: "frames_ok hw ff" and left: "ff_filled ff < ff_size ff"
  shows "\<exists>ff'. get_frame hw pfn AUTO ff = Some (ff_avail ff, ff') \<and> frames_ok hw ff' \<and>
    ff_avail ff \<notin> used hw ff \<and> ff_avail ff \<in> {BASE_FRAME hw..<BASE_FRAME hw + ff_size ff} \<and>
    used hw ff' = insert (ff_avail ff) (used hw ff) \<and>
    ff_size ff' = ff_size ff \<and> ff_filled ff' = ff_filled ff + 1"
proof -
  let ?p = "ff_avail ff"
  have p: "BASE_FRAME hw \<le> ?p" "?p < BASE_FRAME hw + ff_size ff" "?p \<notin> used hw ff"
    using ok avail_in [OF ok left] by (simp_all add: frames_ok_def)
  have "?p - BASE_FRAME hw < 8 * int (length (ff_bits ff))"
    using p ok by (simp add: frames_ok_def)
  with p(1) obtain bits where bits: "set_bit (ff_bits ff) (?p - BASE_FRAME hw) 1 = Some bits"
      "length bits = length (ff_bits ff)"
      "\<forall>j. bit_at bits j = (if j = nat (?p - BASE_FRAME hw) then True else bit_at (ff_bits ff) j)"
    using set_bit_in [of "?p - BASE_FRAME hw" "ff_bits ff" 1] by auto
  define f1 where "f1 = ff\<lparr>ff_bits := bits, ff_filled := ff_filled ff + 1\<rparr>"
  have u1: "used hw f1 = insert ?p (used hw ff)"
    using used_bits [OF p(1,2) bits(3), of f1] by (simp add: f1_def)
  obtain q where q: "next_free hw f1 ?p = Some q" "?p \<le> q" "q \<le> BASE_FRAME hw + ff_size ff"
      "{?p..<q} \<subseteq> used hw f1" "q \<notin> used hw f1"
    using next_free_scan [of f1 hw ?p] ok p bits(2) by (auto simp: f1_def frames_ok_def)
  define f2 where "f2 = f1\<lparr>ff_avail := q\<rparr>"
  have used_eq: "used hw f2 = used hw f1" by (simp add: f2_def used_def)
  have "{BASE_FRAME hw..<q} = {BASE_FRAME hw..<?p} \<union> {?p..<q}" using p(1) q(2) by auto
  then have low: "{BASE_FRAME hw..<q} \<subseteq> used hw f1"
    using q(4) u1 ok by (auto simp: frames_ok_def)
  have "frames_ok hw f2"
    unfolding frames_ok_def used_eq using ok q low p u1 bits(2)
    by (auto simp: f1_def f2_def frames_ok_def)
  moreover have "get_frame hw pfn AUTO ff = Some (?p, f2)"
    using left bits(1) q(1) by (simp add: get_frame_def AUTO_def Let_def f1_def f2_def)
  ultimately show ?thesis using p u1 used_eq by (auto simp: f1_def f2_def)
qed

text \<open>With no frame left the allocator answers \<open>ERROR\<close> and keeps its state.\<close>

lemma get_frame_full: "ff_filled ff \<ge> ff_size ff \<Longrightarrow> get_frame hw pfn a ff = Some (ERROR hw, ff)"
  by (simp add: get_frame_def)

text \<open>A fixed frame, as boot asks for: any free frame below the first free one is kept.\<close>

lemma get_frame_fixed:
  assumes ok: "frames_ok hw ff" and left: "ff_filled ff < ff_size ff"
    and pfn: "BASE_FRAME hw \<le> pfn" "pfn < BASE_FRAME hw + ff_size ff" "pfn \<notin> used hw ff"
  shows "\<exists>ff'. get_frame hw pfn FIXED ff = Some (pfn, ff') \<and> frames_ok hw ff' \<and>
    used hw ff' = insert pfn (used hw ff) \<and> ff_size ff' = ff_size ff \<and> ff_filled ff' = ff_filled ff + 1"
proof (cases "pfn = ff_avail ff")
  case True
  have "get_frame hw pfn FIXED ff = get_frame hw pfn AUTO ff"
    using True by (simp add: get_frame_def AUTO_def FIXED_def)
  with get_frame_auto [OF ok left, of pfn] True show ?thesis by auto
next
  case False
  have "pfn - BASE_FRAME hw < 8 * int (length (ff_bits ff))"
    using pfn ok by (simp add: frames_ok_def)
  with pfn(1) obtain bits where bits: "set_bit (ff_bits ff) (pfn - BASE_FRAME hw) 1 = Some bits"
      "length bits = length (ff_bits ff)"
      "\<forall>j. bit_at bits j = (if j = nat (pfn - BASE_FRAME hw) then True else bit_at (ff_bits ff) j)"
    using set_bit_in [of "pfn - BASE_FRAME hw" "ff_bits ff" 1] by auto
  define f1 where "f1 = ff\<lparr>ff_bits := bits, ff_filled := ff_filled ff + 1\<rparr>"
  have u1: "used hw f1 = insert pfn (used hw ff)"
    using used_bits [OF pfn(1,2) bits(3), of f1] by (simp add: f1_def)
  have "frames_ok hw f1"
    unfolding frames_ok_def u1 using ok pfn False bits(2) by (auto simp: f1_def frames_ok_def)
  moreover have "get_frame hw pfn FIXED ff = Some (pfn, f1)"
    using left bits(1) False by (simp add: get_frame_def FIXED_def Let_def f1_def)
  ultimately show ?thesis using u1 by (simp add: f1_def)
qed

lemma vacate_frame_used:
  assumes ok: "frames_ok hw ff" and pfn: "pfn \<in> used hw ff"
  shows "\<exists>ff'. vacate_frame hw pfn ff = Some (0, ff') \<and> frames_ok hw ff' \<and>
    used hw ff' = used hw ff - {pfn} \<and> ff_size ff' = ff_size ff \<and> ff_filled ff' = ff_filled ff - 1"
proof -
  have p: "BASE_FRAME hw \<le> pfn" "pfn < BASE_FRAME hw + ff_size ff" using pfn by (auto simp: used_def)
  have "pfn - BASE_FRAME hw < 8 * int (length (ff_bits ff))"
    using p ok by (simp add: frames_ok_def)
  with p(1) obtain bits where bits: "set_bit (ff_bits ff) (pfn - BASE_FRAME hw) 0 = Some bits"
      "length bits = length (ff_bits ff)"
      "\<forall>j. bit_at bits j = (if j = nat (pfn - BASE_FRAME hw) then False else bit_at (ff_bits ff) j)"
    using set_bit_in [of "pfn - BASE_FRAME hw" "ff_bits ff" 0] by auto
  define f1 where "f1 = ff\<lparr>ff_bits := bits, ff_filled := ff_filled ff - 1\<rparr>"
  define f2 where "f2 = (if pfn < ff_avail f1 then f1\<lparr>ff_avail := pfn\<rparr> else f1)"
  have u1: "used hw f1 = used hw ff - {pfn}"
    using used_bits [OF p bits(3), of f1] by (simp add: f1_def)
  have u2: "used hw f2 = used hw f1" by (simp add: f2_def used_def)
  have "0 < card (used hw ff)" using pfn by (auto simp: card_gt_0_iff)
  then have "frames_ok hw f2"
    unfolding frames_ok_def u2 u1 using ok p pfn bits(2)
    by (auto simp: f1_def f2_def frames_ok_def card_Diff_singleton)
  moreover have "vacate_frame hw pfn ff = Some (0, f2)"
    using bits(1) by (simp add: vacate_frame_def Let_def f1_def f2_def)
  ultimately show ?thesis using u1 u2 by (auto simp: f1_def f2_def)
qed

section \<open>Properties\<close>

text \<open>Four frames, of which frame 2 is free.\<close>

definition demo_frames :: free_frame where
  "demo_frames = \<lparr>ff_size = 4, ff_bits = [11], ff_avail = 2, ff_filled = 3\<rparr>"

lemma demo_frames_used: "used demo demo_frames = {0, 1, 3}"
proof (rule set_eqI)
  fix p :: int
  show "p \<in> used demo demo_frames \<longleftrightarrow> p \<in> {0, 1, 3}"
  proof (cases "p \<in> {0, 1, 2, 3}")
    case True
    then show ?thesis by (elim insertE) (simp_all add: used_def demo_frames_def bit_at_def bit_numeral_rec)
  next
    case False
    then have "\<not> (0 \<le> p \<and> p < 4)" by auto
    with False show ?thesis by (simp add: used_def demo_frames_def)
  qed
qed

lemma demo_frames_ok: "frames_ok demo demo_frames"
proof -
  have "{0..<2} \<subseteq> {0, 1, 3 :: int}" by auto
  then show ?thesis
    using demo_frames_used by (simp add: frames_ok_def) (simp add: demo_frames_def)
qed

text \<open>
  \<open>get_frame(NONE, AUTO)\<close> gives a frame of the machine that was not in use and marks
  exactly that one; it gives \<open>ERROR\<close>, and changes nothing, when and only when no frame is left.
\<close>

lemma get_frame_fresh:
  assumes "frames_ok hw ff"
  shows "if frames_left ff \<le> 0 then get_frame hw NONE AUTO ff = Some (ERROR hw, ff)
    else \<exists>f ff'. get_frame hw NONE AUTO ff = Some (f, ff') \<and> f \<notin> used hw ff \<and>
      BASE_FRAME hw \<le> f \<and> f < BASE_FRAME hw + ff_size ff \<and> used hw ff' = insert f (used hw ff) \<and>
      frames_ok hw ff' \<and> frames_left ff' = frames_left ff - 1"
proof (cases "frames_left ff \<le> 0")
  case True
  then show ?thesis using get_frame_full [of ff] by (simp add: frames_left_def)
next
  case False
  then show ?thesis using get_frame_auto [OF assms, of NONE] by (auto simp: frames_left_def)
qed

end
