(* ===== verification/Linked_List.thy ===== *)
theory Linked_List
  imports Prelude
begin

text \<open>
  \<open>linked_list.c\<close> and \<open>linked_list.h\<close>: the doubly linked lists of nodes that hold the
  kernel's queues.  The heap is explicit, so that what a loop sees of a node it has just
  moved to another list is what the C code sees.  The second half relates a list header to
  the list of its nodes and proves that each operation is the list operation it is named
  after.
\<close>

section \<open>The kernel heap\<close>

text \<open>
  \<open>struct node\<close> and \<open>struct ll\<close>.  The payload of a node is a \<open>void*\<close>, an address.
\<close>

record node =
  nd_data :: addr
  nd_code :: int
  nd_next :: addr
  nd_prev :: addr

record ll =
  ll_size :: int
  ll_head :: addr
  ll_tail :: addr

text \<open>
  The heap: which addresses hold an allocated block, the next address \<open>malloc\<close> hands out,
  and the contents of blocks by type.  A block's contents are arbitrary until it is written.
  An address is never handed out again, so that every use of a freed block has no result.
\<close>

record heap =
  brk_next :: addr
  alive :: "addr \<Rightarrow> bool"
  nodes :: "addr \<Rightarrow> node"
  lls :: "addr \<Rightarrow> ll"

definition live :: "'z heap_scheme \<Rightarrow> addr \<Rightarrow> bool" where
  "live s a \<longleftrightarrow> a \<noteq> NULL \<and> alive s a"

definition malloc :: "'z heap_scheme \<Rightarrow> addr \<times> 'z heap_scheme" where
  "malloc s = (brk_next s, s\<lparr>brk_next := Suc (brk_next s), alive := (alive s)(brk_next s := True)\<rparr>)"

definition free :: "addr \<Rightarrow> 'z heap_scheme \<Rightarrow> 'z heap_scheme option" where
  "free a s =
     (if a = NULL then Some s
      else if alive s a then Some (s\<lparr>alive := (alive s)(a := False)\<rparr>) else None)"

definition rd_node :: "'z heap_scheme \<Rightarrow> addr \<Rightarrow> node option" where
  "rd_node s a = (if live s a then Some (nodes s a) else None)"

definition upd_node :: "addr \<Rightarrow> (node \<Rightarrow> node) \<Rightarrow> 'z heap_scheme \<Rightarrow> 'z heap_scheme option" where
  "upd_node a f s = (if live s a then Some (s\<lparr>nodes := (nodes s)(a := f (nodes s a))\<rparr>) else None)"

definition rd_ll :: "'z heap_scheme \<Rightarrow> addr \<Rightarrow> ll option" where
  "rd_ll s a = (if live s a then Some (lls s a) else None)"

definition upd_ll :: "addr \<Rightarrow> (ll \<Rightarrow> ll) \<Rightarrow> 'z heap_scheme \<Rightarrow> 'z heap_scheme option" where
  "upd_ll a f s = (if live s a then Some (s\<lparr>lls := (lls s)(a := f (lls s a))\<rparr>) else None)"

section \<open>The operations\<close>

definition new_ll :: "'z heap_scheme \<Rightarrow> (addr \<times> 'z heap_scheme) option" where
  "new_ll s = do {
     let (new, s) = malloc s;
     s \<leftarrow> upd_ll new (\<lambda>L. L\<lparr>ll_head := NULL, ll_tail := NULL\<rparr>) s;
     s \<leftarrow> upd_ll new (\<lambda>L. L\<lparr>ll_size := 0\<rparr>) s;
     Some (new, s)
   }"

text \<open>\<open>new_node\<close> leaves the field \<open>code\<close> as \<open>malloc\<close> returned it.\<close>

definition new_node :: "addr \<Rightarrow> 'z heap_scheme \<Rightarrow> (addr \<times> 'z heap_scheme) option" where
  "new_node data s = do {
     let (new, s) = malloc s;
     s \<leftarrow> upd_node new (\<lambda>n. n\<lparr>nd_data := data\<rparr>) s;
     s \<leftarrow> upd_node new (\<lambda>n. n\<lparr>nd_next := NULL, nd_prev := NULL\<rparr>) s;
     Some (new, s)
   }"

definition destroy_node :: "addr \<Rightarrow> 'z heap_scheme \<Rightarrow> 'z heap_scheme option" where
  "destroy_node node s =
     (if node \<noteq> NULL then do {
        n \<leftarrow> rd_node s node;
        s \<leftarrow> free (nd_data n) s;
        s \<leftarrow> upd_node node (\<lambda>n. n\<lparr>nd_data := NULL, nd_next := NULL, nd_prev := NULL\<rparr>) s;
        s \<leftarrow> upd_node node (\<lambda>n. n\<lparr>nd_code := - 1\<rparr>) s;
        free node s
      } else Some s)"

definition is_empty :: "addr \<Rightarrow> 'z heap_scheme \<Rightarrow> int option" where
  "is_empty list s =
     (if list = NULL then Some (- 1)
      else do { L \<leftarrow> rd_ll s list; Some (if ll_size L = 0 then 1 else 0) })"

definition get_size :: "addr \<Rightarrow> 'z heap_scheme \<Rightarrow> int option" where
  "get_size list s =
     (if list = NULL then Some (- 1) else do { L \<leftarrow> rd_ll s list; Some (ll_size L) })"

definition enqueue :: "addr \<Rightarrow> addr \<Rightarrow> 'z heap_scheme \<Rightarrow> 'z heap_scheme option" where
  "enqueue list n s =
     (if list \<noteq> NULL \<and> n \<noteq> NULL then do {
        L \<leftarrow> rd_ll s list;
        s \<leftarrow> (if ll_head L = NULL then do {
               s \<leftarrow> upd_ll list (\<lambda>L. L\<lparr>ll_head := n, ll_tail := n\<rparr>) s;
               upd_node n (\<lambda>x. x\<lparr>nd_next := NULL, nd_prev := NULL\<rparr>) s
             } else do {
               s \<leftarrow> upd_node n (\<lambda>x. x\<lparr>nd_next := NULL\<rparr>) s;
               s \<leftarrow> upd_node n (\<lambda>x. x\<lparr>nd_prev := ll_tail L\<rparr>) s;
               s \<leftarrow> upd_node (ll_tail L) (\<lambda>x. x\<lparr>nd_next := n\<rparr>) s;
               upd_ll list (\<lambda>L. L\<lparr>ll_tail := n\<rparr>) s
             });
        upd_ll list (\<lambda>L. L\<lparr>ll_size := ll_size L + 1\<rparr>) s
      } else Some s)"

definition push :: "addr \<Rightarrow> addr \<Rightarrow> 'z heap_scheme \<Rightarrow> 'z heap_scheme option" where
  "push list n s =
     (if list \<noteq> NULL \<and> n \<noteq> NULL then do {
        L \<leftarrow> rd_ll s list;
        s \<leftarrow> (if ll_head L = NULL then do {
               s \<leftarrow> upd_ll list (\<lambda>L. L\<lparr>ll_head := n, ll_tail := n\<rparr>) s;
               upd_node n (\<lambda>x. x\<lparr>nd_next := NULL, nd_prev := NULL\<rparr>) s
             } else do {
               s \<leftarrow> upd_node n (\<lambda>x. x\<lparr>nd_next := ll_head L\<rparr>) s;
               s \<leftarrow> upd_node n (\<lambda>x. x\<lparr>nd_prev := NULL\<rparr>) s;
               s \<leftarrow> upd_node (ll_head L) (\<lambda>x. x\<lparr>nd_prev := n\<rparr>) s;
               upd_ll list (\<lambda>L. L\<lparr>ll_head := n\<rparr>) s
             });
        upd_ll list (\<lambda>L. L\<lparr>ll_size := ll_size L + 1\<rparr>) s
      } else Some s)"

definition pop :: "addr \<Rightarrow> 'z heap_scheme \<Rightarrow> (addr \<times> 'z heap_scheme) option" where
  "pop list s =
     (if list = NULL then Some (NULL, s) else do {
        L \<leftarrow> rd_ll s list;
        if ll_size L = 0 then Some (NULL, s) else do {
          let t = ll_tail L;
          s \<leftarrow> (if ll_head L = ll_tail L
                then upd_ll list (\<lambda>L. L\<lparr>ll_head := NULL, ll_tail := NULL\<rparr>) s
                else do {
                  T \<leftarrow> rd_node s (ll_tail L);
                  s \<leftarrow> upd_ll list (\<lambda>L. L\<lparr>ll_tail := nd_prev T\<rparr>) s;
                  upd_node (nd_prev T) (\<lambda>x. x\<lparr>nd_next := NULL\<rparr>) s
                });
          s \<leftarrow> upd_ll list (\<lambda>L. L\<lparr>ll_size := ll_size L - 1\<rparr>) s;
          s \<leftarrow> upd_node t (\<lambda>x. x\<lparr>nd_next := NULL, nd_prev := NULL\<rparr>) s;
          Some (t, s)
        }
      })"

definition dequeue :: "addr \<Rightarrow> 'z heap_scheme \<Rightarrow> (addr \<times> 'z heap_scheme) option" where
  "dequeue list s =
     (if list = NULL then Some (NULL, s) else do {
        L \<leftarrow> rd_ll s list;
        if ll_size L = 0 then Some (NULL, s) else do {
          let h = ll_head L;
          s \<leftarrow> (if ll_head L = ll_tail L
                then upd_ll list (\<lambda>L. L\<lparr>ll_head := NULL, ll_tail := NULL\<rparr>) s
                else do {
                  H \<leftarrow> rd_node s (ll_head L);
                  s \<leftarrow> upd_ll list (\<lambda>L. L\<lparr>ll_head := nd_next H\<rparr>) s;
                  upd_node (nd_next H) (\<lambda>x. x\<lparr>nd_prev := NULL\<rparr>) s
                });
          s \<leftarrow> upd_ll list (\<lambda>L. L\<lparr>ll_size := ll_size L - 1\<rparr>) s;
          s \<leftarrow> upd_node h (\<lambda>x. x\<lparr>nd_next := NULL, nd_prev := NULL\<rparr>) s;
          Some (h, s)
        }
      })"

text \<open>\<open>remove\<close> of the source; it trusts its caller that \<open>n\<close> is in the list.\<close>

definition remove_ll :: "addr \<Rightarrow> addr \<Rightarrow> 'z heap_scheme \<Rightarrow> (addr \<times> 'z heap_scheme) option" where
  "remove_ll list n s =
     (if list = NULL then Some (NULL, s) else do {
        L \<leftarrow> rd_ll s list;
        if ll_size L = 0 then Some (NULL, s)
        else if ll_head L = n then do { (_, s) \<leftarrow> dequeue list s; Some (n, s) }
        else if ll_tail L = n then do { (_, s) \<leftarrow> pop list s; Some (n, s) }
        else if n \<noteq> NULL then do {
          x \<leftarrow> rd_node s n;
          s \<leftarrow> upd_node (nd_next x) (\<lambda>y. y\<lparr>nd_prev := nd_prev x\<rparr>) s;
          x \<leftarrow> rd_node s n;
          s \<leftarrow> upd_node (nd_prev x) (\<lambda>y. y\<lparr>nd_next := nd_next x\<rparr>) s;
          s \<leftarrow> upd_node n (\<lambda>x. x\<lparr>nd_next := NULL, nd_prev := NULL\<rparr>) s;
          s \<leftarrow> upd_ll list (\<lambda>L. L\<lparr>ll_size := ll_size L - 1\<rparr>) s;
          Some (n, s)
        } else Some (n, s)
      })"

partial_function (option) member_from :: "'z heap_scheme \<Rightarrow> addr \<Rightarrow> addr \<Rightarrow> int option" where
  "member_from s cur n =
     (if cur = NULL then Some 0
      else if cur = n then Some 1
      else do { c \<leftarrow> rd_node s cur; member_from s (nd_next c) n })"

definition has_member :: "addr \<Rightarrow> addr \<Rightarrow> 'z heap_scheme \<Rightarrow> int option" where
  "has_member list n s =
     (if list = NULL \<or> n = NULL then Some 0
      else do { L \<leftarrow> rd_ll s list; member_from s (ll_head L) n })"

partial_function (option) find_from :: "'z heap_scheme \<Rightarrow> addr \<Rightarrow> int \<Rightarrow> addr option" where
  "find_from s cur code =
     (if cur = NULL then Some NULL
      else do {
        c \<leftarrow> rd_node s cur;
        if nd_code c \<noteq> code then find_from s (nd_next c) code else Some cur
      })"

definition find_ll :: "addr \<Rightarrow> int \<Rightarrow> 'z heap_scheme \<Rightarrow> addr option" where
  "find_ll list code s =
     (if list = NULL then Some NULL else do { L \<leftarrow> rd_ll s list; find_from s (ll_head L) code })"

section \<open>Rewriting heap accesses\<close>

lemma live_simps [simp]:
  "live (s\<lparr>nodes := N\<rparr>) a = live s a"
  "live (s\<lparr>lls := L\<rparr>) a = live s a"
  "live s NULL = False"
  by (simp_all add: live_def)

lemma live_pos: "live s a \<Longrightarrow> 0 < a"
  by (simp add: live_def)

lemma rd_node_live [simp]: "live s a \<Longrightarrow> rd_node s a = Some (nodes s a)"
  by (simp add: rd_node_def)

lemma upd_node_live [simp]: "live s a \<Longrightarrow> upd_node a f s = Some (s\<lparr>nodes := (nodes s)(a := f (nodes s a))\<rparr>)"
  by (simp add: upd_node_def)

lemma rd_ll_live [simp]: "live s a \<Longrightarrow> rd_ll s a = Some (lls s a)"
  by (simp add: rd_ll_def)

lemma upd_ll_live [simp]: "live s a \<Longrightarrow> upd_ll a f s = Some (s\<lparr>lls := (lls s)(a := f (lls s a))\<rparr>)"
  by (simp add: upd_ll_def)

section \<open>The list a header stands for\<close>

text \<open>
  \<open>dseg s p xs q\<close>: the nodes \<open>xs\<close> are linked in this order in both directions, \<open>p\<close> is the
  backward link of the first and \<open>q\<close> the forward link of the last.
\<close>

fun dseg :: "'z heap_scheme \<Rightarrow> addr \<Rightarrow> addr list \<Rightarrow> addr \<Rightarrow> bool" where
  "dseg s p [] q = True"
| "dseg s p (x # xs) q =
     (live s x \<and> nd_prev (nodes s x) = p \<and> nd_next (nodes s x) = first xs q \<and> dseg s x xs q)"

definition ll_at :: "'z heap_scheme \<Rightarrow> addr \<Rightarrow> addr list \<Rightarrow> bool" where
  "ll_at s l xs \<longleftrightarrow>
     live s l \<and> ll_size (lls s l) = int (length xs) \<and> distinct xs \<and>
     ll_head (lls s l) = first xs NULL \<and> ll_tail (lls s l) = final NULL xs \<and>
     dseg s NULL xs NULL"

lemma dseg_append [simp]:
  "dseg s p (xs @ ys) q \<longleftrightarrow> dseg s p xs (first ys q) \<and> dseg s (final p xs) ys q"
  by (induction xs arbitrary: p) auto

lemma dseg_live: "dseg s p xs q \<Longrightarrow> x \<in> set xs \<Longrightarrow> live s x"
  by (induction xs arbitrary: p) auto

lemma dseg_cong:
  "\<lbrakk>dseg s p xs q; \<And>x. x \<in> set xs \<Longrightarrow> nodes s' x = nodes s x; \<And>x. x \<in> set xs \<Longrightarrow> live s' x\<rbrakk>
   \<Longrightarrow> dseg s' p xs q"
  by (induction xs arbitrary: p) auto

lemma dseg_upd_other [simp]:
  "a \<notin> set xs \<Longrightarrow> dseg (s\<lparr>nodes := N(a := v)\<rparr>) p xs q = dseg (s\<lparr>nodes := N\<rparr>) p xs q"
  by (induction xs arbitrary: p) auto

lemma dseg_upd_ll [simp]: "dseg (s\<lparr>lls := L\<rparr>) p xs q = dseg s p xs q"
  by (induction xs arbitrary: p) auto

lemma dseg_NULL: "dseg s p xs q \<Longrightarrow> NULL \<notin> set xs"
  by (auto dest: dseg_live)

lemma ll_atD:
  assumes "ll_at s l xs"
  shows "live s l" "ll_size (lls s l) = int (length xs)" "distinct xs"
    "ll_head (lls s l) = first xs NULL" "ll_tail (lls s l) = final NULL xs"
    "dseg s NULL xs NULL" "NULL \<notin> set xs" "l \<noteq> NULL"
  using assms by (auto simp: ll_at_def dest: dseg_NULL live_pos)

lemma ll_at_live: "ll_at s l xs \<Longrightarrow> x \<in> set xs \<Longrightarrow> live s x"
  by (auto dest: ll_atD dseg_live)

lemma ll_at_unique: "ll_at s l xs \<Longrightarrow> ll_at s l ys \<Longrightarrow> xs = ys"
proof -
  have seg: "length xs = length ys \<Longrightarrow> dseg s p xs q \<Longrightarrow> dseg s p ys q \<Longrightarrow> first xs q = first ys q \<Longrightarrow> xs = ys"
    for p q
    by (induction xs ys arbitrary: p rule: list_induct2) auto
  show "ll_at s l xs \<Longrightarrow> ll_at s l ys \<Longrightarrow> xs = ys"
    by (rule seg [of NULL NULL]) (auto simp: ll_at_def)
qed

text \<open>
  What the list operations may change: the links of nodes and the headers.  The payload and
  the code of every node, the set of live blocks and every other field of the state stay.
\<close>

definition links_only :: "'z heap_scheme \<Rightarrow> 'z heap_scheme \<Rightarrow> bool" where
  "links_only s s' \<longleftrightarrow>
     s' = s\<lparr>nodes := nodes s', lls := lls s'\<rparr> \<and>
     (\<forall>m. nd_data (nodes s' m) = nd_data (nodes s m) \<and> nd_code (nodes s' m) = nd_code (nodes s m))"

lemma links_only_refl [simp]: "links_only s s"
  by (simp add: links_only_def)

lemma links_only_trans:
  fixes s s' s'' :: "'z heap_scheme"
  assumes "links_only s s'" and "links_only s' s''"
  shows "links_only s s''"
proof -
  have s': "s' = s\<lparr>nodes := nodes s', lls := lls s'\<rparr>" and s'': "s'' = s'\<lparr>nodes := nodes s'', lls := lls s''\<rparr>"
    using assms by (simp_all add: links_only_def)
  have "s'' = (s\<lparr>nodes := nodes s', lls := lls s'\<rparr>)\<lparr>nodes := nodes s'', lls := lls s''\<rparr>"
    using s' s'' by metis
  then have "s'' = s\<lparr>nodes := nodes s'', lls := lls s''\<rparr>"
    by simp
  with assms show ?thesis by (simp add: links_only_def)
qed

lemma links_only_upd [simp]:
  "links_only s (s\<lparr>lls := L\<rparr>)"
  "(\<And>x. nd_data (f x) = nd_data x) \<Longrightarrow> (\<And>x. nd_code (f x) = nd_code x) \<Longrightarrow>
   links_only s (s\<lparr>nodes := (nodes s)(a := f (nodes s a))\<rparr>)"
  by (simp_all add: links_only_def)

lemma links_onlyD:
  assumes "links_only s s'"
  shows "live s' a = live s a" "alive s' = alive s" "brk_next s' = brk_next s"
    "nd_data (nodes s' m) = nd_data (nodes s m)" "nd_code (nodes s' m) = nd_code (nodes s m)"
    "heap.more s' = heap.more s"
proof -
  from assms have eq: "s' = s\<lparr>nodes := nodes s', lls := lls s'\<rparr>" by (simp add: links_only_def)
  show "alive s' = alive s" by (subst eq) simp
  then show "live s' a = live s a" by (simp add: live_def)
  show "brk_next s' = brk_next s" by (subst eq) simp
  show "heap.more s' = heap.more s" by (subst eq) simp
  show "nd_data (nodes s' m) = nd_data (nodes s m)" "nd_code (nodes s' m) = nd_code (nodes s m)"
    using assms by (simp_all add: links_only_def)
qed

text \<open>An operation on list \<open>l\<close> rewrites its header and links of the nodes \<open>N\<close>, nothing else.\<close>

definition ll_frame :: "addr \<Rightarrow> addr set \<Rightarrow> 'z heap_scheme \<Rightarrow> 'z heap_scheme \<Rightarrow> bool" where
  "ll_frame l N s s' \<longleftrightarrow>
     links_only s s' \<and> (\<forall>l'. l' \<noteq> l \<longrightarrow> lls s' l' = lls s l') \<and>
     (\<forall>m. m \<notin> N \<longrightarrow> nodes s' m = nodes s m)"

lemma ll_frame_links: "ll_frame l N s s' \<Longrightarrow> links_only s s'"
  by (simp add: ll_frame_def)

lemma ll_frame_refl [simp]: "ll_frame l N s s"
  by (simp add: ll_frame_def)

lemma ll_frame_mono: "ll_frame l N s s' \<Longrightarrow> N \<subseteq> M \<Longrightarrow> ll_frame l M s s'"
  by (auto simp: ll_frame_def)

lemma ll_frame_trans: "ll_frame l N s s' \<Longrightarrow> ll_frame l N s' s'' \<Longrightarrow> ll_frame l N s s''"
  by (auto simp: ll_frame_def intro: links_only_trans)

lemma ll_frame_hdr: "ll_frame l N s (s\<lparr>lls := (lls s)(l := h)\<rparr>)"
  by (simp add: ll_frame_def)

lemma ll_frame_node:
  assumes "a \<in> N" "\<And>x. nd_data (f x) = nd_data x" "\<And>x. nd_code (f x) = nd_code x"
  shows "ll_frame l N s (s\<lparr>nodes := (nodes s)(a := f (nodes s a))\<rparr>)"
  using assms by (auto simp: ll_frame_def)

lemma ll_frame_other:
  assumes "ll_frame l N s s'" and "ll_at s l' ys" and "l' \<noteq> l" and "set ys \<inter> N = {}"
  shows "ll_at s' l' ys"
proof -
  have "nodes s' y = nodes s y" if "y \<in> set ys" for y
    using assms(1,4) that by (auto simp: ll_frame_def)
  moreover have "live s' y = live s y" for y
    using assms(1) by (simp add: ll_frame_links links_onlyD(1))
  ultimately have "dseg s' NULL ys NULL"
    using dseg_cong [OF ll_atD(6) [OF assms(2)], of s'] ll_at_live [OF assms(2)] by simp
  moreover have "lls s' l' = lls s l'"
    using assms(1,3) by (simp add: ll_frame_def)
  ultimately show ?thesis
    using assms(2) \<open>\<And>y. live s' y = live s y\<close> by (simp add: ll_at_def)
qed

text \<open>Two shapes of step are all the operations make; the frame of each follows the code.\<close>

lemma upd_ll_frame: "upd_ll l f s = Some s' \<Longrightarrow> ll_frame l N s s'"
  by (auto simp: upd_ll_def ll_frame_hdr split: if_splits)

lemma upd_node_frame:
  "upd_node a f s = Some s' \<Longrightarrow> a \<in> N \<Longrightarrow> (\<And>x. nd_data (f x) = nd_data x) \<Longrightarrow>
   (\<And>x. nd_code (f x) = nd_code x) \<Longrightarrow> ll_frame l N s s'"
  by (auto simp: upd_node_def intro: ll_frame_node split: if_splits)

section \<open>Each operation is the list operation it is named after\<close>

lemma final_pos: "xs \<noteq> [] \<Longrightarrow> NULL \<notin> set xs \<Longrightarrow> 0 < final p xs"
  using final_in [of xs p] by (metis gr0I)

lemma first_pos: "xs \<noteq> [] \<Longrightarrow> NULL \<notin> set xs \<Longrightarrow> 0 < first xs q"
  using first_in [of xs q] by (metis gr0I)

lemma enqueue_spec:
  assumes "ll_at s l xs" and "live s n" and "n \<notin> set xs"
  shows "\<exists>s'. enqueue l n s = Some s' \<and> ll_at s' l (xs @ [n]) \<and> ll_frame l (insert n (set xs)) s s'"
proof (cases xs rule: rev_cases)
  case Nil
  with assms show ?thesis
    by (auto simp: enqueue_def ll_at_def links_only_def ll_frame_def live_pos)
next
  case (snoc ys t)
  note L = ll_atD [OF assms(1)]
  have "0 < ll_head (lls s l)" using L(4,7) snoc by (metis Nil_is_append_conv list.discI first_pos)
  with L snoc assms(2,3) show ?thesis
    by (auto simp: enqueue_def ll_at_def links_only_def ll_frame_def live_pos)
qed

lemma push_spec:
  assumes "ll_at s l xs" and "live s n" and "n \<notin> set xs"
  shows "\<exists>s'. push l n s = Some s' \<and> ll_at s' l (n # xs) \<and> ll_frame l (insert n (set xs)) s s'"
proof (cases xs)
  case Nil
  with assms show ?thesis
    by (auto simp: push_def ll_at_def links_only_def ll_frame_def live_pos)
next
  case (Cons h ys)
  with ll_atD [OF assms(1)] assms(2,3) show ?thesis
    by (auto simp: push_def ll_at_def links_only_def ll_frame_def live_pos)
qed

lemma dequeue_spec:
  assumes "ll_at s l (n # xs)"
  shows "\<exists>s'. dequeue l s = Some (n, s') \<and> ll_at s' l xs \<and> ll_frame l (insert n (set xs)) s s'"
proof (cases xs)
  case Nil
  with ll_atD [OF assms] show ?thesis
    by (auto simp: dequeue_def ll_at_def links_only_def ll_frame_def live_pos)
next
  case (Cons h ys)
  note L = ll_atD [OF assms]
  have "n \<noteq> final n xs" using L(3) Cons final_in [of xs n] by auto
  with L Cons show ?thesis
    by (auto simp: dequeue_def ll_at_def links_only_def ll_frame_def live_pos)
qed

lemma pop_spec:
  assumes "ll_at s l (xs @ [n])"
  shows "\<exists>s'. pop l s = Some (n, s') \<and> ll_at s' l xs \<and> ll_frame l (insert n (set xs)) s s'"
proof (cases xs rule: rev_cases)
  case Nil
  with ll_atD [OF assms] show ?thesis
    by (auto simp: pop_def ll_at_def links_only_def ll_frame_def live_pos)
next
  case (snoc ys t)
  note L = ll_atD [OF assms]
  have "first xs n \<noteq> n" using L(3) snoc first_in [of xs n] by auto
  with L snoc show ?thesis
    by (auto simp: pop_def ll_at_def links_only_def ll_frame_def live_pos)
qed

lemma dequeue_empty: "ll_at s l [] \<Longrightarrow> dequeue l s = Some (NULL, s)"
  by (auto simp: dequeue_def ll_at_def)

lemma pop_empty: "ll_at s l [] \<Longrightarrow> pop l s = Some (NULL, s)"
  by (auto simp: pop_def ll_at_def)

lemma remove_empty: "ll_at s l [] \<Longrightarrow> remove_ll l n s = Some (NULL, s)"
  by (auto simp: remove_ll_def ll_at_def)

lemma is_empty_spec: "ll_at s l xs \<Longrightarrow> is_empty l s = Some (if xs = [] then 1 else 0)"
  by (auto simp: is_empty_def ll_at_def live_pos)

lemma get_size_spec: "ll_at s l xs \<Longrightarrow> get_size l s = Some (int (length xs))"
  by (auto simp: get_size_def ll_at_def live_pos)

lemma remove_head: "ll_at s l (n # xs) \<Longrightarrow>
  \<exists>s'. remove_ll l n s = Some (n, s') \<and> ll_at s' l xs \<and> ll_frame l (insert n (set xs)) s s'"
  using dequeue_spec [of s l n xs] by (auto simp: remove_ll_def ll_at_def live_pos)

lemma remove_last:
  assumes "ll_at s l (xs @ [n])" and "xs \<noteq> []"
  shows "\<exists>s'. remove_ll l n s = Some (n, s') \<and> ll_at s' l xs \<and> ll_frame l (insert n (set xs)) s s'"
proof -
  note L = ll_atD [OF assms(1)]
  have "first xs n \<noteq> n" using L(3) first_in [OF assms(2), of n] by auto
  then show ?thesis using pop_spec [OF assms(1)] L by (auto simp: remove_ll_def)
qed

lemma remove_middle:
  assumes "ll_at s l (ys @ a # n # b # zs)"
  shows "\<exists>s'. remove_ll l n s = Some (n, s') \<and> ll_at s' l (ys @ a # b # zs) \<and>
    ll_frame l (set (ys @ a # n # b # zs)) s s'"
proof -
  note L = ll_atD [OF assms]
  have "first ys a \<noteq> n" using L(3) first_or [of ys a] by auto
  moreover have "final b zs \<noteq> n" using L(3) final_or [of b zs] by auto
  ultimately show ?thesis
    using L by (auto simp: remove_ll_def ll_at_def links_only_def ll_frame_def live_pos)
qed

text \<open>\<open>remove\<close> takes its node out wherever in the list it stands, and keeps the order of the rest.\<close>

lemma remove_spec:
  assumes "ll_at s l (xs @ n # ys)"
  shows "\<exists>s'. remove_ll l n s = Some (n, s') \<and> ll_at s' l (xs @ ys) \<and>
    ll_frame l (set (xs @ n # ys)) s s'"
proof (cases xs rule: rev_cases)
  case Nil
  with remove_head [of s l n ys] assms show ?thesis by simp
next
  case xs: (snoc zs a)
  show ?thesis
  proof (cases ys)
    case Nil
    with remove_last [of s l xs n] assms xs show ?thesis by (simp add: insert_commute)
  next
    case (Cons b ws)
    with remove_middle [of s l zs a n b ws] assms xs show ?thesis by simp
  qed
qed

lemma member_from_dseg:
  "dseg s p xs NULL \<Longrightarrow> 0 < n \<Longrightarrow> member_from s (first xs NULL) n = Some (if n \<in> set xs then 1 else 0)"
proof (induction xs arbitrary: p)
  case Nil
  then show ?case by (simp add: member_from.simps)
next
  case (Cons x xs)
  then show ?case by (auto simp: member_from.simps [of s x] live_pos)
qed

lemma has_member_spec:
  "ll_at s l xs \<Longrightarrow> 0 < n \<Longrightarrow> has_member l n s = Some (if n \<in> set xs then 1 else 0)"
  by (frule ll_atD(6), drule member_from_dseg) (auto simp: has_member_def ll_atD dest: ll_atD(8))

lemma find_from_dseg:
  "dseg s p xs NULL \<Longrightarrow> find_from s (first xs NULL) code =
     Some (case List.find (\<lambda>n. nd_code (nodes s n) = code) xs of None \<Rightarrow> NULL | Some n \<Rightarrow> n)"
proof (induction xs arbitrary: p)
  case Nil
  then show ?case by (simp add: find_from.simps)
next
  case (Cons x xs)
  then show ?case by (auto simp: find_from.simps [of s x] live_pos)
qed

lemma find_spec:
  "ll_at s l xs \<Longrightarrow> find_ll l code s =
     Some (case List.find (\<lambda>n. nd_code (nodes s n) = code) xs of None \<Rightarrow> NULL | Some n \<Rightarrow> n)"
  by (frule ll_atD(6), drule find_from_dseg) (auto simp: find_ll_def ll_atD dest: ll_atD(8))

lemma find_Some_split:
  "List.find P xs = Some x \<Longrightarrow> \<exists>ys zs. xs = ys @ x # zs \<and> P x \<and> (\<forall>y\<in>set ys. \<not> P y)"
proof (induction xs)
  case Nil
  then show ?case by simp
next
  case (Cons a xs)
  show ?case
  proof (cases "P a")
    case True
    with Cons.prems show ?thesis by (intro exI [of _ "[]"] exI [of _ xs]) simp
  next
    case False
    with Cons obtain ys zs where "xs = ys @ x # zs" "P x" "\<forall>y\<in>set ys. \<not> P y" by auto
    with False show ?thesis by (intro exI [of _ "a # ys"] exI [of _ zs]) simp
  qed
qed

lemma dequeue_cleared:
  "ll_at s l (n # xs) \<Longrightarrow> dequeue l s = Some (n, s') \<Longrightarrow> nd_next (nodes s' n) = NULL \<and> nd_prev (nodes s' n) = NULL"
  by (auto simp: dequeue_def ll_at_def Let_def bind_Some_iff upd_node_def split: if_splits)

section \<open>All the lists of the kernel at once\<close>

text \<open>
  \<open>lists_ok s Q\<close>: the map \<open>Q\<close> gives, for each list header the kernel holds, the nodes of
  that list, and no node is on two lists.  It is the abstract state that the components
  above this one work with: a move of a node between queues is an update of \<open>Q\<close>.
\<close>

definition lists_ok :: "'z heap_scheme \<Rightarrow> (addr \<rightharpoonup> addr list) \<Rightarrow> bool" where
  "lists_ok s Q \<longleftrightarrow>
     (\<forall>l xs. Q l = Some xs \<longrightarrow> ll_at s l xs) \<and>
     (\<forall>l l' xs ys. Q l = Some xs \<longrightarrow> Q l' = Some ys \<longrightarrow> l \<noteq> l' \<longrightarrow> set xs \<inter> set ys = {})"

definition queued :: "(addr \<rightharpoonup> addr list) \<Rightarrow> addr \<Rightarrow> bool" where
  "queued Q n \<longleftrightarrow> (\<exists>l xs. Q l = Some xs \<and> n \<in> set xs)"

lemma queuedI: "Q l = Some xs \<Longrightarrow> n \<in> set xs \<Longrightarrow> queued Q n"
  by (auto simp: queued_def)

lemma lists_okD: "lists_ok s Q \<Longrightarrow> Q l = Some xs \<Longrightarrow> ll_at s l xs"
  by (simp add: lists_ok_def)

lemma not_queuedD: "\<not> queued Q n \<Longrightarrow> Q l = Some xs \<Longrightarrow> n \<notin> set xs"
  by (auto simp: queued_def)

lemma lists_ok_live: "lists_ok s Q \<Longrightarrow> queued Q n \<Longrightarrow> live s n"
  by (auto simp: queued_def dest: lists_okD ll_at_live)

lemma lists_ok_hdr: "lists_ok s Q \<Longrightarrow> Q l = Some xs \<Longrightarrow> live s l"
  by (auto dest: lists_okD ll_atD(1))

lemma lists_ok_frame:
  assumes "lists_ok s Q" and "Q l = Some xs" and "ll_frame l N s s'" and "ll_at s' l ys"
    and "\<And>n. n \<in> N \<Longrightarrow> n \<in> set xs \<or> \<not> queued Q n" and "set ys \<subseteq> N"
  shows "lists_ok s' (Q(l \<mapsto> ys))"
proof -
  have apart: "set zs \<inter> N = {}" if "Q k = Some zs" "k \<noteq> l" for k zs
    using assms(1,2,5) that by (fastforce simp: lists_ok_def queued_def)
  then have "ll_at s' k zs" if "Q k = Some zs" "k \<noteq> l" for k zs
    using ll_frame_other [OF assms(3)] lists_okD [OF assms(1)] that by blast
  then show ?thesis
    using apart assms(1,4,6) by (fastforce simp: lists_ok_def)
qed

lemma enqueue_ok:
  assumes "lists_ok s Q" and "Q l = Some xs" and "live s n" and "\<not> queued Q n"
  shows "\<exists>s'. enqueue l n s = Some s' \<and> lists_ok s' (Q(l \<mapsto> xs @ [n])) \<and> links_only s s'"
proof -
  obtain s' where s': "enqueue l n s = Some s'" "ll_at s' l (xs @ [n])" "ll_frame l (insert n (set xs)) s s'"
    using enqueue_spec [OF lists_okD [OF assms(1,2)] assms(3) not_queuedD [OF assms(4,2)]] by blast
  with lists_ok_frame [OF assms(1,2) s'(3,2)] assms(4) show ?thesis
    by (auto dest: ll_frame_links)
qed

lemma push_ok:
  assumes "lists_ok s Q" and "Q l = Some xs" and "live s n" and "\<not> queued Q n"
  shows "\<exists>s'. push l n s = Some s' \<and> lists_ok s' (Q(l \<mapsto> n # xs)) \<and> links_only s s'"
proof -
  obtain s' where s': "push l n s = Some s'" "ll_at s' l (n # xs)" "ll_frame l (insert n (set xs)) s s'"
    using push_spec [OF lists_okD [OF assms(1,2)] assms(3) not_queuedD [OF assms(4,2)]] by blast
  with lists_ok_frame [OF assms(1,2) s'(3,2)] assms(4) show ?thesis
    by (auto dest: ll_frame_links)
qed

lemma dequeue_ok:
  assumes "lists_ok s Q" and "Q l = Some (n # xs)"
  shows "\<exists>s'. dequeue l s = Some (n, s') \<and> lists_ok s' (Q(l \<mapsto> xs)) \<and> links_only s s'"
proof -
  obtain s' where s': "dequeue l s = Some (n, s')" "ll_at s' l xs" "ll_frame l (insert n (set xs)) s s'"
    using dequeue_spec [OF lists_okD [OF assms]] by blast
  with lists_ok_frame [OF assms s'(3,2)] show ?thesis
    by (auto dest: ll_frame_links)
qed

lemma pop_ok:
  assumes "lists_ok s Q" and "Q l = Some (xs @ [n])"
  shows "\<exists>s'. pop l s = Some (n, s') \<and> lists_ok s' (Q(l \<mapsto> xs)) \<and> links_only s s'"
proof -
  obtain s' where s': "pop l s = Some (n, s')" "ll_at s' l xs" "ll_frame l (insert n (set xs)) s s'"
    using pop_spec [OF lists_okD [OF assms]] by blast
  with lists_ok_frame [OF assms s'(3,2)] show ?thesis
    by (auto dest: ll_frame_links)
qed

lemma remove_ok:
  assumes "lists_ok s Q" and "Q l = Some (xs @ n # ys)"
  shows "\<exists>s'. remove_ll l n s = Some (n, s') \<and> lists_ok s' (Q(l \<mapsto> xs @ ys)) \<and> links_only s s'"
proof -
  obtain s' where s': "remove_ll l n s = Some (n, s')" "ll_at s' l (xs @ ys)" "ll_frame l (set (xs @ n # ys)) s s'"
    using remove_spec [OF lists_okD [OF assms]] by blast
  with lists_ok_frame [OF assms s'(3,2)] show ?thesis
    by (auto dest: ll_frame_links)
qed

section \<open>Allocation and the lists\<close>

text \<open>The heap hands out addresses in increasing order, so no live block is at or above the next.\<close>

definition heap_ok :: "'z heap_scheme \<Rightarrow> bool" where
  "heap_ok s \<longleftrightarrow> 0 < brk_next s \<and> (\<forall>a. alive s a \<longrightarrow> a < brk_next s)"

lemma heap_ok_links: "links_only s s' \<Longrightarrow> heap_ok s \<Longrightarrow> heap_ok s'"
  by (simp add: heap_ok_def links_onlyD(2,3))

lemma live_below: "heap_ok s \<Longrightarrow> live s a \<Longrightarrow> a < brk_next s"
  by (simp add: heap_ok_def live_def)

lemma lists_ok_cong:
  assumes "lists_ok s Q"
    and "\<And>l. l \<in> dom Q \<Longrightarrow> live s' l \<and> lls s' l = lls s l"
    and "\<And>n. queued Q n \<Longrightarrow> live s' n \<and> nodes s' n = nodes s n"
  shows "lists_ok s' Q"
proof -
  have "ll_at s' l xs" if Q: "Q l = Some xs" for l xs
  proof -
    have at: "ll_at s l xs" using assms(1) Q by (rule lists_okD)
    have "dseg s' NULL xs NULL"
      using dseg_cong [OF ll_atD(6) [OF at], of s'] assms(3) Q by (auto simp: queued_def)
    moreover have "live s' l \<and> lls s' l = lls s l" using assms(2) Q by blast
    ultimately show ?thesis using at by (simp add: ll_at_def)
  qed
  with assms(1) show ?thesis unfolding lists_ok_def by blast
qed

lemma lists_ok_below:
  assumes "heap_ok s" and "lists_ok s Q" and "l \<in> dom Q \<or> queued Q l"
  shows "l < brk_next s"
  using assms by (auto intro: live_below dest: lists_okD ll_atD(1) lists_ok_live)

lemma lists_ok_add:
  assumes "lists_ok s Q" and "ll_at s l []"
  shows "lists_ok s (Q(l \<mapsto> []))"
  using assms unfolding lists_ok_def by (auto split: if_splits)

lemma lists_ok_del: "lists_ok s Q \<Longrightarrow> lists_ok s (Q(l := None))"
  unfolding lists_ok_def by (auto split: if_splits)

lemma new_ll_eq:
  "new_ll s = (let l = brk_next s in if l = NULL then None else
     Some (l, s\<lparr>brk_next := Suc l, alive := (alive s)(l := True),
       lls := (lls s)(l := (lls s l)\<lparr>ll_head := NULL, ll_tail := NULL, ll_size := 0\<rparr>)\<rparr>))"
  by (simp add: new_ll_def malloc_def Let_def upd_ll_def live_def)

lemma new_node_eq:
  "new_node d s = (let n = brk_next s in if n = NULL then None else
     Some (n, s\<lparr>brk_next := Suc n, alive := (alive s)(n := True),
       nodes := (nodes s)(n := (nodes s n)\<lparr>nd_data := d, nd_next := NULL, nd_prev := NULL\<rparr>)\<rparr>))"
  by (simp add: new_node_def malloc_def Let_def upd_node_def live_def)

lemma new_ll_ok:
  assumes "heap_ok s" and "lists_ok s Q"
  shows "\<exists>s'. new_ll s = Some (brk_next s, s') \<and> heap_ok s' \<and> lists_ok s' (Q(brk_next s \<mapsto> [])) \<and>
    live s' (brk_next s) \<and> (\<forall>a. live s a \<longrightarrow> live s' a) \<and> nodes s' = nodes s"
proof -
  let ?l = "brk_next s"
  obtain s' where s': "new_ll s = Some (?l, s')" and eq: "s' = s\<lparr>brk_next := Suc ?l,
      alive := (alive s)(?l := True),
      lls := (lls s)(?l := (lls s ?l)\<lparr>ll_head := NULL, ll_tail := NULL, ll_size := 0\<rparr>)\<rparr>"
    using assms(1) by (simp add: new_ll_eq Let_def heap_ok_def)
  have ok: "heap_ok s'" using assms(1) by (auto simp: heap_ok_def eq)
  have "lists_ok s' Q"
    by (rule lists_ok_cong [OF assms(2)])
      (use lists_ok_below [OF assms] lists_ok_hdr [OF assms(2)] lists_ok_live [OF assms(2)] in
        \<open>fastforce simp: eq live_def\<close>)+
  moreover have "ll_at s' ?l []"
    using assms(1) by (simp add: ll_at_def eq live_def heap_ok_def)
  ultimately have "lists_ok s' (Q(?l \<mapsto> []))" by (rule lists_ok_add)
  with s' ok show ?thesis using assms(1) by (auto simp: eq live_def heap_ok_def)
qed

lemma new_node_ok:
  assumes "heap_ok s" and "lists_ok s Q"
  shows "\<exists>s'. new_node d s = Some (brk_next s, s') \<and> heap_ok s' \<and> lists_ok s' Q \<and>
    live s' (brk_next s) \<and> \<not> queued Q (brk_next s) \<and> nd_data (nodes s' (brk_next s)) = d \<and>
    (\<forall>a. live s a \<longrightarrow> live s' a \<and> nodes s' a = nodes s a) \<and> lls s' = lls s"
proof -
  let ?n = "brk_next s"
  obtain s' where s': "new_node d s = Some (?n, s')" and eq: "s' = s\<lparr>brk_next := Suc ?n,
      alive := (alive s)(?n := True),
      nodes := (nodes s)(?n := (nodes s ?n)\<lparr>nd_data := d, nd_next := NULL, nd_prev := NULL\<rparr>)\<rparr>"
    using assms(1) by (simp add: new_node_eq Let_def heap_ok_def)
  have ok: "heap_ok s'" using assms(1) by (auto simp: heap_ok_def eq)
  have nq: "\<not> queued Q ?n" using lists_ok_below [OF assms] by blast
  have "lists_ok s' Q"
    by (rule lists_ok_cong [OF assms(2)])
      (use nq lists_ok_hdr [OF assms(2)] lists_ok_live [OF assms(2)] in
        \<open>fastforce simp: eq live_def\<close>)+
  with s' ok nq show ?thesis using assms(1) by (auto simp: eq live_def heap_ok_def dest: live_below)
qed

section \<open>The interface the scheduler and the synchronisation objects use\<close>

text \<open>
  What the users of the lists rely on: an enqueue appends, a dequeue takes the first, a
  removal takes a node out from where it stands, and nothing but links changes.  Moving a
  node from one list to another, the step of every block and unblock, is proved from these
  laws alone.
\<close>

locale node_lists =
  fixes ok :: "'s \<Rightarrow> (addr \<rightharpoonup> addr list) \<Rightarrow> bool"
    and holds :: "'s \<Rightarrow> addr \<Rightarrow> bool"
    and same :: "'s \<Rightarrow> 's \<Rightarrow> bool"
    and enq :: "addr \<Rightarrow> addr \<Rightarrow> 's \<Rightarrow> 's option"
    and deq :: "addr \<Rightarrow> 's \<Rightarrow> (addr \<times> 's) option"
    and rem :: "addr \<Rightarrow> addr \<Rightarrow> 's \<Rightarrow> (addr \<times> 's) option"
  assumes enq_law: "\<lbrakk>ok s Q; Q l = Some xs; holds s n; \<not> queued Q n\<rbrakk> \<Longrightarrow>
      \<exists>s'. enq l n s = Some s' \<and> ok s' (Q(l \<mapsto> xs @ [n])) \<and> same s s'"
    and deq_law: "\<lbrakk>ok s Q; Q l = Some (n # xs)\<rbrakk> \<Longrightarrow>
      \<exists>s'. deq l s = Some (n, s') \<and> ok s' (Q(l \<mapsto> xs)) \<and> same s s'"
    and rem_law: "\<lbrakk>ok s Q; Q l = Some (xs @ n # ys)\<rbrakk> \<Longrightarrow>
      \<exists>s'. rem l n s = Some (n, s') \<and> ok s' (Q(l \<mapsto> xs @ ys)) \<and> same s s'"
    and same_trans: "same s s' \<Longrightarrow> same s' s'' \<Longrightarrow> same s s''"
    and same_holds: "same s s' \<Longrightarrow> holds s' n = holds s n"
    and queued_holds: "ok s Q \<Longrightarrow> queued Q n \<Longrightarrow> holds s n"
    and alone: "\<lbrakk>ok s Q; Q l = Some xs; n \<in> set xs\<rbrakk> \<Longrightarrow>
      distinct xs \<and> (\<forall>k ys. Q k = Some ys \<longrightarrow> k \<noteq> l \<longrightarrow> n \<notin> set ys)"
begin

lemma taken_out:
  assumes "ok s Q" and "Q l = Some (xs @ n # ys)"
  shows "\<not> queued (Q(l \<mapsto> xs @ ys)) n"
  using alone [OF assms, of n] by (auto simp: queued_def split: if_splits)

lemma move:
  assumes "ok s Q" and "Q l = Some (xs @ n # ys)" and "Q r = Some zs" and "l \<noteq> r"
  shows "\<exists>s1 s2. rem l n s = Some (n, s1) \<and> enq r n s1 = Some s2 \<and>
    ok s2 (Q(l \<mapsto> xs @ ys, r \<mapsto> zs @ [n])) \<and> same s s2"
proof -
  obtain s1 where s1: "rem l n s = Some (n, s1)" "ok s1 (Q(l \<mapsto> xs @ ys))" "same s s1"
    using rem_law [OF assms(1,2)] by blast
  have "queued Q n" using assms(2) by (rule queuedI) simp
  then have "holds s1 n" using queued_holds [OF assms(1)] same_holds [OF s1(3)] by simp
  moreover have "(Q(l \<mapsto> xs @ ys)) r = Some zs" using assms(3,4) by simp
  ultimately obtain s2 where "enq r n s1 = Some s2" "ok s2 (Q(l \<mapsto> xs @ ys, r \<mapsto> zs @ [n]))" "same s1 s2"
    using enq_law [OF s1(2)] taken_out [OF assms(1,2)] by blast
  with s1 same_trans show ?thesis by blast
qed

lemma move_head:
  assumes "ok s Q" and "Q l = Some (n # ys)" and "Q r = Some zs" and "l \<noteq> r"
  shows "\<exists>s1 s2. deq l s = Some (n, s1) \<and> enq r n s1 = Some s2 \<and>
    ok s2 (Q(l \<mapsto> ys, r \<mapsto> zs @ [n])) \<and> same s s2"
proof -
  have Ql: "Q l = Some ([] @ n # ys)" using assms(2) by simp
  obtain s1 where s1: "deq l s = Some (n, s1)" "ok s1 (Q(l \<mapsto> ys))" "same s s1"
    using deq_law [OF assms(1,2)] by blast
  have "queued Q n" using assms(2) by (rule queuedI) simp
  then have "holds s1 n" using queued_holds [OF assms(1)] same_holds [OF s1(3)] by simp
  moreover have "(Q(l \<mapsto> ys)) r = Some zs" using assms(3,4) by simp
  ultimately obtain s2 where "enq r n s1 = Some s2" "ok s2 (Q(l \<mapsto> ys, r \<mapsto> zs @ [n]))" "same s1 s2"
    using enq_law [OF s1(2)] taken_out [OF assms(1) Ql] by fastforce
  with s1 same_trans show ?thesis by blast
qed

end

lemma lists_ok_alone:
  assumes "lists_ok s Q" and "Q l = Some xs" and "n \<in> set xs"
  shows "distinct xs \<and> (\<forall>k ys. Q k = Some ys \<longrightarrow> k \<noteq> l \<longrightarrow> n \<notin> set ys)"
  using assms ll_atD(3) [OF lists_okD [OF assms(1,2)]] unfolding lists_ok_def
  by (metis disjoint_iff)

interpretation nodeq: node_lists lists_ok live links_only enqueue dequeue remove_ll
  by unfold_locales
    (fact enqueue_ok dequeue_ok remove_ok links_only_trans links_onlyD(1) lists_ok_live lists_ok_alone)+

section \<open>Properties\<close>

text \<open>A list of two nodes, and a node on no list.\<close>

definition demo_heap :: heap where
  "demo_heap =
     \<lparr>brk_next = 5, alive = (\<lambda>a. a < 5),
      nodes = (\<lambda>_. \<lparr>nd_data = 0, nd_code = 7, nd_next = 0, nd_prev = 0\<rparr>)
        (2 := \<lparr>nd_data = 0, nd_code = 8, nd_next = 3, nd_prev = 0\<rparr>,
         3 := \<lparr>nd_data = 0, nd_code = 9, nd_next = 0, nd_prev = 2\<rparr>),
      lls = (\<lambda>_. \<lparr>ll_size = 0, ll_head = 0, ll_tail = 0\<rparr>)(1 := \<lparr>ll_size = 2, ll_head = 2, ll_tail = 3\<rparr>)\<rparr>"

lemma demo_heap_ok: "lists_ok demo_heap [1 \<mapsto> [2, 3]]"
  by (simp add: lists_ok_def ll_at_def demo_heap_def live_def)

lemma demo_heap_free: "live demo_heap 4" "\<not> queued [1 \<mapsto> [2, 3]] 4"
  by (simp_all add: demo_heap_def live_def queued_def)

text \<open>
  \<open>enqueue\<close> appends.  On a list that holds \<open>xs\<close>, with a node that is on no list, it
  succeeds, the list then holds \<open>xs @ [n]\<close>, every other list is as it was and no payload,
  code or allocation changes.
\<close>

lemma enqueue_appends:
  assumes "lists_ok s Q" and "Q l = Some xs" and "live s n" and "\<not> queued Q n"
  shows "\<exists>s'. enqueue l n s = Some s' \<and> lists_ok s' (Q(l \<mapsto> xs @ [n])) \<and> links_only s s'"
  by (rule enqueue_ok [OF assms])

text \<open>
  C36: \<open>remove\<close> takes a node out from wherever it stands on its list, with the nodes before
  and after it in their order, and clears its links.
\<close>

theorem remove_takes_out:
  assumes "lists_ok s Q" and "Q l = Some (xs @ n # ys)"
  shows "\<exists>s'. remove_ll l n s = Some (n, s') \<and> lists_ok s' (Q(l \<mapsto> xs @ ys)) \<and> links_only s s' \<and>
    \<not> queued (Q(l \<mapsto> xs @ ys)) n"
  using remove_ok [OF assms] nodeq.taken_out [OF assms] by blast

theorem remove_takes_out_witness:
  "\<exists>s'. remove_ll 1 3 demo_heap = Some (3, s') \<and> lists_ok s' [1 \<mapsto> [2]] \<and> links_only demo_heap s' \<and>
    \<not> queued [1 \<mapsto> [2]] 3"
  using remove_takes_out [OF demo_heap_ok, of 1 "[2]" 3 "[]"] by simp

end
