(* ===== verification/Memory.thy ===== *)
theory Memory
  imports Frames Linked_List
begin

text \<open>
  Page tables and kernel memory: the rest of \<open>memory.c\<close>, with the structures of
  \<open>memory.h\<close>.  The state adds to the heap the frame allocator, the kernel's page table, the
  page tables of processes and kernel stacks, physical memory, and the two MMU registers the
  kernel's accesses depend on.
\<close>

section \<open>State\<close>

text \<open>The fields of \<open>pte_t\<close> that the kernel writes.\<close>

record pte =
  pte_valid :: int
  pte_pfn :: int
  pte_prot :: int

text \<open>
  \<open>user_pt_t\<close>, \<open>kernel_global_pt_t\<close>.  A page table is an array of fixed length; it is a
  function of the index, and the accesses below check the index against the length.
\<close>

record user_pt =
  u_data_end :: nat
  u_brk :: nat
  u_stack_low :: nat
  u_pt :: "int \<Rightarrow> pte"
  u_size :: int

record kernel_global_pt =
  k_pt :: "int \<Rightarrow> pte"
  k_brk :: nat

record mem = heap +
  free_frame :: free_frame
  kernel_pt :: kernel_global_pt
  upts :: "addr \<Rightarrow> user_pt"
  kstacks :: "addr \<Rightarrow> int \<Rightarrow> pte"
  pmem :: "int \<Rightarrow> nat \<Rightarrow> byte"
  vm_enable :: bool
  ptbr1 :: addr

section \<open>Accesses to page tables and to mapped memory\<close>

definition rd_upt :: "'z mem_scheme \<Rightarrow> addr \<Rightarrow> user_pt option" where
  "rd_upt s up = (if live s up then Some (upts s up) else None)"

definition upd_upt :: "addr \<Rightarrow> (user_pt \<Rightarrow> user_pt) \<Rightarrow> 'z mem_scheme \<Rightarrow> 'z mem_scheme option" where
  "upd_upt up f s = (if live s up then Some (s\<lparr>upts := (upts s)(up := f (upts s up))\<rparr>) else None)"

definition rd_upte :: "hw \<Rightarrow> 'z mem_scheme \<Rightarrow> addr \<Rightarrow> int \<Rightarrow> pte option" where
  "rd_upte hw s up i =
     (if live s up \<and> 0 \<le> i \<and> i < NUM_PAGES_1 hw then Some (u_pt (upts s up) i) else None)"

definition upd_upte :: "hw \<Rightarrow> addr \<Rightarrow> int \<Rightarrow> (pte \<Rightarrow> pte) \<Rightarrow> 'z mem_scheme \<Rightarrow> 'z mem_scheme option" where
  "upd_upte hw up i f s =
     (if 0 \<le> i \<and> i < NUM_PAGES_1 hw
      then upd_upt up (\<lambda>u. u\<lparr>u_pt := (u_pt u)(i := f (u_pt u i))\<rparr>) s else None)"

definition rd_kpte :: "hw \<Rightarrow> 'z mem_scheme \<Rightarrow> int \<Rightarrow> pte option" where
  "rd_kpte hw s i = (if 0 \<le> i \<and> i < NUM_PAGES_0 hw then Some (k_pt (kernel_pt s) i) else None)"

definition upd_kpte :: "hw \<Rightarrow> int \<Rightarrow> (pte \<Rightarrow> pte) \<Rightarrow> 'z mem_scheme \<Rightarrow> 'z mem_scheme option" where
  "upd_kpte hw i f s =
     (if 0 \<le> i \<and> i < NUM_PAGES_0 hw
      then Some (s\<lparr>kernel_pt := (kernel_pt s)\<lparr>k_pt := (k_pt (kernel_pt s))(i := f (k_pt (kernel_pt s) i))\<rparr>\<rparr>)
      else None)"

definition rd_kstack :: "hw \<Rightarrow> 'z mem_scheme \<Rightarrow> addr \<Rightarrow> int \<Rightarrow> pte option" where
  "rd_kstack hw s ks i =
     (if live s ks \<and> 0 \<le> i \<and> i < NUM_KSTACK_PAGES hw then Some (kstacks s ks i) else None)"

definition upd_kstack :: "hw \<Rightarrow> addr \<Rightarrow> int \<Rightarrow> (pte \<Rightarrow> pte) \<Rightarrow> 'z mem_scheme \<Rightarrow> 'z mem_scheme option" where
  "upd_kstack hw ks i f s =
     (if live s ks \<and> 0 \<le> i \<and> i < NUM_KSTACK_PAGES hw
      then Some (s\<lparr>kstacks := (kstacks s)(ks := (kstacks s ks)(i := f (kstacks s ks i)))\<rparr>) else None)"

text \<open>
  The memory management unit: the frame behind a virtual page, found in the kernel's table
  for region 0 and in the table that \<open>REG_PTBR1\<close> points to for region 1.  The tables are
  consulted at every access, so that flushing the TLB changes nothing.
\<close>

definition frame_at :: "hw \<Rightarrow> 'z mem_scheme \<Rightarrow> int \<Rightarrow> int option" where
  "frame_at hw s vpn = do {
     p \<leftarrow> (if vpn < BASE_PAGE_1 hw then rd_kpte hw s (vpn - BASE_PAGE_0 hw)
          else rd_upte hw s (ptbr1 s) (vpn - BASE_PAGE_1 hw));
     if pte_valid p \<noteq> 0 then Some (pte_pfn p) else None
   }"

definition load :: "hw \<Rightarrow> 'z mem_scheme \<Rightarrow> nat \<Rightarrow> byte option" where
  "load hw s a = do {
     f \<leftarrow> frame_at hw s (int (drop_bit (PAGESHIFT hw) a));
     Some (pmem s f (a mod PAGESIZE hw))
   }"

definition store :: "hw \<Rightarrow> nat \<Rightarrow> byte \<Rightarrow> 'z mem_scheme \<Rightarrow> 'z mem_scheme option" where
  "store hw a c s = do {
     f \<leftarrow> frame_at hw s (int (drop_bit (PAGESHIFT hw) a));
     Some (s\<lparr>pmem := (pmem s)(f := (pmem s f)(a mod PAGESIZE hw := c))\<rparr>)
   }"

text \<open>A 32-bit word, least significant byte first.\<close>

definition load32 :: "hw \<Rightarrow> 'z mem_scheme \<Rightarrow> nat \<Rightarrow> nat option" where
  "load32 hw s a = do {
     b0 \<leftarrow> load hw s a;
     b1 \<leftarrow> load hw s (uadd a 1);
     b2 \<leftarrow> load hw s (uadd a 2);
     b3 \<leftarrow> load hw s (uadd a 3);
     Some (unat b0 + 2 ^ 8 * unat b1 + 2 ^ 16 * unat b2 + 2 ^ 24 * unat b3)
   }"

text \<open>Writing consecutive bytes, and a word at an \<open>int*\<close>.\<close>

fun store_bytes :: "hw \<Rightarrow> nat \<Rightarrow> byte list \<Rightarrow> 'z mem_scheme \<Rightarrow> 'z mem_scheme option" where
  "store_bytes hw a [] s = Some s"
| "store_bytes hw a (c # cs) s = do { s \<leftarrow> store hw a c s; store_bytes hw (uadd a 1) cs s }"

definition store32 :: "hw \<Rightarrow> nat \<Rightarrow> int \<Rightarrow> 'z mem_scheme \<Rightarrow> 'z mem_scheme option" where
  "store32 hw a v s =
     store_bytes hw a (map (\<lambda>k. word_of_int (v div 2 ^ (8 * k))) [0..<4]) s"

text \<open>\<open>memcpy((void* ) (d << PAGESHIFT), (void* ) (v << PAGESHIFT), PAGESIZE)\<close>.\<close>

definition over_page :: "hw \<Rightarrow> (nat \<Rightarrow> byte) \<Rightarrow> (nat \<Rightarrow> byte) \<Rightarrow> nat \<Rightarrow> byte" where
  "over_page hw from_page to_page = (\<lambda>i. if i < PAGESIZE hw then from_page i else to_page i)"

definition copy_page :: "hw \<Rightarrow> int \<Rightarrow> int \<Rightarrow> 'z mem_scheme \<Rightarrow> 'z mem_scheme option" where
  "copy_page hw d v s = do {
     df \<leftarrow> frame_at hw s d;
     vf \<leftarrow> frame_at hw s v;
     Some (s\<lparr>pmem := (pmem s)(df := over_page hw (pmem s vf) (pmem s df))\<rparr>)
   }"

section \<open>The functions of memory.c\<close>

abbreviation PROT_RW :: "hw \<Rightarrow> int" where
  "PROT_RW hw \<equiv> or (PROT_READ hw) (PROT_WRITE hw)"

definition set_pte :: "int \<Rightarrow> int \<Rightarrow> int \<Rightarrow> pte \<Rightarrow> pte" where
  "set_pte valid pfn prot p =
     (let p = p\<lparr>pte_valid := valid\<rparr> in
      if pte_valid p = 0 then p else p\<lparr>pte_pfn := pfn, pte_prot := prot\<rparr>)"

text \<open>
  The two statements that the loops over page tables are made of:
  \<open>set_pte(&pt[i], 1, get_frame(NONE, AUTO), prot)\<close> and
  \<open>set_pte(&pt[i], 0, vacate_frame(pt[i].pfn), NONE)\<close>, on a process's table, on the kernel's
  and on a kernel stack's.
\<close>

definition map_upage :: "hw \<Rightarrow> addr \<Rightarrow> int \<Rightarrow> int \<Rightarrow> 'z mem_scheme \<Rightarrow> 'z mem_scheme option" where
  "map_upage hw up prot i s = do {
     (pfn, ff) \<leftarrow> get_frame hw NONE AUTO (free_frame s);
     upd_upte hw up i (set_pte 1 pfn prot) (s\<lparr>free_frame := ff\<rparr>)
   }"

definition unmap_upage :: "hw \<Rightarrow> addr \<Rightarrow> int \<Rightarrow> 'z mem_scheme \<Rightarrow> 'z mem_scheme option" where
  "unmap_upage hw up i s = do {
     p \<leftarrow> rd_upte hw s up i;
     (r, ff) \<leftarrow> vacate_frame hw (pte_pfn p) (free_frame s);
     upd_upte hw up i (set_pte 0 r NONE) (s\<lparr>free_frame := ff\<rparr>)
   }"

definition map_kpage :: "hw \<Rightarrow> int \<Rightarrow> int \<Rightarrow> 'z mem_scheme \<Rightarrow> 'z mem_scheme option" where
  "map_kpage hw prot i s = do {
     (pfn, ff) \<leftarrow> get_frame hw NONE AUTO (free_frame s);
     upd_kpte hw i (set_pte 1 pfn prot) (s\<lparr>free_frame := ff\<rparr>)
   }"

definition unmap_kpage :: "hw \<Rightarrow> int \<Rightarrow> 'z mem_scheme \<Rightarrow> 'z mem_scheme option" where
  "unmap_kpage hw i s = do {
     p \<leftarrow> rd_kpte hw s i;
     (r, ff) \<leftarrow> vacate_frame hw (pte_pfn p) (free_frame s);
     upd_kpte hw i (set_pte 0 r NONE) (s\<lparr>free_frame := ff\<rparr>)
   }"

definition unmap_kstack_page :: "hw \<Rightarrow> addr \<Rightarrow> int \<Rightarrow> 'z mem_scheme \<Rightarrow> 'z mem_scheme option" where
  "unmap_kstack_page hw ks i s = do {
     p \<leftarrow> rd_kstack hw s ks i;
     (r, ff) \<leftarrow> vacate_frame hw (pte_pfn p) (free_frame s);
     upd_kstack hw ks i (set_pte 0 r NONE) (s\<lparr>free_frame := ff\<rparr>)
   }"

definition SetKernelBrk :: "hw \<Rightarrow> nat \<Rightarrow> 'z mem_scheme \<Rightarrow> (int \<times> 'z mem_scheme) option" where
  "SetKernelBrk hw addr s =
     (if addr \<ge> usub (DOWN_TO_PAGE hw (KERNEL_STACK_BASE hw)) (PAGESIZE hw) \<or>
         addr < UP_TO_PAGE hw (kernel_data_end hw) then Some (ERROR hw, s)
      else do {
        s \<leftarrow> (if vm_enable s then do {
               let curr_brk_vpn = usub (drop_bit (PAGESHIFT hw) (UP_TO_PAGE hw (k_brk (kernel_pt s)))) 1;
               let next_brk_vpn = usub (drop_bit (PAGESHIFT hw) (UP_TO_PAGE hw addr)) 1;
               if next_brk_vpn > curr_brk_vpn then
                 for_up (int (uadd curr_brk_vpn 1)) (int next_brk_vpn + 1)
                   (\<lambda>vpn. map_kpage hw (PROT_RW hw) (vpn - BASE_PAGE_0 hw)) s
               else if next_brk_vpn < curr_brk_vpn then
                 for_down (int next_brk_vpn + 1) (int curr_brk_vpn + 1)
                   (\<lambda>vpn. unmap_kpage hw (vpn - BASE_PAGE_0 hw)) s
               else Some s
             } else Some s);
        Some (0, s\<lparr>kernel_pt := (kernel_pt s)\<lparr>k_brk := UP_TO_PAGE hw addr\<rparr>\<rparr>)
      })"

text \<open>\<open>new_user_pt\<close> writes the valid bits and the size; the break fields keep what \<open>malloc\<close> left.\<close>

definition new_user_pt :: "hw \<Rightarrow> 'z mem_scheme \<Rightarrow> (addr \<times> 'z mem_scheme) option" where
  "new_user_pt hw s = do {
     let (new, s) = malloc s;
     s \<leftarrow> for_up (BASE_PAGE_1 hw) (LIM_PAGE_1 hw)
            (\<lambda>vpn. upd_upte hw new (vpn - BASE_PAGE_1 hw) (set_pte 0 NONE NONE)) s;
     s \<leftarrow> upd_upt new (\<lambda>u. u\<lparr>u_size := 0\<rparr>) s;
     Some (new, s)
   }"

definition copy_user_page :: "hw \<Rightarrow> addr \<Rightarrow> addr \<Rightarrow> int \<Rightarrow> 'z mem_scheme \<Rightarrow> 'z mem_scheme option" where
  "copy_user_page hw origin dst vpn s = do {
     let dummy = BASE_PAGE_KSTACK hw - 1;
     o_pte \<leftarrow> rd_upte hw s origin (vpn - BASE_PAGE_1 hw);
     if pte_valid o_pte \<noteq> 0 then do {
       let privilege = pte_prot o_pte;
       s \<leftarrow> map_kpage hw (PROT_RW hw) (dummy - BASE_PAGE_0 hw) s;
       s \<leftarrow> copy_page hw dummy vpn s;
       d_pte \<leftarrow> rd_kpte hw s (dummy - BASE_PAGE_0 hw);
       s \<leftarrow> upd_upte hw dst (vpn - BASE_PAGE_1 hw) (\<lambda>_. d_pte) s;
       upd_upte hw dst (vpn - BASE_PAGE_1 hw) (\<lambda>p. p\<lparr>pte_prot := privilege\<rparr>) s
     } else Some s
   }"

definition copy_user_mem :: "hw \<Rightarrow> addr \<Rightarrow> addr \<Rightarrow> 'z mem_scheme \<Rightarrow> 'z mem_scheme option" where
  "copy_user_mem hw origin dst s = do {
     let dummy = BASE_PAGE_KSTACK hw - 1;
     s \<leftarrow> for_up (BASE_PAGE_1 hw) (LIM_PAGE_1 hw) (copy_user_page hw origin dst) s;
     s \<leftarrow> upd_kpte hw (dummy - BASE_PAGE_0 hw) (set_pte 0 NONE NONE) s;
     org \<leftarrow> rd_upt s origin;
     s \<leftarrow> upd_upt dst (\<lambda>u. u\<lparr>u_brk := u_brk org\<rparr>) s;
     org \<leftarrow> rd_upt s origin;
     s \<leftarrow> upd_upt dst (\<lambda>u. u\<lparr>u_data_end := u_data_end org\<rparr>) s;
     org \<leftarrow> rd_upt s origin;
     upd_upt dst (\<lambda>u. u\<lparr>u_stack_low := u_stack_low org\<rparr>) s
   }"

definition destroy_usermem :: "hw \<Rightarrow> addr \<Rightarrow> 'z mem_scheme \<Rightarrow> 'z mem_scheme option" where
  "destroy_usermem hw userpt s =
     for_up (BASE_PAGE_1 hw) (LIM_PAGE_1 hw)
       (\<lambda>vpn s. do {
          p \<leftarrow> rd_upte hw s userpt (vpn - BASE_PAGE_1 hw);
          if pte_valid p \<noteq> 0 then unmap_upage hw userpt (vpn - BASE_PAGE_1 hw) s else Some s
        }) s"

definition destroy_kstack :: "hw \<Rightarrow> addr \<Rightarrow> 'z mem_scheme \<Rightarrow> 'z mem_scheme option" where
  "destroy_kstack hw kstack s =
     for_up (BASE_PAGE_KSTACK hw) (LIM_PAGE_KSTACK hw)
       (\<lambda>vpn s. do {
          p \<leftarrow> rd_kstack hw s kstack (vpn - BASE_PAGE_KSTACK hw);
          if pte_valid p \<noteq> 0 then unmap_kstack_page hw kstack (vpn - BASE_PAGE_KSTACK hw) s else Some s
        }) s"

text \<open>
  \<open>check_addr\<close>: in C \<open>p.prot == PROT_READ|PROT_WRITE\<close> compares first and then takes the
  bitwise or of the truth value and \<open>PROT_WRITE\<close>.
\<close>

definition check_addr :: "hw \<Rightarrow> nat \<Rightarrow> int \<Rightarrow> addr \<Rightarrow> 'z mem_scheme \<Rightarrow> int option" where
  "check_addr hw addr prot curr_pt s =
     (if addr < VMEM_1_BASE hw \<or> addr \<ge> VMEM_1_LIMIT hw then Some 0
      else do {
        p \<leftarrow> rd_upte hw s curr_pt (int (drop_bit (PAGESHIFT hw) addr) - BASE_PAGE_1 hw);
        if pte_valid p = 0 then Some 0
        else if or (of_bool (pte_prot p = PROT_READ hw)) (PROT_WRITE hw) \<noteq> 0 \<or> pte_prot p = PROT_ALL hw
        then Some 1
        else if prot = PROT_READ hw then Some (of_bool (pte_prot p = PROT_READ hw))
        else Some (of_bool (pte_prot p = PROT_WRITE hw))
      })"

fun check_buffer_from :: "hw \<Rightarrow> nat \<Rightarrow> int \<Rightarrow> addr \<Rightarrow> nat \<Rightarrow> nat \<Rightarrow> 'z mem_scheme \<Rightarrow> int option" where
  "check_buffer_from hw addr prot curr_pt i 0 s = Some 1"
| "check_buffer_from hw addr prot curr_pt i (Suc k) s = do {
     c \<leftarrow> check_addr hw (uadd addr i) prot curr_pt s;
     if c = 0 then Some 0 else check_buffer_from hw addr prot curr_pt (Suc i) k s
   }"

definition check_buffer :: "hw \<Rightarrow> int \<Rightarrow> nat \<Rightarrow> int \<Rightarrow> addr \<Rightarrow> 'z mem_scheme \<Rightarrow> int option" where
  "check_buffer hw len addr prot curr_pt s = check_buffer_from hw addr prot curr_pt 0 (nat len) s"

fun check_string_from :: "hw \<Rightarrow> nat \<Rightarrow> addr \<Rightarrow> nat \<Rightarrow> nat \<Rightarrow> 'z mem_scheme \<Rightarrow> int option" where
  "check_string_from hw addr curr_pt i 0 s = Some 0"
| "check_string_from hw addr curr_pt i (Suc k) s = do {
     c \<leftarrow> check_addr hw (uadd addr i) (PROT_READ hw) curr_pt s;
     if c = 0 then Some 0 else do {
       b \<leftarrow> load hw s (uadd addr i);
       if b = 0 then Some 1 else check_string_from hw addr curr_pt (Suc i) k s
     }
   }"

definition check_string :: "hw \<Rightarrow> nat \<Rightarrow> addr \<Rightarrow> 'z mem_scheme \<Rightarrow> int option" where
  "check_string hw addr curr_pt s = check_string_from hw addr curr_pt 0 (nat MAX_CHECK) s"

fun check_args_from :: "hw \<Rightarrow> nat \<Rightarrow> addr \<Rightarrow> nat \<Rightarrow> nat \<Rightarrow> 'z mem_scheme \<Rightarrow> int option" where
  "check_args_from hw args curr_pt i 0 s = Some 0"
| "check_args_from hw args curr_pt i (Suc k) s = do {
     c \<leftarrow> check_addr hw (uadd args (4 * i)) (PROT_READ hw) curr_pt s;
     if c = 0 then Some 0 else do {
       p \<leftarrow> load32 hw s (uadd args (4 * i));
       if p = NULL then Some 1 else do {
         c \<leftarrow> check_string hw p curr_pt s;
         if c = 0 then Some 0 else check_args_from hw args curr_pt (Suc i) k s
       }
     }
   }"

definition check_args :: "hw \<Rightarrow> nat \<Rightarrow> addr \<Rightarrow> 'z mem_scheme \<Rightarrow> int option" where
  "check_args hw args curr_pt s = check_args_from hw args curr_pt 0 (nat MAX_CHECK) s"

definition no_kernel_memory :: "hw \<Rightarrow> int \<Rightarrow> 'z mem_scheme \<Rightarrow> int" where
  "no_kernel_memory hw left s =
     of_bool (frames_left (free_frame s) < left \<or>
              k_brk (kernel_pt s) \<ge> usub (DOWN_TO_PAGE hw (KERNEL_STACK_BASE hw)) (PAGESIZE hw))"

end
