(* ===== verification/Paging.thy ===== *)
theory Paging
  imports Memory
begin

text \<open>
  What the page-table loops of the kernel do.  The interface \<open>page_space\<close> is what such a
  loop relies on: mapping a page takes a free frame, unmapping gives the frame back.  The
  behaviour of whole ranges is proved once from these laws and then used for the tables of
  processes and for the kernel's own table.
\<close>

section \<open>A table of pages backed by a pool of frames\<close>

locale page_release =
  fixes inv :: "'s \<Rightarrow> bool"
    and pages :: "'s \<Rightarrow> int \<Rightarrow> (int \<times> int) option"
    and pool :: "'s \<Rightarrow> int set"
    and keep :: "'s \<Rightarrow> 's \<Rightarrow> bool"
    and unmap_page :: "int \<Rightarrow> 's \<Rightarrow> 's option"
  assumes unmap_law: "\<lbrakk>inv s; pages s i = Some (f, p)\<rbrakk> \<Longrightarrow>
      \<exists>s'. unmap_page i s = Some s' \<and> inv s' \<and> keep s s' \<and> f \<notin> pool s \<and>
        pages s' = (pages s)(i := None) \<and> pool s' = insert f (pool s)"
    and keep_refl: "keep s s"
    and keep_trans: "keep s s' \<Longrightarrow> keep s' s'' \<Longrightarrow> keep s s''"
begin

text \<open>The pages of \<open>I\<close> were unmapped and their frames are in the pool, the rest is as before.\<close>

definition unmapped :: "int set \<Rightarrow> 's \<Rightarrow> 's \<Rightarrow> bool" where
  "unmapped I s s' \<longleftrightarrow> inv s' \<and> keep s s' \<and>
     pool s' = pool s \<union> {f. \<exists>i\<in>I. \<exists>p. pages s i = Some (f, p)} \<and>
     (\<forall>i. pages s' i = (if i \<in> I then None else pages s i))"

lemma unmapped_none: "inv s \<Longrightarrow> unmapped {} s s"
  by (auto simp: unmapped_def keep_refl)

lemma unmapped_more:
  assumes "unmapped I s s'" and "i \<notin> I" and "pages s i = Some (f, p)"
  shows "\<exists>s''. unmap_page i s' = Some s'' \<and> unmapped (insert i I) s s''"
proof -
  have u: "inv s'" "keep s s'" "pool s' = pool s \<union> {f. \<exists>i\<in>I. \<exists>p. pages s i = Some (f, p)}"
      "\<forall>j. pages s' j = (if j \<in> I then None else pages s j)"
    using assms(1) by (auto simp: unmapped_def)
  then have "pages s' i = Some (f, p)" using assms(2,3) by simp
  then obtain s'' where "unmap_page i s' = Some s''" "inv s''" "keep s' s''"
      "pages s'' = (pages s')(i := None)" "pool s'' = insert f (pool s')"
    using unmap_law [OF u(1)] by blast
  with u assms(3) keep_trans [OF u(2)] show ?thesis by (auto simp: unmapped_def)
qed

lemma unmapped_skip: "unmapped I s s' \<Longrightarrow> pages s i = None \<Longrightarrow> unmapped (insert i I) s s'"
  by (auto simp: unmapped_def)

lemma unmap_range_down:
  assumes "inv s" and "a \<le> b" and "\<And>i. a \<le> i \<Longrightarrow> i < b \<Longrightarrow> pages s i \<noteq> None"
  shows "\<exists>s'. for_down a b unmap_page s = Some s' \<and> unmapped {a..<b} s s'"
proof (rule for_down_rule [where P = "\<lambda>i s'. unmapped {i..<b} s s'"])
  fix i s' assume i: "a \<le> i" "i < b" and m: "unmapped {i + 1..<b} s s'"
  obtain f p where fp: "pages s i = Some (f, p)" using assms(3) i by fastforce
  have "insert i {i + 1..<b} = {i..<b}" using i by auto
  then show "\<exists>s''. unmap_page i s' = Some s'' \<and> unmapped {i..<b} s s''"
    using unmapped_more [OF m _ fp] by auto
qed (use assms unmapped_none in auto)

text \<open>Tearing a table down: every page that is mapped is unmapped, the others are passed over.\<close>

lemma unmap_each:
  assumes "inv s" and "a \<le> b"
    and body: "\<And>i s'. a \<le> i \<Longrightarrow> i < b \<Longrightarrow> inv s' \<Longrightarrow>
      body i s' = (if pages s' i = None then Some s' else unmap_page i s')"
  shows "\<exists>s'. for_up a b body s = Some s' \<and> unmapped {a..<b} s s'"
proof (rule for_up_rule [where P = "\<lambda>i s'. unmapped {a..<i} s s'"])
  fix i s' assume i: "a \<le> i" "i < b" and m: "unmapped {a..<i} s s'"
  have inv': "inv s'" and same: "pages s' i = pages s i" using m by (simp_all add: unmapped_def)
  have ins: "insert i {a..<i} = {a..<i + 1}" using i by auto
  show "\<exists>s''. body i s' = Some s'' \<and> unmapped {a..<i + 1} s s''"
  proof (cases "pages s i")
    case None
    with unmapped_skip [OF m None] body [OF i inv'] same ins show ?thesis by simp
  next
    case (Some fp)
    then obtain f p where "pages s i = Some (f, p)" by (cases fp) auto
    with unmapped_more [OF m] body [OF i inv'] same ins show ?thesis by fastforce
  qed
qed (use assms unmapped_none in auto)

end

text \<open>A table that can also grow: mapping a page takes a frame out of the pool.\<close>

locale page_space = page_release inv pages pool keep unmap_page
  for inv :: "'s \<Rightarrow> bool"
    and pages :: "'s \<Rightarrow> int \<Rightarrow> (int \<times> int) option"
    and pool :: "'s \<Rightarrow> int set"
    and keep :: "'s \<Rightarrow> 's \<Rightarrow> bool"
    and unmap_page :: "int \<Rightarrow> 's \<Rightarrow> 's option" +
  fixes N :: int
    and map_page :: "int \<Rightarrow> int \<Rightarrow> 's \<Rightarrow> 's option"
  assumes map_law: "\<lbrakk>inv s; pool s \<noteq> {}; 0 \<le> i; i < N\<rbrakk> \<Longrightarrow>
      \<exists>s' f. map_page prot i s = Some s' \<and> inv s' \<and> keep s s' \<and> f \<in> pool s \<and>
        pages s' = (pages s)(i \<mapsto> (f, prot)) \<and> pool s' = pool s - {f}"
    and pool_finite: "finite (pool s)"
begin

text \<open>The pages of \<open>I\<close> were mapped to distinct frames of the pool, the others are as before.\<close>

definition mapped :: "int set \<Rightarrow> int \<Rightarrow> 's \<Rightarrow> 's \<Rightarrow> bool" where
  "mapped I prot s s' \<longleftrightarrow> inv s' \<and> keep s s' \<and>
     (\<exists>F. inj_on F I \<and> F ` I \<subseteq> pool s \<and> pool s' = pool s - F ` I \<and>
        (\<forall>i. pages s' i = (if i \<in> I then Some (F i, prot) else pages s i)))"

lemma mapped_none: "inv s \<Longrightarrow> mapped {} prot s s"
  by (auto simp: mapped_def keep_refl)

lemma mapped_more:
  assumes "mapped I prot s s'" and "i \<notin> I" and "0 \<le> i" "i < N"
    and "finite I" and "card I < card (pool s)"
  shows "\<exists>s''. map_page prot i s' = Some s'' \<and> mapped (insert i I) prot s s''"
proof -
  obtain F where F: "inv s'" "keep s s'" "inj_on F I" "F ` I \<subseteq> pool s" "pool s' = pool s - F ` I"
      "\<forall>j. pages s' j = (if j \<in> I then Some (F j, prot) else pages s j)"
    using assms(1) by (auto simp: mapped_def)
  have "card (F ` I) < card (pool s)" using assms(5,6) F(3) by (simp add: card_image)
  then have ne: "pool s' \<noteq> {}" using F(4,5) pool_finite [of s] by (metis Diff_eq_empty_iff card_mono finite_subset leD)
  obtain s'' f where s'': "map_page prot i s' = Some s''" "inv s''" "keep s' s''" "f \<in> pool s'"
      "pages s'' = (pages s')(i \<mapsto> (f, prot))" "pool s'' = pool s' - {f}"
    using map_law [OF F(1) ne assms(3,4), of prot] by blast
  define G where "G = F(i := f)"
  have img: "G ` insert i I = insert f (F ` I)" using assms(2) by (auto simp: G_def image_def)
  have "inj_on G (insert i I)"
    using F(3,5) s''(4) assms(2) by (auto simp: inj_on_def G_def)
  moreover have "G ` insert i I \<subseteq> pool s \<and> pool s'' = pool s - G ` insert i I"
    using F(4,5) s''(4,6) unfolding img by auto
  moreover have "\<forall>j. pages s'' j = (if j \<in> insert i I then Some (G j, prot) else pages s j)"
    using F(6) s''(5) by (auto simp: G_def)
  ultimately show ?thesis
    using s''(1,2) keep_trans [OF F(2) s''(3)] unfolding mapped_def by blast
qed

lemma map_range:
  assumes "inv s" and "0 \<le> a" "a \<le> b" "b \<le> N" and "b - a \<le> int (card (pool s))"
  shows "\<exists>s'. for_up a b (map_page prot) s = Some s' \<and> mapped {a..<b} prot s s'"
proof (rule for_up_rule [where P = "\<lambda>i s'. mapped {a..<i} prot s s'"])
  fix i s' assume i: "a \<le> i" "i < b" and m: "mapped {a..<i} prot s s'"
  have "insert i {a..<i} = {a..<i + 1}" using i by auto
  then show "\<exists>s''. map_page prot i s' = Some s'' \<and> mapped {a..<i + 1} prot s s''"
    using mapped_more [OF m, of i] i assms by auto
qed (use assms mapped_none in auto)

lemma map_range_down:
  assumes "inv s" and "0 \<le> a" "a \<le> b" "b \<le> N" and "b - a \<le> int (card (pool s))"
  shows "\<exists>s'. for_down a b (map_page prot) s = Some s' \<and> mapped {a..<b} prot s s'"
proof (rule for_down_rule [where P = "\<lambda>i s'. mapped {i..<b} prot s s'"])
  fix i s' assume i: "a \<le> i" "i < b" and m: "mapped {i + 1..<b} prot s s'"
  have "insert i {i + 1..<b} = {i..<b}" using i by auto
  then show "\<exists>s''. map_page prot i s' = Some s'' \<and> mapped {i..<b} prot s s''"
    using mapped_more [OF m, of i] i assms by auto
qed (use assms mapped_none in auto)

text \<open>Two ranges one after the other, and what is left of the pool.\<close>

lemma mapped_both:
  assumes "mapped I prot s s'" and "mapped J prot s' s''" and "I \<inter> J = {}"
  shows "mapped (I \<union> J) prot s s''"
proof -
  obtain F where F: "keep s s'" "inj_on F I" "F ` I \<subseteq> pool s" "pool s' = pool s - F ` I"
      "\<forall>i. pages s' i = (if i \<in> I then Some (F i, prot) else pages s i)"
    using assms(1) by (auto simp: mapped_def)
  obtain G where G: "inv s''" "keep s' s''" "inj_on G J" "G ` J \<subseteq> pool s'" "pool s'' = pool s' - G ` J"
      "\<forall>i. pages s'' i = (if i \<in> J then Some (G i, prot) else pages s' i)"
    using assms(2) by (auto simp: mapped_def)
  define H where "H i = (if i \<in> I then F i else G i)" for i
  have h: "i \<in> I \<Longrightarrow> H i = F i" "j \<in> J \<Longrightarrow> H j = G j" for i j using assms(3) by (auto simp: H_def)
  then have img: "H ` I = F ` I" "H ` J = G ` J" by (auto intro: image_cong)
  have "inj_on H (I \<union> J)"
  proof (rule inj_on_Un [THEN iffD2], intro conjI)
    show "inj_on H I" "inj_on H J" using F(2) G(3) h inj_on_cong [of I H F] inj_on_cong [of J H G] by blast+
    show "H ` (I - J) \<inter> H ` (J - I) = {}" using F(4) G(4) img by blast
  qed
  moreover have "H ` (I \<union> J) \<subseteq> pool s" "pool s'' = pool s - H ` (I \<union> J)" unfolding image_Un img using F(3,4) G(4,5) by auto
  moreover have "\<forall>i. pages s'' i = (if i \<in> I \<union> J then Some (H i, prot) else pages s i)"
    using F(5) G(6) h assms(3) by (auto simp: H_def)
  ultimately show ?thesis using G(1) keep_trans [OF F(1) G(2)] unfolding mapped_def by blast
qed

lemma mapped_card:
  assumes "mapped I prot s s'" and "finite I"
  shows "int (card (pool s')) = int (card (pool s)) - int (card I)"
proof -
  obtain F where F: "inj_on F I" "F ` I \<subseteq> pool s" "pool s' = pool s - F ` I" using assms(1) by (auto simp: mapped_def)
  have "card (F ` I) \<le> card (pool s)" by (rule card_mono [OF pool_finite F(2)])
  then show ?thesis using F card_Diff_subset [OF finite_imageI [OF assms(2)] F(2)] by (simp add: card_image)
qed

end

section \<open>The pool of free frames\<close>

definition pool :: "hw \<Rightarrow> free_frame \<Rightarrow> int set" where
  "pool hw ff = {BASE_FRAME hw..<BASE_FRAME hw + ff_size ff} - used hw ff"

lemma finite_pool [simp]: "finite (pool hw ff)"
  by (simp add: pool_def)

lemma card_pool: "frames_ok hw ff \<Longrightarrow> int (card (pool hw ff)) = frames_left ff"
  using card_mono [OF _ used_range [of hw ff]]
  by (simp add: pool_def frames_left_def frames_ok_def card_Diff_subset [OF finite_used used_range])

lemma pool_take:
  assumes "frames_ok hw ff" and "pool hw ff \<noteq> {}"
  shows "\<exists>f ff'. get_frame hw pfn AUTO ff = Some (f, ff') \<and> frames_ok hw ff' \<and> f \<in> pool hw ff \<and>
    pool hw ff' = pool hw ff - {f} \<and> used hw ff' = insert f (used hw ff) \<and> ff_size ff' = ff_size ff"
proof -
  have "ff_filled ff < ff_size ff" using used_full [OF assms(1)] assms(2) by (force simp: pool_def)
  with get_frame_auto [OF assms(1)] show ?thesis by (fastforce simp: pool_def)
qed

lemma pool_give:
  assumes "frames_ok hw ff" and "f \<in> used hw ff"
  shows "\<exists>ff'. vacate_frame hw f ff = Some (0, ff') \<and> frames_ok hw ff' \<and> f \<notin> pool hw ff \<and>
    pool hw ff' = insert f (pool hw ff) \<and> used hw ff' = used hw ff - {f} \<and> ff_size ff' = ff_size ff"
  using vacate_frame_used [OF assms] used_range [of hw ff] assms(2) by (fastforce simp: pool_def)

section \<open>The tables of the kernel as page spaces\<close>

text \<open>The entries of a table of \<open>n\<close> pages: frame and protection of the valid ones.\<close>

definition entries :: "int \<Rightarrow> (int \<Rightarrow> pte) \<Rightarrow> int \<Rightarrow> (int \<times> int) option" where
  "entries n pt i =
     (if 0 \<le> i \<and> i < n \<and> pte_valid (pt i) \<noteq> 0 then Some (pte_pfn (pt i), pte_prot (pt i)) else None)"

text \<open>A table is sound: its frames are in use and no two of its pages share one.\<close>

definition sound :: "hw \<Rightarrow> free_frame \<Rightarrow> (int \<Rightarrow> (int \<times> int) option) \<Rightarrow> bool" where
  "sound hw ff E \<longleftrightarrow>
     frames_ok hw ff \<and> (\<forall>i f p. E i = Some (f, p) \<longrightarrow> f \<in> used hw ff) \<and>
     (\<forall>i j f p q. E i = Some (f, p) \<longrightarrow> E j = Some (f, q) \<longrightarrow> i = j)"

lemma entries_set [simp]:
  "0 \<le> i \<Longrightarrow> i < n \<Longrightarrow> entries n (pt(i := set_pte 1 f p e)) = (entries n pt)(i \<mapsto> (f, p))"
  "0 \<le> i \<Longrightarrow> i < n \<Longrightarrow> entries n (pt(i := set_pte 0 f p e)) = (entries n pt)(i := None)"
  by (auto simp: entries_def set_pte_def Let_def)

lemma entries_bounds: "entries n pt i = Some e \<Longrightarrow> 0 \<le> i \<and> i < n \<and> fst e = pte_pfn (pt i)"
  by (auto simp: entries_def split: if_splits)

lemma sound_take:
  assumes "sound hw ff E" and "f \<notin> used hw ff" and "frames_ok hw ff'" and "used hw ff' = insert f (used hw ff)"
  shows "sound hw ff' (E(i \<mapsto> (f, p)))"
  using assms by (auto simp: sound_def)

lemma sound_give:
  assumes "sound hw ff E" and "E i = Some (f, p)" and "frames_ok hw ff'" and "used hw ff' = used hw ff - {f}"
  shows "sound hw ff' (E(i := None))"
  using assms unfolding sound_def by (auto split: if_splits)

definition upages :: "hw \<Rightarrow> addr \<Rightarrow> 'z mem_scheme \<Rightarrow> int \<Rightarrow> (int \<times> int) option" where
  "upages hw up s = entries (NUM_PAGES_1 hw) (u_pt (upts s up))"

definition kpages :: "hw \<Rightarrow> 'z mem_scheme \<Rightarrow> int \<Rightarrow> (int \<times> int) option" where
  "kpages hw s = entries (NUM_PAGES_0 hw) (k_pt (kernel_pt s))"

definition kspages :: "hw \<Rightarrow> addr \<Rightarrow> 'z mem_scheme \<Rightarrow> int \<Rightarrow> (int \<times> int) option" where
  "kspages hw ks s = entries (NUM_KSTACK_PAGES hw) (kstacks s ks)"

text \<open>What a loop over one table leaves alone: everything but that table's entries and the pool.\<close>

definition same_heap :: "'z mem_scheme \<Rightarrow> 'z mem_scheme \<Rightarrow> bool" where
  "same_heap s s' \<longleftrightarrow>
     brk_next s' = brk_next s \<and> alive s' = alive s \<and> nodes s' = nodes s \<and> lls s' = lls s \<and>
     vm_enable s' = vm_enable s \<and> ptbr1 s' = ptbr1 s \<and> mem.more s' = mem.more s \<and>
     ff_size (free_frame s') = ff_size (free_frame s)"

definition upt_keep :: "addr \<Rightarrow> 'z mem_scheme \<Rightarrow> 'z mem_scheme \<Rightarrow> bool" where
  "upt_keep up s s' \<longleftrightarrow>
     same_heap s s' \<and> kernel_pt s' = kernel_pt s \<and> kstacks s' = kstacks s \<and> pmem s' = pmem s \<and>
     (\<forall>a. a \<noteq> up \<longrightarrow> upts s' a = upts s a) \<and> u_size (upts s' up) = u_size (upts s up) \<and>
     u_brk (upts s' up) = u_brk (upts s up) \<and> u_data_end (upts s' up) = u_data_end (upts s up) \<and>
     u_stack_low (upts s' up) = u_stack_low (upts s up)"

definition kpt_keep :: "'z mem_scheme \<Rightarrow> 'z mem_scheme \<Rightarrow> bool" where
  "kpt_keep s s' \<longleftrightarrow>
     same_heap s s' \<and> upts s' = upts s \<and> kstacks s' = kstacks s \<and> pmem s' = pmem s \<and>
     k_brk (kernel_pt s') = k_brk (kernel_pt s)"

definition ks_keep :: "addr \<Rightarrow> 'z mem_scheme \<Rightarrow> 'z mem_scheme \<Rightarrow> bool" where
  "ks_keep ks s s' \<longleftrightarrow>
     same_heap s s' \<and> kernel_pt s' = kernel_pt s \<and> upts s' = upts s \<and> pmem s' = pmem s \<and>
     (\<forall>a. a \<noteq> ks \<longrightarrow> kstacks s' a = kstacks s a)"

lemmas keep_defs = same_heap_def upt_keep_def kpt_keep_def ks_keep_def

lemma same_heap_live: "same_heap s s' \<Longrightarrow> live s' a = live s a"
  by (simp add: same_heap_def live_def)

section \<open>The tables meet the interface\<close>

definition u_inv :: "hw \<Rightarrow> addr \<Rightarrow> 'z mem_scheme \<Rightarrow> bool" where
  "u_inv hw up s \<longleftrightarrow> live s up \<and> sound hw (free_frame s) (upages hw up s)"

definition k_inv :: "hw \<Rightarrow> 'z mem_scheme \<Rightarrow> bool" where
  "k_inv hw s \<longleftrightarrow> sound hw (free_frame s) (kpages hw s)"

definition ks_inv :: "hw \<Rightarrow> addr \<Rightarrow> 'z mem_scheme \<Rightarrow> bool" where
  "ks_inv hw ks s \<longleftrightarrow> live s ks \<and> sound hw (free_frame s) (kspages hw ks s)"

lemma upd_upte_live:
  "live s up \<Longrightarrow> 0 \<le> i \<Longrightarrow> i < NUM_PAGES_1 hw \<Longrightarrow> upd_upte hw up i f s =
     Some (s\<lparr>upts := (upts s)(up := (upts s up)\<lparr>u_pt := (u_pt (upts s up))(i := f (u_pt (upts s up) i))\<rparr>)\<rparr>)"
  by (simp add: upd_upte_def upd_upt_def)

lemma live_mem [simp]:
  "live (s\<lparr>free_frame := ff\<rparr>) a = live s a" "live (s\<lparr>upts := U\<rparr>) a = live s a"
  "live (s\<lparr>kernel_pt := K\<rparr>) a = live s a" "live (s\<lparr>kstacks := S\<rparr>) a = live s a"
  "live (s\<lparr>pmem := P\<rparr>) a = live s a" "live (s\<lparr>vm_enable := v\<rparr>) a = live s a"
  "live (s\<lparr>ptbr1 := r\<rparr>) a = live s a"
  by (simp_all add: live_def)

lemma map_upage_law:
  assumes "u_inv hw up s" and "pool hw (free_frame s) \<noteq> {}" and "0 \<le> i" "i < NUM_PAGES_1 hw"
  shows "\<exists>s' f. map_upage hw up prot i s = Some s' \<and> u_inv hw up s' \<and> upt_keep up s s' \<and>
    f \<in> pool hw (free_frame s) \<and> upages hw up s' = (upages hw up s)(i \<mapsto> (f, prot)) \<and>
    pool hw (free_frame s') = pool hw (free_frame s) - {f}"
proof -
  have ok: "live s up" "sound hw (free_frame s) (upages hw up s)" "frames_ok hw (free_frame s)"
    using assms(1) by (simp_all add: u_inv_def sound_def)
  obtain f ff where f: "get_frame hw NONE AUTO (free_frame s) = Some (f, ff)" "frames_ok hw ff"
      "f \<in> pool hw (free_frame s)" "pool hw ff = pool hw (free_frame s) - {f}"
      "used hw ff = insert f (used hw (free_frame s))" "ff_size ff = ff_size (free_frame s)"
    using pool_take [OF ok(3) assms(2)] by blast
  have "sound hw ff ((upages hw up s)(i \<mapsto> (f, prot)))"
    using sound_take [OF ok(2) _ f(2,5)] f(3) by (simp add: pool_def)
  with f ok(1) assms(3,4) show ?thesis
    by (auto simp: map_upage_def upd_upte_live u_inv_def upages_def keep_defs)
qed

lemma unmap_upage_law:
  assumes "u_inv hw up s" and "upages hw up s i = Some (f, p)"
  shows "\<exists>s'. unmap_upage hw up i s = Some s' \<and> u_inv hw up s' \<and> upt_keep up s s' \<and>
    f \<notin> pool hw (free_frame s) \<and> upages hw up s' = (upages hw up s)(i := None) \<and>
    pool hw (free_frame s') = insert f (pool hw (free_frame s))"
proof -
  have ok: "live s up" "sound hw (free_frame s) (upages hw up s)" "frames_ok hw (free_frame s)"
    using assms(1) by (simp_all add: u_inv_def sound_def)
  have i: "0 \<le> i" "i < NUM_PAGES_1 hw" "pte_pfn (u_pt (upts s up) i) = f"
    using entries_bounds assms(2) by (fastforce simp: upages_def)+
  have "f \<in> used hw (free_frame s)" using ok(2) assms(2) by (auto simp: sound_def)
  then obtain ff where f: "vacate_frame hw f (free_frame s) = Some (0, ff)" "frames_ok hw ff"
      "f \<notin> pool hw (free_frame s)" "pool hw ff = insert f (pool hw (free_frame s))"
      "used hw ff = used hw (free_frame s) - {f}" "ff_size ff = ff_size (free_frame s)"
    using pool_give [OF ok(3)] by blast
  have "sound hw ff ((upages hw up s)(i := None))"
    by (rule sound_give [OF ok(2) assms(2) f(2,5)])
  with f ok(1) i show ?thesis
    by (simp add: unmap_upage_def rd_upte_def upd_upte_live u_inv_def upages_def keep_defs)
qed

lemma map_kpage_law:
  assumes "k_inv hw s" and "pool hw (free_frame s) \<noteq> {}" and "0 \<le> i" "i < NUM_PAGES_0 hw"
  shows "\<exists>s' f. map_kpage hw prot i s = Some s' \<and> k_inv hw s' \<and> kpt_keep s s' \<and>
    f \<in> pool hw (free_frame s) \<and> kpages hw s' = (kpages hw s)(i \<mapsto> (f, prot)) \<and>
    pool hw (free_frame s') = pool hw (free_frame s) - {f}"
proof -
  have ok: "sound hw (free_frame s) (kpages hw s)" "frames_ok hw (free_frame s)"
    using assms(1) by (simp_all add: k_inv_def sound_def)
  obtain f ff where f: "get_frame hw NONE AUTO (free_frame s) = Some (f, ff)" "frames_ok hw ff"
      "f \<in> pool hw (free_frame s)" "pool hw ff = pool hw (free_frame s) - {f}"
      "used hw ff = insert f (used hw (free_frame s))" "ff_size ff = ff_size (free_frame s)"
    using pool_take [OF ok(2) assms(2)] by blast
  have "sound hw ff ((kpages hw s)(i \<mapsto> (f, prot)))"
    using sound_take [OF ok(1) _ f(2,5)] f(3) by (simp add: pool_def)
  with f assms(3,4) show ?thesis
    by (auto simp: map_kpage_def upd_kpte_def k_inv_def kpages_def keep_defs)
qed

lemma unmap_kpage_law:
  assumes "k_inv hw s" and "kpages hw s i = Some (f, p)"
  shows "\<exists>s'. unmap_kpage hw i s = Some s' \<and> k_inv hw s' \<and> kpt_keep s s' \<and>
    f \<notin> pool hw (free_frame s) \<and> kpages hw s' = (kpages hw s)(i := None) \<and>
    pool hw (free_frame s') = insert f (pool hw (free_frame s))"
proof -
  have ok: "sound hw (free_frame s) (kpages hw s)" "frames_ok hw (free_frame s)"
    using assms(1) by (simp_all add: k_inv_def sound_def)
  have i: "0 \<le> i" "i < NUM_PAGES_0 hw" "pte_pfn (k_pt (kernel_pt s) i) = f"
    using entries_bounds assms(2) by (fastforce simp: kpages_def)+
  have "f \<in> used hw (free_frame s)" using ok(1) assms(2) by (auto simp: sound_def)
  then obtain ff where f: "vacate_frame hw f (free_frame s) = Some (0, ff)" "frames_ok hw ff"
      "f \<notin> pool hw (free_frame s)" "pool hw ff = insert f (pool hw (free_frame s))"
      "used hw ff = used hw (free_frame s) - {f}" "ff_size ff = ff_size (free_frame s)"
    using pool_give [OF ok(2)] by blast
  have "sound hw ff ((kpages hw s)(i := None))"
    by (rule sound_give [OF ok(1) assms(2) f(2,5)])
  with f i show ?thesis
    by (simp add: unmap_kpage_def rd_kpte_def upd_kpte_def k_inv_def kpages_def keep_defs)
qed

lemma unmap_kstack_law:
  assumes "ks_inv hw ks s" and "kspages hw ks s i = Some (f, p)"
  shows "\<exists>s'. unmap_kstack_page hw ks i s = Some s' \<and> ks_inv hw ks s' \<and> ks_keep ks s s' \<and>
    f \<notin> pool hw (free_frame s) \<and> kspages hw ks s' = (kspages hw ks s)(i := None) \<and>
    pool hw (free_frame s') = insert f (pool hw (free_frame s))"
proof -
  have ok: "live s ks" "sound hw (free_frame s) (kspages hw ks s)" "frames_ok hw (free_frame s)"
    using assms(1) by (simp_all add: ks_inv_def sound_def)
  have i: "0 \<le> i" "i < NUM_KSTACK_PAGES hw" "pte_pfn (kstacks s ks i) = f"
    using entries_bounds assms(2) by (fastforce simp: kspages_def)+
  have "f \<in> used hw (free_frame s)" using ok(2) assms(2) by (auto simp: sound_def)
  then obtain ff where f: "vacate_frame hw f (free_frame s) = Some (0, ff)" "frames_ok hw ff"
      "f \<notin> pool hw (free_frame s)" "pool hw ff = insert f (pool hw (free_frame s))"
      "used hw ff = used hw (free_frame s) - {f}" "ff_size ff = ff_size (free_frame s)"
    using pool_give [OF ok(3)] by blast
  have "sound hw ff ((kspages hw ks s)(i := None))"
    by (rule sound_give [OF ok(2) assms(2) f(2,5)])
  with f ok(1) i show ?thesis
    by (simp add: unmap_kstack_page_def rd_kstack_def upd_kstack_def ks_inv_def kspages_def keep_defs)
qed

interpretation upt: page_space "u_inv hw up" "upages hw up" "\<lambda>s. pool hw (free_frame s)"
    "upt_keep up" "unmap_upage hw up" "NUM_PAGES_1 hw" "map_upage hw up" for hw up
proof (unfold_locales, goal_cases)
  case (1 s i f p)
  then show ?case by (rule unmap_upage_law)
next
  case (4 s i prot)
  then show ?case by (intro map_upage_law)
qed (simp_all add: keep_defs)

interpretation kpt: page_space "k_inv hw" "kpages hw" "\<lambda>s. pool hw (free_frame s)"
    kpt_keep "unmap_kpage hw" "NUM_PAGES_0 hw" "map_kpage hw" for hw
proof (unfold_locales, goal_cases)
  case (1 s i f p)
  then show ?case by (rule unmap_kpage_law)
next
  case (4 s i prot)
  then show ?case by (intro map_kpage_law)
qed (simp_all add: keep_defs)

interpretation kst: page_release "ks_inv hw ks" "kspages hw ks" "\<lambda>s. pool hw (free_frame s)"
    "ks_keep ks" "unmap_kstack_page hw ks" for hw ks
proof (unfold_locales, goal_cases)
  case (1 s i f p)
  then show ?case by (rule unmap_kstack_law)
qed (simp_all add: keep_defs)

section \<open>Tearing down and setting up tables\<close>

lemma destroy_usermem_spec:
  assumes "hw_ok hw" and "u_inv hw up s"
  shows "\<exists>s'. destroy_usermem hw up s = Some s' \<and> upt.unmapped hw up {0..<NUM_PAGES_1 hw} s s'"
proof -
  let ?body = "\<lambda>i s. do {
     p \<leftarrow> rd_upte hw s up i;
     if pte_valid p \<noteq> 0 then unmap_upage hw up i s else Some s }"
  have body: "?body i s' = (if upages hw up s' i = None then Some s' else unmap_upage hw up i s')"
    if "0 \<le> i" "i < NUM_PAGES_1 hw" "u_inv hw up s'" for i s'
    using that by (simp add: rd_upte_def u_inv_def upages_def entries_def)
  have "\<exists>s'. for_up 0 (NUM_PAGES_1 hw) ?body s = Some s' \<and> upt.unmapped hw up {0..<NUM_PAGES_1 hw} s s'"
    by (rule upt.unmap_each [OF assms(2) _ body]) (use region_1 [OF assms(1)] in simp_all)
  then show ?thesis
    using for_up_shift [of "BASE_PAGE_1 hw" "LIM_PAGE_1 hw" ?body "BASE_PAGE_1 hw" s] region_1 [OF assms(1)]
    by (simp add: destroy_usermem_def)
qed

lemma destroy_kstack_spec:
  assumes "hw_ok hw" and "ks_inv hw ks s"
  shows "\<exists>s'. destroy_kstack hw ks s = Some s' \<and> kst.unmapped hw ks {0..<NUM_KSTACK_PAGES hw} s s'"
proof -
  let ?body = "\<lambda>i s. do {
     p \<leftarrow> rd_kstack hw s ks i;
     if pte_valid p \<noteq> 0 then unmap_kstack_page hw ks i s else Some s }"
  have body: "?body i s' = (if kspages hw ks s' i = None then Some s' else unmap_kstack_page hw ks i s')"
    if "0 \<le> i" "i < NUM_KSTACK_PAGES hw" "ks_inv hw ks s'" for i s'
    using that by (simp add: rd_kstack_def ks_inv_def kspages_def entries_def)
  have "\<exists>s'. for_up 0 (NUM_KSTACK_PAGES hw) ?body s = Some s' \<and> kst.unmapped hw ks {0..<NUM_KSTACK_PAGES hw} s s'"
    by (rule kst.unmap_each [OF assms(2) _ body]) (use region_0(6) [OF assms(1)] in simp_all)
  then show ?thesis
    using for_up_shift [of "BASE_PAGE_KSTACK hw" "LIM_PAGE_KSTACK hw" ?body "BASE_PAGE_KSTACK hw" s]
      region_0(5) [OF assms(1)]
    by (simp add: destroy_kstack_def)
qed

section \<open>Checks of user addresses\<close>

definition in_region_1 :: "hw \<Rightarrow> nat \<Rightarrow> bool" where
  "in_region_1 hw a \<longleftrightarrow> VMEM_1_BASE hw \<le> a \<and> a < VMEM_1_LIMIT hw"

definition user_page :: "hw \<Rightarrow> nat \<Rightarrow> int" where
  "user_page hw a = int (drop_bit (PAGESHIFT hw) a) - BASE_PAGE_1 hw"

text \<open>An address a process may hand to the kernel: in region 1, on a mapped page.\<close>

definition user_addr :: "hw \<Rightarrow> addr \<Rightarrow> 'z mem_scheme \<Rightarrow> nat \<Rightarrow> bool" where
  "user_addr hw up s a \<longleftrightarrow> in_region_1 hw a \<and> upages hw up s (user_page hw a) \<noteq> None"

lemma check_addr_eq:
  assumes "hw_ok hw" and "live s up"
  shows "check_addr hw a prot up s = Some (of_bool (user_addr hw up s a))"
proof (cases "in_region_1 hw a")
  case True
  then have i: "0 \<le> user_page hw a" "user_page hw a < NUM_PAGES_1 hw"
    using page_in_1 [OF assms(1)] region_1 [OF assms(1)] by (fastforce simp: in_region_1_def user_page_def)+
  have "PROT_WRITE hw \<noteq> 0" using assms(1) by (simp add: hw_ok_def)
  with True i assms(2) show ?thesis
    by (auto simp: check_addr_def in_region_1_def rd_upte_def user_addr_def upages_def entries_def
        user_page_def or_eq_0_iff)
next
  case False
  then show ?thesis by (auto simp: check_addr_def in_region_1_def user_addr_def)
qed

lemma check_buffer_from_eq:
  assumes "hw_ok hw" and "live s up"
  shows "check_buffer_from hw a prot up i k s =
    Some (of_bool (\<forall>j. i \<le> j \<longrightarrow> j < i + k \<longrightarrow> user_addr hw up s (uadd a j)))"
proof (induction k arbitrary: i)
  case 0
  then show ?case by simp
next
  case (Suc k)
  have e: "i \<le> j \<longleftrightarrow> j = i \<or> Suc i \<le> j" for j by auto
  have "(\<forall>j. i \<le> j \<longrightarrow> j < i + Suc k \<longrightarrow> P j) \<longleftrightarrow> P i \<and> (\<forall>j. Suc i \<le> j \<longrightarrow> j < Suc i + k \<longrightarrow> P j)" for P
    unfolding e by auto
  with Suc show ?case by (simp add: check_addr_eq [OF assms])
qed

lemma check_buffer_eq:
  assumes "hw_ok hw" and "live s up"
  shows "check_buffer hw len a prot up s = Some (of_bool (\<forall>j < nat len. user_addr hw up s (uadd a j)))"
  using check_buffer_from_eq [OF assms, of a prot 0 "nat len"] by (simp add: check_buffer_def)

text \<open>Reading memory of the process whose table is loaded.\<close>

lemma user_page_range:
  assumes "hw_ok hw" and "in_region_1 hw a"
  shows "0 \<le> user_page hw a" "user_page hw a < NUM_PAGES_1 hw"
    "\<not> int (drop_bit (PAGESHIFT hw) a) < BASE_PAGE_1 hw"
  using page_in_1 [OF assms(1)] region_1 [OF assms(1)] assms(2) by (fastforce simp: in_region_1_def user_page_def)+

lemma user_load:
  assumes "hw_ok hw" and "live s up" and "ptbr1 s = up" and "in_region_1 hw a"
    and "upages hw up s (user_page hw a) = Some (f, p)"
  shows "load hw s a = Some (pmem s f (a mod PAGESIZE hw))"
  using user_page_range [OF assms(1,4)] assms(2,3,5)
  by (auto simp: load_def frame_at_def rd_upte_def upages_def entries_def user_page_def split: if_splits)

lemma user_addr_load:
  "\<lbrakk>hw_ok hw; live s up; ptbr1 s = up; user_addr hw up s a\<rbrakk> \<Longrightarrow> \<exists>c. load hw s a = Some c"
  by (auto simp: user_addr_def dest: user_load)

lemma check_string_from_eq:
  assumes "hw_ok hw" and "live s up" and "ptbr1 s = up"
  shows "check_string_from hw a up i k s =
    Some (of_bool (\<exists>n. i \<le> n \<and> n < i + k \<and> (\<forall>j. i \<le> j \<longrightarrow> j \<le> n \<longrightarrow> user_addr hw up s (uadd a j)) \<and>
      load hw s (uadd a n) = Some 0))"
proof (induction k arbitrary: i)
  case 0
  then show ?case by auto
next
  case (Suc k)
  let ?U = "\<lambda>j. user_addr hw up s (uadd a j)" and ?Z = "\<lambda>n. load hw s (uadd a n) = Some 0"
  let ?P = "\<lambda>i k. \<exists>n. i \<le> n \<and> n < i + k \<and> (\<forall>j. i \<le> j \<longrightarrow> j \<le> n \<longrightarrow> ?U j) \<and> ?Z n"
  have e: "i \<le> j \<longleftrightarrow> j = i \<or> Suc i \<le> j" for j by auto
  have step: "?P i (Suc k) \<longleftrightarrow> ?U i \<and> (?Z i \<or> ?P (Suc i) k)"
    unfolding e by auto
  show ?case
  proof (cases "?U i")
    case True
    then obtain c where c: "load hw s (uadd a i) = Some c" using user_addr_load [OF assms] by blast
    with True Suc step show ?thesis by (simp add: check_addr_eq [OF assms(1,2)])
  next
    case False
    with step show ?thesis by (simp add: check_addr_eq [OF assms(1,2)])
  qed
qed

lemma check_string_eq:
  assumes "hw_ok hw" and "live s up" and "ptbr1 s = up"
  shows "check_string hw a up s =
    Some (of_bool (\<exists>n < 256. (\<forall>j \<le> n. user_addr hw up s (uadd a j)) \<and> load hw s (uadd a n) = Some 0))"
  using check_string_from_eq [OF assms, of a 0 256]
  by (simp add: check_string_def MAX_CHECK_def)

section \<open>A fresh table\<close>

lemma new_user_pt_spec:
  assumes "hw_ok hw" and "heap_ok s"
  shows "\<exists>s'. new_user_pt hw s = Some (brk_next s, s') \<and> heap_ok s' \<and> live s' (brk_next s) \<and>
    upages hw (brk_next s) s' = (\<lambda>_. None) \<and> u_size (upts s' (brk_next s)) = 0 \<and>
    (\<forall>a. a \<noteq> brk_next s \<longrightarrow> upts s' a = upts s a) \<and>
    s' = s\<lparr>brk_next := Suc (brk_next s), alive := (alive s)(brk_next s := True), upts := upts s'\<rparr>"
proof -
  define up where "up = brk_next s"
  define s0 where "s0 = s\<lparr>brk_next := Suc up, alive := (alive s)(up := True)\<rparr>"
  have m: "malloc s = (up, s0)" by (simp add: malloc_def up_def s0_def)
  have up: "0 < up" "live s0 up" using assms(2) by (simp_all add: heap_ok_def up_def s0_def live_def)
  let ?body = "\<lambda>i. upd_upte hw up i (set_pte 0 NONE NONE)"
  let ?P = "\<lambda>n s'. \<exists>U. s' = s0\<lparr>upts := U\<rparr> \<and> (\<forall>a. a \<noteq> up \<longrightarrow> U a = upts s a) \<and>
    (\<forall>i. 0 \<le> i \<longrightarrow> i < n \<longrightarrow> pte_valid (u_pt (U up) i) = 0)"
  have "\<exists>s'. for_up 0 (NUM_PAGES_1 hw) ?body s0 = Some s' \<and> ?P (NUM_PAGES_1 hw) s'"
  proof (rule for_up_rule [where P = ?P])
    fix i s' assume i: "0 \<le> i" "i < NUM_PAGES_1 hw" and "?P i s'"
    then obtain U where U: "s' = s0\<lparr>upts := U\<rparr>" "\<forall>a. a \<noteq> up \<longrightarrow> U a = upts s a"
        "\<forall>j. 0 \<le> j \<longrightarrow> j < i \<longrightarrow> pte_valid (u_pt (U up) j) = 0" by blast
    then show "\<exists>s''. ?body i s' = Some s'' \<and> ?P (i + 1) s''"
      using up(2) i by (auto simp: upd_upte_live set_pte_def)
  qed (use region_1 [OF assms(1)] in \<open>auto simp: s0_def intro: exI [of _ "upts s"]\<close>)
  then obtain U where U: "for_up 0 (NUM_PAGES_1 hw) ?body s0 = Some (s0\<lparr>upts := U\<rparr>)"
      "\<forall>a. a \<noteq> up \<longrightarrow> U a = upts s a" "\<forall>j. 0 \<le> j \<longrightarrow> j < NUM_PAGES_1 hw \<longrightarrow> pte_valid (u_pt (U up) j) = 0"
    by blast
  have "new_user_pt hw s = Some (up, s0\<lparr>upts := U(up := (U up)\<lparr>u_size := 0\<rparr>)\<rparr>)"
    using U(1) up m for_up_shift [of "BASE_PAGE_1 hw" "LIM_PAGE_1 hw" ?body "BASE_PAGE_1 hw" s0] region_1 [OF assms(1)]
    by (simp add: new_user_pt_def upd_upt_def)
  with U(2,3) up assms(2) show ?thesis
    by (auto simp: s0_def up_def upages_def entries_def heap_ok_def live_def)
qed

end
