(* ===== verification/Address_Space.thy ===== *)
theory Address_Space
  imports Paging
begin

text \<open>
  Whole address spaces: copying a process's memory for \<open>fork\<close>, and moving the kernel's own
  break.
\<close>

section \<open>Copying user memory\<close>

definition dummy_index :: "hw \<Rightarrow> int" where
  "dummy_index hw = BASE_PAGE_KSTACK hw - 1 - BASE_PAGE_0 hw"

lemma dummy_index: "hw_ok hw \<Longrightarrow> 0 \<le> dummy_index hw" "hw_ok hw \<Longrightarrow> dummy_index hw < NUM_PAGES_0 hw"
  using dummy_page by (simp_all add: dummy_index_def)

text \<open>The pages of a table, and the frame and the protection of each.\<close>

definition mapped_pages :: "hw \<Rightarrow> addr \<Rightarrow> 'z mem_scheme \<Rightarrow> int set" where
  "mapped_pages hw up s = {i. upages hw up s i \<noteq> None}"

definition frame_of :: "hw \<Rightarrow> addr \<Rightarrow> 'z mem_scheme \<Rightarrow> int \<Rightarrow> int" where
  "frame_of hw up s i = fst (the (upages hw up s i))"

definition prot_of :: "hw \<Rightarrow> addr \<Rightarrow> 'z mem_scheme \<Rightarrow> int \<Rightarrow> int" where
  "prot_of hw up s i = snd (the (upages hw up s i))"

lemma mapped_pages_range: "i \<in> mapped_pages hw up s \<Longrightarrow> 0 \<le> i \<and> i < NUM_PAGES_1 hw"
  by (auto simp: mapped_pages_def upages_def dest: entries_bounds)

lemma finite_mapped_pages [simp]: "finite (mapped_pages hw up s)"
  by (rule finite_subset [of _ "{0..<NUM_PAGES_1 hw}"]) (auto dest: mapped_pages_range)

lemma mapped_pages_eq:
  "i \<in> mapped_pages hw up s \<Longrightarrow> upages hw up s i = Some (frame_of hw up s i, prot_of hw up s i)"
  by (auto simp: mapped_pages_def frame_of_def prot_of_def)

text \<open>One page of the copy, when the page is mapped.\<close>

lemma copy_user_page_step:
  assumes hw: "hw_ok hw" and live: "live s origin" "live s dst" and "ptbr1 s = origin" and "origin \<noteq> dst"
    and i: "upages hw origin s i = Some (g, prot)"
    and f: "get_frame hw NONE AUTO (free_frame s) = Some (f, ff)"
  shows "\<exists>K. copy_user_page hw origin dst (i + BASE_PAGE_1 hw) s =
    Some (s\<lparr>free_frame := ff, kernel_pt := (kernel_pt s)\<lparr>k_pt := (k_pt (kernel_pt s))(dummy_index hw := K)\<rparr>,
      pmem := (pmem s)(f := over_page hw (pmem s g) (pmem s f)),
      upts := (upts s)(dst := (upts s dst)\<lparr>u_pt := (u_pt (upts s dst))(i := set_pte 1 f prot K)\<rparr>)\<rparr>)"
proof -
  have e: "0 \<le> i" "i < NUM_PAGES_1 hw" "pte_valid (u_pt (upts s origin) i) \<noteq> 0"
    "pte_pfn (u_pt (upts s origin) i) = g" "pte_prot (u_pt (upts s origin) i) = prot"
    using i by (auto simp: upages_def entries_def split: if_splits)
  define K where "K = set_pte 1 f (PROT_RW hw) (k_pt (kernel_pt s) (dummy_index hw))"
  have K: "pte_valid K \<noteq> 0" "pte_pfn K = f" "K\<lparr>pte_prot := prot\<rparr> = set_pte 1 f prot K"
    by (simp_all add: K_def set_pte_def Let_def)
  let ?s1 = "s\<lparr>free_frame := ff, kernel_pt := (kernel_pt s)\<lparr>k_pt := (k_pt (kernel_pt s))(dummy_index hw := K)\<rparr>\<rparr>"
  have s1: "map_kpage hw (PROT_RW hw) (dummy_index hw) s = Some ?s1"
    using f dummy_index [OF hw] by (simp add: map_kpage_def upd_kpte_def K_def)
  let ?s2 = "?s1\<lparr>pmem := (pmem s)(f := over_page hw (pmem s g) (pmem s f))\<rparr>"
  have s2: "copy_page hw (BASE_PAGE_KSTACK hw - 1) (i + BASE_PAGE_1 hw) ?s1 = Some ?s2"
    using e K(1,2) dummy_index [OF hw] dummy_page [OF hw] live(1) assms(4)
    by (simp add: copy_page_def frame_at_def rd_kpte_def rd_upte_def dummy_index_def)
  have "rd_kpte hw ?s2 (dummy_index hw) = Some K"
    using dummy_index [OF hw] by (simp add: rd_kpte_def)
  with e s1 s2 live K(3) show ?thesis
    by (intro exI [of _ K])
      (simp add: copy_user_page_def Let_def rd_upte_def upd_upte_live flip: dummy_index_def)
qed

lemma copy_user_page_skip:
  "\<lbrakk>live s origin; 0 \<le> i; i < NUM_PAGES_1 hw; upages hw origin s i = None\<rbrakk> \<Longrightarrow>
   copy_user_page hw origin dst (i + BASE_PAGE_1 hw) s = Some s"
  by (auto simp: copy_user_page_def rd_upte_def upages_def entries_def Let_def split: if_splits)

text \<open>The copy of the pages \<open>V\<close>, relative to the state the loop starts from.\<close>

definition copied :: "hw \<Rightarrow> addr \<Rightarrow> addr \<Rightarrow> int set \<Rightarrow> 'z mem_scheme \<Rightarrow> 'z mem_scheme \<Rightarrow> bool" where
  "copied hw origin dst V s s' \<longleftrightarrow>
     (\<exists>ff K M U F. s' = s\<lparr>free_frame := ff,
        kernel_pt := (kernel_pt s)\<lparr>k_pt := (k_pt (kernel_pt s))(dummy_index hw := K)\<rparr>, pmem := M,
        upts := (upts s)(dst := (upts s dst)\<lparr>u_pt := U\<rparr>)\<rparr> \<and>
      frames_ok hw ff \<and> ff_size ff = ff_size (free_frame s) \<and> inj_on F V \<and>
      F ` V \<subseteq> pool hw (free_frame s) \<and> pool hw ff = pool hw (free_frame s) - F ` V \<and>
      entries (NUM_PAGES_1 hw) U = (\<lambda>j. if j \<in> V then Some (F j, prot_of hw origin s j) else None) \<and>
      (\<forall>j\<in>V. \<forall>k<PAGESIZE hw. M (F j) k = pmem s (frame_of hw origin s j) k) \<and>
      (\<forall>f. f \<notin> F ` V \<longrightarrow> M f = pmem s f))"

lemma copied_none:
  "frames_ok hw (free_frame s) \<Longrightarrow> upages hw dst s = (\<lambda>_. None) \<Longrightarrow> copied hw origin dst {} s s"
  unfolding copied_def
  by (intro exI [of _ "free_frame s"] exI [of _ "k_pt (kernel_pt s) (dummy_index hw)"]
      exI [of _ "pmem s"] exI [of _ "u_pt (upts s dst)"]) (simp add: upages_def)

lemma copied_more:
  assumes hw: "hw_ok hw" and inv: "u_inv hw origin s" and "live s dst" "ptbr1 s = origin" "origin \<noteq> dst"
    and c: "copied hw origin dst V s s'" and i: "i \<in> mapped_pages hw origin s" "i \<notin> V"
    and room: "finite V" "card V < card (pool hw (free_frame s))"
  shows "\<exists>s''. copy_user_page hw origin dst (i + BASE_PAGE_1 hw) s' = Some s'' \<and>
    copied hw origin dst (insert i V) s s''"
proof -
  obtain ff K M U F where s': "s' = s\<lparr>free_frame := ff,
        kernel_pt := (kernel_pt s)\<lparr>k_pt := (k_pt (kernel_pt s))(dummy_index hw := K)\<rparr>, pmem := M,
        upts := (upts s)(dst := (upts s dst)\<lparr>u_pt := U\<rparr>)\<rparr>"
    and ff: "frames_ok hw ff" "ff_size ff = ff_size (free_frame s)"
    and F: "inj_on F V" "F ` V \<subseteq> pool hw (free_frame s)" "pool hw ff = pool hw (free_frame s) - F ` V"
    and U: "entries (NUM_PAGES_1 hw) U = (\<lambda>j. if j \<in> V then Some (F j, prot_of hw origin s j) else None)"
    and M: "\<forall>j\<in>V. \<forall>k<PAGESIZE hw. M (F j) k = pmem s (frame_of hw origin s j) k" "\<forall>f. f \<notin> F ` V \<longrightarrow> M f = pmem s f"
    using c unfolding copied_def by (elim exE conjE) (rule that; assumption)
  let ?g = "frame_of hw origin s i" and ?p = "prot_of hw origin s i"
  have "card (F ` V) < card (pool hw (free_frame s))" using room F(1) by (simp add: card_image)
  then have "\<not> pool hw (free_frame s) \<subseteq> F ` V" 
    using card_mono [OF finite_imageI [OF room(1), of F], of "pool hw (free_frame s)"] by linarith
  then have "pool hw ff \<noteq> {}" using F(3) by simp
  then obtain f ff' where f: "get_frame hw NONE AUTO ff = Some (f, ff')" "frames_ok hw ff'" "f \<in> pool hw ff"
      "pool hw ff' = pool hw ff - {f}" "ff_size ff' = ff_size ff"
    using pool_take [OF ff(1)] by blast
  have live: "live s' origin" "live s' dst" "ptbr1 s' = origin" "free_frame s' = ff"
    using inv assms(3,4) by (simp_all add: s' u_inv_def)
  have o_i: "upages hw origin s i = Some (?g, ?p)" using i(1) by (rule mapped_pages_eq)
  then have "upages hw origin s' i = Some (?g, ?p)" using assms(5) by (simp add: s' upages_def)
  then obtain K' where step: "copy_user_page hw origin dst (i + BASE_PAGE_1 hw) s' = Some (s'\<lparr>free_frame := ff',
      kernel_pt := (kernel_pt s')\<lparr>k_pt := (k_pt (kernel_pt s'))(dummy_index hw := K')\<rparr>,
      pmem := (pmem s')(f := over_page hw (pmem s' ?g) (pmem s' f)),
      upts := (upts s')(dst := (upts s' dst)\<lparr>u_pt := (u_pt (upts s' dst))(i := set_pte 1 f ?p K')\<rparr>)\<rparr>)"
      (is "_ = Some ?s''")
    using copy_user_page_step [OF hw live(1,2,3) assms(5)] f(1) live(4) by blast
  have "?g \<in> used hw (free_frame s)" using inv o_i by (auto simp: u_inv_def sound_def)
  then have g: "?g \<notin> F ` V" "f \<noteq> ?g" using F(2,3) f(3) by (auto simp: pool_def)
  define M' where "M' = M(f := over_page hw (M ?g) (M f))"
  define U' where "U' = U(i := set_pte 1 f ?p K')"
  define F' where "F' = F(i := f)"
  have img: "F' ` insert i V = insert f (F ` V)" and fnew: "f \<notin> F ` V"
    using i(2) F(3) f(3) by (auto simp: F'_def image_def)
  have "?s'' = s\<lparr>free_frame := ff', kernel_pt := (kernel_pt s)\<lparr>k_pt := (k_pt (kernel_pt s))(dummy_index hw := K')\<rparr>,
      pmem := M', upts := (upts s)(dst := (upts s dst)\<lparr>u_pt := U'\<rparr>)\<rparr>"
    by (simp add: s' M'_def U'_def)
  moreover have "inj_on F' (insert i V)" using F(1) i(2) fnew by (auto simp: inj_on_def F'_def)
  moreover have "F' ` insert i V \<subseteq> pool hw (free_frame s)" "pool hw ff' = pool hw (free_frame s) - F' ` insert i V"
    unfolding img using F(2,3) f(3,4) by auto
  moreover have "entries (NUM_PAGES_1 hw) U' =
      (\<lambda>j. if j \<in> insert i V then Some (F' j, prot_of hw origin s j) else None)"
    using U mapped_pages_range [OF i(1)] i(2) by (auto simp: U'_def F'_def)
  moreover have "\<forall>j\<in>insert i V. \<forall>k<PAGESIZE hw. M' (F' j) k = pmem s (frame_of hw origin s j) k"
    using M g fnew i(2) by (auto simp: M'_def F'_def over_page_def)
  moreover have "\<forall>h. h \<notin> F' ` insert i V \<longrightarrow> M' h = pmem s h"
    unfolding img using M(2) by (auto simp: M'_def)
  ultimately have "copied hw origin dst (insert i V) s ?s''"
    unfolding copied_def using f(2,5) ff(2)
    by (intro exI [of _ ff'] exI [of _ K'] exI [of _ M'] exI [of _ U'] exI [of _ F'] conjI) simp_all
  with step show ?thesis by blast
qed

text \<open>
  The whole copy.  Every page of the origin has a page of its own in the copy, with the same
  protection and the same bytes; the origin and all other frames are as before; the break
  fields are copied and the size field is not.
\<close>

lemma copy_user_mem_spec:
  assumes hw: "hw_ok hw" and inv: "u_inv hw origin s" and dst: "live s dst" "origin \<noteq> dst"
    and cur: "ptbr1 s = origin" and fresh: "upages hw dst s = (\<lambda>_. None)"
    and room: "int (card (mapped_pages hw origin s)) \<le> frames_left (free_frame s)"
  shows "\<exists>s' F. copy_user_mem hw origin dst s = Some s' \<and>
    inj_on F (mapped_pages hw origin s) \<and> F ` mapped_pages hw origin s \<subseteq> pool hw (free_frame s) \<and>
    frames_ok hw (free_frame s') \<and>
    pool hw (free_frame s') = pool hw (free_frame s) - F ` mapped_pages hw origin s \<and>
    upages hw dst s' = (\<lambda>i. if i \<in> mapped_pages hw origin s then Some (F i, prot_of hw origin s i) else None) \<and>
    (\<forall>i\<in>mapped_pages hw origin s. \<forall>k<PAGESIZE hw. pmem s' (F i) k = pmem s (frame_of hw origin s i) k) \<and>
    (\<forall>f. f \<notin> F ` mapped_pages hw origin s \<longrightarrow> pmem s' f = pmem s f) \<and>
    (\<forall>a. a \<noteq> dst \<longrightarrow> upts s' a = upts s a) \<and> u_brk (upts s' dst) = u_brk (upts s origin) \<and>
    u_data_end (upts s' dst) = u_data_end (upts s origin) \<and>
    u_stack_low (upts s' dst) = u_stack_low (upts s origin) \<and> u_size (upts s' dst) = u_size (upts s dst) \<and>
    kpages hw s' = (kpages hw s)(dummy_index hw := None) \<and> same_heap s s' \<and>
    k_brk (kernel_pt s') = k_brk (kernel_pt s) \<and> kstacks s' = kstacks s \<and>
    (\<forall>i. i \<noteq> dummy_index hw \<longrightarrow> k_pt (kernel_pt s') i = k_pt (kernel_pt s) i)"
proof -
  let ?V = "mapped_pages hw origin s"
  let ?body = "\<lambda>i. copy_user_page hw origin dst (i + BASE_PAGE_1 hw)"
  have ok: "frames_ok hw (free_frame s)" using inv by (simp add: u_inv_def sound_def)
  have cardV: "card ?V \<le> card (pool hw (free_frame s))" using room card_pool [OF ok] by simp
  have "\<exists>s'. for_up 0 (NUM_PAGES_1 hw) ?body s = Some s' \<and> copied hw origin dst (?V \<inter> {..<NUM_PAGES_1 hw}) s s'"
  proof (rule for_up_rule [where P = "\<lambda>n. copied hw origin dst (?V \<inter> {..<n}) s"])
    show "copied hw origin dst (?V \<inter> {..<0}) s s"
    proof -
      have "?V \<inter> {..<0} = {}" by (auto dest: mapped_pages_range)
      with copied_none [OF ok fresh] show ?thesis by simp
    qed
  next
    fix i s' assume i: "0 \<le> i" "i < NUM_PAGES_1 hw" and c: "copied hw origin dst (?V \<inter> {..<i}) s s'"
    show "\<exists>s''. ?body i s' = Some s'' \<and> copied hw origin dst (?V \<inter> {..<i + 1}) s s''"
    proof (cases "i \<in> ?V")
      case True
      then have "?V \<inter> {..<i + 1} = insert i (?V \<inter> {..<i})" by auto
      moreover have "?V \<inter> {..<i} \<subset> ?V" using True by auto
      then have "card (?V \<inter> {..<i}) < card (pool hw (free_frame s))"
        using psubset_card_mono [OF finite_mapped_pages] cardV by (meson less_le_trans)
      ultimately show ?thesis
        using copied_more [OF hw inv dst(1) cur dst(2) c True] by simp
    next
      case False
      then have V: "?V \<inter> {..<i + 1} = ?V \<inter> {..<i}" by (auto simp: less_le)
      have "live s' origin" "upts s' origin = upts s origin"
        using c inv dst(2) unfolding copied_def by (auto simp: u_inv_def)
      moreover have "upages hw origin s i = None"
        using False i by (cases "upages hw origin s i") (simp_all add: mapped_pages_def)
      ultimately have "?body i s' = Some s'"
        using i by (intro copy_user_page_skip) (simp_all add: upages_def)
      with c V show ?thesis by simp
    qed
  qed (use region_1 [OF hw] in simp)
  moreover have "?V \<inter> {..<NUM_PAGES_1 hw} = ?V" by (auto dest: mapped_pages_range)
  ultimately obtain s1 where s1: "for_up 0 (NUM_PAGES_1 hw) ?body s = Some s1" "copied hw origin dst ?V s s1"
    by auto
  have loop: "for_up (BASE_PAGE_1 hw) (LIM_PAGE_1 hw) (copy_user_page hw origin dst) s = Some s1"
    using for_up_shift [of "BASE_PAGE_1 hw" "LIM_PAGE_1 hw" ?body "BASE_PAGE_1 hw" s] region_1 [OF hw] s1(1)
    by simp
  obtain ff K M U F where s1_eq: "s1 = s\<lparr>free_frame := ff,
        kernel_pt := (kernel_pt s)\<lparr>k_pt := (k_pt (kernel_pt s))(dummy_index hw := K)\<rparr>, pmem := M,
        upts := (upts s)(dst := (upts s dst)\<lparr>u_pt := U\<rparr>)\<rparr>"
    and F: "frames_ok hw ff" "ff_size ff = ff_size (free_frame s)" "inj_on F ?V" "F ` ?V \<subseteq> pool hw (free_frame s)"
      "pool hw ff = pool hw (free_frame s) - F ` ?V"
      "entries (NUM_PAGES_1 hw) U = (\<lambda>j. if j \<in> ?V then Some (F j, prot_of hw origin s j) else None)"
      "\<forall>j\<in>?V. \<forall>k<PAGESIZE hw. M (F j) k = pmem s (frame_of hw origin s j) k"
      "\<forall>f. f \<notin> F ` ?V \<longrightarrow> M f = pmem s f"
    using s1(2) unfolding copied_def by (elim exE conjE) (rule that; assumption)
  define K' where "K' = set_pte 0 NONE NONE K"
  define u where "u = (upts s dst)\<lparr>u_pt := U, u_brk := u_brk (upts s origin),
      u_data_end := u_data_end (upts s origin), u_stack_low := u_stack_low (upts s origin)\<rparr>"
  define s2 where "s2 = s\<lparr>free_frame := ff,
        kernel_pt := (kernel_pt s)\<lparr>k_pt := (k_pt (kernel_pt s))(dummy_index hw := K')\<rparr>, pmem := M,
        upts := (upts s)(dst := u)\<rparr>"
  have "live s origin" using inv by (simp add: u_inv_def)
  with loop dst dummy_index [OF hw] have "copy_user_mem hw origin dst s = Some s2"
    using dummy_page [OF hw] region_0 [OF hw]
    by (simp add: copy_user_mem_def Let_def upd_kpte_def upd_upt_def rd_upt_def s1_eq s2_def u_def K'_def
        flip: dummy_index_def)
  moreover have "kpages hw s2 = (kpages hw s)(dummy_index hw := None)"
    using dummy_index [OF hw] by (auto simp: kpages_def entries_def s2_def K'_def set_pte_def Let_def)
  moreover have "upages hw dst s2 = (\<lambda>i. if i \<in> ?V then Some (F i, prot_of hw origin s i) else None)"
    using F(6) by (simp add: upages_def s2_def u_def)
  ultimately show ?thesis
    using F by (intro exI [of _ s2] exI [of _ F]) (simp add: s2_def u_def same_heap_def)
qed

end
