(* ===== verification/Process.thy ===== *)
theory Process
  imports Address_Space
begin

text \<open>
  \<open>process.c\<close> and \<open>process.h\<close>: process control blocks, their creation, the copy a fork makes,
  and the two stages of their destruction.
\<close>

section \<open>Process control blocks\<close>

text \<open>The parts of \<open>UserContext\<close> that the kernel reads or writes; registers are 32 bits wide.\<close>

record user_context =
  uc_code :: int
  uc_addr :: nat
  uc_pc :: nat
  uc_sp :: nat
  uc_regs :: "nat \<Rightarrow> 32 word"

text \<open>
  \<open>KernelContext\<close> is opaque to the kernel: it holds the machine state of a kernel computation
  that was switched away from.  Here it is the place in the kernel where that happened,
  with the local variables that are used after the switch returns.  There is one constructor
  for each call in the source from which control can leave the kernel computation:
  \<open>KC_Clock\<close> in \<open>TrapClock\<close>, \<open>KC_Exit\<close> in \<open>KernelExit\<close>, \<open>KC_Fork\<close> after \<open>copy_kernel\<close> in
  \<open>KernelFork\<close>, \<open>KC_Start\<close> after it in \<open>idle_setup\<close>, and one for every call of \<open>block\<close>.
\<close>

datatype kernel_context =
    KC_None
  | KC_Start
  | KC_Clock
  | KC_Exit
  | KC_Fork addr addr                     \<comment> \<open>parent, child\<close>
  | KC_Wait addr addr                     \<comment> \<open>parent's control block, status_ptr\<close>
  | KC_Delay
  | KC_TtyWrite int addr nat int int      \<comment> \<open>tty_id, out, src, len, total\<close>
  | KC_TtyRead addr nat int               \<comment> \<open>in, dst, len\<close>
  | KC_PipeWrite addr nat int int int     \<comment> \<open>pipe, src, len, len_left, total\<close>
  | KC_PipeRead addr nat int              \<comment> \<open>pipe, dst, len\<close>
  | KC_Acquire addr                       \<comment> \<open>lock\<close>
  | KC_CvarWait addr addr                 \<comment> \<open>lock_n, lock\<close>
  | KC_CvarAcquire addr addr              \<comment> \<open>lock of acquire, lock of wait_cvar\<close>

record pcb =
  pcb_pid :: int
  pcb_parent :: addr
  pcb_a_children :: addr
  pcb_d_children :: addr
  pcb_userpt :: addr
  pcb_kstack :: addr
  pcb_uc :: user_context
  pcb_kc :: kernel_context

record proc_state = mem +
  pcbs :: "addr \<Rightarrow> pcb"
  pids :: "int list"

definition rd_pcb :: "'z proc_state_scheme \<Rightarrow> addr \<Rightarrow> pcb option" where
  "rd_pcb s a = (if live s a then Some (pcbs s a) else None)"

definition upd_pcb :: "addr \<Rightarrow> (pcb \<Rightarrow> pcb) \<Rightarrow> 'z proc_state_scheme \<Rightarrow> 'z proc_state_scheme option" where
  "upd_pcb a f s = (if live s a then Some (s\<lparr>pcbs := (pcbs s)(a := f (pcbs s a))\<rparr>) else None)"

text \<open>\<open>(pcb_t* ) proc->data\<close>, dereferenced.\<close>

definition pcb_of :: "'z proc_state_scheme \<Rightarrow> addr \<Rightarrow> pcb option" where
  "pcb_of s proc = do { n \<leftarrow> rd_node s proc; rd_pcb s (nd_data n) }"

section \<open>The operations\<close>

definition get_pid :: "addr \<Rightarrow> 'z proc_state_scheme \<Rightarrow> int option" where
  "get_pid proc s = do { p \<leftarrow> pcb_of s proc; Some (pcb_pid p) }"

definition get_parent :: "addr \<Rightarrow> 'z proc_state_scheme \<Rightarrow> addr option" where
  "get_parent proc s = do { p \<leftarrow> pcb_of s proc; Some (pcb_parent p) }"

text \<open>\<open>new_kstack\<close> is \<open>malloc(sizeof(kernel_stack_pt_t))\<close>, whose entries are left as they are.\<close>

definition process_init :: "hw \<Rightarrow> 'z proc_state_scheme \<Rightarrow> (addr \<times> 'z proc_state_scheme) option" where
  "process_init hw s = do {
     let (new_pcb, s) = malloc s;
     s \<leftarrow> upd_pcb new_pcb (\<lambda>p. p\<lparr>pcb_parent := NULL\<rparr>) s;
     (l, s) \<leftarrow> new_ll s;
     s \<leftarrow> upd_pcb new_pcb (\<lambda>p. p\<lparr>pcb_a_children := l\<rparr>) s;
     (l, s) \<leftarrow> new_ll s;
     s \<leftarrow> upd_pcb new_pcb (\<lambda>p. p\<lparr>pcb_d_children := l\<rparr>) s;
     (up, s) \<leftarrow> new_user_pt hw s;
     s \<leftarrow> upd_pcb new_pcb (\<lambda>p. p\<lparr>pcb_userpt := up\<rparr>) s;
     let (ks, s) = malloc s;
     s \<leftarrow> upd_pcb new_pcb (\<lambda>p. p\<lparr>pcb_kstack := ks\<rparr>) s;
     p \<leftarrow> rd_pcb s new_pcb;
     let pid = helper_new_pid hw (pids s) (pcb_userpt p);
     let s = s\<lparr>pids := pid # pids s\<rparr>;
     s \<leftarrow> upd_pcb new_pcb (\<lambda>p. p\<lparr>pcb_pid := pid\<rparr>) s;
     new_node new_pcb s
   }"

definition process_copy :: "hw \<Rightarrow> addr \<Rightarrow> 'z proc_state_scheme \<Rightarrow> (addr \<times> 'z proc_state_scheme) option" where
  "process_copy hw parent s = do {
     (child_node, s) \<leftarrow> process_init hw s;
     n \<leftarrow> rd_node s child_node;
     let child = nd_data n;
     n \<leftarrow> rd_node s parent;
     let parent_pcb = nd_data n;
     (child_copy, s) \<leftarrow> new_node child s;
     p \<leftarrow> rd_pcb s parent_pcb;
     s \<leftarrow> enqueue (pcb_a_children p) child_copy s;
     s \<leftarrow> upd_pcb child (\<lambda>c. c\<lparr>pcb_parent := parent\<rparr>) s;
     p \<leftarrow> rd_pcb s parent_pcb;
     s \<leftarrow> upd_pcb child (\<lambda>c. c\<lparr>pcb_uc := pcb_uc p\<rparr>) s;
     p \<leftarrow> rd_pcb s parent_pcb;
     c \<leftarrow> rd_pcb s child;
     s \<leftarrow> copy_user_mem hw (pcb_userpt p) (pcb_userpt c) s;
     Some (child_node, s)
   }"

definition process_destroy :: "hw \<Rightarrow> addr \<Rightarrow> 'z proc_state_scheme \<Rightarrow> 'z proc_state_scheme option" where
  "process_destroy hw proc s = do {
     n \<leftarrow> rd_node s proc;
     let p = nd_data n;
     x \<leftarrow> rd_pcb s p;
     s \<leftarrow> destroy_kstack hw (pcb_kstack x) s;
     x \<leftarrow> rd_pcb s p;
     s \<leftarrow> free (pcb_kstack x) s;
     x \<leftarrow> rd_pcb s p;
     s \<leftarrow> free (pcb_userpt x) s;
     destroy_node proc s
   }"

definition helper_retire_pid :: "int \<Rightarrow> 'z proc_state_scheme \<Rightarrow> 'z proc_state_scheme" where
  "helper_retire_pid pid s = s\<lparr>pids := removeAll pid (pids s)\<rparr>"

text \<open>
  The two loops of \<open>process_terminate\<close>: the first orphans the children and frees the nodes
  behind it, the second destroys the defunct children and then reads the link of the node it
  has just freed.
\<close>

partial_function (option) orphan_children ::
  "addr \<Rightarrow> addr \<Rightarrow> 'z proc_state_scheme \<Rightarrow> (addr \<times> 'z proc_state_scheme) option" where
  "orphan_children lst cur s =
     (if cur = NULL then Some (lst, s)
      else do {
        c \<leftarrow> rd_node s cur;
        s \<leftarrow> upd_pcb (nd_data c) (\<lambda>p. p\<lparr>pcb_parent := NULL\<rparr>) s;
        s \<leftarrow> free lst s;
        c \<leftarrow> rd_node s cur;
        orphan_children cur (nd_next c) s
      })"

partial_function (option) destroy_children ::
  "hw \<Rightarrow> addr \<Rightarrow> 'z proc_state_scheme \<Rightarrow> 'z proc_state_scheme option" where
  "destroy_children hw cur s =
     (if cur = NULL then Some s
      else do {
        s \<leftarrow> process_destroy hw cur s;
        c \<leftarrow> rd_node s cur;
        destroy_children hw (nd_next c) s
      })"

definition process_terminate :: "hw \<Rightarrow> addr \<Rightarrow> int \<Rightarrow> 'z proc_state_scheme \<Rightarrow> 'z proc_state_scheme option" where
  "process_terminate hw proc rc s = do {
     s \<leftarrow> upd_node proc (\<lambda>n. n\<lparr>nd_code := rc\<rparr>) s;
     n \<leftarrow> rd_node s proc;
     let p = nd_data n;
     x \<leftarrow> rd_pcb s p;
     let s = helper_retire_pid (pcb_pid x) s;
     s \<leftarrow> destroy_usermem hw (pcb_userpt x) s;
     x \<leftarrow> rd_pcb s p;
     L \<leftarrow> rd_ll s (pcb_a_children x);
     (lst, s) \<leftarrow> orphan_children NULL (ll_head L) s;
     s \<leftarrow> free lst s;
     x \<leftarrow> rd_pcb s p;
     s \<leftarrow> free (pcb_a_children x) s;
     s \<leftarrow> upd_pcb p (\<lambda>x. x\<lparr>pcb_a_children := NULL\<rparr>) s;
     x \<leftarrow> rd_pcb s p;
     L \<leftarrow> rd_ll s (pcb_d_children x);
     s \<leftarrow> destroy_children hw (ll_head L) s;
     x \<leftarrow> rd_pcb s p;
     s \<leftarrow> free (pcb_d_children x) s;
     upd_pcb p (\<lambda>x. x\<lparr>pcb_d_children := NULL\<rparr>) s
   }"

end
