(* ===== verification/Cswitch.thy ===== *)
theory Cswitch
  imports Process
begin

text \<open>
  \<open>cswitch.c\<close>: saving and restoring user contexts, switching between kernel contexts and
  copying one.  The state adds the process table, whose field \<open>running\<close> these functions
  use, and the two distinguished processes.
\<close>

section \<open>State\<close>

text \<open>\<open>proc_table_t\<close>; the table that \<open>procs\<close> points to is never freed.\<close>

record proc_table =
  running :: addr
  ready_ll :: addr
  waiting_ll :: addr
  delayed_ll :: addr
  orphans_ll :: addr

record sched = proc_state +
  procs :: proc_table
  idle_node :: addr
  init_node :: addr

section \<open>User contexts\<close>

definition save_uc :: "user_context \<Rightarrow> 'z sched_scheme \<Rightarrow> 'z sched_scheme option" where
  "save_uc uc s = do {
     n \<leftarrow> rd_node s (running (procs s));
     upd_pcb (nd_data n) (\<lambda>p. p\<lparr>pcb_uc := uc\<rparr>) s
   }"

text \<open>\<open>restore_uc\<close> gives the value that it stores at \<open>*uc\<close>.\<close>

definition restore_uc :: "'z sched_scheme \<Rightarrow> user_context option" where
  "restore_uc s = do { p \<leftarrow> pcb_of s (running (procs s)); Some (pcb_uc p) }"

definition set_reg0 :: "int \<Rightarrow> user_context \<Rightarrow> user_context" where
  "set_reg0 r u = u\<lparr>uc_regs := (uc_regs u)(0 := word_of_int r)\<rparr>"

definition add_return_val :: "int \<Rightarrow> 'z sched_scheme \<Rightarrow> 'z sched_scheme option" where
  "add_return_val r s = do {
     n \<leftarrow> rd_node s (running (procs s));
     upd_pcb (nd_data n) (\<lambda>p. p\<lparr>pcb_uc := set_reg0 r (pcb_uc p)\<rparr>) s
   }"

section \<open>Kernel contexts\<close>

text \<open>
  \<open>KCSwitch\<close> and \<open>KCCopy\<close> run between two kernel contexts; \<open>kc_in\<close> is the context they are
  called with.  A switch returns into the context stored in the next process, which is what
  \<open>KernelContextSwitch\<close> documents; the kernel resumes there.
\<close>

definition load_kstack_page :: "hw \<Rightarrow> addr \<Rightarrow> int \<Rightarrow> 'z sched_scheme \<Rightarrow> 'z sched_scheme option" where
  "load_kstack_page hw next_pcb vpn s = do {
     q \<leftarrow> rd_pcb s next_pcb;
     e \<leftarrow> rd_kstack hw s (pcb_kstack q) (vpn - BASE_PAGE_KSTACK hw);
     upd_kpte hw (vpn - BASE_PAGE_0 hw) (\<lambda>_. e) s
   }"

definition KCSwitch :: "hw \<Rightarrow> kernel_context \<Rightarrow> addr \<Rightarrow> addr \<Rightarrow> 'z sched_scheme \<Rightarrow> 'z sched_scheme option" where
  "KCSwitch hw kc_in curr_pcb next_pcb s = do {
     s \<leftarrow> upd_pcb curr_pcb (\<lambda>p. p\<lparr>pcb_kc := kc_in\<rparr>) s;
     s \<leftarrow> for_up (BASE_PAGE_KSTACK hw) (LIM_PAGE_KSTACK hw) (load_kstack_page hw next_pcb) s;
     q \<leftarrow> rd_pcb s next_pcb;
     Some (s\<lparr>ptbr1 := pcb_userpt q\<rparr>)
   }"

definition copy_kstack_page :: "hw \<Rightarrow> addr \<Rightarrow> int \<Rightarrow> 'z sched_scheme \<Rightarrow> 'z sched_scheme option" where
  "copy_kstack_page hw new_pcb vpn s = do {
     let dummy = BASE_PAGE_KSTACK hw - 1;
     s \<leftarrow> map_kpage hw (PROT_RW hw) (dummy - BASE_PAGE_0 hw) s;
     s \<leftarrow> copy_page hw dummy vpn s;
     q \<leftarrow> rd_pcb s new_pcb;
     e \<leftarrow> rd_kpte hw s (dummy - BASE_PAGE_0 hw);
     upd_kstack hw (pcb_kstack q) (vpn - BASE_PAGE_KSTACK hw) (\<lambda>_. e) s
   }"

definition KCCopy :: "hw \<Rightarrow> kernel_context \<Rightarrow> addr \<Rightarrow> 'z sched_scheme \<Rightarrow> 'z sched_scheme option" where
  "KCCopy hw kc_in new_pcb s = do {
     s \<leftarrow> upd_pcb new_pcb (\<lambda>p. p\<lparr>pcb_kc := kc_in\<rparr>) s;
     s \<leftarrow> for_up (BASE_PAGE_KSTACK hw) (LIM_PAGE_KSTACK hw) (copy_kstack_page hw new_pcb) s;
     let dummy = BASE_PAGE_KSTACK hw - 1;
     upd_kpte hw (dummy - BASE_PAGE_0 hw) (set_pte 0 NONE NONE) s
   }"

definition switch_proc :: "hw \<Rightarrow> kernel_context \<Rightarrow> addr \<Rightarrow> addr \<Rightarrow> 'z sched_scheme \<Rightarrow> 'z sched_scheme option" where
  "switch_proc hw kc from_n to_n s = do {
     f \<leftarrow> rd_node s from_n;
     t \<leftarrow> rd_node s to_n;
     KCSwitch hw kc (nd_data f) (nd_data t) s
   }"

definition copy_kernel :: "hw \<Rightarrow> kernel_context \<Rightarrow> addr \<Rightarrow> 'z sched_scheme \<Rightarrow> 'z sched_scheme option" where
  "copy_kernel hw kc child s = do { c \<leftarrow> rd_node s child; KCCopy hw kc (nd_data c) s }"

end
