(* ===== verification/Scheduling.thy ===== *)
theory Scheduling
  imports Cswitch
begin

text \<open>
  \<open>scheduling.c\<close>: the ready queue, blocking and waking, delays, the graveyard.  The functions
  that switch away take as an additional argument the kernel context \<open>kc\<close> in which their
  caller is left.
\<close>

section \<open>The operations\<close>

text \<open>
  What a kernel function that may switch does: it returns a value, it has switched to the
  process that is now running (and returns when that one resumes it), or the machine halts.
\<close>

datatype 'a outcome = Ret 'a | Switched | Halted

definition proc_table_init :: "'z sched_scheme \<Rightarrow> (proc_table \<times> 'z sched_scheme) option" where
  "proc_table_init s = do {
     let (_, s) = malloc s;
     (w, s) \<leftarrow> new_ll s;
     (r, s) \<leftarrow> new_ll s;
     (d, s) \<leftarrow> new_ll s;
     (p, s) \<leftarrow> new_ll s;
     Some (\<lparr>running = NULL, ready_ll = r, waiting_ll = w, delayed_ll = d, orphans_ll = p\<rparr>, s)
   }"

definition ready :: "addr \<Rightarrow> 'z sched_scheme \<Rightarrow> 'z sched_scheme option" where
  "ready proc s = enqueue (ready_ll (procs s)) proc s"

definition run_next :: "hw \<Rightarrow> kernel_context \<Rightarrow> addr \<Rightarrow> 'z sched_scheme \<Rightarrow> 'z sched_scheme option" where
  "run_next hw kc next_n s = do {
     let cur = running (procs s);
     let s = s\<lparr>procs := (procs s)\<lparr>running := next_n\<rparr>\<rparr>;
     switch_proc hw kc cur next_n s
   }"

definition run_next_ready :: "hw \<Rightarrow> kernel_context \<Rightarrow> 'z sched_scheme \<Rightarrow> 'z sched_scheme option" where
  "run_next_ready hw kc s = do {
     e \<leftarrow> is_empty (ready_ll (procs s)) s;
     (next_n, s) \<leftarrow> (if e \<noteq> 0 then Some (idle_node s, s) else dequeue (ready_ll (procs s)) s);
     run_next hw kc next_n s
   }"

definition preempt :: "hw \<Rightarrow> kernel_context \<Rightarrow> addr \<Rightarrow> 'z sched_scheme \<Rightarrow> 'z sched_scheme option" where
  "preempt hw kc next_n s = do {
     s \<leftarrow> (if running (procs s) \<noteq> idle_node s then ready (running (procs s)) s else Some s);
     run_next hw kc next_n s
   }"

definition rr_preempt :: "hw \<Rightarrow> kernel_context \<Rightarrow> 'z sched_scheme \<Rightarrow> (unit outcome \<times> 'z sched_scheme) option" where
  "rr_preempt hw kc s = do {
     e \<leftarrow> is_empty (ready_ll (procs s)) s;
     if e \<noteq> 0 then Some (Ret (), s) else do {
       s \<leftarrow> (if running (procs s) \<noteq> idle_node s then ready (running (procs s)) s else Some s);
       s \<leftarrow> run_next_ready hw kc s;
       Some (Switched, s)
     }
   }"

definition unblock :: "addr \<Rightarrow> addr \<Rightarrow> 'z sched_scheme \<Rightarrow> 'z sched_scheme option" where
  "unblock blocked proc s = do {
     e \<leftarrow> is_empty blocked s;
     if e \<noteq> 0 then Some s else do {
       (n, s) \<leftarrow> remove_ll blocked proc s;
       ready n s
     }
   }"

definition unblock_head :: "addr \<Rightarrow> 'z sched_scheme \<Rightarrow> 'z sched_scheme option" where
  "unblock_head blocked s = do { L \<leftarrow> rd_ll s blocked; unblock blocked (ll_head L) s }"

partial_function (option) unblock_all :: "addr \<Rightarrow> 'z sched_scheme \<Rightarrow> 'z sched_scheme option" where
  "unblock_all blocked s = do {
     e \<leftarrow> is_empty blocked s;
     if e \<noteq> 0 then Some s else do {
       (n, s) \<leftarrow> dequeue blocked s;
       s \<leftarrow> ready n s;
       unblock_all blocked s
     }
   }"

definition block :: "hw \<Rightarrow> kernel_context \<Rightarrow> addr \<Rightarrow> 'z sched_scheme \<Rightarrow> 'z sched_scheme option" where
  "block hw kc block_list s = do {
     s \<leftarrow> enqueue block_list (running (procs s)) s;
     run_next_ready hw kc s
   }"

definition h_block :: "hw \<Rightarrow> kernel_context \<Rightarrow> addr \<Rightarrow> 'z sched_scheme \<Rightarrow> 'z sched_scheme option" where
  "h_block hw kc block_list s = do {
     s \<leftarrow> push block_list (running (procs s)) s;
     run_next_ready hw kc s
   }"

definition block_wait :: "hw \<Rightarrow> kernel_context \<Rightarrow> 'z sched_scheme \<Rightarrow> 'z sched_scheme option" where
  "block_wait hw kc s = block hw kc (waiting_ll (procs s)) s"

definition check_wait :: "addr \<Rightarrow> 'z sched_scheme \<Rightarrow> 'z sched_scheme option" where
  "check_wait parent s = do {
     m \<leftarrow> has_member (waiting_ll (procs s)) parent s;
     if m \<noteq> 0 then unblock (waiting_ll (procs s)) parent s else Some s
   }"

definition block_delay :: "hw \<Rightarrow> kernel_context \<Rightarrow> int \<Rightarrow> 'z sched_scheme \<Rightarrow> 'z sched_scheme option" where
  "block_delay hw kc delay s = do {
     s \<leftarrow> upd_node (running (procs s)) (\<lambda>n. n\<lparr>nd_code := delay\<rparr>) s;
     block hw kc (delayed_ll (procs s)) s
   }"

partial_function (option) check_delay_from :: "addr \<Rightarrow> 'z sched_scheme \<Rightarrow> 'z sched_scheme option" where
  "check_delay_from cur s =
     (if cur = NULL then Some s
      else do {
        s \<leftarrow> upd_node cur (\<lambda>n. n\<lparr>nd_code := nd_code n - 1\<rparr>) s;
        c \<leftarrow> rd_node s cur;
        s \<leftarrow> (if nd_code c = 0 then unblock (delayed_ll (procs s)) cur s else Some s);
        c \<leftarrow> rd_node s cur;
        check_delay_from (nd_next c) s
      })"

definition check_delay :: "'z sched_scheme \<Rightarrow> 'z sched_scheme option" where
  "check_delay s = do { L \<leftarrow> rd_ll s (delayed_ll (procs s)); check_delay_from (ll_head L) s }"

definition graveyard :: "hw \<Rightarrow> kernel_context \<Rightarrow> 'z sched_scheme \<Rightarrow> 'z sched_scheme option" where
  "graveyard hw kc s = do {
     parent \<leftarrow> get_parent (running (procs s)) s;
     s \<leftarrow> (if parent \<noteq> NULL then do {
            p \<leftarrow> pcb_of s parent;
            s \<leftarrow> enqueue (pcb_d_children p) (running (procs s)) s;
            check_wait parent s
          } else enqueue (orphans_ll (procs s)) (running (procs s)) s);
     run_next_ready hw kc s
   }"

definition defunct_blocked :: "addr \<Rightarrow> addr \<Rightarrow> 'z sched_scheme \<Rightarrow> 'z sched_scheme option" where
  "defunct_blocked blocked proc s = do {
     (_, s) \<leftarrow> remove_ll blocked proc s;
     parent \<leftarrow> get_parent proc s;
     if parent \<noteq> NULL then do {
       p \<leftarrow> pcb_of s parent;
       s \<leftarrow> enqueue (pcb_d_children p) proc s;
       check_wait parent s
     } else enqueue (orphans_ll (procs s)) proc s
   }"

partial_function (option) reap_orphans :: "hw \<Rightarrow> 'z sched_scheme \<Rightarrow> 'z sched_scheme option" where
  "reap_orphans hw s = do {
     e \<leftarrow> is_empty (orphans_ll (procs s)) s;
     if e \<noteq> 0 then Some s else do {
       (n, s) \<leftarrow> dequeue (orphans_ll (procs s)) s;
       s \<leftarrow> process_destroy hw n s;
       reap_orphans hw s
     }
   }"

end
