(* ===== verification/Scheduler_Spec.thy ===== *)
theory Scheduler_Spec
  imports Scheduling
begin

section \<open>Processes that can be switched to\<close>

text \<open>A process node with everything a switch to or from it reads.\<close>

definition proc_ok :: "'z proc_state_scheme \<Rightarrow> addr \<Rightarrow> bool" where
  "proc_ok s n \<longleftrightarrow> live s n \<and> live s (nd_data (nodes s n)) \<and>
     live s (pcb_kstack (pcbs s (nd_data (nodes s n)))) \<and> live s (pcb_userpt (pcbs s (nd_data (nodes s n))))"

lemma proc_okD:
  assumes "proc_ok s n"
  shows "live s n" "live s (nd_data (nodes s n))" "n \<noteq> NULL"
  using assms by (auto simp: proc_ok_def dest: live_pos)

abbreviation the_pcb :: "'z proc_state_scheme \<Rightarrow> addr \<Rightarrow> pcb" where
  "the_pcb s n \<equiv> pcbs s (nd_data (nodes s n))"

lemma rd_pcb_live [simp]: "live s a \<Longrightarrow> rd_pcb s a = Some (pcbs s a)"
  by (simp add: rd_pcb_def)

lemma upd_pcb_live [simp]: "live s a \<Longrightarrow> upd_pcb a f s = Some (s\<lparr>pcbs := (pcbs s)(a := f (pcbs s a))\<rparr>)"
  by (simp add: upd_pcb_def)

lemma pcb_of_ok [simp]: "proc_ok s n \<Longrightarrow> pcb_of s n = Some (the_pcb s n)"
  by (simp add: pcb_of_def proc_ok_def)

lemma live_proc [simp]:
  "live (s\<lparr>pcbs := P\<rparr>) a = live s a" "live (s\<lparr>pids := I\<rparr>) a = live s a" "live (s\<lparr>procs := T\<rparr>) a = live s a"
  by (simp_all add: live_def)

text \<open>The kernel's table with the stack pages of a process in place.\<close>

definition with_kstack :: "hw \<Rightarrow> (int \<Rightarrow> pte) \<Rightarrow> int set \<Rightarrow> (int \<Rightarrow> pte) \<Rightarrow> int \<Rightarrow> pte" where
  "with_kstack hw ks V pt = (\<lambda>i. if i + BASE_PAGE_0 hw - BASE_PAGE_KSTACK hw \<in> V
     then ks (i + BASE_PAGE_0 hw - BASE_PAGE_KSTACK hw) else pt i)"

lemma KCSwitch_eq:
  assumes hw: "hw_ok hw" and "live s cur_pcb" "live s next_pcb" "live s (pcb_kstack (pcbs s next_pcb))"
  shows "KCSwitch hw kc cur_pcb next_pcb s = Some (s\<lparr>
     pcbs := (pcbs s)(cur_pcb := (pcbs s cur_pcb)\<lparr>pcb_kc := kc\<rparr>),
     kernel_pt := (kernel_pt s)\<lparr>k_pt := with_kstack hw (kstacks s (pcb_kstack (pcbs s next_pcb)))
       {0..<NUM_KSTACK_PAGES hw} (k_pt (kernel_pt s))\<rparr>,
     ptbr1 := pcb_userpt (pcbs s next_pcb)\<rparr>)"
proof -
  let ?ks = "kstacks s (pcb_kstack (pcbs s next_pcb))"
  let ?s = "s\<lparr>pcbs := (pcbs s)(cur_pcb := (pcbs s cur_pcb)\<lparr>pcb_kc := kc\<rparr>)\<rparr>"
  let ?P = "\<lambda>v s'. s' = ?s\<lparr>kernel_pt := (kernel_pt s)\<lparr>k_pt :=
     with_kstack hw ?ks {0..<v - BASE_PAGE_KSTACK hw} (k_pt (kernel_pt s))\<rparr>\<rparr>"
  have "\<exists>s'. for_up (BASE_PAGE_KSTACK hw) (LIM_PAGE_KSTACK hw) (load_kstack_page hw next_pcb) ?s = Some s' \<and>
      ?P (LIM_PAGE_KSTACK hw) s'"
  proof (rule for_up_rule [where P = ?P])
    fix v s' assume v: "BASE_PAGE_KSTACK hw \<le> v" "v < LIM_PAGE_KSTACK hw" and s': "?P v s'"
    have "{0..<v + 1 - BASE_PAGE_KSTACK hw} = insert (v - BASE_PAGE_KSTACK hw) {0..<v - BASE_PAGE_KSTACK hw}"
      using v by auto
    moreover have "with_kstack hw ?ks (insert (v - BASE_PAGE_KSTACK hw) V) pt =
        (with_kstack hw ?ks V pt)(v - BASE_PAGE_0 hw := ?ks (v - BASE_PAGE_KSTACK hw))" for V pt
      by (auto simp: with_kstack_def fun_eq_iff)
    moreover have "0 \<le> v - BASE_PAGE_0 hw" "v - BASE_PAGE_0 hw < NUM_PAGES_0 hw"
        "v - BASE_PAGE_KSTACK hw < NUM_KSTACK_PAGES hw"
      using v region_0 [OF hw] by linarith+
    ultimately show "\<exists>s''. load_kstack_page hw next_pcb v s' = Some s'' \<and> ?P (v + 1) s''"
      using s' v(1) assms(2-4) by (cases "next_pcb = cur_pcb")
        (simp_all add: load_kstack_page_def rd_kstack_def upd_kpte_def)
  next
    show "?P (BASE_PAGE_KSTACK hw) ?s" by (simp add: with_kstack_def)
  qed (use region_0 [OF hw] in simp)
  with assms(2,3) region_0(5) [OF hw] show ?thesis by (auto simp: KCSwitch_def)
qed

section \<open>What a scheduling operation leaves alone\<close>

definition sched_frame :: "hw \<Rightarrow> 'z sched_scheme \<Rightarrow> 'z sched_scheme \<Rightarrow> bool" where
  "sched_frame hw s s' \<longleftrightarrow>
     brk_next s' = brk_next s \<and> alive s' = alive s \<and>
     (\<forall>m. nd_data (nodes s' m) = nd_data (nodes s m) \<and> nd_code (nodes s' m) = nd_code (nodes s m)) \<and>
     free_frame s' = free_frame s \<and> upts s' = upts s \<and> kstacks s' = kstacks s \<and> pmem s' = pmem s \<and>
     vm_enable s' = vm_enable s \<and> k_brk (kernel_pt s') = k_brk (kernel_pt s) \<and>
     (\<forall>i. i + BASE_PAGE_0 hw < BASE_PAGE_KSTACK hw \<longrightarrow> k_pt (kernel_pt s') i = k_pt (kernel_pt s) i) \<and>
     (\<forall>a. (pcbs s' a)\<lparr>pcb_kc := KC_None\<rparr> = (pcbs s a)\<lparr>pcb_kc := KC_None\<rparr>) \<and> pids s' = pids s \<and>
     (procs s')\<lparr>running := NULL\<rparr> = (procs s)\<lparr>running := NULL\<rparr> \<and>
     idle_node s' = idle_node s \<and> init_node s' = init_node s \<and> sched.more s' = sched.more s"

lemma sched_frame_refl [simp]: "sched_frame hw s s"
  by (simp add: sched_frame_def)

lemma sched_frame_trans: "sched_frame hw s s' \<Longrightarrow> sched_frame hw s' s'' \<Longrightarrow> sched_frame hw s s''"
  by (simp add: sched_frame_def)

lemma sched_frame_pcb:
  assumes "sched_frame hw s s'"
  shows "pcb_pid (pcbs s' a) = pcb_pid (pcbs s a)" "pcb_parent (pcbs s' a) = pcb_parent (pcbs s a)"
    "pcb_a_children (pcbs s' a) = pcb_a_children (pcbs s a)"
    "pcb_d_children (pcbs s' a) = pcb_d_children (pcbs s a)"
    "pcb_userpt (pcbs s' a) = pcb_userpt (pcbs s a)" "pcb_kstack (pcbs s' a) = pcb_kstack (pcbs s a)"
    "pcb_uc (pcbs s' a) = pcb_uc (pcbs s a)"
proof -
  have e: "(pcbs s' a)\<lparr>pcb_kc := KC_None\<rparr> = (pcbs s a)\<lparr>pcb_kc := KC_None\<rparr>"
    using assms by (simp add: sched_frame_def)
  show "pcb_pid (pcbs s' a) = pcb_pid (pcbs s a)" using arg_cong [OF e, of pcb_pid] by simp
  show "pcb_parent (pcbs s' a) = pcb_parent (pcbs s a)" using arg_cong [OF e, of pcb_parent] by simp
  show "pcb_a_children (pcbs s' a) = pcb_a_children (pcbs s a)" using arg_cong [OF e, of pcb_a_children] by simp
  show "pcb_d_children (pcbs s' a) = pcb_d_children (pcbs s a)" using arg_cong [OF e, of pcb_d_children] by simp
  show "pcb_userpt (pcbs s' a) = pcb_userpt (pcbs s a)" using arg_cong [OF e, of pcb_userpt] by simp
  show "pcb_kstack (pcbs s' a) = pcb_kstack (pcbs s a)" using arg_cong [OF e, of pcb_kstack] by simp
  show "pcb_uc (pcbs s' a) = pcb_uc (pcbs s a)" using arg_cong [OF e, of pcb_uc] by simp
qed

lemma sched_frameD:
  assumes "sched_frame hw s s'"
  shows "live s' a = live s a" "nd_data (nodes s' m) = nd_data (nodes s m)"
    "nd_code (nodes s' m) = nd_code (nodes s m)"
    "ready_ll (procs s') = ready_ll (procs s)" "waiting_ll (procs s') = waiting_ll (procs s)"
    "delayed_ll (procs s') = delayed_ll (procs s)" "orphans_ll (procs s') = orphans_ll (procs s)"
    "idle_node s' = idle_node s" "init_node s' = init_node s" "sched.more s' = sched.more s"
    "proc_ok s' n = proc_ok s n"
proof -
  show l: "live s' a = live s a" for a using assms by (simp add: sched_frame_def live_def)
  show d: "nd_data (nodes s' m) = nd_data (nodes s m)" for m using assms by (simp add: sched_frame_def)
  have p: "(procs s')\<lparr>running := NULL\<rparr> = (procs s)\<lparr>running := NULL\<rparr>" using assms by (simp add: sched_frame_def)
  show "ready_ll (procs s') = ready_ll (procs s)" using arg_cong [OF p, of ready_ll] by simp
  show "waiting_ll (procs s') = waiting_ll (procs s)" using arg_cong [OF p, of waiting_ll] by simp
  show "delayed_ll (procs s') = delayed_ll (procs s)" using arg_cong [OF p, of delayed_ll] by simp
  show "orphans_ll (procs s') = orphans_ll (procs s)" using arg_cong [OF p, of orphans_ll] by simp
  show "proc_ok s' n = proc_ok s n" by (simp add: proc_ok_def l d sched_frame_pcb [OF assms])
qed (use assms in \<open>simp_all add: sched_frame_def\<close>)

lemma links_sched_frame:
  assumes "links_only s s'"
  shows "sched_frame hw s s'" "procs s' = procs s"
proof -
  obtain N L where s': "s' = s\<lparr>nodes := N, lls := L\<rparr>" using assms by (auto simp: links_only_def)
  show "procs s' = procs s" by (simp add: s')
  show "sched_frame hw s s'" using links_onlyD(4,5) [OF assms] by (auto simp: s' sched_frame_def)
qed

section \<open>The scheduler's invariant\<close>

text \<open>
  \<open>Q\<close> gives the nodes of every list of the kernel and \<open>B\<close> the lists that hold processes.  The
  process that runs and the idle process are on no list.  While a process is being put away
  it is both running and on a list: \<open>sched_mid\<close>.
\<close>

definition sched_mid :: "'z sched_scheme \<Rightarrow> (addr \<rightharpoonup> addr list) \<Rightarrow> addr set \<Rightarrow> bool" where
  "sched_mid s Q B \<longleftrightarrow>
     lists_ok s Q \<and> B \<subseteq> dom Q \<and>
     {ready_ll (procs s), waiting_ll (procs s), delayed_ll (procs s), orphans_ll (procs s)} \<subseteq> B \<and>
     distinct [ready_ll (procs s), waiting_ll (procs s), delayed_ll (procs s), orphans_ll (procs s)] \<and>
     (\<forall>l\<in>B. \<forall>n\<in>set (the (Q l)). proc_ok s n) \<and>
     proc_ok s (running (procs s)) \<and> proc_ok s (idle_node s) \<and> \<not> queued Q (idle_node s)"

definition sched_inv :: "'z sched_scheme \<Rightarrow> (addr \<rightharpoonup> addr list) \<Rightarrow> addr set \<Rightarrow> bool" where
  "sched_inv s Q B \<longleftrightarrow> sched_mid s Q B \<and> \<not> queued Q (running (procs s))"

abbreviation ready_of :: "'z sched_scheme \<Rightarrow> (addr \<rightharpoonup> addr list) \<Rightarrow> addr list" where
  "ready_of s Q \<equiv> the (Q (ready_ll (procs s)))"

lemma sched_midD:
  assumes "sched_mid s Q B"
  shows "lists_ok s Q" "proc_ok s (running (procs s))" "proc_ok s (idle_node s)" "\<not> queued Q (idle_node s)"
    "ready_ll (procs s) \<in> B" "waiting_ll (procs s) \<in> B" "delayed_ll (procs s) \<in> B" "orphans_ll (procs s) \<in> B"
    "Q (ready_ll (procs s)) = Some (ready_of s Q)" "l \<in> B \<Longrightarrow> Q l = Some (the (Q l))"
    "l \<in> B \<Longrightarrow> n \<in> set (the (Q l)) \<Longrightarrow> proc_ok s n"
    "ready_ll (procs s) \<noteq> waiting_ll (procs s)" "ready_ll (procs s) \<noteq> delayed_ll (procs s)"
    "ready_ll (procs s) \<noteq> orphans_ll (procs s)"
  using assms by (auto simp: sched_mid_def)

lemma sched_invD:
  assumes "sched_inv s Q B"
  shows "sched_mid s Q B" "\<not> queued Q (running (procs s))" "lists_ok s Q"
    "proc_ok s (running (procs s))" "proc_ok s (idle_node s)"
  using assms by (simp_all add: sched_inv_def sched_mid_def)

text \<open>The invariant after an operation that moved nodes between lists.\<close>

lemma sched_mid_step:
  assumes "sched_mid s Q B" and "lists_ok s' Q'" and "sched_frame hw s s'" and "dom Q \<subseteq> dom Q'"
    and "\<And>l n. l \<in> B \<Longrightarrow> n \<in> set (the (Q' l)) \<Longrightarrow> proc_ok s n"
    and "proc_ok s (running (procs s'))" and "\<not> queued Q' (idle_node s)"
  shows "sched_mid s' Q' B"
proof -
  have "B \<subseteq> dom Q" using assms(1) by (simp add: sched_mid_def)
  then have "B \<subseteq> dom Q'" using assms(4) by (rule subset_trans)
  with assms show ?thesis unfolding sched_mid_def by (simp add: sched_frameD [OF assms(3)])
qed

lemma queued_upd: "queued (Q(l \<mapsto> xs)) n \<longleftrightarrow> n \<in> set xs \<or> queued (Q(l := None)) n"
  by (auto simp: queued_def split: if_splits)

lemma queued_sub: "queued (Q(l := None)) n \<Longrightarrow> queued Q n"
  by (auto simp: queued_def split: if_splits)

lemma not_queued_sub: "\<not> queued Q n \<Longrightarrow> n \<notin> set xs \<Longrightarrow> \<not> queued (Q(l \<mapsto> xs)) n"
  by (auto simp: queued_upd dest: queued_sub)

section \<open>Switching\<close>

text \<open>
  What a switch does: the process that ran is left in the kernel context \<open>kc\<close>, the next one
  runs on its own page table and its own kernel stack.
\<close>

definition switched :: "hw \<Rightarrow> kernel_context \<Rightarrow> 'z sched_scheme \<Rightarrow> 'z sched_scheme \<Rightarrow> addr \<Rightarrow> bool" where
  "switched hw kc s s' n \<longleftrightarrow>
     running (procs s') = n \<and> sched_frame hw s s' \<and>
     pcbs s' = (pcbs s)(nd_data (nodes s (running (procs s))) := (the_pcb s (running (procs s)))\<lparr>pcb_kc := kc\<rparr>) \<and>
     ptbr1 s' = pcb_userpt (the_pcb s n) \<and>
     (\<forall>i. 0 \<le> i \<longrightarrow> i < NUM_KSTACK_PAGES hw \<longrightarrow>
        k_pt (kernel_pt s') (i + BASE_PAGE_KSTACK hw - BASE_PAGE_0 hw) = kstacks s (pcb_kstack (the_pcb s n)) i)"

lemma run_next_ok:
  assumes hw: "hw_ok hw" and "proc_ok s (running (procs s))" and "proc_ok s n"
  shows "\<exists>s'. run_next hw kc n s = Some s' \<and> switched hw kc s s' n \<and>
    nodes s' = nodes s \<and> lls s' = lls s \<and> alive s' = alive s"
  using assms(2,3)
  by (auto simp: run_next_def switch_proc_def KCSwitch_eq [OF hw] proc_ok_def switched_def sched_frame_def
      with_kstack_def)

lemma lists_ok_same:
  assumes "lists_ok s Q" and "nodes s' = nodes s" and "lls s' = lls s" and "alive s' = alive s"
  shows "lists_ok s' Q"
proof (rule lists_ok_cong [OF assms(1)])
  have l: "live s' a = live s a" for a by (simp add: live_def assms(4))
  show "live s' l \<and> lls s' l = lls s l" if "l \<in> dom Q" for l
    using that assms(3) lists_ok_hdr [OF assms(1)] by (auto simp: l)
  show "live s' n \<and> nodes s' n = nodes s n" if "queued Q n" for n
    using that assms(2) lists_ok_live [OF assms(1)] by (simp add: l)
qed

lemma switched_links:
  assumes "links_only s s1" and "switched hw kc s1 s' n"
  shows "switched hw kc s s' n"
proof -
  have p: "procs s1 = procs s" "sched_frame hw s s1" using links_sched_frame [OF assms(1)] by auto
  obtain N L where s1: "s1 = s\<lparr>nodes := N, lls := L\<rparr>" using assms(1) by (auto simp: links_only_def)
  have d: "nd_data (N m) = nd_data (nodes s m)" for m using links_onlyD(4) [OF assms(1)] by (simp add: s1)
  have "sched_frame hw s s'" using p(2) assms(2) by (auto simp: switched_def intro: sched_frame_trans)
  with assms(2) show ?thesis by (simp add: switched_def s1 d)
qed

definition next_up :: "'z sched_scheme \<Rightarrow> (addr \<rightharpoonup> addr list) \<Rightarrow> addr" where
  "next_up s Q = (case ready_of s Q of [] \<Rightarrow> idle_node s | n # _ \<Rightarrow> n)"

text \<open>The next process: the head of the ready queue, or the idle process when it is empty.\<close>

lemma run_next_ready_ok:
  assumes hw: "hw_ok hw" and mid: "sched_mid s Q B"
  shows "\<exists>s'. run_next_ready hw kc s = Some s' \<and> switched hw kc s s' (next_up s Q) \<and>
    sched_inv s' (Q(ready_ll (procs s) \<mapsto> tl (ready_of s Q))) B"
proof -
  note M = sched_midD [OF mid]
  let ?r = "ready_ll (procs s)"
  have size: "ll_size (lls s ?r) = int (length (ready_of s Q))" "live s ?r" "?r \<noteq> NULL"
    using ll_atD(1,2,8) [OF lists_okD [OF M(1,9)]] by auto
  show ?thesis
  proof (cases "ready_of s Q")
    case Nil
    obtain s' where s': "run_next hw kc (idle_node s) s = Some s'" "switched hw kc s s' (idle_node s)"
        "nodes s' = nodes s \<and> lls s' = lls s \<and> alive s' = alive s"
      using run_next_ok [OF hw M(2,3)] by blast
    have "Q(?r \<mapsto> tl (ready_of s Q)) = Q" using M(9) Nil by auto
    moreover have "lists_ok s' Q" using lists_ok_same [OF M(1)] s'(3) by blast
    moreover from this have "sched_mid s' Q B"
      by (rule sched_mid_step [OF mid]) (use M s'(2) in \<open>auto simp: switched_def\<close>)
    moreover have "running (procs s') = idle_node s" using s'(2) by (simp add: switched_def)
    moreover have "run_next_ready hw kc s = run_next hw kc (idle_node s) s"
      using size Nil by (simp add: run_next_ready_def is_empty_def live_pos)
    ultimately show ?thesis using s' M(4) Nil by (auto simp: sched_inv_def next_up_def)
  next
    case (Cons n R)
    have Qr: "Q ?r = Some (n # R)" using M(9) Cons by simp
    obtain s1 where s1: "dequeue ?r s = Some (n, s1)" "lists_ok s1 (Q(?r \<mapsto> R))" "links_only s s1"
      using dequeue_ok [OF M(1) Qr] by blast
    note F = links_sched_frame [OF s1(3)]
    have ok: "proc_ok s1 (running (procs s1))" "proc_ok s1 n"
      using M(2) M(11) [OF M(5), of n] Cons by (simp_all add: sched_frameD [OF F(1)] F(2))
    obtain s' where s': "run_next hw kc n s1 = Some s'" "switched hw kc s1 s' n"
        "nodes s' = nodes s1 \<and> lls s' = lls s1 \<and> alive s' = alive s1"
      using run_next_ok [OF hw ok] by blast
    have sw: "switched hw kc s s' n" using switched_links [OF s1(3) s'(2)] .
    have "\<not> queued (Q(?r \<mapsto> R)) (idle_node s)"
      using M(4) Qr by (intro not_queued_sub) (auto dest: not_queuedD)
    moreover have "\<not> queued (Q(?r \<mapsto> R)) n"
      using nodeq.taken_out [OF M(1), of ?r "[]" n R] Qr by simp
    moreover have "lists_ok s' (Q(?r \<mapsto> R))" using lists_ok_same [OF s1(2)] s'(3) by blast
    moreover from this have "sched_mid s' (Q(?r \<mapsto> R)) B"
      by (rule sched_mid_step [OF mid])
        (use M Cons sw calculation(1) in \<open>auto simp: switched_def split: if_splits\<close>)
    moreover have "run_next_ready hw kc s = run_next hw kc n s1"
      using size Cons s1(1) by (auto simp: run_next_ready_def is_empty_def)
    ultimately show ?thesis using s' sw Cons by (auto simp: sched_inv_def next_up_def switched_def)
  qed
qed

section \<open>Blocking, waking and preemption\<close>

text \<open>A node goes on a list at the front or the back, or from one list to another.\<close>

lemma sched_mid_put:
  assumes "sched_mid s Q B" and "l \<in> B" and "lists_ok s' (Q(l \<mapsto> ys))" and "links_only s s'"
    and "set ys \<subseteq> insert n (set (the (Q l)))" and "proc_ok s n" and "n \<noteq> idle_node s"
  shows "sched_mid s' (Q(l \<mapsto> ys)) B"
proof -
  note M = sched_midD [OF assms(1)] and F = links_sched_frame [OF assms(4)]
  have "idle_node s \<notin> set ys" using not_queuedD [OF M(4) M(10) [OF assms(2)]] assms(5,7) by auto
  then have "\<not> queued (Q(l \<mapsto> ys)) (idle_node s)" by (rule not_queued_sub [OF M(4)])
  then show ?thesis
    by (intro sched_mid_step [OF assms(1,3) F(1)])
      (use M(2,11) F(2) assms(2,5,6) in \<open>auto split: if_splits\<close>)
qed

lemma put_running:
  assumes "sched_inv s Q B" and "l \<in> B" and "running (procs s) \<noteq> idle_node s"
  shows "\<exists>s'. enqueue l (running (procs s)) s = Some s' \<and> links_only s s' \<and>
      sched_mid s' (Q(l \<mapsto> the (Q l) @ [running (procs s)])) B"
    and "\<exists>s'. push l (running (procs s)) s = Some s' \<and> links_only s s' \<and>
      sched_mid s' (Q(l \<mapsto> running (procs s) # the (Q l))) B"
proof -
  note I = sched_invD [OF assms(1)]
  note Ql = sched_midD(10) [OF I(1) assms(2)]
  obtain s1 where "enqueue l (running (procs s)) s = Some s1" "links_only s s1"
      "lists_ok s1 (Q(l \<mapsto> the (Q l) @ [running (procs s)]))"
    using enqueue_ok [OF I(3) Ql proc_okD(1) [OF I(4)] I(2)] by blast
  moreover from this have "sched_mid s1 (Q(l \<mapsto> the (Q l) @ [running (procs s)])) B"
    by (intro sched_mid_put [OF I(1) assms(2) _ _ _ I(4) assms(3)]) auto
  ultimately show "\<exists>s'. enqueue l (running (procs s)) s = Some s' \<and> links_only s s' \<and>
      sched_mid s' (Q(l \<mapsto> the (Q l) @ [running (procs s)])) B" by blast
  obtain s1 where "push l (running (procs s)) s = Some s1" "links_only s s1"
      "lists_ok s1 (Q(l \<mapsto> running (procs s) # the (Q l)))"
    using push_ok [OF I(3) Ql proc_okD(1) [OF I(4)] I(2)] by blast
  moreover from this have "sched_mid s1 (Q(l \<mapsto> running (procs s) # the (Q l))) B"
    by (intro sched_mid_put [OF I(1) assms(2) _ _ _ I(4) assms(3)]) auto
  ultimately show "\<exists>s'. push l (running (procs s)) s = Some s' \<and> links_only s s' \<and>
      sched_mid s' (Q(l \<mapsto> running (procs s) # the (Q l))) B" by blast
qed

text \<open>The queues after the running process was put at \<open>l\<close> and the next one taken.\<close>

definition dispatch :: "addr \<Rightarrow> (addr \<rightharpoonup> addr list) \<Rightarrow> (addr \<rightharpoonup> addr list)" where
  "dispatch r Q = Q(r \<mapsto> tl (the (Q r)))"

lemma block_then_next:
  assumes hw: "hw_ok hw" and "links_only s s1" and "sched_mid s1 Q' B"
  shows "\<exists>s'. run_next_ready hw kc s1 = Some s' \<and> switched hw kc s s' (next_up s Q') \<and>
    sched_inv s' (dispatch (ready_ll (procs s)) Q') B"
proof -
  note F = links_sched_frame [OF assms(2)]
  obtain s' where "run_next_ready hw kc s1 = Some s'" "switched hw kc s1 s' (next_up s1 Q')"
      "sched_inv s' (Q'(ready_ll (procs s1) \<mapsto> tl (ready_of s1 Q'))) B"
    using run_next_ready_ok [OF hw assms(3)] by blast
  moreover have "next_up s1 Q' = next_up s Q'"
    by (cases "ready_of s Q'") (simp_all add: next_up_def F(2) sched_frameD(8) [OF F(1)])
  ultimately show ?thesis using switched_links [OF assms(2)] by (auto simp: F(2) dispatch_def)
qed

lemma block_ok:
  assumes "hw_ok hw" and "sched_inv s Q B" and "l \<in> B" and "running (procs s) \<noteq> idle_node s"
  shows "\<exists>s'. block hw kc l s = Some s' \<and>
    switched hw kc s s' (next_up s (Q(l \<mapsto> the (Q l) @ [running (procs s)]))) \<and>
    sched_inv s' (dispatch (ready_ll (procs s)) (Q(l \<mapsto> the (Q l) @ [running (procs s)]))) B"
proof -
  obtain s1 where "enqueue l (running (procs s)) s = Some s1" "links_only s s1"
      "sched_mid s1 (Q(l \<mapsto> the (Q l) @ [running (procs s)])) B"
    using put_running(1) [OF assms(2-4)] by blast
  with block_then_next [OF assms(1), of s s1] show ?thesis by (simp add: block_def)
qed

lemma h_block_ok:
  assumes "hw_ok hw" and "sched_inv s Q B" and "l \<in> B" and "running (procs s) \<noteq> idle_node s"
  shows "\<exists>s'. h_block hw kc l s = Some s' \<and>
    switched hw kc s s' (next_up s (Q(l \<mapsto> running (procs s) # the (Q l)))) \<and>
    sched_inv s' (dispatch (ready_ll (procs s)) (Q(l \<mapsto> running (procs s) # the (Q l)))) B"
proof -
  obtain s1 where "push l (running (procs s)) s = Some s1" "links_only s s1"
      "sched_mid s1 (Q(l \<mapsto> running (procs s) # the (Q l))) B"
    using put_running(2) [OF assms(2-4)] by blast
  with block_then_next [OF assms(1), of s s1] show ?thesis by (simp add: h_block_def)
qed

text \<open>Waking: the nodes of \<open>l\<close> that are woken go to the back of the ready queue.\<close>

lemma sched_mid_move:
  assumes mid: "sched_mid s Q B" and "l \<in> B" "l \<noteq> ready_ll (procs s)" and "Q l = Some (xs @ n # ys)"
  defines "Q' \<equiv> Q(l \<mapsto> xs @ ys, ready_ll (procs s) \<mapsto> ready_of s Q @ [n])"
  shows "\<not> queued Q m \<Longrightarrow> \<not> queued Q' m"
    and "lists_ok s' Q' \<Longrightarrow> links_only s s' \<Longrightarrow> sched_mid s' Q' B"
proof -
  note M = sched_midD [OF mid]
  show other: "\<not> queued Q' m" if "\<not> queued Q m" for m
    unfolding Q'_def
  proof (intro not_queued_sub [OF not_queued_sub [OF that]])
    show "m \<notin> set (xs @ ys)" using not_queuedD [OF that assms(4)] by auto
    show "m \<notin> set (ready_of s Q @ [n])" using not_queuedD [OF that M(9)] not_queuedD [OF that assms(4)] by auto
  qed
  assume Q': "lists_ok s' Q'" and links: "links_only s s'"
  note F = links_sched_frame [OF links]
  have "proc_ok s n" using M(11) [OF assms(2), of n] assms(4) by simp
  then show "sched_mid s' Q' B"
    by (intro sched_mid_step [OF mid Q' F(1)])
      (use M(2,11) M(11) [OF M(5)] other [OF M(4)] F(2) assms(2,4) in \<open>auto simp: Q'_def split: if_splits\<close>)
qed

lemma sched_inv_move:
  assumes inv: "sched_inv s Q B" and "l \<in> B" "l \<noteq> ready_ll (procs s)" and "Q l = Some (xs @ n # ys)"
    and "sched_mid s' (Q(l \<mapsto> xs @ ys, ready_ll (procs s) \<mapsto> ready_of s Q @ [n])) B" and "links_only s s'"
  shows "sched_inv s' (Q(l \<mapsto> xs @ ys, ready_ll (procs s) \<mapsto> ready_of s Q @ [n])) B"
  using sched_mid_move(1) [OF sched_invD(1) [OF inv] assms(2-4) sched_invD(2) [OF inv]] assms(5)
    links_sched_frame(2) [OF assms(6)] by (simp add: sched_inv_def)

lemma unblock_mid:
  assumes mid: "sched_mid s Q B" and "l \<in> B" "l \<noteq> ready_ll (procs s)" and Ql: "Q l = Some (xs @ n # ys)"
  shows "\<exists>s'. unblock l n s = Some s' \<and> links_only s s' \<and>
    sched_mid s' (Q(l \<mapsto> xs @ ys, ready_ll (procs s) \<mapsto> ready_of s Q @ [n])) B"
proof -
  note M = sched_midD [OF mid]
  obtain s1 s2 where s2: "remove_ll l n s = Some (n, s1)" "enqueue (ready_ll (procs s)) n s1 = Some s2"
      "lists_ok s2 (Q(l \<mapsto> xs @ ys, ready_ll (procs s) \<mapsto> ready_of s Q @ [n]))" "links_only s s2" "links_only s s1"
    using nodeq.move [OF M(1) Ql M(9) assms(3)] remove_ok [OF M(1) Ql] by fastforce
  have "ll_size (lls s l) \<noteq> 0" "live s l" "l \<noteq> NULL"
    using ll_atD(1,2,8) [OF lists_okD [OF M(1) Ql]] by auto
  with s2 have "unblock l n s = Some s2"
    by (auto simp: unblock_def is_empty_def ready_def links_sched_frame(2) [OF s2(5)])
  with sched_mid_move(2) [OF assms s2(3,4)] s2(4) show ?thesis by blast
qed

lemma unblock_ok:
  assumes inv: "sched_inv s Q B" and "l \<in> B" "l \<noteq> ready_ll (procs s)" and Ql: "Q l = Some (xs @ n # ys)"
  shows "\<exists>s'. unblock l n s = Some s' \<and> links_only s s' \<and>
    sched_inv s' (Q(l \<mapsto> xs @ ys, ready_ll (procs s) \<mapsto> ready_of s Q @ [n])) B"
  using unblock_mid [OF sched_invD(1) [OF inv] assms(2-4)] sched_inv_move [OF assms] by blast

lemma unblock_none:
  assumes "lists_ok s Q" and "Q l = Some []"
  shows "unblock l n s = Some s"
  using ll_atD(1,2,8) [OF lists_okD [OF assms]] by (auto simp: unblock_def is_empty_def)

lemma unblock_head_ok:
  assumes inv: "sched_inv s Q B" and "l \<in> B" "l \<noteq> ready_ll (procs s)" and Ql: "Q l = Some (n # ys)"
  shows "\<exists>s'. unblock_head l s = Some s' \<and> links_only s s' \<and>
    sched_inv s' (Q(l \<mapsto> ys, ready_ll (procs s) \<mapsto> ready_of s Q @ [n])) B"
proof -
  have "ll_head (lls s l) = n" "live s l"
    using ll_atD(1,4) [OF lists_okD [OF sched_invD(3) [OF inv] Ql]] by auto
  with unblock_ok [OF assms(1-3), of "[]" n ys] Ql show ?thesis by (simp add: unblock_head_def)
qed

lemma is_empty_eq:
  assumes "lists_ok s Q" and "Q l = Some xs"
  shows "is_empty l s = Some (if xs = [] then 1 else 0)"
  using ll_atD(1,2,8) [OF lists_okD [OF assms]] by (auto simp: is_empty_def)

lemma unblock_all_ok:
  assumes "sched_inv s Q B" and "l \<in> B" "l \<noteq> ready_ll (procs s)" and "Q l = Some xs"
  shows "\<exists>s'. unblock_all l s = Some s' \<and> links_only s s' \<and>
    sched_inv s' (Q(l \<mapsto> [], ready_ll (procs s) \<mapsto> ready_of s Q @ xs)) B"
  using assms
proof (induction xs arbitrary: s Q)
  case Nil
  note I = sched_invD [OF Nil(1)]
  have "Q(l \<mapsto> [], ready_ll (procs s) \<mapsto> ready_of s Q @ []) = Q"
    using Nil(4) sched_midD(9) [OF I(1)] by auto
  moreover have "unblock_all l s = Some s"
    using is_empty_eq [OF I(3) Nil(4)] by (simp add: unblock_all.simps [of l s])
  ultimately show ?case using Nil(1) by (intro exI [of _ s]) (simp only: links_only_refl simp_thms)
next
  case (Cons n xs)
  note I = sched_invD [OF Cons.prems(1)]
  note M = sched_midD [OF I(1)]
  let ?Q = "Q(l \<mapsto> xs, ready_ll (procs s) \<mapsto> ready_of s Q @ [n])"
  obtain s1 s2 where s2: "dequeue l s = Some (n, s1)" "enqueue (ready_ll (procs s)) n s1 = Some s2"
      "lists_ok s2 ?Q" "links_only s s2" "links_only s s1"
    using nodeq.move_head [OF M(1) Cons.prems(4) M(9) Cons.prems(3)] dequeue_ok [OF M(1) Cons.prems(4)] by fastforce
  have inv: "sched_inv s2 ?Q B"
    using sched_inv_move [OF Cons.prems(1-3), of "[]" n xs s2] sched_mid_move(2) [OF I(1) Cons.prems(2,3), of "[]" n xs s2]
      s2(3,4) Cons.prems(4) by simp
  note F = links_sched_frame(2) [OF s2(4)]
  have l2: "l \<noteq> ready_ll (procs s2)" and Ql: "?Q l = Some xs" using Cons.prems(3) F by simp_all
  obtain s' where s': "unblock_all l s2 = Some s'" "links_only s2 s'"
      "sched_inv s' (?Q(l \<mapsto> [], ready_ll (procs s2) \<mapsto> ready_of s2 ?Q @ xs)) B"
    using Cons.IH [OF inv Cons.prems(2) l2 Ql] by blast
  have "?Q(l \<mapsto> [], ready_ll (procs s2) \<mapsto> ready_of s2 ?Q @ xs)
      = Q(l \<mapsto> [], ready_ll (procs s) \<mapsto> ready_of s Q @ n # xs)"
    using Cons.prems(3) by (auto simp: F)
  moreover have "unblock_all l s = unblock_all l s2"
    using is_empty_eq [OF I(3) Cons.prems(4)] s2(1,2)
    by (simp add: unblock_all.simps [of l s] ready_def links_sched_frame(2) [OF s2(5)])
  ultimately show ?case using s'(1,3) links_only_trans [OF s2(4) s'(2)] by metis
qed

text \<open>Round robin: the running process goes to the back of the queue, unless it is idle.\<close>

lemma rr_preempt_ok:
  assumes hw: "hw_ok hw" and inv: "sched_inv s Q B"
  defines "r \<equiv> ready_ll (procs s)" and "Q' \<equiv> (if running (procs s) = idle_node s then Q
    else Q(ready_ll (procs s) \<mapsto> ready_of s Q @ [running (procs s)]))"
  shows "ready_of s Q = [] \<Longrightarrow> rr_preempt hw kc s = Some (Ret (), s)"
    and "ready_of s Q = n # R \<Longrightarrow> \<exists>s'. rr_preempt hw kc s = Some (Switched, s') \<and> switched hw kc s s' n \<and>
      sched_inv s' (dispatch r Q') B"
proof -
  note I = sched_invD [OF inv] and M = sched_midD [OF sched_invD(1) [OF inv]]
  note e = is_empty_eq [OF M(1,9)]
  show "ready_of s Q = [] \<Longrightarrow> rr_preempt hw kc s = Some (Ret (), s)"
    using e by (simp add: rr_preempt_def)
  assume R: "ready_of s Q = n # R"
  obtain s1 where s1: "(if running (procs s) \<noteq> idle_node s then ready (running (procs s)) s else Some s) = Some s1"
      "links_only s s1" "sched_mid s1 Q' B"
    using I(1) put_running(1) [OF inv M(5)] by (cases "running (procs s) = idle_node s") (auto simp: ready_def Q'_def)
  obtain s' where "run_next_ready hw kc s1 = Some s'" "switched hw kc s s' (next_up s Q')"
      "sched_inv s' (dispatch (ready_ll (procs s)) Q') B"
    using block_then_next [OF hw s1(2,3)] by blast
  moreover have "next_up s Q' = n" using R by (simp add: next_up_def Q'_def)
  ultimately show "\<exists>s'. rr_preempt hw kc s = Some (Switched, s') \<and> switched hw kc s s' n \<and>
      sched_inv s' (dispatch r Q') B"
    using e R s1(1) by (simp add: rr_preempt_def r_def del: not_None_eq)
qed

lemma check_wait_mid:
  assumes mid: "sched_mid s Q B" and "parent \<noteq> NULL"
  shows "parent \<notin> set (the (Q (waiting_ll (procs s)))) \<Longrightarrow> check_wait parent s = Some s"
    and "Q (waiting_ll (procs s)) = Some (xs @ parent # ys) \<Longrightarrow>
      \<exists>s'. check_wait parent s = Some s' \<and> links_only s s' \<and>
        sched_mid s' (Q(waiting_ll (procs s) \<mapsto> xs @ ys, ready_ll (procs s) \<mapsto> ready_of s Q @ [parent])) B"
proof -
  note M = sched_midD [OF mid]
  have "0 < parent" using assms(2) by simp
  note h = has_member_spec [OF lists_okD [OF M(1) M(10) [OF M(6)]] this]
  show "parent \<notin> set (the (Q (waiting_ll (procs s)))) \<Longrightarrow> check_wait parent s = Some s"
    using h by (simp add: check_wait_def)
  assume W: "Q (waiting_ll (procs s)) = Some (xs @ parent # ys)"
  then have "check_wait parent s = unblock (waiting_ll (procs s)) parent s"
    using h by (simp add: check_wait_def)
  with unblock_mid [OF mid M(6) M(12) [symmetric] W]
  show "\<exists>s'. check_wait parent s = Some s' \<and> links_only s s' \<and>
        sched_mid s' (Q(waiting_ll (procs s) \<mapsto> xs @ ys, ready_ll (procs s) \<mapsto> ready_of s Q @ [parent])) B"
    by simp
qed

lemma check_wait_ok:
  assumes inv: "sched_inv s Q B" and "parent \<noteq> NULL" and W: "Q (waiting_ll (procs s)) = Some (xs @ parent # ys)"
  shows "\<exists>s'. check_wait parent s = Some s' \<and> links_only s s' \<and>
    sched_inv s' (Q(waiting_ll (procs s) \<mapsto> xs @ ys, ready_ll (procs s) \<mapsto> ready_of s Q @ [parent])) B"
proof -
  note M = sched_midD [OF sched_invD(1) [OF inv]]
  from check_wait_mid(2) [OF sched_invD(1) [OF inv] assms(2) W] sched_inv_move [OF inv M(6) M(12) [symmetric] W]
  show ?thesis by blast
qed

end
