(* ===== verification/Delay.thy ===== *)
theory Delay
  imports Scheduler_Spec
begin

text \<open>Delays: what a clock tick does to the processes that sleep, and when it wakes one.\<close>

section \<open>Relabelling nodes\<close>

definition relabel :: "(addr \<Rightarrow> int) \<Rightarrow> 'z heap_scheme \<Rightarrow> 'z heap_scheme" where
  "relabel f s = s\<lparr>nodes := \<lambda>a. (nodes s a)\<lparr>nd_code := f a\<rparr>\<rparr>"

abbreviation code_in :: "'z heap_scheme \<Rightarrow> addr \<Rightarrow> int" where
  "code_in s a \<equiv> nd_code (nodes s a)"

lemma relabel_simps [simp]:
  "live (relabel f s) a = live s a" "lls (relabel f s) = lls s" "nd_data (nodes (relabel f s) a) = nd_data (nodes s a)"
  "nd_next (nodes (relabel f s) a) = nd_next (nodes s a)" "nd_prev (nodes (relabel f s) a) = nd_prev (nodes s a)"
  "nd_code (nodes (relabel f s) a) = f a" "relabel g (relabel f s) = relabel g s" "relabel (code_in s) s = s"
  "heap.more (relabel f s) = heap.more s" "brk_next (relabel f s) = brk_next s" "alive (relabel f s) = alive s"
  by (simp_all add: relabel_def live_def)

lemma relabel_sched [simp]:
  "procs (relabel f s) = procs s" "idle_node (relabel f s) = idle_node s"
  by (simp_all add: relabel_def)

lemma relabel_pcbs [simp]: "pcbs (relabel f s) = pcbs s"
  by (simp add: relabel_def)

lemma upd_code: "s\<lparr>nodes := (nodes s)(a := (nodes s a)\<lparr>nd_code := c\<rparr>)\<rparr> = relabel ((code_in s)(a := c)) s"
  by (simp add: relabel_def fun_upd_def fun_eq_iff)

lemma dseg_relabel [simp]: "dseg (relabel f s) p xs q = dseg s p xs q"
  by (induction xs arbitrary: p) auto

lemma lists_ok_relabel [simp]: "lists_ok (relabel f s) Q = lists_ok s Q"
  by (simp add: lists_ok_def ll_at_def)

lemma proc_ok_relabel [simp]: "proc_ok (relabel f s) n = proc_ok s n"
  by (simp add: proc_ok_def)

lemma sched_inv_relabel [simp]: "sched_inv (relabel f s) Q B = sched_inv s Q B"
  by (simp add: sched_inv_def sched_mid_def)

section \<open>A tick\<close>

text \<open>The loop goes past a node whose delay does not end: it counts it down.\<close>

lemma check_delay_from_pass:
  assumes "dseg s p (ys @ zs) NULL" and "distinct (ys @ zs)" and "\<And>m. m \<in> set ys \<Longrightarrow> code_in s m \<noteq> 1"
  shows "check_delay_from (first (ys @ zs) NULL) s =
    check_delay_from (first zs NULL) (relabel (\<lambda>a. if a \<in> set ys then code_in s a - 1 else code_in s a) s)"
  using assms
proof (induction ys arbitrary: s p)
  case Nil
  then show ?case by simp
next
  case (Cons y ys)
  let ?s = "relabel ((code_in s)(y := code_in s y - 1)) s"
  have y: "live s y" "0 < y" "nd_next (nodes s y) = first (ys @ zs) NULL" "dseg s y (ys @ zs) NULL"
    using Cons.prems(1) by (auto dest: live_pos)
  have "check_delay_from y s = check_delay_from (first (ys @ zs) NULL) ?s"
    using y Cons.prems(3) [of y] by (simp add: check_delay_from.simps [of y s] upd_code)
  also have "\<dots> = check_delay_from (first zs NULL)
      (relabel (\<lambda>a. if a \<in> set ys then code_in ?s a - 1 else code_in ?s a) ?s)"
    by (rule Cons.IH [of ?s y]) (use y(4) Cons.prems in auto)
  also have "(\<lambda>a. if a \<in> set ys then code_in ?s a - 1 else code_in ?s a) =
      (\<lambda>a. if a \<in> set (y # ys) then code_in s a - 1 else code_in s a)"
    using Cons.prems(2) by auto
  finally show ?case by simp
qed

text \<open>
  The whole tick.  Everybody up to and including the first process whose delay ends is
  counted down, and that process becomes ready.  The loop then stops: waking the process has
  cleared the link it would follow.
\<close>

definition passed :: "'z heap_scheme \<Rightarrow> addr list \<Rightarrow> addr list" where
  "passed s xs = takeWhile (\<lambda>m. code_in s m \<noteq> 1) xs"

definition tick_codes :: "'z heap_scheme \<Rightarrow> addr set \<Rightarrow> addr \<Rightarrow> int" where
  "tick_codes s N = (\<lambda>a. if a \<in> N then code_in s a - 1 else code_in s a)"

lemma check_delay_ok:
  assumes inv: "sched_inv s Q B" and D: "Q (delayed_ll (procs s)) = Some xs"
  defines "d \<equiv> delayed_ll (procs s)" and "r \<equiv> ready_ll (procs s)"
  shows "passed s xs = xs \<Longrightarrow> check_delay s = Some (relabel (tick_codes s (set xs)) s)"
    and "xs = ys @ n # zs \<Longrightarrow> passed s xs = ys \<Longrightarrow> \<exists>s'. check_delay s = Some s' \<and>
      links_only (relabel (tick_codes s (set (ys @ [n]))) s) s' \<and>
      sched_inv s' (Q(d \<mapsto> ys @ zs, r \<mapsto> ready_of s Q @ [n])) B"
proof -
  note I = sched_invD [OF inv] and M = sched_midD [OF sched_invD(1) [OF inv]]
  note L = ll_atD [OF lists_okD [OF M(1) D]]
  have start: "check_delay s = check_delay_from (first xs NULL) s"
    using L(1,4) by (simp add: check_delay_def)
  have pass: "m \<in> set (passed s xs) \<Longrightarrow> code_in s m \<noteq> 1" for m
    by (auto simp: passed_def dest: set_takeWhileD)
  show "passed s xs = xs \<Longrightarrow> check_delay s = Some (relabel (tick_codes s (set xs)) s)"
    using check_delay_from_pass [of s NULL xs "[]"] L(3,6) pass
    by (simp add: start tick_codes_def check_delay_from.simps [of NULL])
  assume xs: "xs = ys @ n # zs" and ys: "passed s xs = ys"
  let ?s0 = "relabel (tick_codes s (set ys)) s" and ?s1 = "relabel (tick_codes s (set (ys @ [n]))) s"
  have n1: "code_in s n = 1"
  proof -
    have "takeWhile (\<lambda>m. code_in s m \<noteq> 1) (ys @ n # zs) = ys" using ys xs by (simp add: passed_def)
    then show ?thesis using pass ys by (auto simp: takeWhile_append2 split: if_splits)
  qed
  have n: "live s n" "0 < n" "n \<notin> set ys" using L(3,6) xs by (auto dest: live_pos)
  have to_n: "check_delay s = check_delay_from n ?s0"
    using check_delay_from_pass [of s NULL ys "n # zs"] L(3,6) pass ys xs by (simp add: start tick_codes_def)
  obtain s' where s': "unblock d n ?s1 = Some s'" "links_only ?s1 s'"
      "sched_inv s' (Q(d \<mapsto> ys @ zs, r \<mapsto> ready_of s Q @ [n])) B"
    using unblock_ok [of ?s1 Q B d ys n zs] inv M(7,13) D xs by (auto simp: d_def r_def)
  have "lists_ok s' (Q(d \<mapsto> ys @ zs, r \<mapsto> ready_of s Q @ [n]))" using sched_invD(3) [OF s'(3)] .
  then have "ll_at s' r (ready_of s Q @ [n])" by (rule lists_okD) simp
  from ll_atD(6) [OF this] have last: "live s' n" "nd_next (nodes s' n) = NULL" by simp_all
  have "relabel ((code_in ?s0)(n := code_in ?s0 n - 1)) ?s0 = ?s1"
    using n(3) by (simp add: tick_codes_def) (rule arg_cong [of _ _ "\<lambda>f. relabel f s"], auto)
  then have "check_delay_from n ?s0 = check_delay_from NULL s'"
    using n n1 s'(1) last by (simp add: check_delay_from.simps [of n] upd_code d_def tick_codes_def)
  then show "\<exists>s'. check_delay s = Some s' \<and> links_only ?s1 s' \<and>
      sched_inv s' (Q(d \<mapsto> ys @ zs, r \<mapsto> ready_of s Q @ [n])) B"
    using s' to_n by (auto simp: check_delay_from.simps [of NULL])
qed

lemma block_delay_ok:
  assumes "hw_ok hw" and "sched_inv s Q B" and "running (procs s) \<noteq> idle_node s"
  defines "Q' \<equiv> Q(delayed_ll (procs s) \<mapsto> the (Q (delayed_ll (procs s))) @ [running (procs s)])"
  shows "\<exists>s'. block_delay hw kc t s = Some s' \<and>
    switched hw kc (relabel ((code_in s)(running (procs s) := t)) s) s' (next_up s Q') \<and>
    sched_inv s' (dispatch (ready_ll (procs s)) Q') B"
proof -
  let ?s = "relabel ((code_in s)(running (procs s) := t)) s"
  note I = sched_invD [OF assms(2)]
  have "next_up ?s Q' = next_up s Q'" by (simp add: next_up_def split: list.splits)
  moreover have "block_delay hw kc t s = block hw kc (delayed_ll (procs s)) ?s"
    using proc_okD(1) [OF I(4)] by (simp add: block_delay_def upd_code)
  ultimately show ?thesis
    using block_ok [of hw ?s Q B "delayed_ll (procs s)" kc] assms sched_midD(7) [OF I(1)] by simp
qed

end
