(* ===== verification/Buffer.thy ===== *)
theory Buffer
  imports Prelude
begin

text \<open>
  The circular byte buffer of \<open>pilocvario.c\<close>, which pipes and terminals share.  The
  functions are proved to be a bounded byte queue: writing appends as much as fits, reading
  takes from the front.
\<close>

section \<open>The buffer and its operations\<close>

text \<open>
  \<open>struct buffer\<close>.  The array that \<open>buffered\<close> points to belongs to this buffer alone, and
  is part of the record.
\<close>

record buffer =
  b_size :: int
  b_filled :: int
  b_head :: int
  b_tail :: int
  b_buffered :: "byte list"

definition new_buffer :: "int \<Rightarrow> buffer" where
  "new_buffer sz =
     \<lparr>b_size = sz, b_filled = 0, b_head = 0, b_tail = 0, b_buffered = replicate (nat sz) 0\<rparr>"

text \<open>
  The source of a write is a \<open>char*\<close>: \<open>src i\<close> is the byte at \<open>src[i]\<close>, \<^const>\<open>None\<close> where
  the page of that byte is not mapped.  \<open>write_loop\<close> is the body of the \<open>for\<close> loop, with \<open>k\<close>
  iterations left; the remainder is C's, which rounds towards zero.
\<close>

fun write_loop :: "buffer \<Rightarrow> (int \<Rightarrow> byte option) \<Rightarrow> nat \<Rightarrow> nat \<Rightarrow> byte list \<Rightarrow> byte list option" where
  "write_loop b src i 0 arr = Some arr"
| "write_loop b src i (Suc k) arr = do {
     c \<leftarrow> src (int i);
     arr \<leftarrow> awrite arr ((b_tail b + int i) smod b_size b) c;
     write_loop b src (Suc i) k arr
   }"

definition write_buffer :: "buffer \<Rightarrow> (int \<Rightarrow> byte option) \<Rightarrow> int \<Rightarrow> (int \<times> buffer) option" where
  "write_buffer b src len = do {
     let avail = b_size b - b_filled b;
     let written = (if avail < len then avail else len);
     arr \<leftarrow> write_loop b src 0 (nat written) (b_buffered b);
     let b = b\<lparr>b_buffered := arr\<rparr>;
     let b = b\<lparr>b_tail := (b_tail b + written) smod b_size b\<rparr>;
     let b = b\<lparr>b_filled := b_filled b + written\<rparr>;
     Some (written, b)
   }"

text \<open>A read returns the bytes it stores at \<open>dst\<close>, in order.\<close>

fun read_loop :: "buffer \<Rightarrow> nat \<Rightarrow> nat \<Rightarrow> byte list option" where
  "read_loop b i 0 = Some []"
| "read_loop b i (Suc k) = do {
     c \<leftarrow> aread (b_buffered b) ((b_head b + int i) smod b_size b);
     cs \<leftarrow> read_loop b (Suc i) k;
     Some (c # cs)
   }"

definition read_buffer :: "buffer \<Rightarrow> int \<Rightarrow> (int \<times> byte list \<times> buffer) option" where
  "read_buffer b len = do {
     let read = (if b_filled b < len then b_filled b else len);
     dst \<leftarrow> read_loop b 0 (nat read);
     let b = b\<lparr>b_head := (b_head b + read) smod b_size b\<rparr>;
     let b = b\<lparr>b_filled := b_filled b - read\<rparr>;
     Some (read, dst, b)
   }"

definition reset_buffer :: "buffer \<Rightarrow> buffer" where
  "reset_buffer b = b\<lparr>b_filled := 0, b_head := 0, b_tail := 0\<rparr>"

text \<open>\<open>destroy_buffer\<close> clears the fields; freeing the block is the heap's part of it.\<close>

definition destroy_buffer :: "buffer \<Rightarrow> buffer" where
  "destroy_buffer b = (reset_buffer (b\<lparr>b_size := 0\<rparr>))\<lparr>b_buffered := []\<rparr>"

section \<open>The bytes a buffer holds\<close>

definition view :: "nat \<Rightarrow> nat \<Rightarrow> 'a list \<Rightarrow> nat \<Rightarrow> 'a list" where
  "view n h arr k = map (\<lambda>i. arr ! ((h + i) mod n)) [0..<k]"

definition contents :: "buffer \<Rightarrow> byte list" where
  "contents b = view (nat (b_size b)) (nat (b_head b)) (b_buffered b) (nat (b_filled b))"

definition buf_ok :: "buffer \<Rightarrow> bool" where
  "buf_ok b \<longleftrightarrow>
     0 < b_size b \<and> int (length (b_buffered b)) = b_size b \<and> 0 \<le> b_filled b \<and> b_filled b \<le> b_size b \<and>
     0 \<le> b_head b \<and> b_head b < b_size b \<and> b_tail b = (b_head b + b_filled b) mod b_size b"

lemma view_0 [simp]: "view n h arr 0 = []"
  by (simp add: view_def)

lemma length_view [simp]: "length (view n h arr k) = k"
  by (simp add: view_def)

lemma mod_apart:
  assumes "i < k" "k < n"
  shows "(h + i) mod n \<noteq> (h + k) mod (n::nat)"
proof
  assume "(h + i) mod n = (h + k) mod n"
  then have "n dvd (h + k) - (h + i)" using assms(1) by (intro mod_eq_dvd_iff_nat [THEN iffD1]) simp_all
  with assms show False by (auto dest: dvd_imp_le)
qed

text \<open>One byte stored just past the last grows the view by that byte.\<close>

lemma view_store:
  assumes "k < n" and "length arr = n"
  shows "view n h (arr[(h + k) mod n := c]) (Suc k) = view n h arr k @ [c]"
proof -
  have "view n h (arr[(h + k) mod n := c]) k = view n h arr k"
    using assms(1) mod_apart [of _ k n h, THEN not_sym] by (auto simp: view_def)
  then show ?thesis using assms by (simp add: view_def)
qed

lemma smod_nonneg: "0 \<le> a \<Longrightarrow> 0 < b \<Longrightarrow> a smod b = a mod (b::int)"
  by (simp add: smod_int_alt_def sgn_if)

text \<open>The loop of a write, over the view: every iteration appends one byte of the source.\<close>

lemma write_loop_view:
  assumes "b_size b = int n" and "b_tail b = int ((h + f) mod n)"
  shows "\<lbrakk>length arr = n; f + i + k \<le> n; \<And>j. i \<le> j \<Longrightarrow> j < i + k \<Longrightarrow> src (int j) = Some (g j)\<rbrakk> \<Longrightarrow>
    \<exists>arr'. write_loop b src i k arr = Some arr' \<and> length arr' = n \<and>
      view n h arr' (f + i + k) = view n h arr (f + i) @ map g [i..<i + k]"
proof (induction k arbitrary: i arr)
  case 0
  then show ?case by simp
next
  case (Suc k)
  let ?p = "(h + (f + i)) mod n"
  have n: "0 < n" using Suc.prems(2) by simp
  have p: "(b_tail b + int i) smod b_size b = int ?p"
    using n assms by (simp add: smod_nonneg zmod_int add.assoc mod_simps)
  have src: "src (int i) = Some (g i)" using Suc.prems(3) by simp
  have arr: "awrite arr (int ?p) (g i) = Some (arr[?p := g i])" using Suc.prems(1) n by simp
  have "\<exists>arr'. write_loop b src (Suc i) k (arr[?p := g i]) = Some arr' \<and> length arr' = n \<and>
      view n h arr' (f + Suc i + k) = view n h (arr[?p := g i]) (f + Suc i) @ map g [Suc i..<Suc i + k]"
    by (rule Suc.IH) (use Suc.prems in simp_all)
  moreover have "view n h (arr[?p := g i]) (f + Suc i) = view n h arr (f + i) @ [g i]"
    using view_store [of "f + i" n arr h "g i"] Suc.prems(1,2) by simp
  ultimately show ?case using src arr p by (auto simp: upt_conv_Cons simp del: upt_Suc)
qed

lemma read_loop_view:
  assumes "b_size b = int n" and "b_head b = int h" and "length (b_buffered b) = n" and "0 < n"
  shows "read_loop b i k = Some (map (\<lambda>j. b_buffered b ! ((h + j) mod n)) [i..<i + k])"
proof (induction k arbitrary: i)
  case 0
  then show ?case by simp
next
  case (Suc k)
  have "(b_head b + int i) smod b_size b = int ((h + i) mod n)"
    using assms by (simp add: smod_nonneg zmod_int)
  then show ?case using Suc [of "Suc i"] assms by (simp add: upt_conv_Cons del: upt_Suc)
qed

section \<open>Writing appends, reading takes from the front\<close>

lemma buf_okE:
  assumes "buf_ok b"
  obtains n h f where "b_size b = int n" "b_head b = int h" "b_filled b = int f" "0 < n" "h < n" "f \<le> n"
    "b_tail b = int ((h + f) mod n)" "length (b_buffered b) = n"
proof
  show "b_size b = int (nat (b_size b))" "b_head b = int (nat (b_head b))"
    "b_filled b = int (nat (b_filled b))" "0 < nat (b_size b)" "nat (b_head b) < nat (b_size b)"
    "nat (b_filled b) \<le> nat (b_size b)" "length (b_buffered b) = nat (b_size b)"
    using assms by (auto simp: buf_ok_def)
  show "b_tail b = int ((nat (b_head b) + nat (b_filled b)) mod nat (b_size b))"
    using assms by (simp add: buf_ok_def zmod_int)
qed

lemma new_buffer_ok: "0 < n \<Longrightarrow> buf_ok (new_buffer n) \<and> contents (new_buffer n) = []"
  by (simp add: buf_ok_def new_buffer_def contents_def)

lemma reset_buffer_ok: "buf_ok b \<Longrightarrow> buf_ok (reset_buffer b) \<and> contents (reset_buffer b) = []"
  by (simp add: buf_ok_def reset_buffer_def contents_def)

lemma contents_length: "buf_ok b \<Longrightarrow> int (length (contents b)) = b_filled b"
  by (simp add: buf_ok_def contents_def)

lemma write_buffer_spec:
  assumes b: "buf_ok b" and len: "0 \<le> len"
    and src: "\<And>j. int j < min (b_size b - b_filled b) len \<Longrightarrow> src (int j) = Some (g j)"
  shows "\<exists>b'. write_buffer b src len = Some (min (b_size b - b_filled b) len, b') \<and> buf_ok b' \<and>
    contents b' = contents b @ map g [0..<nat (min (b_size b - b_filled b) len)] \<and>
    b_size b' = b_size b"
proof -
  obtain n h f where e: "b_size b = int n" "b_head b = int h" "b_filled b = int f" "0 < n" "h < n" "f \<le> n"
    "b_tail b = int ((h + f) mod n)" "length (b_buffered b) = n"
    using b by (rule buf_okE)
  define w where "w = nat (min (int n - int f) len)"
  have w: "min (b_size b - b_filled b) len = int w" using e(1,3,6) len by (simp add: w_def)
  have if_w: "(if int n - int f < len then int n - int f else len) = int w"
    using e(6) len by (simp add: w_def min_def)
  have fw: "f + w \<le> n" using e(6) by (simp add: w_def)
  obtain arr where arr: "write_loop b src 0 w (b_buffered b) = Some arr" "length arr = n"
      "view n h arr (f + w) = view n h (b_buffered b) f @ map g [0..<w]"
    using write_loop_view [OF e(1,7,8), of 0 w src g] fw src w by auto
  let ?b = "b\<lparr>b_buffered := arr, b_tail := (b_tail b + int w) smod b_size b, b_filled := b_filled b + int w\<rparr>"
  have "write_buffer b src len = Some (int w, ?b)"
    using arr(1) if_w e(1,3) by (simp add: write_buffer_def Let_def split del: if_split)
  moreover have "buf_ok ?b"
    using e arr(2) fw by (simp add: buf_ok_def smod_nonneg zmod_int mod_simps add.assoc)
  moreover have "contents ?b = contents b @ map g [0..<w]"
    using e arr(3) by (simp add: contents_def nat_add_distrib)
  ultimately show ?thesis unfolding w by simp
qed

lemma read_buffer_spec:
  assumes b: "buf_ok b" and len: "0 \<le> len"
  shows "\<exists>b'. read_buffer b len =
      Some (min (b_filled b) len, take (nat len) (contents b), b') \<and> buf_ok b' \<and>
    contents b' = drop (nat len) (contents b) \<and> b_size b' = b_size b"
proof -
  obtain n h f where e: "b_size b = int n" "b_head b = int h" "b_filled b = int f" "0 < n" "h < n" "f \<le> n"
    "b_tail b = int ((h + f) mod n)" "length (b_buffered b) = n"
    using b by (rule buf_okE)
  define r where "r = nat (min (int f) len)"
  have r: "min (b_filled b) len = int r" using e(3) len by (simp add: r_def)
  have if_r: "(if b_filled b < len then b_filled b else len) = int r"
    using len e(3) by (simp add: r_def min_def)
  have rf: "r \<le> f" by (simp add: r_def)
  have take_r: "take (nat len) xs = take r xs" "drop (nat len) xs = drop r xs" if "length xs = f" for xs :: "byte list"
    using that len by (auto simp: r_def min_def)
  let ?b = "b\<lparr>b_head := (b_head b + int r) smod b_size b, b_filled := b_filled b - int r\<rparr>"
  have "read_buffer b len = Some (int r, map (\<lambda>j. b_buffered b ! ((h + j) mod n)) [0..<r], ?b)"
    using if_r e(1) read_loop_view [OF e(1,2,8,4), of 0 r]
    by (simp add: read_buffer_def Let_def split del: if_split)
  moreover have "map (\<lambda>j. b_buffered b ! ((h + j) mod n)) [0..<r] = take (nat len) (contents b)"
    using e rf take_r(1) [of "contents b"] by (simp add: contents_def view_def take_map)
  moreover have "buf_ok ?b"
    using e rf mod_add_left_eq [of "int h + int r" "int n" "int f - int r"]
    by (simp add: buf_ok_def smod_nonneg zmod_int)
  moreover have "contents ?b = drop (nat len) (contents b)"
  proof -
    have "nat (int f - int r) = f - r" "nat ((int h + int r) smod int n) = (h + r) mod n"
      using e(4) by (simp_all add: smod_nonneg zmod_int nat_mod_distrib nat_add_distrib)
    then show ?thesis
      using e rf take_r(2) [of "contents b"]
      by (auto simp: contents_def view_def drop_map mod_simps add.assoc intro!: nth_equalityI)
  qed
  ultimately show ?thesis unfolding r by simp
qed

section \<open>The interface of pipes and terminals\<close>

text \<open>What the users of a buffer rely on, and that bytes come out in the order they went in.\<close>

locale byte_queue =
  fixes ok :: "'b \<Rightarrow> bool"
    and held :: "'b \<Rightarrow> byte list"
    and cap :: "'b \<Rightarrow> int"
    and put :: "'b \<Rightarrow> (int \<Rightarrow> byte option) \<Rightarrow> int \<Rightarrow> (int \<times> 'b) option"
    and get :: "'b \<Rightarrow> int \<Rightarrow> (int \<times> byte list \<times> 'b) option"
  assumes put_law: "\<lbrakk>ok b; 0 \<le> len; \<And>j. int j < min (cap b - int (length (held b))) len \<Longrightarrow> src (int j) = Some (g j)\<rbrakk>
      \<Longrightarrow> \<exists>b'. put b src len = Some (min (cap b - int (length (held b))) len, b') \<and> ok b' \<and>
        held b' = held b @ map g [0..<nat (min (cap b - int (length (held b))) len)] \<and> cap b' = cap b"
    and get_law: "\<lbrakk>ok b; 0 \<le> len\<rbrakk> \<Longrightarrow> \<exists>b'. get b len =
        Some (min (int (length (held b))) len, take (nat len) (held b), b') \<and> ok b' \<and>
        held b' = drop (nat len) (held b) \<and> cap b' = cap b"
begin

lemma put_list:
  assumes "ok b" and "int (length (held b)) + int (length bs) \<le> cap b"
  shows "\<exists>b'. put b (aread bs) (int (length bs)) = Some (int (length bs), b') \<and> ok b' \<and>
    held b' = held b @ bs \<and> cap b' = cap b"
proof -
  have "min (cap b - int (length (held b))) (int (length bs)) = int (length bs)" using assms(2) by simp
  with put_law [OF assms(1), of "int (length bs)" "aread bs" "\<lambda>j. bs ! j"] show ?thesis
    by (simp add: map_nth)
qed

lemma in_order:
  assumes "ok b" and "held b = []" and "int (length xs) + int (length ys) \<le> cap b"
  shows "\<exists>b1 b2 b3. put b (aread xs) (int (length xs)) = Some (int (length xs), b1) \<and>
    put b1 (aread ys) (int (length ys)) = Some (int (length ys), b2) \<and>
    get b2 (int (length (xs @ ys))) = Some (int (length (xs @ ys)), xs @ ys, b3) \<and> ok b3 \<and> held b3 = []"
proof -
  obtain b1 where b1: "put b (aread xs) (int (length xs)) = Some (int (length xs), b1)" "ok b1" "held b1 = xs" "cap b1 = cap b"
    using put_list [OF assms(1), of xs] assms(2,3) by auto
  obtain b2 where b2: "put b1 (aread ys) (int (length ys)) = Some (int (length ys), b2)" "ok b2" "held b2 = xs @ ys"
    using put_list [OF b1(2), of ys] assms(3) b1(3,4) by auto
  from get_law [OF b2(2), of "int (length (xs @ ys))"] b2(3) b1 b2 show ?thesis by auto
qed

end

interpretation buf: byte_queue buf_ok contents b_size write_buffer read_buffer
proof unfold_locales
  fix b len and src :: "int \<Rightarrow> byte option" and g :: "nat \<Rightarrow> byte"
  assume "buf_ok b" "0 \<le> len" "\<And>j. int j < min (b_size b - int (length (contents b))) len \<Longrightarrow> src (int j) = Some (g j)"
  then show "\<exists>b'. write_buffer b src len = Some (min (b_size b - int (length (contents b))) len, b') \<and> buf_ok b' \<and>
        contents b' = contents b @ map g [0..<nat (min (b_size b - int (length (contents b))) len)] \<and> b_size b' = b_size b"
    using write_buffer_spec [of b len src g] contents_length [of b] by simp
next
  fix b :: buffer and len :: int
  assume "buf_ok b" "0 \<le> len"
  then show "\<exists>b'. read_buffer b len = Some (min (int (length (contents b))) len, take (nat len) (contents b), b') \<and>
      buf_ok b' \<and> contents b' = drop (nat len) (contents b) \<and> b_size b' = b_size b"
    using read_buffer_spec [of b len] contents_length [of b] by simp
qed

section \<open>Properties\<close>

definition demo_buffer :: buffer where
  "demo_buffer = \<lparr>b_size = 3, b_filled = 2, b_head = 2, b_tail = 1, b_buffered = [8, 0, 7]\<rparr>"

lemma demo_buffer_ok: "buf_ok demo_buffer" "contents demo_buffer = [7, 8]"
  by (simp_all add: buf_ok_def demo_buffer_def contents_def view_def upt_conv_Cons)



text \<open>
  A negative length is not harmless: reading \<open>- k\<close> bytes, which the system calls allow,
  delivers nothing but makes the buffer claim \<open>k\<close> bytes more than it holds.
\<close>

lemma read_buffer_negative:
  assumes "buf_ok b" and "0 < k"
  shows "\<exists>b'. read_buffer b (- k) = Some (- k, [], b') \<and> b_filled b' = b_filled b + k \<and>
    (b_size b < b_filled b + k \<longrightarrow> \<not> buf_ok b')"
  using assms by (auto simp: read_buffer_def buf_ok_def)

end
