(* ===== verification/Pilocvario.thy ===== *)
theory Pilocvario
  imports Delay Buffer
begin

text \<open>
  \<open>pilocvario.c\<close>: terminals, pipes, locks and condition variables.  Each blocking function is
  split where control can leave it: the part that a resumed process continues with is a
  definition of its own, named after the loop it is in.
\<close>

section \<open>State\<close>

record pipe =
  p_buffer :: addr
  p_readblocked :: addr
  p_writeblocked :: addr
  p_unfulfilled :: int

record lock =
  l_owner :: addr
  l_blocked :: addr
  l_unfulfilled :: int
  l_cvar :: int

record cvar =
  c_blocked :: addr

record pilocvar =
  plc_count :: int
  plc_pipe :: addr
  plc_lock :: addr
  plc_cvar :: addr

record ttyio =
  t_buffer :: addr
  t_blocked :: addr
  t_transmitting :: int

text \<open>\<open>io_control_t\<close>; the arrays \<open>in\<close> and \<open>out\<close> have one entry per terminal.\<close>

record io_control =
  io_in :: "addr list"
  io_out :: "addr list"
  landing_buffer :: "byte list"

text \<open>
  The blocks of each kind, the two global tables, and the terminals' hardware: the line that
  waits in each terminal, and what has been given to it for transmission.
\<close>

record kernel = sched +
  bufs :: "addr \<Rightarrow> buffer"
  pipes :: "addr \<Rightarrow> pipe"
  locks :: "addr \<Rightarrow> lock"
  cvars :: "addr \<Rightarrow> cvar"
  ttyios :: "addr \<Rightarrow> ttyio"
  pilocvar :: pilocvar
  io :: io_control
  line_in :: "int \<Rightarrow> byte list"
  sent :: "(int \<times> byte list) list"

definition rd_buf :: "'z kernel_scheme \<Rightarrow> addr \<Rightarrow> buffer option" where
  "rd_buf s a = (if live s a then Some (bufs s a) else None)"

definition wr_buf :: "addr \<Rightarrow> buffer \<Rightarrow> 'z kernel_scheme \<Rightarrow> 'z kernel_scheme option" where
  "wr_buf a b s = (if live s a then Some (s\<lparr>bufs := (bufs s)(a := b)\<rparr>) else None)"

definition rd_pipe :: "'z kernel_scheme \<Rightarrow> addr \<Rightarrow> pipe option" where
  "rd_pipe s a = (if live s a then Some (pipes s a) else None)"

definition upd_pipe :: "addr \<Rightarrow> (pipe \<Rightarrow> pipe) \<Rightarrow> 'z kernel_scheme \<Rightarrow> 'z kernel_scheme option" where
  "upd_pipe a f s = (if live s a then Some (s\<lparr>pipes := (pipes s)(a := f (pipes s a))\<rparr>) else None)"

definition rd_lock :: "'z kernel_scheme \<Rightarrow> addr \<Rightarrow> lock option" where
  "rd_lock s a = (if live s a then Some (locks s a) else None)"

definition upd_lock :: "addr \<Rightarrow> (lock \<Rightarrow> lock) \<Rightarrow> 'z kernel_scheme \<Rightarrow> 'z kernel_scheme option" where
  "upd_lock a f s = (if live s a then Some (s\<lparr>locks := (locks s)(a := f (locks s a))\<rparr>) else None)"

definition rd_cvar :: "'z kernel_scheme \<Rightarrow> addr \<Rightarrow> cvar option" where
  "rd_cvar s a = (if live s a then Some (cvars s a) else None)"

definition upd_cvar :: "addr \<Rightarrow> (cvar \<Rightarrow> cvar) \<Rightarrow> 'z kernel_scheme \<Rightarrow> 'z kernel_scheme option" where
  "upd_cvar a f s = (if live s a then Some (s\<lparr>cvars := (cvars s)(a := f (cvars s a))\<rparr>) else None)"

definition rd_tty :: "'z kernel_scheme \<Rightarrow> addr \<Rightarrow> ttyio option" where
  "rd_tty s a = (if live s a then Some (ttyios s a) else None)"

definition upd_tty :: "addr \<Rightarrow> (ttyio \<Rightarrow> ttyio) \<Rightarrow> 'z kernel_scheme \<Rightarrow> 'z kernel_scheme option" where
  "upd_tty a f s = (if live s a then Some (s\<lparr>ttyios := (ttyios s)(a := f (ttyios s a))\<rparr>) else None)"

section \<open>Buffers on the heap\<close>

text \<open>
  The functions of theory Buffer, applied to the block a pointer refers to.  A write takes
  its bytes from memory at \<open>src\<close>, a read puts them there at \<open>dst\<close>.
\<close>

definition alloc_buffer :: "int \<Rightarrow> 'z kernel_scheme \<Rightarrow> (addr \<times> 'z kernel_scheme) option" where
  "alloc_buffer sz s = do {
     let (new, s) = malloc s;
     s \<leftarrow> wr_buf new (new_buffer sz) s;
     Some (new, s)
   }"

definition write_from :: "hw \<Rightarrow> addr \<Rightarrow> nat \<Rightarrow> int \<Rightarrow> 'z kernel_scheme \<Rightarrow> (int \<times> 'z kernel_scheme) option" where
  "write_from hw buffer src len s = do {
     b \<leftarrow> rd_buf s buffer;
     (written, b) \<leftarrow> write_buffer b (\<lambda>i. load hw s (u32 (int src + i))) len;
     s \<leftarrow> wr_buf buffer b s;
     Some (written, s)
   }"

definition read_into :: "hw \<Rightarrow> addr \<Rightarrow> nat \<Rightarrow> int \<Rightarrow> 'z kernel_scheme \<Rightarrow> (int \<times> 'z kernel_scheme) option" where
  "read_into hw buffer dst len s = do {
     b \<leftarrow> rd_buf s buffer;
     (read, bytes, b) \<leftarrow> read_buffer b len;
     s \<leftarrow> store_bytes hw dst bytes s;
     s \<leftarrow> wr_buf buffer b s;
     Some (read, s)
   }"

definition reset_at :: "addr \<Rightarrow> 'z kernel_scheme \<Rightarrow> 'z kernel_scheme option" where
  "reset_at buffer s = do { b \<leftarrow> rd_buf s buffer; wr_buf buffer (reset_buffer b) s }"

definition free_buffer :: "addr \<Rightarrow> 'z kernel_scheme \<Rightarrow> 'z kernel_scheme option" where
  "free_buffer buffer s = do {
     b \<leftarrow> rd_buf s buffer;
     s \<leftarrow> wr_buf buffer (destroy_buffer b) s;
     free buffer s
   }"

section \<open>Terminals\<close>

definition new_ttyio :: "hw \<Rightarrow> 'z kernel_scheme \<Rightarrow> (addr \<times> 'z kernel_scheme) option" where
  "new_ttyio hw s = do {
     let (new, s) = malloc s;
     (l, s) \<leftarrow> new_ll s;
     s \<leftarrow> upd_tty new (\<lambda>t. t\<lparr>t_blocked := l\<rparr>) s;
     (b, s) \<leftarrow> alloc_buffer (TERMINAL_MAX_LINE hw) s;
     s \<leftarrow> upd_tty new (\<lambda>t. t\<lparr>t_buffer := b\<rparr>) s;
     s \<leftarrow> upd_tty new (\<lambda>t. t\<lparr>t_transmitting := 0\<rparr>) s;
     Some (new, s)
   }"

fun new_ttyios :: "hw \<Rightarrow> nat \<Rightarrow> 'z kernel_scheme \<Rightarrow> (addr list \<times> addr list \<times> 'z kernel_scheme) option" where
  "new_ttyios hw 0 s = Some ([], [], s)"
| "new_ttyios hw (Suc k) s = do {
     (i, s) \<leftarrow> new_ttyio hw s;
     (out, s) \<leftarrow> new_ttyio hw s;
     (ins, outs, s) \<leftarrow> new_ttyios hw k s;
     Some (i # ins, out # outs, s)
   }"

text \<open>The landing buffer is never read before \<open>TtyReceive\<close> has filled it; it starts with zeros here.\<close>

definition io_control_init :: "hw \<Rightarrow> 'z kernel_scheme \<Rightarrow> (io_control \<times> 'z kernel_scheme) option" where
  "io_control_init hw s = do {
     let (_, s) = malloc s;
     (ins, outs, s) \<leftarrow> new_ttyios hw (nat (NUM_TERMINALS hw)) s;
     Some (\<lparr>io_in = ins, io_out = outs, landing_buffer = replicate (nat (TERMINAL_MAX_LINE hw)) 0\<rparr>, s)
   }"

text \<open>
  The hardware's side: \<open>TtyTransmit\<close> takes \<open>len\<close> bytes of the array it is given,
  \<open>TtyReceive\<close> stores at most \<open>len\<close> bytes of the waiting line and tells how many.
\<close>

definition TtyTransmit :: "int \<Rightarrow> byte list \<Rightarrow> int \<Rightarrow> 'z kernel_scheme \<Rightarrow> 'z kernel_scheme" where
  "TtyTransmit tty_id bytes len s = s\<lparr>sent := sent s @ [(tty_id, take (nat len) bytes)]\<rparr>"

definition TtyReceive :: "int \<Rightarrow> int \<Rightarrow> 'z kernel_scheme \<Rightarrow> int \<times> 'z kernel_scheme" where
  "TtyReceive tty_id len s =
     (let bytes = take (nat len) (line_in s tty_id);
          s = s\<lparr>io := (io s)\<lparr>landing_buffer := bytes @ drop (length bytes) (landing_buffer (io s))\<rparr>\<rparr>
      in (int (length bytes), s))"

definition write_tty_loop ::
  "hw \<Rightarrow> int \<Rightarrow> addr \<Rightarrow> nat \<Rightarrow> int \<Rightarrow> int \<Rightarrow> 'z kernel_scheme \<Rightarrow> (int outcome \<times> 'z kernel_scheme) option" where
  "write_tty_loop hw tty_id out src len tot s =
     (if tot < len then do {
        t \<leftarrow> rd_tty s out;
        if t_transmitting t \<noteq> 0 then do {
          s \<leftarrow> block hw (KC_TtyWrite tty_id out src len tot) (t_blocked t) s;
          Some (Switched, s)
        } else do {
          s \<leftarrow> reset_at (t_buffer t) s;
          (written, s) \<leftarrow> write_from hw (t_buffer t) src len s;
          let tot = tot + written;
          let src = u32 (int src + written);
          s \<leftarrow> upd_tty out (\<lambda>t. t\<lparr>t_transmitting := 1\<rparr>) s;
          b \<leftarrow> rd_buf s (t_buffer t);
          let s = TtyTransmit tty_id (b_buffered b) written s;
          s \<leftarrow> h_block hw (KC_TtyWrite tty_id out src len tot) (t_blocked t) s;
          Some (Switched, s)
        }
      } else do {
        t \<leftarrow> rd_tty s out;
        e \<leftarrow> is_empty (t_blocked t) s;
        s \<leftarrow> (if e = 0 then unblock_head (t_blocked t) s else Some s);
        Some (Ret tot, s)
      })"

definition write_tty :: "hw \<Rightarrow> int \<Rightarrow> nat \<Rightarrow> int \<Rightarrow> 'z kernel_scheme \<Rightarrow> (int outcome \<times> 'z kernel_scheme) option" where
  "write_tty hw tty_id src len s = do {
     out \<leftarrow> aread (io_out (io s)) tty_id;
     write_tty_loop hw tty_id out src len 0 s
   }"

definition write_alert :: "int \<Rightarrow> 'z kernel_scheme \<Rightarrow> 'z kernel_scheme option" where
  "write_alert tty_id s = do {
     out \<leftarrow> aread (io_out (io s)) tty_id;
     t \<leftarrow> rd_tty s out;
     s \<leftarrow> reset_at (t_buffer t) s;
     s \<leftarrow> upd_tty out (\<lambda>t. t\<lparr>t_transmitting := 0\<rparr>) s;
     e \<leftarrow> is_empty (t_blocked t) s;
     if e = 0 then unblock_head (t_blocked t) s else Some s
   }"

definition read_tty_loop ::
  "hw \<Rightarrow> addr \<Rightarrow> nat \<Rightarrow> int \<Rightarrow> 'z kernel_scheme \<Rightarrow> (int outcome \<times> 'z kernel_scheme) option" where
  "read_tty_loop hw inp dst len s = do {
     t \<leftarrow> rd_tty s inp;
     (read, s) \<leftarrow> read_into hw (t_buffer t) dst len s;
     if read = 0 then do {
       s \<leftarrow> block hw (KC_TtyRead inp dst len) (t_blocked t) s;
       Some (Switched, s)
     } else Some (Ret read, s)
   }"

definition read_tty :: "hw \<Rightarrow> int \<Rightarrow> nat \<Rightarrow> int \<Rightarrow> 'z kernel_scheme \<Rightarrow> (int outcome \<times> 'z kernel_scheme) option" where
  "read_tty hw tty_id dst len s = do {
     inp \<leftarrow> aread (io_in (io s)) tty_id;
     read_tty_loop hw inp dst len s
   }"

definition receive :: "hw \<Rightarrow> int \<Rightarrow> 'z kernel_scheme \<Rightarrow> 'z kernel_scheme option" where
  "receive hw tty_id s = do {
     let (read, s) = TtyReceive tty_id (TERMINAL_MAX_LINE hw) s;
     inp \<leftarrow> aread (io_in (io s)) tty_id;
     t \<leftarrow> rd_tty s inp;
     b \<leftarrow> rd_buf s (t_buffer t);
     (real_rd, b) \<leftarrow> write_buffer b (aread (landing_buffer (io s))) read;
     s \<leftarrow> wr_buf (t_buffer t) b s;
     if real_rd > 0 then unblock_all (t_blocked t) s else Some s
   }"

section \<open>Pipes\<close>

definition new_pipe :: "hw \<Rightarrow> int \<Rightarrow> 'z kernel_scheme \<Rightarrow> (addr \<times> 'z kernel_scheme) option" where
  "new_pipe hw ident s = do {
     let (p, s) = malloc s;
     (b, s) \<leftarrow> alloc_buffer (PIPE_BUFFER_LEN hw) s;
     s \<leftarrow> upd_pipe p (\<lambda>x. x\<lparr>p_buffer := b\<rparr>) s;
     (l, s) \<leftarrow> new_ll s;
     s \<leftarrow> upd_pipe p (\<lambda>x. x\<lparr>p_readblocked := l\<rparr>) s;
     (l, s) \<leftarrow> new_ll s;
     s \<leftarrow> upd_pipe p (\<lambda>x. x\<lparr>p_writeblocked := l\<rparr>) s;
     s \<leftarrow> upd_pipe p (\<lambda>x. x\<lparr>p_unfulfilled := 0\<rparr>) s;
     (n, s) \<leftarrow> new_node p s;
     s \<leftarrow> upd_node n (\<lambda>x. x\<lparr>nd_code := ident\<rparr>) s;
     s \<leftarrow> enqueue (plc_pipe (pilocvar s)) n s;
     Some (n, s)
   }"

text \<open>
  \<open>wake_all\<close> is the end of \<open>write_pipe\<close> and of \<open>read_pipe\<close>: everybody on the other side is
  woken, and counted as woken but not yet run.
\<close>

definition wake_all :: "addr \<Rightarrow> addr \<Rightarrow> 'z kernel_scheme \<Rightarrow> 'z kernel_scheme option" where
  "wake_all pipe l s = do {
     e \<leftarrow> is_empty l s;
     if e = 0 then do {
       n \<leftarrow> get_size l s;
       s \<leftarrow> upd_pipe pipe (\<lambda>p. p\<lparr>p_unfulfilled := p_unfulfilled p + n\<rparr>) s;
       unblock_all l s
     } else Some s
   }"

definition write_pipe_loop ::
  "hw \<Rightarrow> addr \<Rightarrow> nat \<Rightarrow> int \<Rightarrow> int \<Rightarrow> int \<Rightarrow> 'z kernel_scheme \<Rightarrow> (int outcome \<times> 'z kernel_scheme) option" where
  "write_pipe_loop hw pipe src len len_left tot s = do {
     p \<leftarrow> rd_pipe s pipe;
     (written, s) \<leftarrow> write_from hw (p_buffer p) src len s;
     if written < len_left then do {
       let src = u32 (int src + written);
       let tot = tot + written;
       let len_left = len_left - written;
       s \<leftarrow> block hw (KC_PipeWrite pipe src len len_left tot) (p_writeblocked p) s;
       Some (Switched, s)
     } else do {
       s \<leftarrow> wake_all pipe (p_readblocked p) s;
       Some (Ret tot, s)
     }
   }"

definition write_pipe :: "hw \<Rightarrow> addr \<Rightarrow> nat \<Rightarrow> int \<Rightarrow> 'z kernel_scheme \<Rightarrow> (int outcome \<times> 'z kernel_scheme) option" where
  "write_pipe hw pipe_n src len s = do {
     n \<leftarrow> rd_node s pipe_n;
     write_pipe_loop hw (nd_data n) src len len (uninit hw) s
   }"

definition read_pipe_loop ::
  "hw \<Rightarrow> addr \<Rightarrow> nat \<Rightarrow> int \<Rightarrow> 'z kernel_scheme \<Rightarrow> (int outcome \<times> 'z kernel_scheme) option" where
  "read_pipe_loop hw pipe dst len s = do {
     p \<leftarrow> rd_pipe s pipe;
     (read, s) \<leftarrow> read_into hw (p_buffer p) dst len s;
     if read = 0 then do {
       s \<leftarrow> block hw (KC_PipeRead pipe dst len) (p_readblocked p) s;
       Some (Switched, s)
     } else do {
       s \<leftarrow> wake_all pipe (p_writeblocked p) s;
       Some (Ret read, s)
     }
   }"

definition read_pipe :: "hw \<Rightarrow> addr \<Rightarrow> nat \<Rightarrow> int \<Rightarrow> 'z kernel_scheme \<Rightarrow> (int outcome \<times> 'z kernel_scheme) option" where
  "read_pipe hw pipe_n dst len s = do {
     n \<leftarrow> rd_node s pipe_n;
     read_pipe_loop hw (nd_data n) dst len s
   }"

definition destroy_pipe :: "hw \<Rightarrow> addr \<Rightarrow> 'z kernel_scheme \<Rightarrow> (int \<times> 'z kernel_scheme) option" where
  "destroy_pipe hw pipe_n s = do {
     n \<leftarrow> rd_node s pipe_n;
     let pipe = nd_data n;
     p \<leftarrow> rd_pipe s pipe;
     r \<leftarrow> is_empty (p_readblocked p) s;
     w \<leftarrow> (if r = 0 then Some 0 else is_empty (p_writeblocked p) s);
     if r = 0 \<or> w = 0 \<or> p_unfulfilled p > 0 then Some (ERROR hw, s)
     else do {
       s \<leftarrow> free_buffer (p_buffer p) s;
       s \<leftarrow> free (p_readblocked p) s;
       s \<leftarrow> free (p_writeblocked p) s;
       s \<leftarrow> upd_pipe pipe (\<lambda>x. x\<lparr>p_readblocked := NULL, p_writeblocked := NULL, p_unfulfilled := 0\<rparr>) s;
       (_, s) \<leftarrow> remove_ll (plc_pipe (pilocvar s)) pipe_n s;
       s \<leftarrow> destroy_node pipe_n s;
       Some (0, s)
     }
   }"

section \<open>Locks\<close>

definition new_lock :: "int \<Rightarrow> 'z kernel_scheme \<Rightarrow> (addr \<times> 'z kernel_scheme) option" where
  "new_lock ident s = do {
     let (l, s) = malloc s;
     s \<leftarrow> upd_lock l (\<lambda>x. x\<lparr>l_owner := NULL\<rparr>) s;
     (b, s) \<leftarrow> new_ll s;
     s \<leftarrow> upd_lock l (\<lambda>x. x\<lparr>l_blocked := b\<rparr>) s;
     s \<leftarrow> upd_lock l (\<lambda>x. x\<lparr>l_unfulfilled := 0, l_cvar := 0\<rparr>) s;
     (n, s) \<leftarrow> new_node l s;
     s \<leftarrow> upd_node n (\<lambda>x. x\<lparr>nd_code := ident\<rparr>) s;
     s \<leftarrow> enqueue (plc_lock (pilocvar s)) n s;
     Some (n, s)
   }"

text \<open>The loop of \<open>acquire\<close>; \<open>kc\<close> is where its caller goes on, \<open>acquire\<close> itself or \<open>wait_cvar\<close>.\<close>

definition acquire_loop ::
  "hw \<Rightarrow> kernel_context \<Rightarrow> addr \<Rightarrow> 'z kernel_scheme \<Rightarrow> (int outcome \<times> 'z kernel_scheme) option" where
  "acquire_loop hw kc lock s = do {
     l \<leftarrow> rd_lock s lock;
     if \<not> (l_owner l = NULL \<or> l_owner l = running (procs s)) then do {
       s \<leftarrow> block hw kc (l_blocked l) s;
       Some (Switched, s)
     } else do {
       s \<leftarrow> upd_lock lock (\<lambda>x. x\<lparr>l_owner := running (procs s)\<rparr>) s;
       Some (Ret 0, s)
     }
   }"

definition acquire :: "hw \<Rightarrow> addr \<Rightarrow> 'z kernel_scheme \<Rightarrow> (int outcome \<times> 'z kernel_scheme) option" where
  "acquire hw lock_n s = do {
     n \<leftarrow> rd_node s lock_n;
     acquire_loop hw (KC_Acquire (nd_data n)) (nd_data n) s
   }"

definition release :: "hw \<Rightarrow> addr \<Rightarrow> 'z kernel_scheme \<Rightarrow> (int \<times> 'z kernel_scheme) option" where
  "release hw lock_n s = do {
     n \<leftarrow> rd_node s lock_n;
     let lock = nd_data n;
     l \<leftarrow> rd_lock s lock;
     if l_owner l \<noteq> running (procs s) then Some (ERROR hw, s)
     else do {
       e \<leftarrow> is_empty (l_blocked l) s;
       s \<leftarrow> (if e = 0 then do {
              s \<leftarrow> unblock_head (l_blocked l) s;
              upd_lock lock (\<lambda>x. x\<lparr>l_unfulfilled := l_unfulfilled x + 1\<rparr>) s
            } else Some s);
       s \<leftarrow> upd_lock lock (\<lambda>x. x\<lparr>l_owner := NULL\<rparr>) s;
       Some (0, s)
     }
   }"

definition destroy_lock :: "hw \<Rightarrow> addr \<Rightarrow> 'z kernel_scheme \<Rightarrow> (int \<times> 'z kernel_scheme) option" where
  "destroy_lock hw lock_n s = do {
     n \<leftarrow> rd_node s lock_n;
     let lock = nd_data n;
     l \<leftarrow> rd_lock s lock;
     e \<leftarrow> (if l_owner l \<noteq> NULL then Some 1 else is_empty (l_blocked l) s);
     if l_owner l \<noteq> NULL \<or> e = 0 \<or> l_unfulfilled l > 0 \<or> l_cvar l > 0 then Some (ERROR hw, s)
     else do {
       s \<leftarrow> free (l_blocked l) s;
       s \<leftarrow> upd_lock lock (\<lambda>x. x\<lparr>l_owner := NULL, l_blocked := NULL, l_unfulfilled := 0, l_cvar := 0\<rparr>) s;
       (_, s) \<leftarrow> remove_ll (plc_lock (pilocvar s)) lock_n s;
       s \<leftarrow> destroy_node lock_n s;
       Some (0, s)
     }
   }"

section \<open>Condition variables\<close>

definition new_cvar :: "int \<Rightarrow> 'z kernel_scheme \<Rightarrow> (addr \<times> 'z kernel_scheme) option" where
  "new_cvar ident s = do {
     let (c, s) = malloc s;
     (b, s) \<leftarrow> new_ll s;
     s \<leftarrow> upd_cvar c (\<lambda>x. x\<lparr>c_blocked := b\<rparr>) s;
     (n, s) \<leftarrow> new_node c s;
     s \<leftarrow> upd_node n (\<lambda>x. x\<lparr>nd_code := ident\<rparr>) s;
     s \<leftarrow> enqueue (plc_cvar (pilocvar s)) n s;
     Some (n, s)
   }"

definition signal_cvar :: "addr \<Rightarrow> 'z kernel_scheme \<Rightarrow> 'z kernel_scheme option" where
  "signal_cvar cvar_n s = do {
     n \<leftarrow> rd_node s cvar_n;
     c \<leftarrow> rd_cvar s (nd_data n);
     e \<leftarrow> is_empty (c_blocked c) s;
     if e = 0 then unblock_head (c_blocked c) s else Some s
   }"

definition broadcast :: "addr \<Rightarrow> 'z kernel_scheme \<Rightarrow> 'z kernel_scheme option" where
  "broadcast cvar_n s = do {
     n \<leftarrow> rd_node s cvar_n;
     c \<leftarrow> rd_cvar s (nd_data n);
     e \<leftarrow> is_empty (c_blocked c) s;
     if e = 0 then unblock_all (c_blocked c) s else Some s
   }"

text \<open>
  \<open>wait_cvar\<close> always blocks; \<open>wait_cvar_acquire\<close> is the rest of it from the loop of \<open>acquire\<close>
  on, and the value 0 is what \<open>KernelCvarWait\<close> returns then.
\<close>

definition wait_cvar :: "hw \<Rightarrow> addr \<Rightarrow> addr \<Rightarrow> 'z kernel_scheme \<Rightarrow> 'z kernel_scheme option" where
  "wait_cvar hw cvar_n lock_n s = do {
     n \<leftarrow> rd_node s cvar_n;
     let cvar = nd_data n;
     n \<leftarrow> rd_node s lock_n;
     let lock = nd_data n;
     (_, s) \<leftarrow> release hw lock_n s;
     s \<leftarrow> upd_lock lock (\<lambda>x. x\<lparr>l_cvar := l_cvar x + 1\<rparr>) s;
     c \<leftarrow> rd_cvar s cvar;
     block hw (KC_CvarWait lock_n lock) (c_blocked c) s
   }"

definition wait_cvar_acquire ::
  "hw \<Rightarrow> addr \<Rightarrow> addr \<Rightarrow> 'z kernel_scheme \<Rightarrow> (int outcome \<times> 'z kernel_scheme) option" where
  "wait_cvar_acquire hw acq lock s = do {
     (r, s) \<leftarrow> acquire_loop hw (KC_CvarAcquire acq lock) acq s;
     case r of
       Ret _ \<Rightarrow> do {
         s \<leftarrow> upd_lock lock (\<lambda>x. x\<lparr>l_cvar := l_cvar x - 1\<rparr>) s;
         Some (Ret 0, s)
       }
     | _ \<Rightarrow> Some (r, s)
   }"

text \<open>
  \<open>destroy_cvar\<close> takes the block of the condition variable for a \<open>lock_t\<close>.  The field it
  reads is the second word of the block, which \<open>new_cvar\<close> never writes: it is the field of the
  store of locks at this address, which no lock has.
\<close>

definition destroy_cvar :: "hw \<Rightarrow> addr \<Rightarrow> 'z kernel_scheme \<Rightarrow> (int \<times> 'z kernel_scheme) option" where
  "destroy_cvar hw cvar_n s = do {
     n \<leftarrow> rd_node s cvar_n;
     let cvar = nd_data n;
     c \<leftarrow> rd_lock s cvar;
     e \<leftarrow> is_empty (l_blocked c) s;
     if e = 0 then Some (ERROR hw, s)
     else do {
       s \<leftarrow> free (l_blocked c) s;
       s \<leftarrow> upd_lock cvar (\<lambda>x. x\<lparr>l_blocked := NULL\<rparr>) s;
       (_, s) \<leftarrow> remove_ll (plc_cvar (pilocvar s)) cvar_n s;
       s \<leftarrow> destroy_node cvar_n s;
       Some (0, s)
     }
   }"

section \<open>The tables of pipes, locks and condition variables\<close>

definition pilocvar_init :: "'z kernel_scheme \<Rightarrow> (pilocvar \<times> 'z kernel_scheme) option" where
  "pilocvar_init s = do {
     let (_, s) = malloc s;
     (p, s) \<leftarrow> new_ll s;
     (l, s) \<leftarrow> new_ll s;
     (c, s) \<leftarrow> new_ll s;
     Some (\<lparr>plc_count = 0, plc_pipe = p, plc_lock = l, plc_cvar = c\<rparr>, s)
   }"

definition new_id :: "'z kernel_scheme \<Rightarrow> int \<times> 'z kernel_scheme" where
  "new_id s = (plc_count (pilocvar s), s\<lparr>pilocvar := (pilocvar s)\<lparr>plc_count := plc_count (pilocvar s) + 1\<rparr>\<rparr>)"

definition find_pipe :: "int \<Rightarrow> 'z kernel_scheme \<Rightarrow> addr option" where
  "find_pipe ident s = find_ll (plc_pipe (pilocvar s)) ident s"

definition find_lock :: "int \<Rightarrow> 'z kernel_scheme \<Rightarrow> addr option" where
  "find_lock ident s = find_ll (plc_lock (pilocvar s)) ident s"

definition find_cvar :: "int \<Rightarrow> 'z kernel_scheme \<Rightarrow> addr option" where
  "find_cvar ident s = find_ll (plc_cvar (pilocvar s)) ident s"

end
