(* ===== verification/Load.thy ===== *)
theory Load
  imports Scheduling
begin

text \<open>
  \<open>load.c\<close>: \<open>LoadProgram\<close> replaces region 1 of a process by a program from a file, with its
  arguments on a fresh stack.  File descriptors are not modelled: the file is a value, and
  an \<open>lseek\<close> followed by a \<open>read\<close> takes a part of its bytes.
\<close>

section \<open>The arguments\<close>

text \<open>The bytes of a C string up to its terminator, and the strings of an \<open>argv\<close>.\<close>

partial_function (option) c_string :: "hw \<Rightarrow> 'z mem_scheme \<Rightarrow> nat \<Rightarrow> byte list option" where
  "c_string hw s a = do {
     c \<leftarrow> load hw s a;
     if c = 0 then Some [] else do { cs \<leftarrow> c_string hw s (uadd a 1); Some (c # cs) }
   }"

partial_function (option) c_args :: "hw \<Rightarrow> 'z mem_scheme \<Rightarrow> nat \<Rightarrow> byte list list option" where
  "c_args hw s args = do {
     p \<leftarrow> load32 hw s args;
     if p = NULL then Some [] else do {
       a \<leftarrow> c_string hw s p;
       as \<leftarrow> c_args hw s (uadd args 4);
       Some (a # as)
     }
   }"

definition args_size :: "byte list list \<Rightarrow> int" where
  "args_size as = (\<Sum>a\<leftarrow>as. int (length a) + 1)"

section \<open>Where things go\<close>

text \<open>The first address of the arguments, and the address the argument vector starts at.\<close>

definition args_start :: "hw \<Rightarrow> byte list list \<Rightarrow> nat" where
  "args_start hw as = u32 (int (VMEM_1_LIMIT hw) - args_size as)"

definition argv_start :: "hw \<Rightarrow> byte list list \<Rightarrow> nat" where
  "argv_start hw as =
     u32 (int (args_start hw as) - (int (length as) + 3 + POST_ARGV_NULL_SPACE hw) * 4) div 8 * 8"

definition initial_sp :: "hw \<Rightarrow> byte list list \<Rightarrow> nat" where
  "initial_sp hw as = u32 (int (argv_start hw as) - INITIAL_STACK_FRAME_SIZE hw)"

definition text_pg1 :: "hw \<Rightarrow> load_info \<Rightarrow> int" where
  "text_pg1 hw li = int (drop_bit (PAGESHIFT hw) (usub (li_t_vaddr li) (VMEM_1_BASE hw)))"

definition data_pg1 :: "hw \<Rightarrow> load_info \<Rightarrow> int" where
  "data_pg1 hw li = int (drop_bit (PAGESHIFT hw) (usub (li_id_vaddr li) (VMEM_1_BASE hw)))"

definition data_npg :: "load_info \<Rightarrow> int" where
  "data_npg li = li_id_npg li + li_ud_npg li"

definition stack_npg :: "hw \<Rightarrow> byte list list \<Rightarrow> int" where
  "stack_npg hw as =
     int (drop_bit (PAGESHIFT hw) (usub (VMEM_1_LIMIT hw) (DOWN_TO_PAGE hw (initial_sp hw as))))"

section \<open>Building the new region 1\<close>

text \<open>The three loops that map text, data and stack, and the fields that describe the region.\<close>

definition build_region1 ::
  "hw \<Rightarrow> addr \<Rightarrow> load_info \<Rightarrow> byte list list \<Rightarrow> 'z mem_scheme \<Rightarrow> 'z mem_scheme option" where
  "build_region1 hw up li as s = do {
     s \<leftarrow> upd_upt up (\<lambda>u. u\<lparr>u_size := li_t_npg li + data_npg li + stack_npg hw as\<rparr>) s;
     s \<leftarrow> for_up (text_pg1 hw li) (text_pg1 hw li + li_t_npg li) (map_upage hw up (PROT_RW hw)) s;
     s \<leftarrow> for_up (data_pg1 hw li) (data_pg1 hw li + data_npg li) (map_upage hw up (PROT_RW hw)) s;
     s \<leftarrow> for_down (MAX_PT_LEN hw - stack_npg hw as) (MAX_PT_LEN hw) (map_upage hw up (PROT_RW hw)) s;
     upd_upt up (\<lambda>u. u
       \<lparr>u_data_end := u32 (push_bit (PAGESHIFT hw) (data_pg1 hw li + data_npg li + BASE_PAGE_1 hw - 1)),
        u_brk := u32 (push_bit (PAGESHIFT hw) (data_pg1 hw li + data_npg li + BASE_PAGE_1 hw)),
        u_stack_low := u32 (push_bit (PAGESHIFT hw) (LIM_PAGE_1 hw - stack_npg hw as))\<rparr>) s
   }"

text \<open>
  \<open>lseek\<close> to \<open>off\<close> and \<open>read\<close> of \<open>npg\<close> pages to \<open>a\<close>; the first component is whether the whole
  segment was there.
\<close>

definition read_segment ::
  "hw \<Rightarrow> exec_file \<Rightarrow> nat \<Rightarrow> nat \<Rightarrow> int \<Rightarrow> 'z mem_scheme \<Rightarrow> (bool \<times> 'z mem_scheme) option" where
  "read_segment hw f off a npg s = do {
     let segment_size = push_bit (PAGESHIFT hw) npg;
     let bytes = take (nat segment_size) (drop off (ef_bytes f));
     s \<leftarrow> store_bytes hw a bytes s;
     Some (int (length bytes) = segment_size, s)
   }"

definition set_zero :: "hw \<Rightarrow> nat \<Rightarrow> nat \<Rightarrow> 'z mem_scheme \<Rightarrow> 'z mem_scheme option" where
  "set_zero hw a n s = store_bytes hw a (replicate n 0) s"

text \<open>The argument list: each pointer is stored at \<open>cpp\<close>, each string at \<open>cp\<close>.\<close>

fun put_args :: "hw \<Rightarrow> nat \<Rightarrow> nat \<Rightarrow> byte list list \<Rightarrow> 'z mem_scheme \<Rightarrow> (nat \<times> 'z mem_scheme) option" where
  "put_args hw cpp cp [] s = Some (cpp, s)"
| "put_args hw cpp cp (a # as) s = do {
     s \<leftarrow> store32 hw cpp (int cp) s;
     s \<leftarrow> store_bytes hw cp (a @ [0]) s;
     put_args hw (uadd cpp 4) (uadd cp (length a + 1)) as s
   }"

definition build_stack :: "hw \<Rightarrow> byte list list \<Rightarrow> 'z mem_scheme \<Rightarrow> 'z mem_scheme option" where
  "build_stack hw as s = do {
     let cpp = argv_start hw as;
     s \<leftarrow> set_zero hw cpp (usub (VMEM_1_LIMIT hw) cpp) s;
     s \<leftarrow> store32 hw cpp (int (length as)) s;
     (cpp, s) \<leftarrow> put_args hw (uadd cpp 4) (args_start hw as) as s;
     s \<leftarrow> store32 hw cpp 0 s;
     store32 hw (uadd cpp 4) 0 s
   }"

section \<open>LoadProgram\<close>

text \<open>
  The part that cannot return to the old program: everything from the call of
  \<open>destroy_usermem\<close> on.  \<open>argbuf\<close> is the block in which the arguments \<open>as\<close> were saved.
\<close>

definition load_committed ::
  "hw \<Rightarrow> exec_file \<Rightarrow> load_info \<Rightarrow> byte list list \<Rightarrow> addr \<Rightarrow> addr \<Rightarrow> 'z proc_state_scheme \<Rightarrow>
   (int \<times> 'z proc_state_scheme) option" where
  "load_committed hw f li as argbuf proc s = do {
     p \<leftarrow> rd_pcb s proc;
     let up = pcb_userpt p;
     s \<leftarrow> destroy_usermem hw up s;
     if li_t_npg li + data_npg li + stack_npg hw as > frames_left (free_frame s) then Some (KILL hw, s)
     else do {
       s \<leftarrow> build_region1 hw up li as s;
       (ok, s) \<leftarrow> read_segment hw f (li_t_faddr li) (li_t_vaddr li) (li_t_npg li) s;
       if \<not> ok then Some (KILL hw, s)
       else do {
         (ok, s) \<leftarrow> read_segment hw f (li_id_faddr li) (li_id_vaddr li) (li_id_npg li) s;
         if \<not> ok then Some (KILL hw, s)
         else do {
           s \<leftarrow> for_up (text_pg1 hw li) (text_pg1 hw li + li_t_npg li)
                  (\<lambda>i. upd_upte hw up i (\<lambda>e. e\<lparr>pte_prot := or (PROT_READ hw) (PROT_EXEC hw)\<rparr>)) s;
           s \<leftarrow> set_zero hw (li_id_end li) (usub (li_ud_end li) (li_id_end li)) s;
           s \<leftarrow> upd_pcb proc (\<lambda>p. p\<lparr>pcb_uc := (pcb_uc p)\<lparr>uc_pc := li_entry li\<rparr>\<rparr>) s;
           s \<leftarrow> build_stack hw as s;
           s \<leftarrow> free argbuf s;
           Some (SUCCESS hw, s)
         }
       }
     }
   }"

definition LoadProgram ::
  "hw \<Rightarrow> nat \<Rightarrow> nat \<Rightarrow> addr \<Rightarrow> 'z proc_state_scheme \<Rightarrow> (int \<times> 'z proc_state_scheme) option" where
  "LoadProgram hw name args proc s = do {
     path \<leftarrow> c_string hw s name;
     case files hw path of
       None \<Rightarrow> Some (ERROR hw, s)
     | Some f \<Rightarrow> (case ef_info f of
         None \<Rightarrow> Some (- 1, s)
       | Some li \<Rightarrow>
           if li_entry li < VMEM_1_BASE hw then Some (ERROR hw, s)
           else do {
             as \<leftarrow> c_args hw s args;
             if stack_npg hw as + data_pg1 hw li + data_npg li \<ge> MAX_PT_LEN hw then Some (ERROR hw, s)
             else do {
               s \<leftarrow> upd_pcb proc (\<lambda>p. p\<lparr>pcb_uc := (pcb_uc p)\<lparr>uc_sp := initial_sp hw as\<rparr>\<rparr>) s;
               let (argbuf, s) = malloc s;
               load_committed hw f li as argbuf proc s
             }
           })
   }"

end
