(* ===== verification/Syscalls.thy ===== *)
theory Syscalls
  imports Pilocvario Load
begin

text \<open>
  \<open>syscalls.c\<close>: the system calls.  A call that may block gives an \<^typ>\<open>int outcome\<close>; the part of
  it that runs after the process was resumed is a definition of its own.
\<close>

definition curr_pcb :: "'z sched_scheme \<Rightarrow> pcb option" where
  "curr_pcb s = pcb_of s (running (procs s))"

section \<open>Processes\<close>

text \<open>\<open>fork_return\<close> is the test after \<open>copy_kernel\<close>, which parent and child both come to.\<close>

definition fork_return :: "addr \<Rightarrow> addr \<Rightarrow> 'z sched_scheme \<Rightarrow> int option" where
  "fork_return parent child_node s =
     (if running (procs s) = parent then get_pid child_node s else Some 0)"

definition KernelFork :: "hw \<Rightarrow> 'z sched_scheme \<Rightarrow> (int \<times> 'z sched_scheme) option" where
  "KernelFork hw s = do {
     p \<leftarrow> curr_pcb s;
     u \<leftarrow> rd_upt s (pcb_userpt p);
     if no_kernel_memory hw (u_size u + 3) s \<noteq> 0 then Some (ERROR hw, s)
     else do {
       let parent = running (procs s);
       (child_node, s) \<leftarrow> process_copy hw parent s;
       s \<leftarrow> ready child_node s;
       s \<leftarrow> copy_kernel hw (KC_Fork parent child_node) child_node s;
       r \<leftarrow> fork_return parent child_node s;
       Some (r, s)
     }
   }"

definition KernelExit :: "hw \<Rightarrow> int \<Rightarrow> 'z sched_scheme \<Rightarrow> (int outcome \<times> 'z sched_scheme) option" where
  "KernelExit hw status s =
     (if running (procs s) = init_node s then Some (Halted, s)
      else do {
        s \<leftarrow> reap_orphans hw s;
        s \<leftarrow> process_terminate hw (running (procs s)) status s;
        s \<leftarrow> graveyard hw KC_Exit s;
        Some (Switched, s)
      })"

definition KernelExec :: "hw \<Rightarrow> nat \<Rightarrow> nat \<Rightarrow> 'z sched_scheme \<Rightarrow> (int outcome \<times> 'z sched_scheme) option" where
  "KernelExec hw filename argvec s = do {
     p \<leftarrow> curr_pcb s;
     c \<leftarrow> check_string hw filename (pcb_userpt p) s;
     c \<leftarrow> (if c = 0 then Some 0 else check_args hw argvec (pcb_userpt p) s);
     if c = 0 then Some (Ret (ERROR hw), s)
     else do {
       n \<leftarrow> rd_node s (running (procs s));
       (code, s) \<leftarrow> LoadProgram hw filename argvec (nd_data n) s;
       if code = KILL hw then KernelExit hw (ERROR hw) s else Some (Ret code, s)
     }
   }"

text \<open>The loop of \<open>KernelWait\<close>, with what follows it when a child was found.\<close>

definition wait_loop ::
  "hw \<Rightarrow> addr \<Rightarrow> addr \<Rightarrow> 'z sched_scheme \<Rightarrow> (int outcome \<times> 'z sched_scheme) option" where
  "wait_loop hw parent status_ptr s = do {
     p \<leftarrow> rd_pcb s parent;
     (child, s) \<leftarrow> dequeue (pcb_d_children p) s;
     if child = NULL then do {
       s \<leftarrow> block_wait hw (KC_Wait parent status_ptr) s;
       Some (Switched, s)
     } else do {
       cid \<leftarrow> get_pid child s;
       c \<leftarrow> rd_node s child;
       s \<leftarrow> (if status_ptr \<noteq> NULL then store32 hw status_ptr (nd_code c) s else Some s);
       s \<leftarrow> process_destroy hw child s;
       s \<leftarrow> reap_orphans hw s;
       Some (Ret cid, s)
     }
   }"

definition KernelWait :: "hw \<Rightarrow> nat \<Rightarrow> 'z sched_scheme \<Rightarrow> (int outcome \<times> 'z sched_scheme) option" where
  "KernelWait hw status_ptr s = do {
     p \<leftarrow> curr_pcb s;
     c \<leftarrow> (if status_ptr \<noteq> NULL then check_addr hw status_ptr (PROT_WRITE hw) (pcb_userpt p) s else Some 1);
     if c = 0 then Some (Ret (ERROR hw), s)
     else do {
       n \<leftarrow> rd_node s (running (procs s));
       a \<leftarrow> is_empty (pcb_a_children p) s;
       d \<leftarrow> (if a \<noteq> 0 then is_empty (pcb_d_children p) s else Some 0);
       if a \<noteq> 0 \<and> d \<noteq> 0 then Some (Ret (ERROR hw), s)
       else wait_loop hw (nd_data n) status_ptr s
     }
   }"

definition KernelGetPid :: "'z sched_scheme \<Rightarrow> int option" where
  "KernelGetPid s = get_pid (running (procs s)) s"

definition KernelUserBrk :: "hw \<Rightarrow> nat \<Rightarrow> 'z sched_scheme \<Rightarrow> (int \<times> 'z sched_scheme) option" where
  "KernelUserBrk hw addr s = do {
     p \<leftarrow> curr_pcb s;
     let up = pcb_userpt p;
     u \<leftarrow> rd_upt s up;
     if addr \<ge> usub (DOWN_TO_PAGE hw (u_stack_low u)) (PAGESIZE hw) \<or> addr < UP_TO_PAGE hw (u_data_end u)
     then Some (ERROR hw, s)
     else do {
       let curr_brk_vpn = usub (drop_bit (PAGESHIFT hw) (UP_TO_PAGE hw (u_brk u))) 1;
       let next_brk_vpn = usub (drop_bit (PAGESHIFT hw) (UP_TO_PAGE hw addr)) 1;
       if next_brk_vpn > curr_brk_vpn \<and>
          usub next_brk_vpn curr_brk_vpn > u32 (frames_left (free_frame s)) then Some (ERROR hw, s)
       else do {
         s \<leftarrow> (if next_brk_vpn > curr_brk_vpn then do {
                s \<leftarrow> upd_upt up (\<lambda>u. u\<lparr>u_size := u_size u + int (usub next_brk_vpn curr_brk_vpn)\<rparr>) s;
                for_up (int (uadd curr_brk_vpn 1)) (int next_brk_vpn + 1)
                  (\<lambda>vpn. map_upage hw up (PROT_RW hw) (vpn - BASE_PAGE_1 hw)) s
              } else if next_brk_vpn < curr_brk_vpn then do {
                s \<leftarrow> upd_upt up (\<lambda>u. u\<lparr>u_size := u_size u - int (usub curr_brk_vpn next_brk_vpn)\<rparr>) s;
                for_down (int next_brk_vpn + 1) (int curr_brk_vpn + 1)
                  (\<lambda>vpn. unmap_upage hw up (vpn - BASE_PAGE_1 hw)) s
              } else Some s);
         s \<leftarrow> upd_upt up (\<lambda>u. u\<lparr>u_brk := UP_TO_PAGE hw addr\<rparr>) s;
         Some (0, s)
       }
     }
   }"

definition KernelDelay :: "hw \<Rightarrow> int \<Rightarrow> 'z sched_scheme \<Rightarrow> (int outcome \<times> 'z sched_scheme) option" where
  "KernelDelay hw clock_ticks s =
     (if clock_ticks < 0 then Some (Ret (ERROR hw), s)
      else if clock_ticks > 0 then do {
        s \<leftarrow> block_delay hw KC_Delay clock_ticks s;
        Some (Switched, s)
      } else Some (Ret 0, s))"

section \<open>Terminals\<close>

definition KernelTtyRead :: "hw \<Rightarrow> int \<Rightarrow> nat \<Rightarrow> int \<Rightarrow> 'z kernel_scheme \<Rightarrow> (int outcome \<times> 'z kernel_scheme) option" where
  "KernelTtyRead hw tty_id buf len s = do {
     p \<leftarrow> curr_pcb s;
     c \<leftarrow> (if tty_id \<ge> NUM_TERMINALS hw then Some 0 else check_buffer hw len buf (PROT_READ hw) (pcb_userpt p) s);
     if c = 0 then Some (Ret (ERROR hw), s) else read_tty hw tty_id buf len s
   }"

definition KernelTtyWrite :: "hw \<Rightarrow> int \<Rightarrow> nat \<Rightarrow> int \<Rightarrow> 'z kernel_scheme \<Rightarrow> (int outcome \<times> 'z kernel_scheme) option" where
  "KernelTtyWrite hw tty_id buf len s = do {
     p \<leftarrow> curr_pcb s;
     c \<leftarrow> (if tty_id \<ge> NUM_TERMINALS hw then Some 0 else check_buffer hw len buf (PROT_WRITE hw) (pcb_userpt p) s);
     if c = 0 then Some (Ret (ERROR hw), s) else write_tty hw tty_id buf len s
   }"

section \<open>Pipes\<close>

text \<open>
  The three \<open>Init\<close> calls have the same body around the constructor: the memory check, the
  check of the result pointer, a fresh identifier, and the identifier stored for the caller.
\<close>

definition init_object ::
  "hw \<Rightarrow> (int \<Rightarrow> 'z kernel_scheme \<Rightarrow> (addr \<times> 'z kernel_scheme) option) \<Rightarrow> nat \<Rightarrow> 'z kernel_scheme \<Rightarrow>
   (int \<times> 'z kernel_scheme) option" where
  "init_object hw new_object idp s =
     (if no_kernel_memory hw 1 s \<noteq> 0 then Some (ERROR hw, s)
      else do {
        p \<leftarrow> curr_pcb s;
        c \<leftarrow> check_addr hw idp (PROT_WRITE hw) (pcb_userpt p) s;
        if c = 0 then Some (ERROR hw, s)
        else do {
          let (ident, s) = new_id s;
          (n, s) \<leftarrow> new_object ident s;
          x \<leftarrow> rd_node s n;
          s \<leftarrow> (if idp \<noteq> NULL then store32 hw idp (nd_code x) s else Some s);
          Some (0, s)
        }
      })"

definition KernelPipeInit :: "hw \<Rightarrow> nat \<Rightarrow> 'z kernel_scheme \<Rightarrow> (int \<times> 'z kernel_scheme) option" where
  "KernelPipeInit hw pipe_idp s = init_object hw (new_pipe hw) pipe_idp s"

definition KernelPipeRead :: "hw \<Rightarrow> int \<Rightarrow> nat \<Rightarrow> int \<Rightarrow> 'z kernel_scheme \<Rightarrow> (int outcome \<times> 'z kernel_scheme) option" where
  "KernelPipeRead hw pipe_id buf len s = do {
     n \<leftarrow> find_pipe pipe_id s;
     p \<leftarrow> curr_pcb s;
     c \<leftarrow> (if n = NULL then Some 0 else check_buffer hw len buf (PROT_READ hw) (pcb_userpt p) s);
     if c = 0 then Some (Ret (ERROR hw), s) else read_pipe hw n buf len s
   }"

definition KernelPipeWrite :: "hw \<Rightarrow> int \<Rightarrow> nat \<Rightarrow> int \<Rightarrow> 'z kernel_scheme \<Rightarrow> (int outcome \<times> 'z kernel_scheme) option" where
  "KernelPipeWrite hw pipe_id buf len s = do {
     n \<leftarrow> find_pipe pipe_id s;
     p \<leftarrow> curr_pcb s;
     c \<leftarrow> (if n = NULL then Some 0 else check_buffer hw len buf (PROT_WRITE hw) (pcb_userpt p) s);
     if c = 0 then Some (Ret (ERROR hw), s) else write_pipe hw n buf len s
   }"

section \<open>Locks and condition variables\<close>

definition KernelLockInit :: "hw \<Rightarrow> nat \<Rightarrow> 'z kernel_scheme \<Rightarrow> (int \<times> 'z kernel_scheme) option" where
  "KernelLockInit hw lock_idp s = init_object hw new_lock lock_idp s"

definition KernelAcquire :: "hw \<Rightarrow> int \<Rightarrow> 'z kernel_scheme \<Rightarrow> (int outcome \<times> 'z kernel_scheme) option" where
  "KernelAcquire hw lock_id s = do {
     l \<leftarrow> find_lock lock_id s;
     if l = NULL then Some (Ret (ERROR hw), s) else acquire hw l s
   }"

definition KernelRelease :: "hw \<Rightarrow> int \<Rightarrow> 'z kernel_scheme \<Rightarrow> (int \<times> 'z kernel_scheme) option" where
  "KernelRelease hw lock_id s = do {
     l \<leftarrow> find_lock lock_id s;
     if l = NULL then Some (ERROR hw, s) else release hw l s
   }"

definition KernelCvarInit :: "hw \<Rightarrow> nat \<Rightarrow> 'z kernel_scheme \<Rightarrow> (int \<times> 'z kernel_scheme) option" where
  "KernelCvarInit hw cvar_idp s = init_object hw new_cvar cvar_idp s"

definition KernelCvarWait :: "hw \<Rightarrow> int \<Rightarrow> int \<Rightarrow> 'z kernel_scheme \<Rightarrow> (int outcome \<times> 'z kernel_scheme) option" where
  "KernelCvarWait hw cvar_id lock_id s = do {
     l \<leftarrow> find_lock lock_id s;
     c \<leftarrow> find_cvar cvar_id s;
     if l = NULL \<or> c = NULL then Some (Ret (ERROR hw), s)
     else do { s \<leftarrow> wait_cvar hw c l s; Some (Switched, s) }
   }"

definition KernelCvarSignal :: "hw \<Rightarrow> int \<Rightarrow> 'z kernel_scheme \<Rightarrow> (int \<times> 'z kernel_scheme) option" where
  "KernelCvarSignal hw cvar_id s = do {
     c \<leftarrow> find_cvar cvar_id s;
     if c = NULL then Some (ERROR hw, s) else do { s \<leftarrow> signal_cvar c s; Some (0, s) }
   }"

definition KernelCvarBroadcast :: "hw \<Rightarrow> int \<Rightarrow> 'z kernel_scheme \<Rightarrow> (int \<times> 'z kernel_scheme) option" where
  "KernelCvarBroadcast hw cvar_id s = do {
     c \<leftarrow> find_cvar cvar_id s;
     if c = NULL then Some (ERROR hw, s) else do { s \<leftarrow> broadcast c s; Some (0, s) }
   }"

definition KernelReclaim :: "hw \<Rightarrow> int \<Rightarrow> 'z kernel_scheme \<Rightarrow> (int \<times> 'z kernel_scheme) option" where
  "KernelReclaim hw ident s = do {
     l \<leftarrow> find_lock ident s;
     c \<leftarrow> find_cvar ident s;
     p \<leftarrow> find_pipe ident s;
     if \<not> (p \<noteq> NULL \<or> c \<noteq> NULL \<or> l \<noteq> NULL) then Some (ERROR hw, s)
     else if p \<noteq> NULL then destroy_pipe hw p s
     else if c \<noteq> NULL then destroy_cvar hw c s
     else destroy_lock hw l s
   }"

end
