(* ===== verification/Traps.thy ===== *)
theory Traps
  imports Syscalls
begin

text \<open>
  \<open>traps.c\<close>: the trap handlers, the resumption of a process in the kernel, and the machine as
  a step relation: user code runs until a trap, a handler runs until it returns to user mode,
  switches to another process or halts.
\<close>

section \<open>Leaving the kernel\<close>

text \<open>The end of every handler: the running process's user context goes to the hardware.\<close>

definition leave :: "'z sched_scheme \<Rightarrow> (user_context outcome \<times> 'z sched_scheme) option" where
  "leave s = do { u \<leftarrow> restore_uc s; Some (Ret u, s) }"

definition leave_with :: "int \<Rightarrow> 'z sched_scheme \<Rightarrow> (user_context outcome \<times> 'z sched_scheme) option" where
  "leave_with r s = do { s \<leftarrow> add_return_val r s; leave s }"

definition after_call :: "int outcome \<Rightarrow> 'z sched_scheme \<Rightarrow> (user_context outcome \<times> 'z sched_scheme) option" where
  "after_call res s = (case res of
     Ret r \<Rightarrow> leave_with r s
   | Switched \<Rightarrow> Some (Switched, s)
   | Halted \<Rightarrow> Some (Halted, s))"

section \<open>The system call handler\<close>

definition ptr_arg :: "user_context \<Rightarrow> nat \<Rightarrow> nat" where
  "ptr_arg uc k = unat (uc_regs uc k)"

definition int_arg :: "user_context \<Rightarrow> nat \<Rightarrow> int" where
  "int_arg uc k = sint (uc_regs uc k)"

definition returns :: "(int \<times> 's) option \<Rightarrow> (int outcome \<times> 's) option" where
  "returns m = do { (r, s) \<leftarrow> m; Some (Ret r, s) }"

text \<open>
  The \<open>switch\<close> of \<open>TrapKernel\<close>, \<open>YALNIX_EXEC\<close> apart; in the \<open>default\<close> branch \<open>return_val\<close> has
  not been assigned.
\<close>

definition syscall_switch :: "hw \<Rightarrow> user_context \<Rightarrow> 'z kernel_scheme \<Rightarrow> (int outcome \<times> 'z kernel_scheme) option" where
  "syscall_switch hw uc s =
     (let is = (\<lambda>c. uc_code uc = code_of hw c); p = ptr_arg uc; i = int_arg uc in
      if is YALNIX_FORK then returns (KernelFork hw s)
      else if is YALNIX_EXIT then KernelExit hw (i 0) s
      else if is YALNIX_WAIT then KernelWait hw (p 0) s
      else if is YALNIX_GETPID then do { r \<leftarrow> KernelGetPid s; Some (Ret r, s) }
      else if is YALNIX_BRK then returns (KernelUserBrk hw (p 0) s)
      else if is YALNIX_DELAY then KernelDelay hw (i 0) s
      else if is YALNIX_TTY_READ then KernelTtyRead hw (i 0) (p 1) (i 2) s
      else if is YALNIX_TTY_WRITE then KernelTtyWrite hw (i 0) (p 1) (i 2) s
      else if is YALNIX_PIPE_INIT then returns (KernelPipeInit hw (p 0) s)
      else if is YALNIX_PIPE_READ then KernelPipeRead hw (i 0) (p 1) (i 2) s
      else if is YALNIX_PIPE_WRITE then KernelPipeWrite hw (i 0) (p 1) (i 2) s
      else if is YALNIX_LOCK_INIT then returns (KernelLockInit hw (p 0) s)
      else if is YALNIX_LOCK_ACQUIRE then KernelAcquire hw (i 0) s
      else if is YALNIX_LOCK_RELEASE then returns (KernelRelease hw (i 0) s)
      else if is YALNIX_CVAR_INIT then returns (KernelCvarInit hw (p 0) s)
      else if is YALNIX_CVAR_SIGNAL then returns (KernelCvarSignal hw (i 0) s)
      else if is YALNIX_CVAR_BROADCAST then returns (KernelCvarBroadcast hw (i 0) s)
      else if is YALNIX_CVAR_WAIT then KernelCvarWait hw (i 0) (i 1) s
      else if is YALNIX_RECLAIM then returns (KernelReclaim hw (i 0) s)
      else Some (Ret (uninit hw), s))"

definition TrapKernel :: "hw \<Rightarrow> user_context \<Rightarrow> 'z kernel_scheme \<Rightarrow> (user_context outcome \<times> 'z kernel_scheme) option" where
  "TrapKernel hw uc s = do {
     s \<leftarrow> save_uc uc s;
     if uc_code uc = code_of hw YALNIX_EXEC then do {
       (res, s) \<leftarrow> KernelExec hw (ptr_arg uc 0) (ptr_arg uc 1) s;
       if res = Ret (SUCCESS hw) then leave s else after_call res s
     } else do {
       (res, s) \<leftarrow> syscall_switch hw uc s;
       after_call res s
     }
   }"

section \<open>The other handlers\<close>

definition TrapClock :: "hw \<Rightarrow> user_context \<Rightarrow> 'z sched_scheme \<Rightarrow> (user_context outcome \<times> 'z sched_scheme) option" where
  "TrapClock hw uc s = do {
     s \<leftarrow> save_uc uc s;
     s \<leftarrow> check_delay s;
     (res, s) \<leftarrow> rr_preempt hw KC_Clock s;
     case res of Ret _ \<Rightarrow> leave s | _ \<Rightarrow> Some (Switched, s)
   }"

text \<open>\<open>KernelExit\<close> does not return to the handlers that abort the process.\<close>

definition abort_process :: "hw \<Rightarrow> 'z sched_scheme \<Rightarrow> (user_context outcome \<times> 'z sched_scheme) option" where
  "abort_process hw s = do { (res, s) \<leftarrow> KernelExit hw (ERROR hw) s; after_call res s }"

definition TrapIllegal :: "hw \<Rightarrow> user_context \<Rightarrow> 'z sched_scheme \<Rightarrow> (user_context outcome \<times> 'z sched_scheme) option" where
  "TrapIllegal hw uc s = abort_process hw s"

definition TrapMath :: "hw \<Rightarrow> user_context \<Rightarrow> 'z sched_scheme \<Rightarrow> (user_context outcome \<times> 'z sched_scheme) option" where
  "TrapMath hw uc s = abort_process hw s"

definition TrapMemory :: "hw \<Rightarrow> user_context \<Rightarrow> 'z sched_scheme \<Rightarrow> (user_context outcome \<times> 'z sched_scheme) option" where
  "TrapMemory hw uc s = do {
     s \<leftarrow> save_uc uc s;
     p \<leftarrow> curr_pcb s;
     let up = pcb_userpt p;
     u \<leftarrow> rd_upt s up;
     if uc_addr uc \<ge> uadd (UP_TO_PAGE hw (u_brk u)) (PAGESIZE hw) \<and>
        uc_addr uc \<le> DOWN_TO_PAGE hw (u_stack_low u)
     then do {
       let curr_vpn = int (drop_bit (PAGESHIFT hw) (DOWN_TO_PAGE hw (u_stack_low u)));
       let next_vpn = int (drop_bit (PAGESHIFT hw) (DOWN_TO_PAGE hw (uc_addr uc)));
       if curr_vpn - next_vpn > frames_left (free_frame s) then abort_process hw s
       else do {
         s \<leftarrow> for_down next_vpn curr_vpn
                (\<lambda>vpn. map_upage hw up (PROT_RW hw) (vpn - BASE_PAGE_1 hw)) s;
         s \<leftarrow> upd_upt up (\<lambda>u. u\<lparr>u_size := u_size u + (curr_vpn - next_vpn)\<rparr>) s;
         s \<leftarrow> upd_upt up (\<lambda>u. u\<lparr>u_stack_low := u32 (push_bit (PAGESHIFT hw) next_vpn)\<rparr>) s;
         leave s
       }
     } else abort_process hw s
   }"

definition TrapTtyReceive :: "hw \<Rightarrow> user_context \<Rightarrow> 'z kernel_scheme \<Rightarrow> (user_context outcome \<times> 'z kernel_scheme) option" where
  "TrapTtyReceive hw uc s = do { s \<leftarrow> save_uc uc s; s \<leftarrow> receive hw (uc_code uc) s; leave s }"

definition TrapTtyTransmit :: "hw \<Rightarrow> user_context \<Rightarrow> 'z kernel_scheme \<Rightarrow> (user_context outcome \<times> 'z kernel_scheme) option" where
  "TrapTtyTransmit hw uc s = do { s \<leftarrow> save_uc uc s; s \<leftarrow> write_alert (uc_code uc) s; leave s }"

text \<open>\<open>TrapDisk\<close> does nothing; the hardware's user context is as it was.\<close>

definition TrapDisk :: "hw \<Rightarrow> user_context \<Rightarrow> 'z kernel_scheme \<Rightarrow> (user_context outcome \<times> 'z kernel_scheme) option" where
  "TrapDisk hw uc s = Some (Ret uc, s)"

section \<open>Resuming a process inside the kernel\<close>

text \<open>
  After a switch the running process goes on from the context that was stored for it: the
  statements after the call that switched, to the end of its handler.  A process that has
  exited, or whose context was never set, is not resumed.
\<close>

definition resume :: "hw \<Rightarrow> 'z kernel_scheme \<Rightarrow> (user_context outcome \<times> 'z kernel_scheme) option" where
  "resume hw s = do {
     p \<leftarrow> curr_pcb s;
     case pcb_kc p of
       KC_None \<Rightarrow> None
     | KC_Exit \<Rightarrow> None
     | KC_Start \<Rightarrow> leave s
     | KC_Clock \<Rightarrow> leave s
     | KC_Fork parent child_node \<Rightarrow> do { r \<leftarrow> fork_return parent child_node s; leave_with r s }
     | KC_Delay \<Rightarrow> leave_with 0 s
     | KC_Wait parent status_ptr \<Rightarrow> do { (res, s) \<leftarrow> wait_loop hw parent status_ptr s; after_call res s }
     | KC_TtyWrite tty_id out src len tot \<Rightarrow>
         do { (res, s) \<leftarrow> write_tty_loop hw tty_id out src len tot s; after_call res s }
     | KC_TtyRead inp dst len \<Rightarrow> do { (res, s) \<leftarrow> read_tty_loop hw inp dst len s; after_call res s }
     | KC_PipeWrite pipe src len len_left tot \<Rightarrow> do {
         s \<leftarrow> upd_pipe pipe (\<lambda>x. x\<lparr>p_unfulfilled := p_unfulfilled x - 1\<rparr>) s;
         (res, s) \<leftarrow> write_pipe_loop hw pipe src len len_left tot s;
         after_call res s
       }
     | KC_PipeRead pipe dst len \<Rightarrow> do {
         s \<leftarrow> upd_pipe pipe (\<lambda>x. x\<lparr>p_unfulfilled := p_unfulfilled x - 1\<rparr>) s;
         (res, s) \<leftarrow> read_pipe_loop hw pipe dst len s;
         after_call res s
       }
     | KC_Acquire lock \<Rightarrow> do {
         s \<leftarrow> upd_lock lock (\<lambda>x. x\<lparr>l_unfulfilled := l_unfulfilled x - 1\<rparr>) s;
         (res, s) \<leftarrow> acquire_loop hw (KC_Acquire lock) lock s;
         after_call res s
       }
     | KC_CvarWait lock_n lock \<Rightarrow> do {
         n \<leftarrow> rd_node s lock_n;
         (res, s) \<leftarrow> wait_cvar_acquire hw (nd_data n) lock s;
         after_call res s
       }
     | KC_CvarAcquire acq lock \<Rightarrow> do {
         s \<leftarrow> upd_lock acq (\<lambda>x. x\<lparr>l_unfulfilled := l_unfulfilled x - 1\<rparr>) s;
         (res, s) \<leftarrow> wait_cvar_acquire hw acq lock s;
         after_call res s
       }
   }"

section \<open>The machine\<close>

text \<open>
  \<open>User u\<close>: user code runs with registers \<open>u\<close>.  \<open>Kernel\<close>: a switch has happened, the running
  process goes on in the kernel.  \<open>Stopped\<close>: the machine was halted.
\<close>

datatype mode = User user_context | Kernel | Stopped

definition mode_after :: "user_context outcome \<Rightarrow> mode" where
  "mode_after res = (case res of Ret u \<Rightarrow> User u | Switched \<Rightarrow> Kernel | Halted \<Rightarrow> Stopped)"

text \<open>
  User code may change its registers and write to its own pages; a line may arrive at a
  terminal at any time; and any trap may be raised in user mode, with the code and the
  address of the trap in the user context.
\<close>

inductive step :: "hw \<Rightarrow> mode \<times> kernel \<Rightarrow> mode \<times> kernel \<Rightarrow> bool" for hw :: hw where
  user_regs: "step hw (User u, s) (User u', s)"
| user_write: "VMEM_1_BASE hw \<le> a \<Longrightarrow> store hw a c s = Some s' \<Longrightarrow> step hw (User u, s) (User u, s')"
| line_arrives: "step hw (User u, s) (User u, s\<lparr>line_in := (line_in s)(tty := bytes)\<rparr>)"
| trap_kernel: "TrapKernel hw u s = Some (res, s') \<Longrightarrow> step hw (User u, s) (mode_after res, s')"
| trap_clock: "TrapClock hw u s = Some (res, s') \<Longrightarrow> step hw (User u, s) (mode_after res, s')"
| trap_illegal: "TrapIllegal hw u s = Some (res, s') \<Longrightarrow> step hw (User u, s) (mode_after res, s')"
| trap_memory: "TrapMemory hw u s = Some (res, s') \<Longrightarrow> step hw (User u, s) (mode_after res, s')"
| trap_math: "TrapMath hw u s = Some (res, s') \<Longrightarrow> step hw (User u, s) (mode_after res, s')"
| trap_receive: "TrapTtyReceive hw u s = Some (res, s') \<Longrightarrow> step hw (User u, s) (mode_after res, s')"
| trap_transmit: "TrapTtyTransmit hw u s = Some (res, s') \<Longrightarrow> step hw (User u, s) (mode_after res, s')"
| trap_disk: "TrapDisk hw u s = Some (res, s') \<Longrightarrow> step hw (User u, s) (mode_after res, s')"
| resumed: "resume hw s = Some (res, s') \<Longrightarrow> step hw (Kernel, s) (mode_after res, s')"

inductive_cases step_stopped [elim!]: "step hw (Stopped, s) t"
inductive_cases step_kernel: "step hw (Kernel, s) t"
inductive_cases step_user: "step hw (User u, s) t"

inductive_simps step_Stopped_iff [simp]: "step hw (Stopped, s) t"

definition reachable :: "hw \<Rightarrow> mode \<times> kernel \<Rightarrow> mode \<times> kernel \<Rightarrow> bool" where
  "reachable hw = (step hw)\<^sup>*\<^sup>*"

end
