(* ===== verification/Kernel.thy ===== *)
theory Kernel
  imports Traps
begin

text \<open>
  \<open>kernel.c\<close>: booting.  The identity mapping of region 0, the trap vector, the initial and the
  idle process.  The registers that hold the base and the length of the tables are not state
  of the model, except the base of region 1.
\<close>

section \<open>The trap vector\<close>

datatype handler =
    H_TrapKernel | H_TrapClock | H_TrapTtyReceive | H_TrapTtyTransmit | H_TrapIllegal | H_TrapMemory
  | H_TrapMath | H_TrapDisk

text \<open>
  The indices \<open>TRAP_KERNEL\<close>, \<open>TRAP_CLOCK\<close>, \dots of \<open>hardware.h\<close> and the size of the vector; the
  result maps an index to its handler, \<^const>\<open>None\<close> for the entries set to NULL.
\<close>

record trap_numbers =
  TRAP_KERNEL :: nat
  TRAP_CLOCK :: nat
  TRAP_TTY_RECEIVE :: nat
  TRAP_TTY_TRANSMIT :: nat
  TRAP_ILLEGAL :: nat
  TRAP_MEMORY :: nat
  TRAP_MATH :: nat
  TRAP_DISK :: nat
  TRAP_VECTOR_SIZE :: nat

definition trap_setup :: "trap_numbers \<Rightarrow> (nat \<rightharpoonup> handler) \<Rightarrow> (nat \<rightharpoonup> handler)" where
  "trap_setup t v =
     (let v = v(TRAP_KERNEL t \<mapsto> H_TrapKernel);
          v = v(TRAP_CLOCK t \<mapsto> H_TrapClock);
          v = v(TRAP_TTY_RECEIVE t \<mapsto> H_TrapTtyReceive);
          v = v(TRAP_TTY_TRANSMIT t \<mapsto> H_TrapTtyTransmit);
          v = v(TRAP_ILLEGAL t \<mapsto> H_TrapIllegal);
          v = v(TRAP_MEMORY t \<mapsto> H_TrapMemory);
          v = v(TRAP_MATH t \<mapsto> H_TrapMath);
          v = v(TRAP_DISK t \<mapsto> H_TrapDisk)
      in foldl (\<lambda>v i. v(i := None)) v [TRAP_DISK t + 1..<TRAP_VECTOR_SIZE t])"

section \<open>Virtual memory\<close>

text \<open>One iteration of the loop of \<open>VM_setup\<close>; \<open>get_frame(vpn, FIXED)\<close> takes the frame of that number.\<close>

definition setup_page :: "hw \<Rightarrow> int \<Rightarrow> 'z mem_scheme \<Rightarrow> 'z mem_scheme option" where
  "setup_page hw vpn s =
     (let fixed = (\<lambda>prot. do {
            (pfn, ff) \<leftarrow> get_frame hw vpn FIXED (free_frame s);
            upd_kpte hw (vpn - BASE_PAGE_0 hw) (set_pte 1 pfn prot) (s\<lparr>free_frame := ff\<rparr>)
          }) in
      if vpn < int (drop_bit (PAGESHIFT hw) (kernel_data_start hw)) then fixed (or (PROT_READ hw) (PROT_EXEC hw))
      else if vpn \<le> int (drop_bit (PAGESHIFT hw) (k_brk (kernel_pt s))) then fixed (PROT_RW hw)
      else if vpn \<ge> BASE_PAGE_KSTACK hw then fixed (PROT_RW hw)
      else upd_kpte hw (vpn - BASE_PAGE_0 hw) (set_pte 0 NONE NONE) s)"

definition VM_setup :: "hw \<Rightarrow> 'z mem_scheme \<Rightarrow> 'z mem_scheme option" where
  "VM_setup hw s = do {
     (bogus, s) \<leftarrow> new_user_pt hw s;
     let s = s\<lparr>ptbr1 := bogus\<rparr>;
     s \<leftarrow> for_up (BASE_PAGE_0 hw) (LIM_PAGE_0 hw) (setup_page hw) s;
     Some (s\<lparr>vm_enable := True\<rparr>)
   }"

section \<open>The first processes\<close>

text \<open>\<open>DoIdle\<close> is user code, an endless loop of \<open>Pause\<close>; only its address occurs here.\<close>

definition idle_setup :: "hw \<Rightarrow> user_context \<Rightarrow> 'z sched_scheme \<Rightarrow> 'z sched_scheme option" where
  "idle_setup hw uctxt s = do {
     (idle, s) \<leftarrow> process_init hw s;
     let s = s\<lparr>idle_node := idle\<rparr>;
     n \<leftarrow> rd_node s idle;
     let idle_pcb = nd_data n;
     s \<leftarrow> upd_pcb idle_pcb (\<lambda>p. p\<lparr>pcb_uc := uctxt\<rparr>) s;
     p \<leftarrow> rd_pcb s idle_pcb;
     let usr_stack_vpn = LIM_PAGE_1 hw - 1;
     s \<leftarrow> map_upage hw (pcb_userpt p) (PROT_RW hw) (usr_stack_vpn - BASE_PAGE_1 hw) s;
     s \<leftarrow> upd_pcb idle_pcb (\<lambda>p. p\<lparr>pcb_uc := (pcb_uc p)\<lparr>uc_pc := DoIdle hw\<rparr>\<rparr>) s;
     s \<leftarrow> upd_pcb idle_pcb (\<lambda>p. p\<lparr>pcb_uc := (pcb_uc p)\<lparr>uc_sp := usub (VMEM_1_LIMIT hw) 4\<rparr>\<rparr>) s;
     copy_kernel hw KC_Start idle s
   }"

definition copy_kstack_entry :: "hw \<Rightarrow> addr \<Rightarrow> int \<Rightarrow> 'z sched_scheme \<Rightarrow> 'z sched_scheme option" where
  "copy_kstack_entry hw init_pcb vpn s = do {
     p \<leftarrow> rd_pcb s init_pcb;
     e \<leftarrow> rd_kpte hw s (vpn - BASE_PAGE_0 hw);
     upd_kstack hw (pcb_kstack p) (vpn - BASE_PAGE_KSTACK hw) (\<lambda>_. e) s
   }"

text \<open>The first component is False when the initial program cannot be loaded and the machine halts.\<close>

definition init_load :: "hw \<Rightarrow> nat \<Rightarrow> nat \<Rightarrow> user_context \<Rightarrow> 'z sched_scheme \<Rightarrow> (bool \<times> 'z sched_scheme) option" where
  "init_load hw name args uctxt s = do {
     (init, s) \<leftarrow> process_init hw s;
     let s = s\<lparr>init_node := init\<rparr>;
     n \<leftarrow> rd_node s init;
     let init_pcb = nd_data n;
     s \<leftarrow> upd_pcb init_pcb (\<lambda>p. p\<lparr>pcb_uc := uctxt\<rparr>) s;
     s \<leftarrow> for_up (BASE_PAGE_KSTACK hw) (LIM_PAGE_KSTACK hw) (copy_kstack_entry hw init_pcb) s;
     p \<leftarrow> rd_pcb s init_pcb;
     let s = s\<lparr>ptbr1 := pcb_userpt p\<rparr>;
     (code, s) \<leftarrow> LoadProgram hw name args init_pcb s;
     if code \<noteq> SUCCESS hw then Some (False, s)
     else Some (True, s\<lparr>procs := (procs s)\<lparr>running := init\<rparr>\<rparr>)
   }"

section \<open>KernelStart\<close>

definition init_frames :: "hw \<Rightarrow> nat \<Rightarrow> free_frame" where
  "init_frames hw pmem_size =
     (let sz = int (pmem_size div PAGESIZE hw) in
      \<lparr>ff_size = sz, ff_bits = replicate (nat (sz div CELL_SIZE + 1)) 0,
       ff_avail = BASE_FRAME hw, ff_filled = 0\<rparr>)"

text \<open>\<open>cmd_args\<close> is a vector in kernel memory; its first entry is the name of the program.\<close>

definition KernelStart :: "hw \<Rightarrow> nat \<Rightarrow> nat \<Rightarrow> user_context \<Rightarrow> kernel \<Rightarrow> (user_context outcome \<times> kernel) option" where
  "KernelStart hw cmd_args pmem_size uctxt s = do {
     let s = s\<lparr>kernel_pt := (kernel_pt s)\<lparr>k_brk := kernel_orig_brk hw\<rparr>\<rparr>;
     let (_, s) = malloc s;
     let s = s\<lparr>free_frame := init_frames hw pmem_size\<rparr>;
     s \<leftarrow> VM_setup hw s;
     (t, s) \<leftarrow> proc_table_init s;
     let s = s\<lparr>procs := t\<rparr>;
     (c, s) \<leftarrow> io_control_init hw s;
     let s = s\<lparr>io := c\<rparr>;
     (p, s) \<leftarrow> pilocvar_init s;
     let s = s\<lparr>pilocvar := p\<rparr>;
     name \<leftarrow> load32 hw s cmd_args;
     (ok, s) \<leftarrow> init_load hw name cmd_args uctxt s;
     if \<not> ok then Some (Halted, s)
     else do {
       s \<leftarrow> idle_setup hw uctxt s;
       leave s
     }
   }"

end
