(* ===== verification/Sync_Spec.thy ===== *)
theory Sync_Spec
  imports Kernel
begin

text \<open>
  Pipes, locks, condition variables and terminals over the scheduler: the interface they use
  is that of queues of waiting processes, and every wake-up in \<open>pilocvario.c\<close> is one of the
  two idioms proved for it.
\<close>

section \<open>Queues of waiting processes\<close>

definition wake1 :: "addr \<Rightarrow> addr \<Rightarrow> (addr \<rightharpoonup> addr list) \<Rightarrow> (addr \<rightharpoonup> addr list)" where
  "wake1 r l Q = (case Q l of Some (n # ys) \<Rightarrow> Q(l \<mapsto> ys, r \<mapsto> the (Q r) @ [n]) | _ \<Rightarrow> Q)"

definition wakeall :: "addr \<Rightarrow> addr \<Rightarrow> (addr \<rightharpoonup> addr list) \<Rightarrow> (addr \<rightharpoonup> addr list)" where
  "wakeall r l Q = (if the (Q l) = [] then Q else Q(l \<mapsto> [], r \<mapsto> the (Q r) @ the (Q l)))"

locale wait_queues =
  fixes inv :: "'s \<Rightarrow> (addr \<rightharpoonup> addr list) \<Rightarrow> bool"
    and ready_q :: "'s \<Rightarrow> addr"
    and same :: "'s \<Rightarrow> 's \<Rightarrow> bool"
    and on :: "addr \<Rightarrow> bool"
    and none_on :: "addr \<Rightarrow> 's \<Rightarrow> int option"
    and wake_head :: "addr \<Rightarrow> 's \<Rightarrow> 's option"
    and wake_each :: "addr \<Rightarrow> 's \<Rightarrow> 's option"
  assumes dom_law: "inv s Q \<Longrightarrow> on l \<Longrightarrow> Q l \<noteq> None"
    and none_law: "inv s Q \<Longrightarrow> Q l = Some xs \<Longrightarrow> none_on l s = Some (if xs = [] then 1 else 0)"
    and head_law: "\<lbrakk>inv s Q; on l; l \<noteq> ready_q s; Q l = Some (n # ys)\<rbrakk> \<Longrightarrow>
      \<exists>s'. wake_head l s = Some s' \<and> same s s' \<and> inv s' (Q(l \<mapsto> ys, ready_q s \<mapsto> the (Q (ready_q s)) @ [n]))"
    and each_law: "\<lbrakk>inv s Q; on l; l \<noteq> ready_q s; Q l = Some xs\<rbrakk> \<Longrightarrow>
      \<exists>s'. wake_each l s = Some s' \<and> same s s' \<and> inv s' (Q(l \<mapsto> [], ready_q s \<mapsto> the (Q (ready_q s)) @ xs))"
    and same_refl: "same s s"
begin

text \<open>\<open>if (!is_empty(l)) unblock_head(l)\<close> and \<open>if (!is_empty(l)) unblock_all(l)\<close>.\<close>

lemma wake_head_if_any:
  assumes "inv s Q" and "on l" and "l \<noteq> ready_q s"
  shows "\<exists>e s'. none_on l s = Some e \<and> (if e = 0 then wake_head l s else Some s) = Some s' \<and>
    (e = 0 \<longleftrightarrow> the (Q l) \<noteq> []) \<and> same s s' \<and> inv s' (wake1 (ready_q s) l Q)"
proof -
  obtain xs where xs: "Q l = Some xs" using dom_law [OF assms(1,2)] by blast
  note e = none_law [OF assms(1) xs]
  show ?thesis
  proof (cases xs)
    case Nil
    with e xs assms(1) same_refl show ?thesis by (simp add: wake1_def)
  next
    case (Cons n ys)
    with head_law [OF assms, of n ys] e xs show ?thesis by (simp add: wake1_def)
  qed
qed

lemma wake_each_if_any:
  assumes "inv s Q" and "on l" and "l \<noteq> ready_q s"
  shows "\<exists>e s'. none_on l s = Some e \<and> (if e = 0 then wake_each l s else Some s) = Some s' \<and>
    (e = 0 \<longleftrightarrow> the (Q l) \<noteq> []) \<and> same s s' \<and> inv s' (wakeall (ready_q s) l Q)"
proof -
  obtain xs where xs: "Q l = Some xs" using dom_law [OF assms(1,2)] by blast
  note e = none_law [OF assms(1) xs]
  show ?thesis
  proof (cases "xs = []")
    case True
    with e xs assms(1) same_refl show ?thesis by (simp add: wakeall_def)
  next
    case False
    with each_law [OF assms xs] e xs show ?thesis by (simp add: wakeall_def)
  qed
qed

end

interpretation wq: wait_queues "\<lambda>s Q. sched_inv s Q B" "\<lambda>s. ready_ll (procs s)" links_only "\<lambda>l. l \<in> B"
    is_empty unblock_head unblock_all
  for B
proof unfold_locales
  show "Q l \<noteq> None" if "sched_inv s Q B" "l \<in> B" for s :: "'a sched_scheme" and Q l
    using sched_midD(10) [OF sched_invD(1) [OF that(1)] that(2)] by (metis option.distinct(1))
qed (use is_empty_eq sched_invD(3) unblock_head_ok unblock_all_ok in \<open>blast | simp\<close>)+

section \<open>The stores of the objects\<close>

lemma live_kernel [simp]:
  "live (s\<lparr>bufs := F1\<rparr>) a = live s a" "live (s\<lparr>pipes := F2\<rparr>) a = live s a" "live (s\<lparr>locks := F3\<rparr>) a = live s a"
  "live (s\<lparr>cvars := F4\<rparr>) a = live s a" "live (s\<lparr>ttyios := F5\<rparr>) a = live s a" "live (s\<lparr>sent := F6\<rparr>) a = live s a"
  "live (s\<lparr>io := F7\<rparr>) a = live s a" "live (s\<lparr>pilocvar := F8\<rparr>) a = live s a"
  by (simp_all add: live_def)

lemma objects_live [simp]:
  "live s a \<Longrightarrow> rd_buf s a = Some (bufs s a)" "live s a \<Longrightarrow> wr_buf a b s = Some (s\<lparr>bufs := (bufs s)(a := b)\<rparr>)"
  "live s a \<Longrightarrow> rd_pipe s a = Some (pipes s a)"
  "live s a \<Longrightarrow> upd_pipe a fp s = Some (s\<lparr>pipes := (pipes s)(a := fp (pipes s a))\<rparr>)"
  "live s a \<Longrightarrow> rd_lock s a = Some (locks s a)"
  "live s a \<Longrightarrow> upd_lock a fl s = Some (s\<lparr>locks := (locks s)(a := fl (locks s a))\<rparr>)"
  "live s a \<Longrightarrow> rd_cvar s a = Some (cvars s a)"
  "live s a \<Longrightarrow> rd_tty s a = Some (ttyios s a)"
  "live s a \<Longrightarrow> upd_tty a ft s = Some (s\<lparr>ttyios := (ttyios s)(a := ft (ttyios s a))\<rparr>)"
  by (simp_all add: rd_buf_def wr_buf_def rd_pipe_def upd_pipe_def rd_lock_def upd_lock_def rd_cvar_def
      rd_tty_def upd_tty_def)

lemma lists_ok_alike:
  assumes "nodes s' = nodes s" "lls s' = lls s" "alive s' = alive s"
  shows "lists_ok s' Q = lists_ok s Q"
  using assms lists_ok_same [of s Q s'] lists_ok_same [of s' Q s] by metis

lemma sched_inv_alike:
  assumes "nodes s' = nodes s" "lls s' = lls s" "alive s' = alive s" "procs s' = procs s"
    "idle_node s' = idle_node s" "pcbs s' = pcbs s"
  shows "sched_inv s' Q B = sched_inv s Q B"
  by (simp add: sched_inv_def sched_mid_def proc_ok_def live_def lists_ok_alike [OF assms(1-3)] assms)

lemma sched_inv_kernel [simp]:
  "sched_inv (s\<lparr>bufs := F1\<rparr>) Q B = sched_inv s Q B" "sched_inv (s\<lparr>pipes := F2\<rparr>) Q B = sched_inv s Q B"
  "sched_inv (s\<lparr>locks := F3\<rparr>) Q B = sched_inv s Q B" "sched_inv (s\<lparr>ttyios := F5\<rparr>) Q B = sched_inv s Q B"
  "sched_inv (s\<lparr>sent := F6\<rparr>) Q B = sched_inv s Q B" "sched_inv (s\<lparr>pmem := F7\<rparr>) Q B = sched_inv s Q B"
  "sched_inv (s\<lparr>io := F8\<rparr>) Q B = sched_inv s Q B"
  by (rule sched_inv_alike, simp_all)+

text \<open>What a scheduling operation leaves of the objects: everything.\<close>

lemma frame_objects:
  assumes "sched_frame hw s s'"
  shows "bufs s' = bufs s" "pipes s' = pipes s" "locks s' = locks s" "cvars s' = cvars s" "ttyios s' = ttyios s"
    "pilocvar s' = pilocvar s" "io s' = io s" "sent s' = sent s" "line_in s' = line_in s"
proof -
  have m: "sched.more s' = sched.more s" using assms by (simp add: sched_frame_def)
  obtain a1 a2 a3 a4 a5 a6 a7 a8 a9 a10 where "sched.more s = \<lparr>bufs = a1, pipes = a2, locks = a3, cvars = a4,
      ttyios = a5, pilocvar = a6, io = a7, line_in = a8, sent = a9, \<dots> = a10\<rparr>"
    by (cases s) auto
  with m show "bufs s' = bufs s" "pipes s' = pipes s" "locks s' = locks s" "cvars s' = cvars s" "ttyios s' = ttyios s"
    "pilocvar s' = pilocvar s" "io s' = io s" "sent s' = sent s" "line_in s' = line_in s"
    by (cases s; cases s'; simp)+
qed

lemmas links_objects = frame_objects [OF links_sched_frame(1)]

section \<open>Locks\<close>

lemma acquire_loop_free:
  "\<lbrakk>live s lock; l_owner (locks s lock) = NULL \<or> l_owner (locks s lock) = running (procs s)\<rbrakk> \<Longrightarrow>
   acquire_loop hw kc lock s =
     Some (Ret 0, s\<lparr>locks := (locks s)(lock := (locks s lock)\<lparr>l_owner := running (procs s)\<rparr>)\<rparr>)"
  by (auto simp: acquire_loop_def)

lemma acquire_loop_taken:
  assumes "hw_ok hw" and "sched_inv s Q B" and "live s lock" and "l_blocked (locks s lock) \<in> B"
    and "running (procs s) \<noteq> idle_node s"
    and "l_owner (locks s lock) \<noteq> NULL" "l_owner (locks s lock) \<noteq> running (procs s)"
  defines "Q' \<equiv> Q(l_blocked (locks s lock) \<mapsto> the (Q (l_blocked (locks s lock))) @ [running (procs s)])"
  shows "\<exists>s'. acquire_loop hw kc lock s = Some (Switched, s') \<and> switched hw kc s s' (next_up s Q') \<and>
    sched_inv s' (dispatch (ready_ll (procs s)) Q') B \<and> locks s' = locks s"
proof -
  obtain s' where "block hw kc (l_blocked (locks s lock)) s = Some s'" "switched hw kc s s' (next_up s Q')"
      "sched_inv s' (dispatch (ready_ll (procs s)) Q') B"
    using block_ok [OF assms(1,2,4,5)] unfolding Q'_def by blast
  moreover from this(2) have "locks s' = locks s" using frame_objects(3) unfolding switched_def by blast
  ultimately show ?thesis using assms(3,6,7) by (simp add: acquire_loop_def)
qed

lemma release_ok:
  assumes inv: "sched_inv s Q B" and n: "live s lock_n" "nd_data (nodes s lock_n) = lock" and l: "live s lock"
    and b: "l_blocked (locks s lock) \<in> B" "l_blocked (locks s lock) \<noteq> ready_ll (procs s)"
    and own: "l_owner (locks s lock) = running (procs s)"
  shows "\<exists>s'. release hw lock_n s = Some (0, s') \<and>
    sched_inv s' (wake1 (ready_ll (procs s)) (l_blocked (locks s lock)) Q) B \<and> sched_frame hw' s (s'\<lparr>locks := locks s\<rparr>) \<and>
    links_only (s\<lparr>locks := locks s'\<rparr>) s' \<and> locks s' = (locks s)(lock := (locks s lock)\<lparr>l_unfulfilled := l_unfulfilled (locks s lock) +
      (if the (Q (l_blocked (locks s lock))) = [] then 0 else 1), l_owner := NULL\<rparr>)"
proof -
  obtain e s1 where s1: "is_empty (l_blocked (locks s lock)) s = Some e"
      "(if e = 0 then unblock_head (l_blocked (locks s lock)) s else Some s) = Some s1"
      "e = 0 \<longleftrightarrow> the (Q (l_blocked (locks s lock))) \<noteq> []" "links_only s s1"
      "sched_inv s1 (wake1 (ready_ll (procs s)) (l_blocked (locks s lock)) Q) B"
    using wq.wake_head_if_any [OF inv b] by blast
  have l1: "locks s1 = locks s" "live s1 lock" using links_objects(3) [OF s1(4)] l links_onlyD(1) [OF s1(4)] by auto
  define L where "L = (locks s)(lock := (locks s lock)\<lparr>l_unfulfilled := l_unfulfilled (locks s lock) +
      (if the (Q (l_blocked (locks s lock))) = [] then 0 else 1), l_owner := NULL\<rparr>)"
  have "release hw lock_n s = Some (0, s1\<lparr>locks := L\<rparr>)"
  proof (cases "the (Q (l_blocked (locks s lock))) = []")
    case True
    then have "e \<noteq> 0" "s1 = s" using s1(2,3) by auto
    with s1(1) n l own True show ?thesis by (simp add: release_def L_def)
  next
    case False
    then have "e = 0" "unblock_head (l_blocked (locks s lock)) s = Some s1" using s1(2,3) by auto
    with s1(1) n l l1 own False show ?thesis by (simp add: release_def L_def)
  qed
  moreover have "sched_frame hw' s (s1\<lparr>locks := L, locks := locks s\<rparr>)"
  proof -
    have "s1\<lparr>locks := L, locks := locks s\<rparr> = s1" using l1(1) [symmetric] by (cases s1) simp
    with links_sched_frame(1) [OF s1(4)] show ?thesis by simp
  qed
  moreover have "links_only (s\<lparr>locks := L\<rparr>) (s1\<lparr>locks := L\<rparr>)"
    using s1(4) by (cases s; cases s1) (simp add: links_only_def)
  ultimately show ?thesis using s1(5) by (auto simp: L_def)
qed

lemma release_other: "\<lbrakk>live s lock_n; live s (nd_data (nodes s lock_n));
   l_owner (locks s (nd_data (nodes s lock_n))) \<noteq> running (procs s)\<rbrakk> \<Longrightarrow> release hw lock_n s = Some (ERROR hw, s)"
  by (simp add: release_def)

section \<open>Buffers in memory\<close>

lemma write_from_ok:
  assumes "live s b" and "buf_ok (bufs s b)" and "0 \<le> len"
    and "\<And>j. int j < min (b_size (bufs s b) - b_filled (bufs s b)) len \<Longrightarrow> load hw s (u32 (int src + int j)) = Some (g j)"
  shows "\<exists>b'. write_from hw b src len s =
      Some (min (b_size (bufs s b) - b_filled (bufs s b)) len, s\<lparr>bufs := (bufs s)(b := b')\<rparr>) \<and> buf_ok b' \<and>
    contents b' = contents (bufs s b) @ map g [0..<nat (min (b_size (bufs s b) - b_filled (bufs s b)) len)] \<and>
    b_size b' = b_size (bufs s b)"
  using write_buffer_spec [OF assms(2,3), of "\<lambda>i. load hw s (u32 (int src + i))" g] assms(1,4)
  by (auto simp: write_from_def)

text \<open>Pages in use are there to be written; only physical memory changes.\<close>

lemma frame_at_pmem [simp]: "frame_at hw (s\<lparr>pmem := M\<rparr>) v = frame_at hw s v"
  by (simp add: frame_at_def rd_kpte_def rd_upte_def)

lemma pipe_bytes_ok:
  "(\<And>j. j < length cs \<Longrightarrow> frame_at hw s (int (drop_bit (PAGESHIFT hw) (uadd a j))) \<noteq> None) \<Longrightarrow>
   length cs = 0 \<or> a < 2 ^ 32 \<Longrightarrow> \<exists>M. store_bytes hw a cs s = Some (s\<lparr>pmem := M\<rparr>)"
proof (induction cs arbitrary: a s)
  case Nil
  show ?case by (auto intro!: exI [of _ "pmem s"])
next
  case (Cons c cs)
  have a: "uadd a 0 = a" using Cons.prems(2) by (simp add: uadd_exact)
  obtain f where f: "frame_at hw s (int (drop_bit (PAGESHIFT hw) a)) = Some f"
    using Cons.prems(1) [of 0] a by auto
  define s1 where "s1 = s\<lparr>pmem := (pmem s)(f := (pmem s f)(a mod PAGESIZE hw := c))\<rparr>"
  have shift: "uadd (uadd a 1) j = uadd a (Suc j)" for j
    by (simp add: uadd_def u32_def mod_simps algebra_simps)
  have "\<exists>M. store_bytes hw (uadd a 1) cs s1 = Some (s1\<lparr>pmem := M\<rparr>)"
  proof (rule Cons.IH)
    show "frame_at hw s1 (int (drop_bit (PAGESHIFT hw) (uadd (uadd a 1) j))) \<noteq> None" if "j < length cs" for j
      using Cons.prems(1) [of "Suc j"] that by (simp add: s1_def shift [unfolded One_nat_def])
    show "length cs = 0 \<or> uadd a 1 < 2 ^ 32" using u32_less by (simp add: uadd_def)
  qed
  then show ?case using f by (auto simp: store_def s1_def)
qed

lemma read_into_ok:
  assumes "live s b" and "buf_ok (bufs s b)" and "0 \<le> len" and "dst < 2 ^ 32"
    and "\<And>j. int j < min (b_filled (bufs s b)) len \<Longrightarrow>
      frame_at hw s (int (drop_bit (PAGESHIFT hw) (uadd dst j))) \<noteq> None"
  shows "\<exists>b' M. read_into hw b dst len s =
      Some (min (b_filled (bufs s b)) len, s\<lparr>pmem := M, bufs := (bufs s)(b := b')\<rparr>) \<and>
    store_bytes hw dst (take (nat len) (contents (bufs s b))) s = Some (s\<lparr>pmem := M\<rparr>) \<and> buf_ok b' \<and>
    contents b' = drop (nat len) (contents (bufs s b)) \<and> b_size b' = b_size (bufs s b)"
proof -
  obtain b' where b': "read_buffer (bufs s b) len =
      Some (min (b_filled (bufs s b)) len, take (nat len) (contents (bufs s b)), b')" "buf_ok b'"
      "contents b' = drop (nat len) (contents (bufs s b))" "b_size b' = b_size (bufs s b)"
    using read_buffer_spec [OF assms(2,3)] by blast
  have "int (length (take (nat len) (contents (bufs s b)))) = min (b_filled (bufs s b)) len"
    using contents_length [OF assms(2)] assms(3) by auto
  then have "j < length (take (nat len) (contents (bufs s b))) \<Longrightarrow>
      frame_at hw s (int (drop_bit (PAGESHIFT hw) (uadd dst j))) \<noteq> None" for j
    using assms(5) [of j] by linarith
  then obtain M where "store_bytes hw dst (take (nat len) (contents (bufs s b))) s = Some (s\<lparr>pmem := M\<rparr>)"
    using pipe_bytes_ok assms(4) by blast
  with b' assms(1) show ?thesis by (auto simp: read_into_def)
qed

section \<open>Pipes\<close>

lemma restore_pipes: "pipes s1 = P \<Longrightarrow> s1\<lparr>pipes := X, pipes := P\<rparr> = s1"
  by (cases s1) simp

lemma frame_pipes:
  assumes "sched_frame hw (s\<lparr>pipes := P\<rparr>) s'"
  shows "sched_frame hw s (s'\<lparr>pipes := pipes s\<rparr>)"
  using assms frame_objects(2) [OF assms] by (cases s; cases s') (simp add: sched_frame_def)

lemma wake_all_ok:
  assumes inv: "sched_inv s Q B" and "live s pipe" and l: "l \<in> B" "l \<noteq> ready_ll (procs s)"
  shows "\<exists>s'. wake_all pipe l s = Some s' \<and> sched_inv s' (wakeall (ready_ll (procs s)) l Q) B \<and>
    pipes s' = (pipes s)(pipe := (pipes s pipe)
      \<lparr>p_unfulfilled := p_unfulfilled (pipes s pipe) + int (length (the (Q l)))\<rparr>) \<and>
    sched_frame hw s (s'\<lparr>pipes := pipes s\<rparr>) \<and> ptbr1 s' = ptbr1 s"
proof -
  note I = sched_invD [OF inv]
  note Ql = sched_midD(10) [OF I(1) l(1)]
  note at = lists_okD [OF I(3) Ql]
  let ?P = "(pipes s)(pipe := (pipes s pipe)\<lparr>p_unfulfilled := p_unfulfilled (pipes s pipe) + int (length (the (Q l)))\<rparr>)"
  show ?thesis
  proof (cases "the (Q l) = []")
    case True
    then have "wake_all pipe l s = Some s" using is_empty_eq [OF I(3) Ql] by (simp add: wake_all_def)
    moreover have "?P = pipes s" using True by auto
    moreover have "s\<lparr>pipes := pipes s\<rparr> = s" by (cases s) simp
    ultimately show ?thesis using inv True by (auto simp: wakeall_def)
  next
    case False
    have inv': "sched_inv (s\<lparr>pipes := ?P\<rparr>) Q B" using inv by simp
    obtain s' where s': "unblock_all l (s\<lparr>pipes := ?P\<rparr>) = Some s'" "links_only (s\<lparr>pipes := ?P\<rparr>) s'"
        "sched_inv s' (Q(l \<mapsto> [], ready_ll (procs s) \<mapsto> ready_of s Q @ the (Q l))) B"
      using unblock_all_ok [OF inv' l(1) _ Ql] l(2) by auto
    have "wake_all pipe l s = Some s'"
      using is_empty_eq [OF I(3) Ql] False s'(1) assms(2) ll_atD(1,2,8) [OF at]
      by (auto simp: wake_all_def get_size_def)
    moreover have "pipes s' = ?P" using links_objects(2) [OF s'(2)] by simp
    moreover have "ptbr1 s' = ptbr1 s" using links_onlyD(6) [OF s'(2)] by (cases s; cases s'; simp)
    ultimately show ?thesis
      using s'(3) False frame_pipes [OF links_sched_frame(1) [OF s'(2)]] by (simp add: wakeall_def)
  qed
qed

text \<open>A pipe whose queues and buffer are in place.\<close>

definition pipe_ok :: "kernel \<Rightarrow> addr set \<Rightarrow> addr \<Rightarrow> bool" where
  "pipe_ok s B pipe \<longleftrightarrow> live s pipe \<and> live s (p_buffer (pipes s pipe)) \<and>
     buf_ok (bufs s (p_buffer (pipes s pipe))) \<and>
     p_readblocked (pipes s pipe) \<in> B \<and> p_writeblocked (pipes s pipe) \<in> B \<and>
     p_readblocked (pipes s pipe) \<noteq> ready_ll (procs s) \<and> p_writeblocked (pipes s pipe) \<noteq> ready_ll (procs s)"

abbreviation pipe_buf :: "kernel \<Rightarrow> addr \<Rightarrow> buffer" where
  "pipe_buf s pipe \<equiv> bufs s (p_buffer (pipes s pipe))"

definition room :: "buffer \<Rightarrow> int" where
  "room b = b_size b - b_filled b"

text \<open>
  A write for which there is room appends all of its bytes and wakes the readers.  What it
  returns is \<open>tot\<close>: in the first round the uninitialised variable.
\<close>

lemma write_pipe_loop_fits:
  assumes inv: "sched_inv s Q B" and p: "pipe_ok s B pipe" and len: "0 \<le> len" "len \<le> room (pipe_buf s pipe)" "left \<le> len"
    and src: "\<And>j. int j < len \<Longrightarrow> load hw s (u32 (int src + int j)) = Some (g j)"
  shows "\<exists>s'. write_pipe_loop hw pipe src len left tot s = Some (Ret tot, s') \<and>
    sched_inv s' (wakeall (ready_ll (procs s)) (p_readblocked (pipes s pipe)) Q) B \<and>
    contents (pipe_buf s' pipe) = contents (pipe_buf s pipe) @ map g [0..<nat len] \<and>
    buf_ok (pipe_buf s' pipe) \<and>
    p_unfulfilled (pipes s' pipe) = p_unfulfilled (pipes s pipe) + int (length (the (Q (p_readblocked (pipes s pipe)))))"
proof -
  have P: "live s pipe" "live s (p_buffer (pipes s pipe))" "buf_ok (pipe_buf s pipe)"
      "p_readblocked (pipes s pipe) \<in> B" "p_readblocked (pipes s pipe) \<noteq> ready_ll (procs s)"
    using p by (auto simp: pipe_ok_def)
  have m: "min (b_size (pipe_buf s pipe) - b_filled (pipe_buf s pipe)) len = len" using len(2) by (simp add: room_def)
  obtain b' where b': "write_from hw (p_buffer (pipes s pipe)) src len s =
        Some (len, s\<lparr>bufs := (bufs s)(p_buffer (pipes s pipe) := b')\<rparr>)" "buf_ok b'"
      "contents b' = contents (pipe_buf s pipe) @ map g [0..<nat len]"
    using write_from_ok [OF P(2,3) len(1), of hw src g] src unfolding m by blast
  let ?s = "s\<lparr>bufs := (bufs s)(p_buffer (pipes s pipe) := b')\<rparr>"
  obtain s' where s': "wake_all pipe (p_readblocked (pipes s pipe)) ?s = Some s'"
      "sched_inv s' (wakeall (ready_ll (procs s)) (p_readblocked (pipes s pipe)) Q) B"
      "pipes s' = (pipes s)(pipe := (pipes s pipe)\<lparr>p_unfulfilled := p_unfulfilled (pipes s pipe) +
        int (length (the (Q (p_readblocked (pipes s pipe)))))\<rparr>)"
      "sched_frame hw ?s (s'\<lparr>pipes := pipes s\<rparr>)"
    using wake_all_ok [of ?s Q B pipe "p_readblocked (pipes s pipe)" hw] inv P(1,4,5) by auto
  have "bufs s' = bufs ?s" using frame_objects(1) [OF s'(4)] by simp
  then have "pipe_buf s' pipe = b'" by (simp add: s'(3))
  moreover have "write_pipe_loop hw pipe src len left tot s = Some (Ret tot, s')"
    using b'(1) s'(1) P(1) len(3) by (simp add: write_pipe_loop_def)
  ultimately show ?thesis using b'(2,3) s'(2,3) by simp
qed

text \<open>A write for which there is no room fills the buffer and blocks the writer.\<close>

lemma write_pipe_loop_full:
  assumes hw: "hw_ok hw" and inv: "sched_inv s Q B" and p: "pipe_ok s B pipe" and run: "running (procs s) \<noteq> idle_node s"
    and len: "0 \<le> len" "room (pipe_buf s pipe) \<le> len" "room (pipe_buf s pipe) < left"
    and src: "\<And>j. int j < room (pipe_buf s pipe) \<Longrightarrow> load hw s (u32 (int src + int j)) = Some (g j)"
  defines "r \<equiv> room (pipe_buf s pipe)"
    and "Q' \<equiv> Q(p_writeblocked (pipes s pipe) \<mapsto> the (Q (p_writeblocked (pipes s pipe))) @ [running (procs s)])"
  shows "\<exists>s'. write_pipe_loop hw pipe src len left tot s = Some (Switched, s') \<and>
    sched_inv s' (dispatch (ready_ll (procs s)) Q') B \<and> running (procs s') = next_up s Q' \<and>
    pcb_kc (the_pcb s' (running (procs s))) = KC_PipeWrite pipe (u32 (int src + r)) len (left - r) (tot + r) \<and>
    contents (pipe_buf s' pipe) = contents (pipe_buf s pipe) @ map g [0..<nat r] \<and>
    buf_ok (pipe_buf s' pipe) \<and> room (pipe_buf s' pipe) = 0"
proof -
  have P: "live s pipe" "live s (p_buffer (pipes s pipe))" "buf_ok (pipe_buf s pipe)" "p_writeblocked (pipes s pipe) \<in> B"
    using p by (auto simp: pipe_ok_def)
  have m: "min (b_size (pipe_buf s pipe) - b_filled (pipe_buf s pipe)) len = r" using len(2) by (simp add: r_def room_def)
  have r0: "0 \<le> r" using P(3) by (simp add: r_def room_def buf_ok_def)
  obtain b' where b': "write_from hw (p_buffer (pipes s pipe)) src len s =
        Some (r, s\<lparr>bufs := (bufs s)(p_buffer (pipes s pipe) := b')\<rparr>)" "buf_ok b'"
      "contents b' = contents (pipe_buf s pipe) @ map g [0..<nat r]" "b_size b' = b_size (pipe_buf s pipe)"
    using write_from_ok [OF P(2,3) len(1), of hw src g] src unfolding m r_def by blast
  have full: "room b' = 0"
    using contents_length [OF b'(2)] contents_length [OF P(3)] b'(3,4) r0 by (simp add: room_def r_def)
  let ?s = "s\<lparr>bufs := (bufs s)(p_buffer (pipes s pipe) := b')\<rparr>"
  let ?kc = "KC_PipeWrite pipe (u32 (int src + r)) len (left - r) (tot + r)"
  have nu: "next_up ?s Q' = next_up s Q'" by (simp add: next_up_def split: list.splits)
  obtain s' where s': "block hw ?kc (p_writeblocked (pipes s pipe)) ?s = Some s'" "switched hw ?kc ?s s' (next_up s Q')"
      "sched_inv s' (dispatch (ready_ll (procs s)) Q') B"
    using block_ok [OF hw, of ?s Q B "p_writeblocked (pipes s pipe)" ?kc] inv P(4) run nu by (auto simp: Q'_def)
  have F: "sched_frame hw ?s s'" using s'(2) by (simp add: switched_def)
  have "pipe_buf s' pipe = b'" using frame_objects(1,2) [OF F] by simp
  moreover have "write_pipe_loop hw pipe src len left tot s = Some (Switched, s')"
    using b'(1) s'(1) P(1) len(3) by (simp add: write_pipe_loop_def r_def)
  moreover have "pcb_kc (the_pcb s' (running (procs s))) = ?kc"
    using s'(2) sched_frameD(2) [OF F] by (simp add: switched_def)
  ultimately show ?thesis using b'(2,3) full s'(2,3) by (auto simp: switched_def)
qed

end
