(* ===== verification/Demo.thy ===== *)
theory Demo
  imports Sync_Spec
begin

text \<open>
  A concrete state of the kernel on the machine \<open>demo\<close>, at which the theorems about the
  scheduler, memory and the synchronisation objects are instantiated.  Process 10 runs, 11 is
  ready, 12 is the idle process, 13 and 14 sleep for 1 and 5 ticks, 15 waits for the lock of
  node 61 that process 10 holds, 16 waits to read from the pipe of node 63.
\<close>

definition demo_nodes :: "addr \<Rightarrow> node" where
  "demo_nodes =
     (\<lambda>n. \<lparr>nd_data = n + 10, nd_code = 0, nd_next = NULL, nd_prev = NULL\<rparr>)
     (13 := \<lparr>nd_data = 23, nd_code = 1, nd_next = 14, nd_prev = NULL\<rparr>,
      14 := \<lparr>nd_data = 24, nd_code = 5, nd_next = NULL, nd_prev = 13\<rparr>,
      61 := \<lparr>nd_data = 60, nd_code = 0, nd_next = NULL, nd_prev = NULL\<rparr>,
      63 := \<lparr>nd_data = 62, nd_code = 1, nd_next = NULL, nd_prev = NULL\<rparr>,
      66 := \<lparr>nd_data = 65, nd_code = 2, nd_next = NULL, nd_prev = NULL\<rparr>)"

definition single :: "addr \<Rightarrow> ll" where
  "single n = \<lparr>ll_size = 1, ll_head = n, ll_tail = n\<rparr>"

definition demo_lls :: "addr \<Rightarrow> ll" where
  "demo_lls = (\<lambda>_. \<lparr>ll_size = 0, ll_head = NULL, ll_tail = NULL\<rparr>)
     (1 := single 11, 3 := \<lparr>ll_size = 2, ll_head = 13, ll_tail = 14\<rparr>, 5 := single 63, 6 := single 61,
      7 := single 66, 8 := single 15, 9 := single 16)"

definition entry :: "int \<Rightarrow> int \<Rightarrow> pte" where
  "entry pfn prot = \<lparr>pte_valid = 1, pte_pfn = pfn, pte_prot = prot\<rparr>"

definition no_entry :: pte where
  "no_entry = \<lparr>pte_valid = 0, pte_pfn = 0, pte_prot = 0\<rparr>"

definition demo_user_pt :: user_pt where
  "demo_user_pt = \<lparr>u_data_end = 272, u_brk = 288, u_stack_low = 496,
     u_pt = (\<lambda>_. no_entry)(0 := entry 16 5, 1 := entry 17 3, 15 := entry 18 3), u_size = 3\<rparr>"

definition demo_empty_pt :: user_pt where
  "demo_empty_pt = \<lparr>u_data_end = 272, u_brk = 272, u_stack_low = 496, u_pt = (\<lambda>_. no_entry), u_size = 0\<rparr>"

definition demo_uc :: user_context where
  "demo_uc = \<lparr>uc_code = 0, uc_addr = 0, uc_pc = 256, uc_sp = 500, uc_regs = (\<lambda>_. 0)\<rparr>"

definition demo_pcbs :: "addr \<Rightarrow> pcb" where
  "demo_pcbs = (\<lambda>a. \<lparr>pcb_pid = int a - 20, pcb_parent = NULL, pcb_a_children = 70, pcb_d_children = 71,
     pcb_userpt = a + 10, pcb_kstack = a + 20, pcb_uc = demo_uc, pcb_kc = KC_Clock\<rparr>)"

definition demo_kernel :: kernel where
  "demo_kernel =
     \<lparr>brk_next = 100, alive = (\<lambda>a. a < 100), nodes = demo_nodes, lls = demo_lls,
      free_frame = \<lparr>ff_size = 32, ff_bits = [63, 192, 255, 1, 0], ff_avail = 6, ff_filled = 17\<rparr>,
      kernel_pt = \<lparr>k_pt = (\<lambda>i. if i \<le> 5 \<or> i = 14 \<or> i = 15 then entry i 3 else no_entry), k_brk = 80\<rparr>,
      upts = (\<lambda>_. demo_empty_pt)(30 := demo_user_pt),
      kstacks = (\<lambda>_ _. no_entry)(40 := (\<lambda>i. entry (i + 14) 3), 41 := (\<lambda>i. entry (i + 21) 3),
        42 := (\<lambda>i. entry (i + 23) 3)),
      pmem = (\<lambda>f k. word_of_int (f + int k)), vm_enable = True, ptbr1 = 30,
      pcbs = demo_pcbs, pids = [0, 1, 2, 3, 4, 5, 6],
      procs = \<lparr>running = 10, ready_ll = 1, waiting_ll = 2, delayed_ll = 3, orphans_ll = 4\<rparr>,
      idle_node = 12, init_node = 10,
      bufs = (\<lambda>_. demo_buffer),
      pipes = (\<lambda>_. \<lparr>p_buffer = 64, p_readblocked = 9, p_writeblocked = 50, p_unfulfilled = 0\<rparr>),
      locks = (\<lambda>_. \<lparr>l_owner = 10, l_blocked = 8, l_unfulfilled = 0, l_cvar = 0\<rparr>),
      cvars = (\<lambda>_. \<lparr>c_blocked = 51\<rparr>),
      ttyios = (\<lambda>_. \<lparr>t_buffer = 67, t_blocked = 52, t_transmitting = 0\<rparr>),
      pilocvar = \<lparr>plc_count = 3, plc_pipe = 5, plc_lock = 6, plc_cvar = 7\<rparr>,
      io = \<lparr>io_in = [68, 68, 68, 68], io_out = [69, 69, 69, 69], landing_buffer = replicate 1024 0\<rparr>,
      line_in = (\<lambda>_. [104, 105]), sent = []\<rparr>"

definition demo_lists :: "(addr \<times> addr list) list" where
  "demo_lists = [(1, [11]), (2, []), (3, [13, 14]), (4, []), (5, [63]), (6, [61]), (7, [66]), (8, [15]), (9, [16]),
     (50, []), (51, []), (52, [])]"

abbreviation demo_Q :: "addr \<rightharpoonup> addr list" where
  "demo_Q \<equiv> map_of demo_lists"

abbreviation demo_B :: "addr set" where
  "demo_B \<equiv> {1, 2, 3, 4, 8, 9, 50, 51, 52}"

lemma demo_kernel_simps [simp]:
  "brk_next demo_kernel = 100" "nodes demo_kernel = demo_nodes" "lls demo_kernel = demo_lls"
  "vm_enable demo_kernel = True" "ptbr1 demo_kernel = 30" "pcbs demo_kernel = demo_pcbs"
  "procs demo_kernel = \<lparr>running = 10, ready_ll = 1, waiting_ll = 2, delayed_ll = 3, orphans_ll = 4\<rparr>"
  "idle_node demo_kernel = 12" "init_node demo_kernel = 10" "bufs demo_kernel a = demo_buffer"
  "pipes demo_kernel a = \<lparr>p_buffer = 64, p_readblocked = 9, p_writeblocked = 50, p_unfulfilled = 0\<rparr>"
  "locks demo_kernel a = \<lparr>l_owner = 10, l_blocked = 8, l_unfulfilled = 0, l_cvar = 0\<rparr>"
  "cvars demo_kernel a = \<lparr>c_blocked = 51\<rparr>"
  "ttyios demo_kernel a = \<lparr>t_buffer = 67, t_blocked = 52, t_transmitting = 0\<rparr>"
  "io_in (io demo_kernel) = [68, 68, 68, 68]" "io_out (io demo_kernel) = [69, 69, 69, 69]" "sent demo_kernel = []"
  "upts demo_kernel = (\<lambda>_. demo_empty_pt)(30 := demo_user_pt)"
  "live demo_kernel a \<longleftrightarrow> 0 < a \<and> a < 100"
  by (auto simp: demo_kernel_def live_def)

lemma demo_parts [simp]:
  "pcb_userpt (demo_pcbs a) = a + 10" "pcb_kstack (demo_pcbs a) = a + 20" "pcb_pid (demo_pcbs a) = int a - 20"
  "pcb_kc (demo_pcbs a) = KC_Clock"
  by (simp_all add: demo_pcbs_def)

lemma lists_ok_map_of:
  assumes "\<And>l xs. (l, xs) \<in> set kvs \<Longrightarrow> ll_at s l xs" and "distinct (concat (map snd kvs))"
  shows "lists_ok s (map_of kvs)"
proof -
  have "set xs \<inter> set ys = {}" if "map_of kvs l = Some xs" "map_of kvs l' = Some ys" "l \<noteq> l'" for l l' xs ys
    using assms(2) that
    by (induction kvs) (fastforce dest: map_of_SomeD split: if_splits)+
  with assms(1) show ?thesis by (auto simp: lists_ok_def dest: map_of_SomeD)
qed

lemma demo_lists_ok: "lists_ok demo_kernel demo_Q"
proof (rule lists_ok_map_of)
  show "ll_at demo_kernel l xs" if "(l, xs) \<in> set demo_lists" for l xs
    using that by (auto simp: demo_lists_def ll_at_def demo_nodes_def demo_lls_def single_def)
qed (simp add: demo_lists_def)

lemma demo_queued: "queued demo_Q n \<Longrightarrow> n \<in> {11, 13, 14, 63, 61, 66, 15, 16}"
  by (auto simp: queued_def demo_lists_def split: if_splits)

lemma demo_not_queued: "\<not> queued demo_Q 10" "\<not> queued demo_Q 12"
  using demo_queued [of 10] demo_queued [of 12] by auto

lemma demo_inv: "sched_inv demo_kernel demo_Q demo_B"
  unfolding sched_inv_def sched_mid_def
  by (simp add: demo_lists_ok demo_not_queued) (auto simp: demo_lists_def proc_ok_def demo_nodes_def)

end
