(* ===== verification/User_Memory.thy ===== *)
theory User_Memory
  imports Demo
begin

text \<open>
  The memory of a process at run time: moving the break with \<open>KernelUserBrk\<close>, and growing the
  stack in \<open>TrapMemory\<close>.
\<close>

section \<open>The layout of region 1\<close>

text \<open>Index in the table of region 1 of the page an address is on.\<close>

definition page_index :: "hw \<Rightarrow> nat \<Rightarrow> int" where
  "page_index hw a = int (a div PAGESIZE hw) - BASE_PAGE_1 hw"

definition heap_end :: "hw \<Rightarrow> user_pt \<Rightarrow> int" where
  "heap_end hw u = page_index hw (UP_TO_PAGE hw (u_brk u))"

definition stack_start :: "hw \<Rightarrow> user_pt \<Rightarrow> int" where
  "stack_start hw u = page_index hw (DOWN_TO_PAGE hw (u_stack_low u))"

text \<open>
  Pages from the end of the data up to the break are mapped, those between the break and the
  stack are not.
\<close>

definition region_ok :: "hw \<Rightarrow> addr \<Rightarrow> 'z mem_scheme \<Rightarrow> bool" where
  "region_ok hw up s \<longleftrightarrow>
     (let u = upts s up; d = page_index hw (UP_TO_PAGE hw (u_data_end u)) in
      u_inv hw up s \<and> u_data_end u + PAGESIZE hw \<le> 2 ^ 32 \<and> u_brk u + PAGESIZE hw \<le> 2 ^ 32 \<and>
      u_stack_low u \<le> VMEM_1_LIMIT hw \<and>
      0 \<le> d \<and> d \<le> heap_end hw u \<and> heap_end hw u \<le> stack_start hw u \<and>
      (\<forall>i. d \<le> i \<longrightarrow> i < heap_end hw u \<longrightarrow> upages hw up s i \<noteq> None) \<and>
      (\<forall>i. heap_end hw u \<le> i \<longrightarrow> i < stack_start hw u \<longrightarrow> upages hw up s i = None))"

lemma region_okD:
  assumes "region_ok hw up s"
  shows "u_inv hw up s" "u_data_end (upts s up) + PAGESIZE hw \<le> 2 ^ 32" "u_brk (upts s up) + PAGESIZE hw \<le> 2 ^ 32"
    "u_stack_low (upts s up) \<le> VMEM_1_LIMIT hw" "0 \<le> page_index hw (UP_TO_PAGE hw (u_data_end (upts s up)))"
    "page_index hw (UP_TO_PAGE hw (u_data_end (upts s up))) \<le> heap_end hw (upts s up)"
    "heap_end hw (upts s up) \<le> stack_start hw (upts s up)"
    "page_index hw (UP_TO_PAGE hw (u_data_end (upts s up))) \<le> i \<Longrightarrow> i < heap_end hw (upts s up) \<Longrightarrow> upages hw up s i \<noteq> None"
    "heap_end hw (upts s up) \<le> i \<Longrightarrow> i < stack_start hw (upts s up) \<Longrightarrow> upages hw up s i = None"
  using assms by (auto simp: region_ok_def Let_def)

lemma up_page_div:
  assumes "hw_ok hw" and "a + PAGESIZE hw \<le> 2 ^ 32"
  shows "UP_TO_PAGE hw a div PAGESIZE hw * PAGESIZE hw = UP_TO_PAGE hw a" and "a \<le> UP_TO_PAGE hw a"
    and "UP_TO_PAGE hw a < a + PAGESIZE hw"
proof -
  let ?p = "PAGESIZE hw"
  have p: "0 < ?p" using hw_size(2) [OF assms(1)] .
  have e: "UP_TO_PAGE hw a = (a + ?p - 1) div ?p * ?p" using up_page [OF assms] .
  show "UP_TO_PAGE hw a div ?p * ?p = UP_TO_PAGE hw a" using p by (simp add: e)
  have "(a + ?p - 1) div ?p * ?p + (a + ?p - 1) mod ?p = a + ?p - 1" by (rule div_mult_mod_eq)
  moreover have "(a + ?p - 1) mod ?p < ?p" using p by simp
  ultimately show "a \<le> UP_TO_PAGE hw a" "UP_TO_PAGE hw a < a + ?p" unfolding e using p by linarith+
qed

lemma up_page_aligned:
  assumes "hw_ok hw" and "a + PAGESIZE hw \<le> 2 ^ 32" and "UP_TO_PAGE hw a + PAGESIZE hw \<le> 2 ^ 32"
  shows "UP_TO_PAGE hw (UP_TO_PAGE hw a) = UP_TO_PAGE hw a"
proof -
  have p: "0 < PAGESIZE hw" using hw_size(2) [OF assms(1)] .
  obtain k where k: "UP_TO_PAGE hw a = k * PAGESIZE hw" using up_page_div(1) [OF assms(1,2)] by metis
  have "(k * PAGESIZE hw + PAGESIZE hw - 1) div PAGESIZE hw = ((PAGESIZE hw - 1) + k * PAGESIZE hw) div PAGESIZE hw"
    using p by (intro arg_cong [of _ _ "\<lambda>x. x div PAGESIZE hw"]) simp
  also have "\<dots> = k" using p by (subst div_mult_self1) simp_all
  finally have "(k * PAGESIZE hw + PAGESIZE hw - 1) div PAGESIZE hw = k" .
  then show ?thesis using up_page [OF assms(1,3)] by (simp add: k)
qed

text \<open>The greatest page in use, as the code computes it, is one below the end of the heap.\<close>

lemma brk_vpn:
  assumes hw: "hw_ok hw" and "0 \<le> page_index hw (UP_TO_PAGE hw a)" and "UP_TO_PAGE hw a < 2 ^ 32"
  defines "v \<equiv> usub (drop_bit (PAGESHIFT hw) (UP_TO_PAGE hw a)) 1"
  shows "int v + 1 = page_index hw (UP_TO_PAGE hw a) + BASE_PAGE_1 hw" and "int (uadd v 1) = int v + 1"
proof -
  have "2 \<le> BASE_PAGE_KSTACK hw"
    using region_0(3) [OF hw] by (simp add: BASE_PAGE_0_def BASE_PAGE_KSTACK_def)
  then have "1 \<le> UP_TO_PAGE hw a div PAGESIZE hw"
    using assms(2) region_0 [OF hw] by (simp add: page_index_def)
  moreover have "UP_TO_PAGE hw a div PAGESIZE hw < 2 ^ 32" using assms(3) by (meson div_le_dividend le_less_trans)
  ultimately have v: "v = UP_TO_PAGE hw a div PAGESIZE hw - 1" "1 \<le> UP_TO_PAGE hw a div PAGESIZE hw" "v + 1 < 2 ^ 32"
    by (simp_all add: v_def page_of [OF hw] usub_exact)
  then show "int v + 1 = page_index hw (UP_TO_PAGE hw a) + BASE_PAGE_1 hw" by (simp add: page_index_def)
  show "int (uadd v 1) = int v + 1" using v(3) by (simp add: uadd_exact)
qed

section \<open>Operations on one table\<close>

text \<open>The frames a process can get at: those of its pages, and those it may be given.\<close>

definition frames_of :: "hw \<Rightarrow> addr \<Rightarrow> 'z mem_scheme \<Rightarrow> int set" where
  "frames_of hw up s = {f. \<exists>i p. upages hw up s i = Some (f, p)}"

definition reach :: "hw \<Rightarrow> addr \<Rightarrow> 'z mem_scheme \<Rightarrow> int set" where
  "reach hw up s = frames_of hw up s \<union> pool hw (free_frame s)"

text \<open>Only this table and the allocator have changed, and no frame of anything else has come in.\<close>

definition table_only :: "hw \<Rightarrow> addr \<Rightarrow> 'z mem_scheme \<Rightarrow> 'z mem_scheme \<Rightarrow> bool" where
  "table_only hw up s s' \<longleftrightarrow> s' = s\<lparr>upts := upts s', free_frame := free_frame s'\<rparr> \<and> (\<forall>x. x \<noteq> up \<longrightarrow> upts s' x = upts s x) \<and>
     ff_size (free_frame s') = ff_size (free_frame s) \<and> reach hw up s' \<subseteq> reach hw up s"

lemma table_onlyD:
  assumes "table_only hw up s s'"
  shows "s' = s\<lparr>upts := upts s', free_frame := free_frame s'\<rparr>" "\<And>x. x \<noteq> up \<Longrightarrow> upts s' x = upts s x"
    "ff_size (free_frame s') = ff_size (free_frame s)" "reach hw up s' \<subseteq> reach hw up s"
  using assms unfolding table_only_def by blast+

lemma table_only_trans:
  assumes "table_only hw up s s'" and "table_only hw up s' s''"
  shows "table_only hw up s s''"
proof -
  note A = table_onlyD [OF assms(1)] and B = table_onlyD [OF assms(2)]
  obtain U ff where s': "s' = s\<lparr>upts := U, free_frame := ff\<rparr>" using A(1) by blast
  have "s'' = s\<lparr>upts := upts s'', free_frame := free_frame s''\<rparr>" using B(1) unfolding s' by simp
  with A(2-4) B(2-4) show ?thesis unfolding table_only_def by auto
qed

lemma table_only_fields:
  "u_pt u = u_pt (upts s up) \<Longrightarrow> table_only hw up s (s\<lparr>upts := (upts s)(up := u)\<rparr>)"
  by (cases s) (simp add: table_only_def reach_def frames_of_def upages_def)

lemma table_only_keep:
  assumes "upt_keep up s s'" and "reach hw up s' \<subseteq> reach hw up s"
  shows "table_only hw up s s'"
proof -
  have "s' = s\<lparr>upts := upts s', free_frame := free_frame s'\<rparr>"
    using assms(1) by (cases s; cases s') (simp add: upt_keep_def same_heap_def)
  with assms show ?thesis by (simp add: table_only_def upt_keep_def same_heap_def)
qed

lemma table_only_mapped:
  assumes "upt.mapped hw up I prot s s'"
  shows "table_only hw up s s'"
proof (rule table_only_keep)
  show "upt_keep up s s'" using assms by (simp add: upt.mapped_def)
  obtain F where "F ` I \<subseteq> pool hw (free_frame s)" "pool hw (free_frame s') = pool hw (free_frame s) - F ` I"
      "\<forall>i. upages hw up s' i = (if i \<in> I then Some (F i, prot) else upages hw up s i)"
    using assms by (auto simp: upt.mapped_def)
  then show "reach hw up s' \<subseteq> reach hw up s" by (fastforce simp: reach_def frames_of_def split: if_splits)
qed

lemma table_only_unmapped:
  assumes "upt.unmapped hw up I s s'"
  shows "table_only hw up s s'"
proof (rule table_only_keep)
  show "upt_keep up s s'" using assms by (simp add: upt.unmapped_def)
  show "reach hw up s' \<subseteq> reach hw up s" using assms by (fastforce simp: upt.unmapped_def reach_def frames_of_def split: if_splits)
qed

section \<open>Moving the break\<close>

lemma upages_same: "u_pt (upts s' up) = u_pt (upts s up) \<Longrightarrow> upages hw up s' = upages hw up s"
  by (simp add: upages_def)

lemma u_inv_alike:
  "\<lbrakk>alive s' = alive s; free_frame s' = free_frame s; u_pt (upts s' up) = u_pt (upts s up)\<rbrakk> \<Longrightarrow>
   u_inv hw up s' = u_inv hw up s"
  by (simp add: u_inv_def live_def upages_def)

lemma page_index_mono: "a \<le> b \<Longrightarrow> page_index hw a \<le> page_index hw b"
  by (simp add: page_index_def div_le_mono)

text \<open>The window in which the break may be: from the end of the data to one page below the stack.\<close>

definition brk_window :: "hw \<Rightarrow> user_pt \<Rightarrow> nat \<Rightarrow> bool" where
  "brk_window hw u a \<longleftrightarrow>
     UP_TO_PAGE hw (u_data_end u) \<le> a \<and> a < usub (DOWN_TO_PAGE hw (u_stack_low u)) (PAGESIZE hw)"

lemma brk_window_pages:
  assumes hw: "hw_ok hw" and ok: "region_ok hw up s" and w: "brk_window hw (upts s up) a"
    and low: "PAGESIZE hw \<le> DOWN_TO_PAGE hw (u_stack_low (upts s up))"
  shows "a + PAGESIZE hw \<le> 2 ^ 32"
    and "page_index hw (UP_TO_PAGE hw (u_data_end (upts s up))) \<le> page_index hw (UP_TO_PAGE hw a)"
    and "page_index hw (UP_TO_PAGE hw a) < stack_start hw (upts s up)"
    and "UP_TO_PAGE hw a + PAGESIZE hw \<le> 2 ^ 32"
proof -
  note R = region_okD [OF ok]
  let ?t = "DOWN_TO_PAGE hw (u_stack_low (upts s up))"
  have t: "?t = u_stack_low (upts s up) div PAGESIZE hw * PAGESIZE hw" using down_page [OF hw] .
  have "?t \<le> u_stack_low (upts s up)" by (simp add: t)
  moreover have "VMEM_1_LIMIT hw < 2 ^ 32" using hw by (simp add: hw_ok_def)
  ultimately have t32: "?t < 2 ^ 32" using R(4) by linarith
  then have below: "a < ?t - PAGESIZE hw" using w low by (simp add: brk_window_def usub_exact)
  then show a32: "a + PAGESIZE hw \<le> 2 ^ 32" using t32 by linarith
  have "UP_TO_PAGE hw (u_data_end (upts s up)) \<le> UP_TO_PAGE hw a"
    using w up_page_div(2) [OF hw a32] by (simp add: brk_window_def)
  then show "page_index hw (UP_TO_PAGE hw (u_data_end (upts s up))) \<le> page_index hw (UP_TO_PAGE hw a)"
    by (rule page_index_mono)
  have "UP_TO_PAGE hw a div PAGESIZE hw * PAGESIZE hw < ?t"
    using up_page_div [OF hw a32] below by simp
  then have lt: "UP_TO_PAGE hw a div PAGESIZE hw < u_stack_low (upts s up) div PAGESIZE hw" by (simp add: t)
  then have "(UP_TO_PAGE hw a div PAGESIZE hw + 1) * PAGESIZE hw \<le> ?t" unfolding t by (intro mult_le_mono1) simp
  then show "UP_TO_PAGE hw a + PAGESIZE hw \<le> 2 ^ 32" using up_page_div(1) [OF hw a32] t32 by (simp add: algebra_simps)
  from lt show "page_index hw (UP_TO_PAGE hw a) < stack_start hw (upts s up)"
    using hw_size(2) [OF hw] by (simp add: page_index_def stack_start_def t)
qed

lemma stack_start_le:
  assumes hw: "hw_ok hw" and "u_stack_low u \<le> VMEM_1_LIMIT hw"
  shows "stack_start hw u \<le> NUM_PAGES_1 hw"
proof -
  have "DOWN_TO_PAGE hw (u_stack_low u) div PAGESIZE hw = u_stack_low u div PAGESIZE hw"
    using hw_size(2) [OF hw] by (simp add: down_page [OF hw])
  also have "\<dots> \<le> VMEM_1_LIMIT hw div PAGESIZE hw" using assms(2) by (rule div_le_mono)
  finally show ?thesis
    using region_1(1) [OF hw] by (simp add: stack_start_def page_index_def LIM_PAGE_1_def page_of [OF hw])
qed

text \<open>The number of frames left, after frames were taken for the pages \<open>I\<close> or given back.\<close>

lemma frames_left_taken:
  assumes "frames_ok hw ff" "frames_ok hw ff'" and "finite I" "inj_on F I" "F ` I \<subseteq> pool hw ff"
    and "pool hw ff' = pool hw ff - F ` I"
  shows "frames_left ff' = frames_left ff - int (card I)"
  using assms card_pool [OF assms(1)] card_pool [OF assms(2)] card_mono [OF finite_pool assms(5)]
  by (simp add: card_Diff_subset card_image of_nat_diff)

lemma u_inv_frames: "u_inv hw up s \<Longrightarrow> frames_ok hw (free_frame s)"
  by (simp add: u_inv_def sound_def)

text \<open>Frames of pages that are unmapped, one for each page, since no two pages share one.\<close>

lemma frames_left_given:
  assumes inv: "u_inv hw up s" and s': "u_inv hw up s'" and I: "finite I" "\<And>i. i \<in> I \<Longrightarrow> upages hw up s i \<noteq> None"
    and pool: "pool hw (free_frame s') = pool hw (free_frame s) \<union> {f. \<exists>i\<in>I. \<exists>p. upages hw up s i = Some (f, p)}"
  shows "frames_left (free_frame s') = frames_left (free_frame s) + int (card I)"
proof -
  let ?f = "\<lambda>i. fst (the (upages hw up s i))"
  have S: "sound hw (free_frame s) (upages hw up s)" using inv by (simp add: u_inv_def)
  have e: "{f. \<exists>i\<in>I. \<exists>p. upages hw up s i = Some (f, p)} = ?f ` I"
  proof -
    have "\<forall>i\<in>I. \<exists>f p. upages hw up s i = Some (f, p)" using I(2) by fastforce
    then show ?thesis by force
  qed
  have "inj_on ?f I"
  proof (rule inj_onI)
    fix i j assume ij: "i \<in> I" "j \<in> I" "?f i = ?f j"
    obtain f p q where "upages hw up s i = Some (f, p)" "upages hw up s j = Some (f, q)"
      using I(2) ij by fastforce
    with S show "i = j" unfolding sound_def by blast
  qed
  moreover have "?f ` I \<inter> pool hw (free_frame s) = {}"
    using S I(2) by (fastforce simp: sound_def pool_def)
  ultimately have "card (pool hw (free_frame s')) = card (pool hw (free_frame s)) + card I"
    using I(1) by (subst pool) (simp add: e card_Un_disjoint card_image Int_commute)
  then show ?thesis
    using card_pool [OF u_inv_frames [OF inv]] card_pool [OF u_inv_frames [OF s']] by simp
qed

lemma stack_above:
  assumes hw: "hw_ok hw" and ok: "region_ok hw up s"
  shows "PAGESIZE hw \<le> DOWN_TO_PAGE hw (u_stack_low (upts s up))"
proof -
  have "0 \<le> stack_start hw (upts s up)" using region_okD(5-7) [OF ok] by linarith
  moreover have "1 \<le> BASE_PAGE_1 hw"
    using region_0 [OF hw] by (simp add: BASE_PAGE_0_def BASE_PAGE_KSTACK_def)
  ultimately have "1 \<le> u_stack_low (upts s up) div PAGESIZE hw"
    using hw_size(2) [OF hw] by (simp add: stack_start_def page_index_def down_page [OF hw])
  then show ?thesis by (simp add: down_page [OF hw])
qed

text \<open>The page numbers of \<open>KernelUserBrk\<close>: the greatest page in use before and after.\<close>

definition last_page :: "hw \<Rightarrow> nat \<Rightarrow> nat" where
  "last_page hw a = usub (drop_bit (PAGESHIFT hw) (UP_TO_PAGE hw a)) 1"

lemma last_page:
  assumes hw: "hw_ok hw" and ok: "region_ok hw up s" and w: "brk_window hw (upts s up) a"
  shows "int (last_page hw (u_brk (upts s up))) + 1 = heap_end hw (upts s up) + BASE_PAGE_1 hw"
    and "int (uadd (last_page hw (u_brk (upts s up))) 1) = int (last_page hw (u_brk (upts s up))) + 1"
    and "int (last_page hw a) + 1 = page_index hw (UP_TO_PAGE hw a) + BASE_PAGE_1 hw"
    and "last_page hw x < 2 ^ 32"
proof -
  note R = region_okD [OF ok] and W = brk_window_pages [OF hw ok w stack_above [OF hw ok]]
  have lt: "UP_TO_PAGE hw (u_brk (upts s up)) < 2 ^ 32" "UP_TO_PAGE hw a < 2 ^ 32"
    using up_page_div(3) [OF hw R(3)] up_page_div(3) [OF hw W(1)] R(3) W(1) by linarith+
  have "0 \<le> page_index hw (UP_TO_PAGE hw (u_brk (upts s up)))" using R(5,6) by (simp add: heap_end_def)
  from brk_vpn [OF hw this lt(1)]
  show "int (last_page hw (u_brk (upts s up))) + 1 = heap_end hw (upts s up) + BASE_PAGE_1 hw"
    "int (uadd (last_page hw (u_brk (upts s up))) 1) = int (last_page hw (u_brk (upts s up))) + 1"
    by (simp_all add: last_page_def heap_end_def)
  have "0 \<le> page_index hw (UP_TO_PAGE hw a)" using R(5) W(2) by linarith
  from brk_vpn(1) [OF hw this lt(2)] show "int (last_page hw a) + 1 = page_index hw (UP_TO_PAGE hw a) + BASE_PAGE_1 hw"
    by (simp add: last_page_def)
  show "last_page hw x < 2 ^ 32" unfolding last_page_def usub_def by (rule u32_less)
qed

text \<open>After the loop the new break is stored; the region is well formed if its pages fit the break.\<close>

lemma region_ok_brk:
  assumes hw: "hw_ok hw" and ok: "region_ok hw up s" and w: "brk_window hw (upts s up) a"
    and inv: "u_inv hw up s'" and keep: "u_data_end (upts s' up) = u_data_end (upts s up)"
      "u_stack_low (upts s' up) = u_stack_low (upts s up)"
    and pages: "\<And>i. page_index hw (UP_TO_PAGE hw (u_data_end (upts s up))) \<le> i \<Longrightarrow> i < stack_start hw (upts s up) \<Longrightarrow>
      upages hw up s' i \<noteq> None \<longleftrightarrow> i < page_index hw (UP_TO_PAGE hw a)"
  shows "region_ok hw up (s'\<lparr>upts := (upts s')(up := (upts s' up)\<lparr>u_brk := UP_TO_PAGE hw a\<rparr>)\<rparr>)"
proof -
  note R = region_okD [OF ok] and W = brk_window_pages [OF hw ok w stack_above [OF hw ok]]
  define s3 where "s3 = s'\<lparr>upts := (upts s')(up := (upts s' up)\<lparr>u_brk := UP_TO_PAGE hw a\<rparr>)\<rparr>"
  have ps: "upages hw up s3 = upages hw up s'" by (rule upages_same) (simp add: s3_def)
  have "heap_end hw (upts s3 up) = page_index hw (UP_TO_PAGE hw a)"
    using up_page_aligned [OF hw W(1,4)] by (simp add: s3_def heap_end_def)
  moreover have "stack_start hw (upts s3 up) = stack_start hw (upts s up)" by (simp add: s3_def stack_start_def keep)
  moreover have "u_inv hw up s3" using inv u_inv_alike [of s3 s' up hw] by (simp add: s3_def)
  moreover have "upages hw up s' i \<noteq> None"
    if "page_index hw (UP_TO_PAGE hw (u_data_end (upts s up))) \<le> i" "i < page_index hw (UP_TO_PAGE hw a)" for i
    using pages [of i] that W(3) by linarith
  moreover have "upages hw up s' i = None"
    if "page_index hw (UP_TO_PAGE hw a) \<le> i" "i < stack_start hw (upts s up)" for i
    using pages [of i] that W(2) by linarith
  ultimately have "region_ok hw up s3"
    using R(2,4,5) W unfolding region_ok_def Let_def ps by (simp add: s3_def keep)
  then show ?thesis by (simp add: s3_def)
qed

lemma user_brk_grow:
  assumes hw: "hw_ok hw" and p: "proc_ok s (running (procs s))"
    and up: "pcb_userpt (the_pcb s (running (procs s))) = up" and ok: "region_ok hw up s"
    and w: "brk_window hw (upts s up) a"
  defines "b \<equiv> heap_end hw (upts s up)" and "n \<equiv> page_index hw (UP_TO_PAGE hw a)"
  assumes grow: "b < n" and room: "n - b \<le> frames_left (free_frame s)" and int32: "ff_size (free_frame s) < 2 ^ 31"
  shows "\<exists>s'. KernelUserBrk hw a s = Some (0, s') \<and> region_ok hw up s' \<and> u_brk (upts s' up) = UP_TO_PAGE hw a \<and>
    u_size (upts s' up) = u_size (upts s up) + (n - b) \<and>
    (\<forall>i. if b \<le> i \<and> i < n then \<exists>f. upages hw up s' i = Some (f, PROT_RW hw) \<and> f \<in> pool hw (free_frame s)
      else upages hw up s' i = upages hw up s i) \<and>
    frames_left (free_frame s') = frames_left (free_frame s) - (n - b) \<and> (\<forall>x. x \<noteq> up \<longrightarrow> upts s' x = upts s x) \<and> table_only hw up s s'"
proof -
  note R = region_okD [OF ok] and W = brk_window_pages [OF hw ok w stack_above [OF hw ok]]
  define c where "c = last_page hw (u_brk (upts s up))"
  define m where "m = last_page hw a"
  note L = last_page [OF hw ok w]
  have c: "int c + 1 = b + BASE_PAGE_1 hw" "int (uadd c 1) = int c + 1" and m: "int m + 1 = n + BASE_PAGE_1 hw"
    and m32: "m < 2 ^ 32" using L by (simp_all add: c_def m_def b_def n_def)
  have cm: "c < m" using c m grow by linarith
  have d: "usub m c = m - c" "int (m - c) = n - b" using cm m32 c m by (simp_all add: usub_exact of_nat_diff)
  have "frames_left (free_frame s) \<le> ff_size (free_frame s)"
    using u_inv_frames [OF R(1)] by (simp add: frames_left_def frames_ok_def)
  then have "frames_left (free_frame s) < 2 ^ 32" using int32 by simp
  then have fits: "\<not> usub m c > u32 (frames_left (free_frame s))" using room grow d by (simp add: u32_id)
  define s1 where "s1 = s\<lparr>upts := (upts s)(up := (upts s up)\<lparr>u_size := u_size (upts s up) + int (usub m c)\<rparr>)\<rparr>"
  have live: "live s up" using R(1) by (simp add: u_inv_def)
  have inv1: "u_inv hw up s1" and same: "upages hw up s1 = upages hw up s" "free_frame s1 = free_frame s"
    using R(1) by (simp_all add: s1_def u_inv_def upages_def)
  have hole: "upages hw up s i = None" if "b \<le> i" "i < n" for i
    using R(9) [of i] that W(3) by (simp add: b_def n_def)
  have nN: "n \<le> NUM_PAGES_1 hw" using W(3) stack_start_le [OF hw R(4)] by (simp add: n_def)
  have "n - b \<le> int (card (pool hw (free_frame s1)))"
    using room card_pool [OF u_inv_frames [OF R(1)]] same by simp
  then obtain s2 where s2: "for_up b n (map_upage hw up (PROT_RW hw)) s1 = Some s2" "upt.mapped hw up {b..<n} (PROT_RW hw) s1 s2"
    using upt.map_range [OF inv1, of b n "PROT_RW hw"] hole R(5,6) grow nN
    by (auto simp: same b_def)
  obtain F where F: "u_inv hw up s2" "upt_keep up s1 s2" "inj_on F {b..<n}" "F ` {b..<n} \<subseteq> pool hw (free_frame s)"
      "pool hw (free_frame s2) = pool hw (free_frame s) - F ` {b..<n}"
      "\<forall>i. upages hw up s2 i = (if i \<in> {b..<n} then Some (F i, PROT_RW hw) else upages hw up s i)"
    using s2(2) unfolding upt.mapped_def same by blast
  have loop: "for_up (int (uadd c 1)) (int m + 1) (\<lambda>v. map_upage hw up (PROT_RW hw) (v - BASE_PAGE_1 hw)) s1 = Some s2"
    using for_up_shift [of "int (uadd c 1)" "int m + 1" "map_upage hw up (PROT_RW hw)" "BASE_PAGE_1 hw" s1] s2(1) c m by simp
  define s3 where "s3 = s2\<lparr>upts := (upts s2)(up := (upts s2 up)\<lparr>u_brk := UP_TO_PAGE hw a\<rparr>)\<rparr>"
  have keep: "\<forall>x. x \<noteq> up \<longrightarrow> upts s2 x = upts s x" "u_size (upts s2 up) = u_size (upts s up) + (n - b)"
      "u_data_end (upts s2 up) = u_data_end (upts s up)" "u_stack_low (upts s2 up) = u_stack_low (upts s up)"
      "live s2 up"
    using F(2) live d same_heap_live [of s1 s2 up] by (simp_all add: upt_keep_def s1_def)
  have run: "KernelUserBrk hw a s = Some (0, s3)"
    using p up w fits cm loop live keep(5)
    by (simp add: KernelUserBrk_def curr_pcb_def rd_upt_def upd_upt_def Let_def last_page_def [symmetric, unfolded One_nat_def]
        c_def [symmetric] m_def [symmetric]
        s1_def [symmetric] s3_def brk_window_def not_le not_less)
  have "upages hw up s2 i \<noteq> None \<longleftrightarrow> i < n"
    if "page_index hw (UP_TO_PAGE hw (u_data_end (upts s up))) \<le> i" "i < stack_start hw (upts s up)" for i
    using F(6) R(8,9) [of i] that grow by (auto simp: b_def)
  then have region: "region_ok hw up s3"
    unfolding s3_def by (intro region_ok_brk [OF hw ok w F(1) keep(3,4)]) (simp add: n_def)
  have ps: "upages hw up s3 = upages hw up s2" by (rule upages_same) (simp add: s3_def)
  have "frames_left (free_frame s3) = frames_left (free_frame s) - (n - b)"
    using frames_left_taken [OF u_inv_frames [OF R(1)] u_inv_frames [OF F(1)] _ F(3-5)] grow by (simp add: s3_def)
  note left = this
  have "table_only hw up s s1" "table_only hw up s2 s3" unfolding s1_def s3_def by (rule table_only_fields, simp)+
  then have only: "table_only hw up s s3" using table_only_mapped [OF s2(2)] table_only_trans by blast
  show ?thesis using run region keep F(4,6) ps left only by (auto simp: s3_def)
qed

lemma user_brk_shrink:
  assumes hw: "hw_ok hw" and p: "proc_ok s (running (procs s))"
    and up: "pcb_userpt (the_pcb s (running (procs s))) = up" and ok: "region_ok hw up s"
    and w: "brk_window hw (upts s up) a"
  defines "b \<equiv> heap_end hw (upts s up)" and "n \<equiv> page_index hw (UP_TO_PAGE hw a)"
  assumes shrink: "n \<le> b"
  shows "\<exists>s'. KernelUserBrk hw a s = Some (0, s') \<and> region_ok hw up s' \<and> u_brk (upts s' up) = UP_TO_PAGE hw a \<and>
    u_size (upts s' up) = u_size (upts s up) - (b - n) \<and>
    (\<forall>i. upages hw up s' i = (if n \<le> i \<and> i < b then None else upages hw up s i)) \<and>
    frames_left (free_frame s') = frames_left (free_frame s) + (b - n) \<and> (\<forall>x. x \<noteq> up \<longrightarrow> upts s' x = upts s x) \<and> table_only hw up s s'"
proof -
  note R = region_okD [OF ok] and W = brk_window_pages [OF hw ok w stack_above [OF hw ok]]
  define c where "c = last_page hw (u_brk (upts s up))"
  define m where "m = last_page hw a"
  note L = last_page [OF hw ok w]
  have c: "int c + 1 = b + BASE_PAGE_1 hw" and m: "int m + 1 = n + BASE_PAGE_1 hw" and c32: "c < 2 ^ 32"
    using L by (simp_all add: c_def m_def b_def n_def)
  have mc: "m \<le> c" using c m shrink by linarith
  have d: "usub c m = c - m" "int (c - m) = b - n" using mc c32 c m by (simp_all add: usub_exact of_nat_diff)
  define s1 where "s1 = (if m < c then s\<lparr>upts := (upts s)(up := (upts s up)\<lparr>u_size := u_size (upts s up) - int (usub c m)\<rparr>)\<rparr> else s)"
  have live: "live s up" using R(1) by (simp add: u_inv_def)
  have inv1: "u_inv hw up s1" and same: "upages hw up s1 = upages hw up s" "free_frame s1 = free_frame s"
    using R(1) by (simp_all add: s1_def u_inv_def upages_def)
  obtain s2 where s2: "for_down n b (unmap_upage hw up) s1 = Some s2" "upt.unmapped hw up {n..<b} s1 s2"
    using upt.unmap_range_down [OF inv1, of n b] R(8) W(2) shrink by (auto simp: same b_def n_def)
  have U: "u_inv hw up s2" "upt_keep up s1 s2" "\<forall>i. upages hw up s2 i = (if i \<in> {n..<b} then None else upages hw up s i)"
      "pool hw (free_frame s2) = pool hw (free_frame s) \<union> {f. \<exists>i\<in>{n..<b}. \<exists>p. upages hw up s i = Some (f, p)}"
    using s2(2) unfolding upt.unmapped_def same by blast+
  have loop: "for_down (int m + 1) (int c + 1) (\<lambda>v. unmap_upage hw up (v - BASE_PAGE_1 hw)) s1 = Some s2"
    using for_down_shift [of "int m + 1" "int c + 1" "unmap_upage hw up" "BASE_PAGE_1 hw" s1] s2(1) c m by simp
  define s3 where "s3 = s2\<lparr>upts := (upts s2)(up := (upts s2 up)\<lparr>u_brk := UP_TO_PAGE hw a\<rparr>)\<rparr>"
  have keep: "\<forall>x. x \<noteq> up \<longrightarrow> upts s2 x = upts s x" "u_size (upts s2 up) = u_size (upts s up) - (b - n)"
      "u_data_end (upts s2 up) = u_data_end (upts s up)" "u_stack_low (upts s2 up) = u_stack_low (upts s up)"
      "live s2 up"
    using U(2) live d mc same_heap_live [of s1 s2 up] by (auto simp: upt_keep_def s1_def)
  have run: "KernelUserBrk hw a s = Some (0, s3)"
  proof (cases "m < c")
    case True
    with p up w loop live keep(5) show ?thesis
      by (simp add: KernelUserBrk_def curr_pcb_def rd_upt_def upd_upt_def Let_def last_page_def [symmetric, unfolded One_nat_def]
          c_def [symmetric] m_def [symmetric] s1_def s3_def brk_window_def not_le not_less)
  next
    case False
    with mc loop have "m = c" "s2 = s" by (simp_all add: s1_def)
    with p up w live show ?thesis
      by (simp add: KernelUserBrk_def curr_pcb_def rd_upt_def upd_upt_def Let_def last_page_def [symmetric, unfolded One_nat_def]
          c_def [symmetric] m_def [symmetric] s3_def brk_window_def not_le not_less)
  qed
  have "upages hw up s2 i \<noteq> None \<longleftrightarrow> i < n"
    if "page_index hw (UP_TO_PAGE hw (u_data_end (upts s up))) \<le> i" "i < stack_start hw (upts s up)" for i
    using U(3) R(8,9) [of i] that shrink by (auto simp: b_def)
  then have region: "region_ok hw up s3"
    unfolding s3_def by (intro region_ok_brk [OF hw ok w U(1) keep(3,4)]) (simp add: n_def)
  have ps: "upages hw up s3 = upages hw up s2" by (rule upages_same) (simp add: s3_def)
  have "upages hw up s i \<noteq> None" if "i \<in> {n..<b}" for i using R(8) [of i] that W(2) by (simp add: b_def n_def)
  then have "frames_left (free_frame s3) = frames_left (free_frame s) + (b - n)"
    using frames_left_given [OF R(1) U(1) _ _ U(4)] shrink by (simp add: s3_def)
  note left = this
  have "table_only hw up s s" by (simp add: table_only_def)
  then have "table_only hw up s s1" "table_only hw up s2 s3" unfolding s1_def s3_def by (auto intro!: table_only_fields)
  then have only: "table_only hw up s s3" using table_only_unmapped [OF s2(2)] table_only_trans by blast
  show ?thesis using run region keep U(3) ps left only by (auto simp: s3_def)
qed

lemma user_brk_refused:
  assumes p: "proc_ok s (running (procs s))" and up: "pcb_userpt (the_pcb s (running (procs s))) = up" and "live s up"
    and "\<not> brk_window hw (upts s up) a"
  shows "KernelUserBrk hw a s = Some (ERROR hw, s)"
  using assms by (auto simp: KernelUserBrk_def curr_pcb_def rd_upt_def brk_window_def Let_def)

lemma user_brk_no_frames:
  assumes hw: "hw_ok hw" and p: "proc_ok s (running (procs s))"
    and up: "pcb_userpt (the_pcb s (running (procs s))) = up" and ok: "region_ok hw up s"
    and w: "brk_window hw (upts s up) a" and int32: "ff_size (free_frame s) < 2 ^ 31"
    and over: "frames_left (free_frame s) < page_index hw (UP_TO_PAGE hw a) - heap_end hw (upts s up)"
  shows "KernelUserBrk hw a s = Some (ERROR hw, s)"
proof -
  define c where "c = last_page hw (u_brk (upts s up))"
  define m where "m = last_page hw a"
  have fr: "frames_ok hw (free_frame s)" using u_inv_frames [OF region_okD(1) [OF ok]] .
  then have left: "0 \<le> frames_left (free_frame s)" "frames_left (free_frame s) < 2 ^ 32"
    using card_pool [OF fr] int32 by (simp_all add: frames_left_def frames_ok_def)
  have c: "int c + 1 = heap_end hw (upts s up) + BASE_PAGE_1 hw"
    and m: "int m + 1 = page_index hw (UP_TO_PAGE hw a) + BASE_PAGE_1 hw" "m < 2 ^ 32"
    using last_page [OF hw ok w] by (simp_all add: c_def m_def)
  have cm: "c < m" using c m over left by linarith
  then have "u32 (frames_left (free_frame s)) < usub m c"
    using c m over left by (simp add: usub_exact u32_id nat_less_iff)
  with cm p up w region_okD(1) [OF ok] show ?thesis
    by (simp add: KernelUserBrk_def curr_pcb_def rd_upt_def u_inv_def Let_def last_page_def [symmetric, unfolded One_nat_def]
        c_def [symmetric] m_def [symmetric] brk_window_def not_le)
qed

end
