(* ===== verification/User_Stack.thy ===== *)
theory User_Stack
  imports User_Memory
begin

text \<open>A fault below the stack: \<open>TrapMemory\<close> maps the pages down to the address.\<close>

lemma region_ok_alike:
  "\<lbrakk>alive s' = alive s; free_frame s' = free_frame s; upts s' = upts s\<rbrakk> \<Longrightarrow> region_ok hw up s' = region_ok hw up s"
  by (simp add: region_ok_def u_inv_def upages_def live_def)

definition stack_window :: "hw \<Rightarrow> user_pt \<Rightarrow> nat \<Rightarrow> bool" where
  "stack_window hw u a \<longleftrightarrow> UP_TO_PAGE hw (u_brk u) + PAGESIZE hw \<le> a \<and> a \<le> DOWN_TO_PAGE hw (u_stack_low u)"

lemma stack_pages:
  assumes hw: "hw_ok hw" and ok: "region_ok hw up s" and w: "stack_window hw (upts s up) a"
  shows "heap_end hw (upts s up) < page_index hw a" "page_index hw a \<le> stack_start hw (upts s up)"
    and "a < 2 ^ 32" "0 \<le> page_index hw a"
    and "uadd (UP_TO_PAGE hw (u_brk (upts s up))) (PAGESIZE hw) \<le> a"
    and "int (drop_bit (PAGESHIFT hw) (DOWN_TO_PAGE hw (u_stack_low (upts s up)))) = stack_start hw (upts s up) + BASE_PAGE_1 hw"
    and "int (drop_bit (PAGESHIFT hw) (DOWN_TO_PAGE hw a)) = page_index hw a + BASE_PAGE_1 hw"
proof -
  note R = region_okD [OF ok]
  have p: "0 < PAGESIZE hw" using hw_size(2) [OF hw] .
  have t: "DOWN_TO_PAGE hw (u_stack_low (upts s up)) \<le> u_stack_low (upts s up)" by (simp add: down_page [OF hw])
  moreover have "VMEM_1_LIMIT hw < 2 ^ 32" using hw by (simp add: hw_ok_def)
  ultimately show a32: "a < 2 ^ 32" using w R(4) by (simp add: stack_window_def)
  show "uadd (UP_TO_PAGE hw (u_brk (upts s up))) (PAGESIZE hw) \<le> a"
    using w a32 by (simp add: stack_window_def uadd_exact)
  have "(UP_TO_PAGE hw (u_brk (upts s up)) + PAGESIZE hw) div PAGESIZE hw \<le> a div PAGESIZE hw"
    using w by (intro div_le_mono) (simp add: stack_window_def)
  then show he: "heap_end hw (upts s up) < page_index hw a"
    using p by (simp add: heap_end_def page_index_def div_add_self2)
  show "page_index hw a \<le> stack_start hw (upts s up)"
    using w unfolding stack_start_def by (intro page_index_mono) (simp add: stack_window_def)
  show "0 \<le> page_index hw a" using he R(5,6) by linarith
  show "int (drop_bit (PAGESHIFT hw) (DOWN_TO_PAGE hw (u_stack_low (upts s up)))) = stack_start hw (upts s up) + BASE_PAGE_1 hw"
    by (simp add: page_of [OF hw] stack_start_def page_index_def)
  show "int (drop_bit (PAGESHIFT hw) (DOWN_TO_PAGE hw a)) = page_index hw a + BASE_PAGE_1 hw"
    using p by (simp add: page_of [OF hw] page_index_def down_page [OF hw])
qed

lemma new_stack_low:
  assumes hw: "hw_ok hw" and "a < 2 ^ 32"
  shows "u32 (push_bit (PAGESHIFT hw) (page_index hw a + BASE_PAGE_1 hw)) = DOWN_TO_PAGE hw a"
proof -
  have "push_bit (PAGESHIFT hw) (page_index hw a + BASE_PAGE_1 hw) = int (DOWN_TO_PAGE hw a)"
    by (simp add: push_bit_eq_mult page_index_def down_page [OF hw] hw_size(1) [OF hw])
  moreover have "DOWN_TO_PAGE hw a < 2 ^ 32"
    using assms(2) by (simp add: down_page [OF hw]) (meson div_times_less_eq_dividend le_less_trans)
  ultimately show ?thesis by (simp add: u32_id)
qed

lemma trap_memory_grow:
  assumes hw: "hw_ok hw" and p: "proc_ok s (running (procs s))"
    and up: "pcb_userpt (the_pcb s (running (procs s))) = up" and ok: "region_ok hw up s"
    and w: "stack_window hw (upts s up) (uc_addr uc)"
  defines "n \<equiv> page_index hw (uc_addr uc)" and "t \<equiv> stack_start hw (upts s up)"
  assumes room: "t - n \<le> frames_left (free_frame s)"
  shows "\<exists>s'. TrapMemory hw uc s = Some (Ret uc, s') \<and> region_ok hw up s' \<and>
    u_stack_low (upts s' up) = DOWN_TO_PAGE hw (uc_addr uc) \<and> u_size (upts s' up) = u_size (upts s up) + (t - n) \<and>
    (\<forall>i. if n \<le> i \<and> i < t then \<exists>f. upages hw up s' i = Some (f, PROT_RW hw) \<and> f \<in> pool hw (free_frame s)
      else upages hw up s' i = upages hw up s i) \<and>
    frames_left (free_frame s') = frames_left (free_frame s) - (t - n) \<and> (\<forall>x. x \<noteq> up \<longrightarrow> upts s' x = upts s x) \<and>
    table_only hw up (s\<lparr>pcbs := (pcbs s)(nd_data (nodes s (running (procs s))) := (the_pcb s (running (procs s)))\<lparr>pcb_uc := uc\<rparr>)\<rparr>) s'"
proof -
  note R = region_okD [OF ok] and K = stack_pages [OF hw ok w]
  define s1 where "s1 = s\<lparr>pcbs := (pcbs s)(nd_data (nodes s (running (procs s))) := (the_pcb s (running (procs s)))\<lparr>pcb_uc := uc\<rparr>)\<rparr>"
  have save: "save_uc uc s = Some s1" using p by (simp add: save_uc_def s1_def proc_ok_def)
  have p1: "proc_ok s1 (running (procs s1))" "pcb_userpt (the_pcb s1 (running (procs s1))) = up"
      "pcb_uc (the_pcb s1 (running (procs s1))) = uc"
    using p up by (simp_all add: s1_def proc_ok_def)
  have inv1: "u_inv hw up s1" and same: "upages hw up s1 = upages hw up s" "free_frame s1 = free_frame s" "upts s1 = upts s"
    using R(1) by (simp_all add: s1_def u_inv_def upages_def)
  have "t - n \<le> int (card (pool hw (free_frame s1)))" using room card_pool [OF u_inv_frames [OF R(1)]] same by simp
  moreover have "t \<le> NUM_PAGES_1 hw" using stack_start_le [OF hw R(4)] by (simp add: t_def)
  moreover have "upages hw up s1 i = None" if "n \<le> i" "i < t" for i
    using R(9) [of i] that K(1) by (simp add: same n_def t_def)
  ultimately obtain s2 where s2: "for_down n t (map_upage hw up (PROT_RW hw)) s1 = Some s2" "upt.mapped hw up {n..<t} (PROT_RW hw) s1 s2"
    using upt.map_range_down [OF inv1, of n t "PROT_RW hw"] K(2,4) by (auto simp: n_def t_def)
  obtain F where F: "u_inv hw up s2" "upt_keep up s1 s2" "inj_on F {n..<t}" "F ` {n..<t} \<subseteq> pool hw (free_frame s)"
      "pool hw (free_frame s2) = pool hw (free_frame s) - F ` {n..<t}"
      "\<forall>i. upages hw up s2 i = (if i \<in> {n..<t} then Some (F i, PROT_RW hw) else upages hw up s i)"
    using s2(2) unfolding upt.mapped_def same by blast
  have loop: "for_down (n + BASE_PAGE_1 hw) (t + BASE_PAGE_1 hw) (\<lambda>v. map_upage hw up (PROT_RW hw) (v - BASE_PAGE_1 hw)) s1 = Some s2"
    using for_down_shift [of "n + BASE_PAGE_1 hw" "t + BASE_PAGE_1 hw" "map_upage hw up (PROT_RW hw)" "BASE_PAGE_1 hw" s1] s2(1) by simp
  define s3 where "s3 = s2\<lparr>upts := (upts s2)(up := (upts s2 up)
      \<lparr>u_size := u_size (upts s2 up) + (t - n), u_stack_low := DOWN_TO_PAGE hw (uc_addr uc)\<rparr>)\<rparr>"
  have sh: "same_heap s1 s2" using F(2) by (simp add: upt_keep_def)
  then have s2_eq: "procs s2 = procs s1" "pcbs s2 = pcbs s1" "nodes s2 = nodes s1" "alive s2 = alive s1"
    by (cases s1; cases s2; simp add: same_heap_def)+
  have keep: "\<forall>x. x \<noteq> up \<longrightarrow> upts s2 x = upts s x" "u_size (upts s2 up) = u_size (upts s up)"
      "u_data_end (upts s2 up) = u_data_end (upts s up)" "u_brk (upts s2 up) = u_brk (upts s up)" "live s2 up"
    using F(1,2) by (simp_all add: upt_keep_def same u_inv_def)
  have "restore_uc s3 = Some uc"
    using p1 by (simp add: restore_uc_def pcb_of_def s3_def s2_eq rd_node_def rd_pcb_def live_def proc_ok_def)
  then have run: "TrapMemory hw uc s = Some (Ret uc, s3)"
    using save p1 w K(5) loop room keep(5) new_stack_low [OF hw K(3)]
    by (simp add: TrapMemory_def curr_pcb_def rd_upt_def upd_upt_def Let_def same R(1) K(6,7) stack_window_def
        n_def [symmetric] t_def [symmetric] leave_def s3_def u_inv_def inv1 [unfolded u_inv_def])
  have "u_inv hw up s3" using F(1) by (simp add: s3_def u_inv_def upages_def)
  moreover have ps: "upages hw up s3 = upages hw up s2" by (simp add: s3_def upages_def)
  moreover have "stack_start hw (upts s3 up) = n"
    using hw_size(2) [OF hw] by (simp add: s3_def stack_start_def n_def page_index_def down_page [OF hw])
  moreover have "heap_end hw (upts s3 up) = heap_end hw (upts s up)" by (simp add: s3_def heap_end_def keep)
  moreover have "DOWN_TO_PAGE hw (uc_addr uc) \<le> VMEM_1_LIMIT hw"
  proof -
    have "DOWN_TO_PAGE hw (uc_addr uc) \<le> uc_addr uc" by (simp add: down_page [OF hw])
    also have "\<dots> \<le> u_stack_low (upts s up)"
      using w by (simp add: stack_window_def down_page [OF hw]) (meson div_times_less_eq_dividend le_trans)
    finally show ?thesis using R(4) by simp
  qed
  ultimately have "region_ok hw up s3"
    using R(2,3,5,6) R(8,9) F(6) K(1,2) unfolding region_ok_def Let_def ps
    by (auto simp: s3_def keep n_def t_def)
  moreover have "frames_left (free_frame s3) = frames_left (free_frame s) - (t - n)"
    using frames_left_taken [OF u_inv_frames [OF R(1)] u_inv_frames [OF F(1)] _ F(3-5)] K(2) by (simp add: s3_def n_def t_def)
  moreover have "table_only hw up s2 s3" unfolding s3_def by (rule table_only_fields) simp
  then have "table_only hw up s1 s3" using table_only_mapped [OF s2(2)] table_only_trans by blast
  ultimately show ?thesis using run keep F(4,6) ps by (auto simp: s3_def s1_def)
qed

end
