(* ===== verification/Demo_Memory.thy ===== *)
theory Demo_Memory
  imports User_Stack
begin

text \<open>The memory of the concrete state: which frames are in use, and that its tables are sound.\<close>

lemma used_code:
  "used hw ff = set (filter (\<lambda>p. bit_at (ff_bits ff) (nat (p - BASE_FRAME hw))) [BASE_FRAME hw..BASE_FRAME hw + ff_size ff - 1])"
  by (auto simp: used_def)

abbreviation demo_ff :: free_frame where
  "demo_ff \<equiv> \<lparr>ff_size = 32, ff_bits = [63, 192, 255, 1, 0], ff_avail = 6, ff_filled = 17\<rparr>"

lemma demo_free_frame [simp]: "free_frame demo_kernel = demo_ff"
  by (simp add: demo_kernel_def)

lemma demo_used: "used demo demo_ff = {0, 1, 2, 3, 4, 5, 14, 15, 16, 17, 18, 19, 20, 21, 22, 23, 24}"
proof -
  have "filter (\<lambda>p. bit_at [63, 192, 255, 1, 0] (nat p)) [0..31] =
      [0, 1, 2, 3, 4, 5, 14, 15, 16, 17, 18, 19, 20, 21, 22, 23, 24]"
    by (simp add: upto_rec1 bit_at_def bit_numeral_rec)
  then show ?thesis unfolding used_code by (simp del: set_filter)
qed

lemma demo_ff_ok: "frames_ok demo demo_ff"
proof -
  have "{0..<6} \<subseteq> {0, 1, 2, 3, 4, 5 :: int}" by auto
  then have "{0..<6} \<subseteq> used demo demo_ff" unfolding demo_used by blast
  then show ?thesis unfolding frames_ok_def demo_used by simp
qed

lemma demo_upages:
  "upages demo 30 demo_kernel = [0 \<mapsto> (16, 5), 1 \<mapsto> (17, 3), 15 \<mapsto> (18, 3)]"
  "up \<noteq> 30 \<Longrightarrow> upages demo up demo_kernel = (\<lambda>_. None)"
  by (auto simp: upages_def entries_def demo_user_pt_def demo_empty_pt_def entry_def no_entry_def)

lemma demo_region: "region_ok demo 30 demo_kernel"
proof -
  have "u_inv demo 30 demo_kernel"
    by (auto simp: u_inv_def sound_def demo_ff_ok demo_upages demo_used split: if_splits)
  moreover have "i = 1" if "1 \<le> i" "i < 2" for i :: int using that by simp
  ultimately show ?thesis
    by (auto simp: region_ok_def demo_upages demo_user_pt_def heap_end_def stack_start_def page_index_def Let_def)
qed

end
