(* ===== verification/Process_Spec.thy ===== *)
theory Process_Spec
  imports Demo_Memory
begin

text \<open>
  The end of a process: what \<open>process_destroy\<close> and \<open>process_terminate\<close> do to the heap, and the
  use of freed memory in the loop over defunct children.
\<close>

section \<open>What the destructors leave of the heap\<close>

text \<open>Blocks stay or are freed; list headers and the children fields of control blocks stay.\<close>

definition only_frees :: "'z proc_state_scheme \<Rightarrow> 'z proc_state_scheme \<Rightarrow> bool" where
  "only_frees s s' \<longleftrightarrow> lls s' = lls s \<and> (\<forall>a. alive s' a \<longrightarrow> alive s a) \<and>
     (\<forall>a. nd_data (nodes s' a) = nd_data (nodes s a)) \<and>
     (\<forall>a. pcb_d_children (pcbs s' a) = pcb_d_children (pcbs s a))"

lemma only_frees_refl [simp]: "only_frees s s"
  by (simp add: only_frees_def)

lemma only_frees_trans: "only_frees s s' \<Longrightarrow> only_frees s' s'' \<Longrightarrow> only_frees s s''"
  by (simp add: only_frees_def)

lemma free_frees: "free a s = Some s' \<Longrightarrow> only_frees s s'"
  by (auto simp: free_def only_frees_def split: if_splits)

lemma upd_pcb_frees:
  "upd_pcb a f s = Some s' \<Longrightarrow> (\<And>p. pcb_d_children (f p) = pcb_d_children p) \<Longrightarrow> only_frees s s'"
  by (auto simp: upd_pcb_def only_frees_def split: if_splits)

lemma for_each_frees:
  "\<lbrakk>for_each is f s = Some s'; \<And>i s s'. f i s = Some s' \<Longrightarrow> only_frees s s'\<rbrakk> \<Longrightarrow> only_frees s s'"
  by (erule for_each_rel) (auto intro: only_frees_trans)

lemma unmap_upage_frees: "unmap_upage hw up i s = Some s' \<Longrightarrow> only_frees s s'"
  by (auto simp: unmap_upage_def upd_upte_def upd_upt_def bind_Some_iff only_frees_def split: if_splits)

lemma destroy_usermem_frees: "destroy_usermem hw up s = Some s' \<Longrightarrow> only_frees s s'"
  unfolding destroy_usermem_def for_up_def
  by (erule for_each_frees) (auto simp: bind_Some_iff dest: unmap_upage_frees split: if_splits)

lemma orphan_children_frees: "orphan_children lst cur s = Some res \<Longrightarrow> only_frees s (snd res)"
proof (erule orphan_children.raw_induct [rotated])
  fix oc lst cur s res
  assume IH: "\<And>lst cur s res. oc lst cur s = Some res \<Longrightarrow> only_frees s (snd res)"
    and eq: "(if cur = 0 then Some (lst, s)
      else do {
        c \<leftarrow> rd_node s cur;
        s \<leftarrow> upd_pcb (nd_data c) (\<lambda>p. p\<lparr>pcb_parent := NULL\<rparr>) s;
        s \<leftarrow> free lst s;
        c \<leftarrow> rd_node s cur;
        oc cur (nd_next c) s
      }) = Some res"
  show "only_frees s (snd res)"
  proof (cases "cur = 0")
    case True
    with eq show ?thesis by auto
  next
    case False
    with eq obtain c c2 :: node and s1 s2 where e: "upd_pcb (nd_data c) (\<lambda>p. p\<lparr>pcb_parent := NULL\<rparr>) s = Some s1"
        "free lst s1 = Some s2" "oc cur (nd_next c2) s2 = Some res"
      by (auto simp: bind_Some_iff)
    have "only_frees s s1" using e(1) by (rule upd_pcb_frees) simp
    with free_frees [OF e(2)] IH [OF e(3)] show ?thesis by (meson only_frees_trans)
  qed
qed

section \<open>The loop over the defunct children\<close>

lemma destroy_node_dead: "destroy_node n s = Some s' \<Longrightarrow> n \<noteq> NULL \<Longrightarrow> \<not> live s' n"
  by (auto simp: destroy_node_def bind_Some_iff free_def live_def upd_node_def split: if_splits)

text \<open>After a child is destroyed its node is read again: with a child there, the loop has no result.\<close>

lemma destroy_children_none: "cur \<noteq> NULL \<Longrightarrow> destroy_children hw cur s = None"
proof (rule ccontr)
  assume c: "cur \<noteq> NULL" and "destroy_children hw cur s \<noteq> None"
  then obtain s' s1 where "process_destroy hw cur s = Some s1" "rd_node s1 cur \<bind> (\<lambda>c. destroy_children hw (nd_next c) s1) = Some s'"
    by (auto simp: destroy_children.simps [of hw cur s] bind_Some_iff)
  moreover from this(1) have "\<not> live s1 cur"
    using c by (auto simp: process_destroy_def Let_def bind_Some_iff dest: destroy_node_dead)
  ultimately show False by (simp add: rd_node_def)
qed

lemma process_terminate_defunct:
  assumes "process_terminate hw proc rc s = Some s'"
  shows "ll_head (lls s (pcb_d_children (the_pcb s proc))) = NULL"
proof -
  obtain n :: node and x x3 x4 :: pcb and L L2 :: ll and s1 s2 lst s3 s4 s5 s6 s7 where e:
    "upd_node proc (\<lambda>n. n\<lparr>nd_code := rc\<rparr>) s = Some s1" "rd_node s1 proc = Some n" "rd_pcb s1 (nd_data n) = Some x"
    "destroy_usermem hw (pcb_userpt x) (helper_retire_pid (pcb_pid x) s1) = Some s2"
    "orphan_children NULL (ll_head L) s2 = Some (lst, s3)" "free lst s3 = Some s4"
    "rd_pcb s4 (nd_data n) = Some x3" "free (pcb_a_children x3) s4 = Some s5"
    "upd_pcb (nd_data n) (\<lambda>x. x\<lparr>pcb_a_children := NULL\<rparr>) s5 = Some s6" "rd_pcb s6 (nd_data n) = Some x4"
    "rd_ll s6 (pcb_d_children x4) = Some L2" "destroy_children hw (ll_head L2) s6 = Some s7"
    using assms by (auto simp: process_terminate_def Let_def bind_Some_iff)
  have "only_frees s s1" using e(1) by (auto simp: upd_node_def only_frees_def split: if_splits)
  moreover have "only_frees s1 (helper_retire_pid (pcb_pid x) s1)" by (simp add: helper_retire_pid_def only_frees_def)
  moreover note destroy_usermem_frees [OF e(4)]
  moreover have "only_frees s2 s3" using orphan_children_frees [OF e(5)] by simp
  moreover note free_frees [OF e(6)] free_frees [OF e(8)]
  moreover have "only_frees s5 s6" using e(9) by (rule upd_pcb_frees) simp
  ultimately have f: "only_frees s s6" by (meson only_frees_trans)
  have "nd_data n = nd_data (nodes s proc)"
    using e(1,2) by (auto simp: upd_node_def rd_node_def split: if_splits)
  then have "pcb_d_children x4 = pcb_d_children (the_pcb s proc)"
    using e(10) f by (auto simp: rd_pcb_def only_frees_def split: if_splits)
  then have "ll_head L2 = ll_head (lls s (pcb_d_children (the_pcb s proc)))"
    using e(11) f by (auto simp: rd_ll_def only_frees_def split: if_splits)
  with e(12) destroy_children_none [of "ll_head L2" hw s6] show ?thesis by fastforce
qed

end
