(* ===== verification/Kernel_Copy.thy ===== *)
theory Kernel_Copy
  imports Process_Spec
begin

text \<open>
  \<open>KCCopy\<close>: the copy of a kernel context and of the kernel stack, page by page through the
  page below the stack.
\<close>

definition ks_index :: "hw \<Rightarrow> int \<Rightarrow> int" where
  "ks_index hw j = j + BASE_PAGE_KSTACK hw - BASE_PAGE_0 hw"

lemma ks_index:
  assumes "hw_ok hw" and "0 \<le> j" "j < NUM_KSTACK_PAGES hw"
  shows "0 \<le> ks_index hw j" "ks_index hw j < NUM_PAGES_0 hw" "ks_index hw j \<noteq> dummy_index hw"
    "j + BASE_PAGE_KSTACK hw < BASE_PAGE_1 hw"
  using region_0 [OF assms(1)] assms(2,3) unfolding ks_index_def dummy_index_def by linarith+

text \<open>The stack the kernel runs on: the frames behind its pages in the kernel's table.\<close>

definition stack_frame :: "hw \<Rightarrow> 'z mem_scheme \<Rightarrow> int \<Rightarrow> int" where
  "stack_frame hw s j = pte_pfn (k_pt (kernel_pt s) (ks_index hw j))"

definition stack_mapped :: "hw \<Rightarrow> 'z mem_scheme \<Rightarrow> bool" where
  "stack_mapped hw s \<longleftrightarrow> (\<forall>j. 0 \<le> j \<longrightarrow> j < NUM_KSTACK_PAGES hw \<longrightarrow>
     pte_valid (k_pt (kernel_pt s) (ks_index hw j)) \<noteq> 0 \<and> stack_frame hw s j \<in> used hw (free_frame s))"

text \<open>The pages \<open>V\<close> of the stack are copied to the table \<open>ks\<close>, relative to the state \<open>s\<close>.\<close>

definition stack_copied :: "hw \<Rightarrow> addr \<Rightarrow> int set \<Rightarrow> 'z mem_scheme \<Rightarrow> 'z mem_scheme \<Rightarrow> bool" where
  "stack_copied hw ks V s s' \<longleftrightarrow>
     (\<exists>ff K M U F. s' = s\<lparr>free_frame := ff,
        kernel_pt := (kernel_pt s)\<lparr>k_pt := (k_pt (kernel_pt s))(dummy_index hw := K)\<rparr>, pmem := M,
        kstacks := (kstacks s)(ks := U)\<rparr> \<and>
      frames_ok hw ff \<and> ff_size ff = ff_size (free_frame s) \<and> inj_on F V \<and>
      F ` V \<subseteq> pool hw (free_frame s) \<and> pool hw ff = pool hw (free_frame s) - F ` V \<and>
      (\<forall>j\<in>V. pte_valid (U j) \<noteq> 0 \<and> pte_pfn (U j) = F j \<and> pte_prot (U j) = PROT_RW hw) \<and>
      (\<forall>j\<in>V. \<forall>k<PAGESIZE hw. M (F j) k = pmem s (stack_frame hw s j) k) \<and>
      (\<forall>f. f \<notin> F ` V \<longrightarrow> M f = pmem s f))"

lemma stack_copied_none: "frames_ok hw (free_frame s) \<Longrightarrow> stack_copied hw ks {} s s"
  unfolding stack_copied_def
  by (intro exI [of _ "free_frame s"] exI [of _ "k_pt (kernel_pt s) (dummy_index hw)"]
      exI [of _ "pmem s"] exI [of _ "kstacks s ks"]) simp

lemma copy_kstack_page_step:
  assumes hw: "hw_ok hw" and q: "live s q" "pcb_kstack (pcbs s q) = ks" "live s ks"
    and j: "0 \<le> j" "j < NUM_KSTACK_PAGES hw" and v: "pte_valid (k_pt (kernel_pt s) (ks_index hw j)) \<noteq> 0"
    and f: "get_frame hw NONE AUTO (free_frame s) = Some (f, ff)"
  shows "\<exists>K. pte_valid K \<noteq> 0 \<and> pte_pfn K = f \<and> pte_prot K = PROT_RW hw \<and>
    copy_kstack_page hw q (j + BASE_PAGE_KSTACK hw) s =
    Some (s\<lparr>free_frame := ff, kernel_pt := (kernel_pt s)\<lparr>k_pt := (k_pt (kernel_pt s))(dummy_index hw := K)\<rparr>,
      pmem := (pmem s)(f := over_page hw (pmem s (stack_frame hw s j)) (pmem s f)),
      kstacks := (kstacks s)(ks := (kstacks s ks)(j := K))\<rparr>)"
proof -
  note I = ks_index [OF hw j]
  define K where "K = set_pte 1 f (PROT_RW hw) (k_pt (kernel_pt s) (dummy_index hw))"
  have K: "pte_valid K \<noteq> 0" "pte_pfn K = f" "pte_prot K = PROT_RW hw" by (simp_all add: K_def set_pte_def Let_def)
  let ?s1 = "s\<lparr>free_frame := ff, kernel_pt := (kernel_pt s)\<lparr>k_pt := (k_pt (kernel_pt s))(dummy_index hw := K)\<rparr>\<rparr>"
  have s1: "map_kpage hw (PROT_RW hw) (dummy_index hw) s = Some ?s1"
    using f dummy_index [OF hw] by (simp add: map_kpage_def upd_kpte_def K_def)
  let ?s2 = "?s1\<lparr>pmem := (pmem s)(f := over_page hw (pmem s (stack_frame hw s j)) (pmem s f))\<rparr>"
  have s2: "copy_page hw (BASE_PAGE_KSTACK hw - 1) (j + BASE_PAGE_KSTACK hw) ?s1 = Some ?s2"
    using K(1,2) I v dummy_index [OF hw] dummy_page [OF hw]
    by (simp add: copy_page_def frame_at_def rd_kpte_def dummy_index_def ks_index_def stack_frame_def)
  have "rd_kpte hw ?s2 (dummy_index hw) = Some K"
    using dummy_index [OF hw] by (simp add: rd_kpte_def)
  with s1 s2 q j K show ?thesis
    by (intro exI [of _ K])
      (simp add: copy_kstack_page_def Let_def rd_pcb_def upd_kstack_def live_def flip: dummy_index_def)
qed

lemma stack_copied_more:
  assumes hw: "hw_ok hw" and fr: "frames_ok hw (free_frame s)" and q: "live s q" "pcb_kstack (pcbs s q) = ks" "live s ks"
    and m: "stack_mapped hw s" and c: "stack_copied hw ks V s s'" and j: "0 \<le> j" "j < NUM_KSTACK_PAGES hw" "j \<notin> V"
    and room: "finite V" "card V < card (pool hw (free_frame s))"
  shows "\<exists>s''. copy_kstack_page hw q (j + BASE_PAGE_KSTACK hw) s' = Some s'' \<and>
    stack_copied hw ks (insert j V) s s''"
proof -
  obtain ff K M U F where s': "s' = s\<lparr>free_frame := ff,
        kernel_pt := (kernel_pt s)\<lparr>k_pt := (k_pt (kernel_pt s))(dummy_index hw := K)\<rparr>, pmem := M,
        kstacks := (kstacks s)(ks := U)\<rparr>"
    and ff: "frames_ok hw ff" "ff_size ff = ff_size (free_frame s)"
    and F: "inj_on F V" "F ` V \<subseteq> pool hw (free_frame s)" "pool hw ff = pool hw (free_frame s) - F ` V"
    and U: "\<forall>j\<in>V. pte_valid (U j) \<noteq> 0 \<and> pte_pfn (U j) = F j \<and> pte_prot (U j) = PROT_RW hw"
    and M: "\<forall>j\<in>V. \<forall>k<PAGESIZE hw. M (F j) k = pmem s (stack_frame hw s j) k" "\<forall>f. f \<notin> F ` V \<longrightarrow> M f = pmem s f"
    using c unfolding stack_copied_def by (elim exE conjE) (rule that; assumption)
  have "card (F ` V) < card (pool hw (free_frame s))" using room F(1) by (simp add: card_image)
  then have "\<not> pool hw (free_frame s) \<subseteq> F ` V"
    using card_mono [OF finite_imageI [OF room(1), of F], of "pool hw (free_frame s)"] by linarith
  then have "pool hw ff \<noteq> {}" using F(3) by simp
  then obtain f ff' where f: "get_frame hw NONE AUTO ff = Some (f, ff')" "frames_ok hw ff'" "f \<in> pool hw ff"
      "pool hw ff' = pool hw ff - {f}" "ff_size ff' = ff_size ff"
    using pool_take [OF ff(1)] by blast
  note I = ks_index [OF hw j(1,2)]
  have sf: "stack_frame hw s' j = stack_frame hw s j" using I(3) by (simp add: s' stack_frame_def)
  have q': "live s' q" "pcb_kstack (pcbs s' q) = ks" "live s' ks" "free_frame s' = ff"
    using q by (simp_all add: s' live_def)
  have v: "pte_valid (k_pt (kernel_pt s') (ks_index hw j)) \<noteq> 0"
    using m j I(3) by (simp add: s' stack_mapped_def)
  obtain K' where K': "pte_valid K' \<noteq> 0" "pte_pfn K' = f" "pte_prot K' = PROT_RW hw"
    and step: "copy_kstack_page hw q (j + BASE_PAGE_KSTACK hw) s' = Some (s'\<lparr>free_frame := ff',
      kernel_pt := (kernel_pt s')\<lparr>k_pt := (k_pt (kernel_pt s'))(dummy_index hw := K')\<rparr>,
      pmem := (pmem s')(f := over_page hw (pmem s' (stack_frame hw s' j)) (pmem s' f)),
      kstacks := (kstacks s')(ks := (kstacks s' ks)(j := K'))\<rparr>)"
      (is "_ = Some ?s''")
    using copy_kstack_page_step [OF hw q'(1-3) j(1,2) v] f(1) q'(4) by blast
  let ?g = "stack_frame hw s j"
  have "?g \<in> used hw (free_frame s)" using m j by (simp add: stack_mapped_def)
  then have g: "?g \<notin> F ` V" "f \<noteq> ?g" using F(2,3) f(3) by (auto simp: pool_def)
  define M' where "M' = M(f := over_page hw (M ?g) (M f))"
  define U' where "U' = U(j := K')"
  define F' where "F' = F(j := f)"
  have img: "F' ` insert j V = insert f (F ` V)" and fnew: "f \<notin> F ` V"
    using j(3) F(3) f(3) by (auto simp: F'_def image_def)
  have "?s'' = s\<lparr>free_frame := ff', kernel_pt := (kernel_pt s)\<lparr>k_pt := (k_pt (kernel_pt s))(dummy_index hw := K')\<rparr>,
      pmem := M', kstacks := (kstacks s)(ks := U')\<rparr>"
    unfolding sf by (simp add: s' M'_def U'_def)
  moreover have "inj_on F' (insert j V)" using F(1) j(3) fnew by (auto simp: inj_on_def F'_def)
  moreover have "F' ` insert j V \<subseteq> pool hw (free_frame s)" "pool hw ff' = pool hw (free_frame s) - F' ` insert j V"
    unfolding img using F(2,3) f(3,4) by auto
  moreover have "\<forall>j\<in>insert j V. pte_valid (U' j) \<noteq> 0 \<and> pte_pfn (U' j) = F' j \<and> pte_prot (U' j) = PROT_RW hw"
    using U K' j(3) by (auto simp: U'_def F'_def)
  moreover have "\<forall>j\<in>insert j V. \<forall>k<PAGESIZE hw. M' (F' j) k = pmem s (stack_frame hw s j) k"
    using M g fnew j(3) by (auto simp: M'_def F'_def over_page_def)
  moreover have "\<forall>h. h \<notin> F' ` insert j V \<longrightarrow> M' h = pmem s h"
    unfolding img using M(2) by (auto simp: M'_def)
  ultimately have "stack_copied hw ks (insert j V) s ?s''"
    unfolding stack_copied_def using f(2,5) ff(2)
    by (intro exI [of _ ff'] exI [of _ K'] exI [of _ M'] exI [of _ U'] exI [of _ F'] conjI) simp_all
  with step show ?thesis by blast
qed

text \<open>The whole copy: a stack of its own for the new process, with the same bytes.\<close>

lemma KCCopy_spec:
  fixes s :: "'z sched_scheme"
  assumes hw: "hw_ok hw" and fr: "frames_ok hw (free_frame s)" and q: "live s q" "live s (pcb_kstack (pcbs s q))"
    and m: "stack_mapped hw s" and room: "NUM_KSTACK_PAGES hw \<le> frames_left (free_frame s)"
  defines "ks \<equiv> pcb_kstack (pcbs s q)" and "V \<equiv> {0..<NUM_KSTACK_PAGES hw}"
  shows "\<exists>ff K M U F. KCCopy hw kc q s = Some (s\<lparr>pcbs := (pcbs s)(q := (pcbs s q)\<lparr>pcb_kc := kc\<rparr>), free_frame := ff,
        kernel_pt := (kernel_pt s)\<lparr>k_pt := (k_pt (kernel_pt s))(dummy_index hw := K)\<rparr>, pmem := M,
        kstacks := (kstacks s)(ks := U)\<rparr>) \<and>
      frames_ok hw ff \<and> ff_size ff = ff_size (free_frame s) \<and> pte_valid K = 0 \<and> inj_on F V \<and>
      F ` V \<subseteq> pool hw (free_frame s) \<and> pool hw ff = pool hw (free_frame s) - F ` V \<and>
      entries (NUM_KSTACK_PAGES hw) U = (\<lambda>j. if j \<in> V then Some (F j, PROT_RW hw) else None) \<and>
      (\<forall>j\<in>V. \<forall>k<PAGESIZE hw. M (F j) k = pmem s (stack_frame hw s j) k) \<and>
      (\<forall>f. f \<notin> F ` V \<longrightarrow> M f = pmem s f)"
proof -
  let ?s = "s\<lparr>pcbs := (pcbs s)(q := (pcbs s q)\<lparr>pcb_kc := kc\<rparr>)\<rparr>"
  let ?body = "\<lambda>j. copy_kstack_page hw q (j + BASE_PAGE_KSTACK hw)"
  note R = region_0 [OF hw]
  have q': "live ?s q" "pcb_kstack (pcbs ?s q) = ks" "live ?s ks" using q by (simp_all add: ks_def live_def)
  have m': "stack_mapped hw ?s" using m by (simp add: stack_mapped_def stack_frame_def)
  have fr': "frames_ok hw (free_frame ?s)" using fr by simp
  have "int (card V) = NUM_KSTACK_PAGES hw" using R(6) by (simp add: V_def)
  then have cardV: "card V \<le> card (pool hw (free_frame ?s))" using room card_pool [OF fr] by simp
  have "\<exists>s'. for_up 0 (NUM_KSTACK_PAGES hw) ?body ?s = Some s' \<and> stack_copied hw ks {0..<NUM_KSTACK_PAGES hw} ?s s'"
  proof (rule for_up_rule [where P = "\<lambda>n. stack_copied hw ks {0..<n} ?s"])
    show "stack_copied hw ks {0..<0} ?s ?s" using stack_copied_none [OF fr'] by simp
  next
    fix j s' assume j: "0 \<le> j" "j < NUM_KSTACK_PAGES hw" and c: "stack_copied hw ks {0..<j} ?s s'"
    have V: "{0..<j + 1} = insert j {0..<j}" using j by auto
    have "int (card {0..<j}) < int (card V)" using j by (simp add: V_def)
    then have "card {0..<j} < card (pool hw (free_frame ?s))" using cardV by linarith
    then show "\<exists>s''. ?body j s' = Some s'' \<and> stack_copied hw ks {0..<j + 1} ?s s''"
      unfolding V by (intro stack_copied_more [OF hw fr' q' m' c j]) simp_all
  qed (use R in simp)
  then obtain s1 where s1: "for_up 0 (NUM_KSTACK_PAGES hw) ?body ?s = Some s1" "stack_copied hw ks V ?s s1"
    unfolding V_def by blast
  have loop: "for_up (BASE_PAGE_KSTACK hw) (LIM_PAGE_KSTACK hw) (copy_kstack_page hw q) ?s = Some s1"
    using for_up_shift [of "BASE_PAGE_KSTACK hw" "LIM_PAGE_KSTACK hw" ?body "BASE_PAGE_KSTACK hw" ?s] R(5) s1(1)
    by simp
  obtain ff K M U F where c: "s1 = ?s\<lparr>free_frame := ff,
        kernel_pt := (kernel_pt ?s)\<lparr>k_pt := (k_pt (kernel_pt ?s))(dummy_index hw := K)\<rparr>, pmem := M,
        kstacks := (kstacks ?s)(ks := U)\<rparr>" "frames_ok hw ff" "inj_on F V" "F ` V \<subseteq> pool hw (free_frame ?s)"
      "pool hw ff = pool hw (free_frame ?s) - F ` V"
      "\<forall>j\<in>V. pte_valid (U j) \<noteq> 0 \<and> pte_pfn (U j) = F j \<and> pte_prot (U j) = PROT_RW hw"
      "\<forall>j\<in>V. \<forall>k<PAGESIZE hw. M (F j) k = pmem ?s (stack_frame hw ?s j) k" "\<forall>f. f \<notin> F ` V \<longrightarrow> M f = pmem ?s f" "ff_size ff = ff_size (free_frame ?s)"
    using s1(2) unfolding stack_copied_def by (elim exE conjE) (rule that; assumption)
  have sf: "stack_frame hw ?s = stack_frame hw s" by (simp add: stack_frame_def fun_eq_iff)
  have s1_eq: "s1 = ?s\<lparr>free_frame := ff,
        kernel_pt := (kernel_pt s)\<lparr>k_pt := (k_pt (kernel_pt s))(dummy_index hw := K)\<rparr>, pmem := M,
        kstacks := (kstacks s)(ks := U)\<rparr>" using c(1) by simp
  have F: "frames_ok hw ff" "inj_on F V" "F ` V \<subseteq> pool hw (free_frame s)"
      "pool hw ff = pool hw (free_frame s) - F ` V"
      "\<forall>j\<in>V. pte_valid (U j) \<noteq> 0 \<and> pte_pfn (U j) = F j \<and> pte_prot (U j) = PROT_RW hw"
      "\<forall>j\<in>V. \<forall>k<PAGESIZE hw. M (F j) k = pmem s (stack_frame hw s j) k" "\<forall>f. f \<notin> F ` V \<longrightarrow> M f = pmem s f"
    using c(2-8) unfolding sf by simp_all
  have e: "entries (NUM_KSTACK_PAGES hw) U = (\<lambda>j. if j \<in> V then Some (F j, PROT_RW hw) else None)"
    using F(5) by (auto simp: entries_def V_def)
  have "KCCopy hw kc q s = Some (s\<lparr>pcbs := (pcbs s)(q := (pcbs s q)\<lparr>pcb_kc := kc\<rparr>), free_frame := ff,
        kernel_pt := (kernel_pt s)\<lparr>k_pt := (k_pt (kernel_pt s))(dummy_index hw := set_pte 0 NONE NONE K)\<rparr>, pmem := M,
        kstacks := (kstacks s)(ks := U)\<rparr>)"
    using loop q(1) dummy_index [OF hw] R(3)
    by (simp add: KCCopy_def Let_def upd_kpte_def s1_eq flip: dummy_index_def)
  moreover have "pte_valid (set_pte 0 NONE NONE K) = 0" by (simp add: set_pte_def)
  ultimately show ?thesis using F(1-4,6,7) e c(9)
    by (intro exI [of _ ff] exI [of _ "set_pte 0 NONE NONE K"] exI [of _ M] exI [of _ U] exI [of _ F] conjI) simp_all
qed

end
