(* ===== verification/Fork_Spec.thy ===== *)
theory Fork_Spec
  imports Kernel_Copy
begin

text \<open>
  New processes: \<open>process_init\<close>, \<open>process_copy\<close>, and \<open>KernelFork\<close> as a whole.
\<close>

section \<open>A blank process\<close>

text \<open>
  \<open>process_init\<close> allocates, in this order, the control block, the two lists of children, the
  page table, the kernel stack table and the node.
\<close>

lemma process_init_spec:
  fixes s :: "'z proc_state_scheme"
  assumes hw: "hw_ok hw" and heap: "heap_ok s"
  defines "k \<equiv> brk_next s" and "pid \<equiv> helper_new_pid hw (pids s) (brk_next s + 3)"
  shows "\<exists>N L U P. process_init hw s = Some (k + 5, s\<lparr>brk_next := k + 6,
      alive := (\<lambda>a. alive s a \<or> k \<le> a \<and> a < k + 6), nodes := N, lls := L, upts := U, pcbs := P, pids := pid # pids s\<rparr>) \<and>
    (\<forall>a<k. N a = nodes s a \<and> L a = lls s a \<and> U a = upts s a \<and> P a = pcbs s a) \<and>
    nd_data (N (k + 5)) = k \<and> nd_next (N (k + 5)) = NULL \<and> nd_prev (N (k + 5)) = NULL \<and>
    L (k + 1) = \<lparr>ll_size = 0, ll_head = NULL, ll_tail = NULL\<rparr> \<and> L (k + 2) = \<lparr>ll_size = 0, ll_head = NULL, ll_tail = NULL\<rparr> \<and>
    entries (NUM_PAGES_1 hw) (u_pt (U (k + 3))) = (\<lambda>_. None) \<and> u_size (U (k + 3)) = 0 \<and>
    pcb_pid (P k) = pid \<and> pcb_parent (P k) = NULL \<and> pcb_a_children (P k) = k + 1 \<and> pcb_d_children (P k) = k + 2 \<and>
    pcb_userpt (P k) = k + 3 \<and> pcb_kstack (P k) = k + 4"
proof -
  have k: "0 < k" "\<And>a. alive s a \<Longrightarrow> a < k" using heap by (auto simp: k_def heap_ok_def)
  define s2 where "s2 = s\<lparr>brk_next := k + 3, alive := (alive s)(k := True, k + 1 := True, k + 2 := True),
    lls := (lls s)(k + 1 := \<lparr>ll_size = 0, ll_head = NULL, ll_tail = NULL\<rparr>, k + 2 := \<lparr>ll_size = 0, ll_head = NULL, ll_tail = NULL\<rparr>),
    pcbs := (pcbs s)(k := (pcbs s k)\<lparr>pcb_parent := NULL, pcb_a_children := k + 1, pcb_d_children := k + 2\<rparr>)\<rparr>"
  have h2: "heap_ok s2" "brk_next s2 = k + 3"
    using k by (auto simp: s2_def heap_ok_def less_SucI eval_nat_numeral)
  have u2: "upts s2 = upts s" and k4: "Suc (k + 3) = k + 4" by (simp_all add: s2_def)
  obtain U where U: "new_user_pt hw s2 = Some (k + 3, s2\<lparr>brk_next := k + 4, alive := (alive s2)(k + 3 := True), upts := U\<rparr>)"
      "entries (NUM_PAGES_1 hw) (u_pt (U (k + 3))) = (\<lambda>_. None)" "u_size (U (k + 3)) = 0" "\<forall>a<k. U a = upts s a"
  proof -
    obtain s3 where s3: "new_user_pt hw s2 = Some (k + 3, s3)" "upages hw (k + 3) s3 = (\<lambda>_. None)" "u_size (upts s3 (k + 3)) = 0"
        "\<forall>a. a \<noteq> k + 3 \<longrightarrow> upts s3 a = upts s a"
        "s3 = s2\<lparr>brk_next := k + 4, alive := (alive s2)(k + 3 := True), upts := upts s3\<rparr>"
      using new_user_pt_spec [OF hw h2(1)] unfolding h2(2) u2 k4 by (elim exE conjE) (rule that; assumption)
    from s3(5) obtain U where e: "s3 = s2\<lparr>brk_next := k + 4, alive := (alive s2)(k + 3 := True), upts := U\<rparr>" by blast
    have u: "upts s3 = U" by (simp add: e)
    show thesis
    proof (rule that [of U])
      show "new_user_pt hw s2 = Some (k + 3, s2\<lparr>brk_next := k + 4, alive := (alive s2)(k + 3 := True), upts := U\<rparr>)"
        using s3(1) unfolding e .
      show "entries (NUM_PAGES_1 hw) (u_pt (U (k + 3))) = (\<lambda>_. None)" using s3(2) unfolding upages_def u .
      show "u_size (U (k + 3)) = 0" using s3(3) unfolding u .
      show "\<forall>a<k. U a = upts s a" using s3(4) unfolding u by simp
    qed
  qed
  define P where "P = (pcbs s)(k := (pcbs s k)\<lparr>pcb_parent := NULL, pcb_a_children := k + 1, pcb_d_children := k + 2,
    pcb_userpt := k + 3, pcb_kstack := k + 4, pcb_pid := pid\<rparr>)"
  define N where "N = (nodes s)(k + 5 := (nodes s (k + 5))\<lparr>nd_data := k, nd_next := NULL, nd_prev := NULL\<rparr>)"
  have "process_init hw s = Some (k + 5, s\<lparr>brk_next := k + 6,
      alive := (\<lambda>a. alive s a \<or> k \<le> a \<and> a < k + 6), nodes := N, lls := lls s2, upts := U, pcbs := P, pids := pid # pids s\<rparr>)"
  proof -
    have blank: "(h :: ll)\<lparr>ll_head := NULL, ll_tail := NULL, ll_size := 0\<rparr> = \<lparr>ll_size = 0, ll_head = NULL, ll_tail = NULL\<rparr>" for h
      by simp
    have al: "(alive s)(k := True, Suc k := True, Suc (Suc k) := True, Suc (Suc (Suc k)) := True, Suc (Suc (Suc (Suc k))) := True,
        Suc (Suc (Suc (Suc (Suc k)))) := True) = (\<lambda>a. alive s a \<or> k \<le> a \<and> a < k + 6)"
      by (auto simp: fun_eq_iff)
    have "pid = helper_new_pid hw (pids s) (Suc (Suc (Suc k)))" by (simp add: pid_def k_def eval_nat_numeral)
    with k(1) U(1) al show ?thesis
      by (simp add: process_init_def malloc_def new_ll_eq new_node_eq Let_def upd_pcb_def rd_pcb_def live_def blank s2_def
          eval_nat_numeral flip: k_def) (simp add: s2_def P_def N_def eval_nat_numeral)
  qed
  then show ?thesis
    by (intro exI conjI, assumption) (use U(2-4) in \<open>auto simp: N_def P_def s2_def\<close>)
qed

section \<open>The scheduler and a growing heap\<close>

text \<open>
  A state that keeps every live block of another as the scheduler sees it, as allocation
  does, is as good to the scheduler; a list may be added or one that holds no processes
  changed.
\<close>

definition extends :: "'z sched_scheme \<Rightarrow> 'z sched_scheme \<Rightarrow> bool" where
  "extends s s' \<longleftrightarrow>
     (\<forall>a. live s a \<longrightarrow> live s' a \<and> nodes s' a = nodes s a \<and> lls s' a = lls s a \<and>
        pcb_userpt (pcbs s' a) = pcb_userpt (pcbs s a) \<and> pcb_kstack (pcbs s' a) = pcb_kstack (pcbs s a)) \<and>
     procs s' = procs s \<and> idle_node s' = idle_node s"

lemma extends_refl [simp]: "extends s s"
  by (simp add: extends_def)

lemma extends_trans: "extends s s' \<Longrightarrow> extends s' s'' \<Longrightarrow> extends s s''"
  by (simp add: extends_def)

lemma proc_ok_extends: "extends s s' \<Longrightarrow> proc_ok s n \<Longrightarrow> proc_ok s' n"
  by (auto simp: extends_def proc_ok_def)

lemma lists_ok_extends:
  assumes "extends s s'" and "lists_ok s Q"
  shows "lists_ok s' Q"
  using assms lists_ok_hdr [OF assms(2)] lists_ok_live [OF assms(2)]
  by (intro lists_ok_cong [OF assms(2)]) (auto simp: extends_def)

lemma sched_inv_extends:
  assumes "sched_inv s Q B" and "extends s s'"
  shows "sched_inv s' Q B"
proof -
  have "procs s' = procs s" "idle_node s' = idle_node s" using assms(2) by (simp_all add: extends_def)
  with assms(1) show ?thesis
    unfolding sched_inv_def sched_mid_def
    by (auto intro: lists_ok_extends [OF assms(2)] proc_ok_extends [OF assms(2)])
qed

lemma sched_inv_new_list:
  assumes "sched_inv s Q B" and "ll_at s l []" and "l \<notin> B"
  shows "sched_inv s (Q(l \<mapsto> [])) B"
proof -
  have "\<not> queued Q n \<Longrightarrow> \<not> queued (Q(l \<mapsto> [])) n" for n by (rule not_queued_sub) simp_all
  with assms show ?thesis
    unfolding sched_inv_def sched_mid_def by (auto intro: lists_ok_add)
qed

lemma sched_inv_other_list:
  assumes "sched_inv s Q B" and "lists_ok s' (Q(l \<mapsto> ys))" and "links_only s s'" and "l \<notin> B"
    and "set ys \<subseteq> insert n (set (the (Q l)))" and "Q l \<noteq> None" and "n \<noteq> running (procs s)" "n \<noteq> idle_node s"
  shows "sched_inv s' (Q(l \<mapsto> ys)) B"
proof -
  note I = sched_invD [OF assms(1)] and F = links_sched_frame [OF assms(3)]
  note M = sched_midD [OF I(1)]
  have nq: "\<not> queued (Q(l \<mapsto> ys)) m" if "\<not> queued Q m" "m \<noteq> n" for m
  proof (rule not_queued_sub [OF that(1)])
    obtain xs where "Q l = Some xs" using assms(6) by blast
    with not_queuedD [OF that(1) this] that(2) assms(5) show "m \<notin> set ys" by auto
  qed
  have "sched_mid s' (Q(l \<mapsto> ys)) B"
    by (rule sched_mid_step [OF I(1) assms(2) F(1)])
      (use M(2,4,11) F(2) assms(4,8) nq in \<open>auto split: if_splits\<close>)
  then show ?thesis using nq [OF I(2)] assms(7) F(2) by (auto simp: sched_inv_def)
qed

text \<open>
  The creation of a process or an object: every block there was is kept, the same process runs with the same tables, and of the frames
  in use only its own may have been written.
\<close>

definition enlarged :: "hw \<Rightarrow> 'z sched_scheme \<Rightarrow> 'z sched_scheme \<Rightarrow> bool" where
  "enlarged hw s s' \<longleftrightarrow> heap_ok s' \<and> procs s' = procs s \<and> idle_node s' = idle_node s \<and> ptbr1 s' = ptbr1 s \<and>
     (\<forall>a. live s a \<longrightarrow> live s' a \<and> nd_data (nodes s' a) = nd_data (nodes s a) \<and> pcbs s' a = pcbs s a \<and> upts s' a = upts s a \<and> kstacks s' a = kstacks s a) \<and>
     (\<forall>j. 0 \<le> j \<longrightarrow> j < NUM_KSTACK_PAGES hw \<longrightarrow> k_pt (kernel_pt s') (ks_index hw j) = k_pt (kernel_pt s) (ks_index hw j)) \<and>
     frames_ok hw (free_frame s') \<and> ff_size (free_frame s') = ff_size (free_frame s) \<and> pool hw (free_frame s') \<subseteq> pool hw (free_frame s) \<and>
     (\<forall>f. f \<in> used hw (free_frame s) \<longrightarrow> (\<forall>i p. upages hw (ptbr1 s) s i \<noteq> Some (f, p)) \<longrightarrow> pmem s' f = pmem s f)"

text \<open>A node that is on no list goes to the end of a queue of processes.\<close>

lemma ready_ok:
  assumes inv: "sched_inv s Q B" and "proc_ok s n" and "\<not> queued Q n" and "n \<noteq> running (procs s)" "n \<noteq> idle_node s"
  shows "\<exists>s'. ready n s = Some s' \<and> links_only s s' \<and>
    sched_inv s' (Q(ready_ll (procs s) \<mapsto> ready_of s Q @ [n])) B"
proof -
  note I = sched_invD [OF inv]
  note M = sched_midD [OF I(1)]
  obtain s1 where s1: "enqueue (ready_ll (procs s)) n s = Some s1" "links_only s s1"
      "lists_ok s1 (Q(ready_ll (procs s) \<mapsto> ready_of s Q @ [n]))"
    using enqueue_ok [OF M(1,9) proc_okD(1) [OF assms(2)] assms(3)] by blast
  have "sched_mid s1 (Q(ready_ll (procs s) \<mapsto> ready_of s Q @ [n])) B"
    by (rule sched_mid_put [OF I(1) M(5) s1(3,2) _ assms(2,5)]) auto
  moreover have "\<not> queued (Q(ready_ll (procs s) \<mapsto> ready_of s Q @ [n])) (running (procs s))"
    using I(2) assms(4) not_queuedD [OF I(2) M(9)] by (intro not_queued_sub) auto
  ultimately show ?thesis using s1 links_sched_frame(2) [OF s1(2)] by (auto simp: ready_def sched_inv_def)
qed

section \<open>The copy a fork makes\<close>

lemma same_heap_sched:
  fixes s s' :: "'z sched_scheme"
  assumes "same_heap s s'"
  shows "pcbs s' = pcbs s" "pids s' = pids s" "procs s' = procs s" "idle_node s' = idle_node s"
    "init_node s' = init_node s" "sched.more s' = sched.more s"
proof -
  have m: "mem.more s' = mem.more s" using assms by (simp add: same_heap_def)
  then show "pcbs s' = pcbs s" "pids s' = pids s" "procs s' = procs s" "idle_node s' = idle_node s"
    "init_node s' = init_node s" "sched.more s' = sched.more s"
    by (cases s; cases s'; simp)+
qed

text \<open>The node of the child, its copy for the parent's list, and the fields that are inherited.\<close>

lemma process_copy_heap:
  fixes s :: "'z sched_scheme"
  assumes hw: "hw_ok hw" and heap: "heap_ok s" and inv: "sched_inv s Q B" and par: "proc_ok s parent"
    and A: "Q (pcb_a_children (the_pcb s parent)) = Some as" "pcb_a_children (the_pcb s parent) \<notin> B"
  defines "k \<equiv> brk_next s" and "p \<equiv> the_pcb s parent"
  defines "Q' \<equiv> Q(k + 1 \<mapsto> [], k + 2 \<mapsto> [], pcb_a_children p \<mapsto> as @ [k + 6])"
  shows "\<exists>s'. process_copy hw parent s = do {
      s \<leftarrow> copy_user_mem hw (pcb_userpt p) (k + 3) s'; Some (k + 5, s) } \<and>
    heap_ok s' \<and> procs s' = procs s \<and> idle_node s' = idle_node s \<and> (\<forall>a. live s a \<longrightarrow> live s' a) \<and>
    (\<forall>a<k. nd_data (nodes s' a) = nd_data (nodes s a)) \<and> sched_inv s' Q' B \<and> proc_ok s' (k + 5) \<and> \<not> queued Q' (k + 5) \<and>
    nd_data (nodes s' (k + 5)) = k \<and> pcb_pid (pcbs s' k) \<notin> set (pids s) \<and> pcb_parent (pcbs s' k) = parent \<and>
    pcb_uc (pcbs s' k) = pcb_uc p \<and> pcb_userpt (pcbs s' k) = k + 3 \<and> pcb_kstack (pcbs s' k) = k + 4 \<and>
    pcb_a_children (pcbs s' k) = k + 1 \<and> pcb_d_children (pcbs s' k) = k + 2 \<and>
    (\<forall>a<k. pcbs s' a = pcbs s a \<and> upts s' a = upts s a) \<and> upages hw (k + 3) s' = (\<lambda>_. None) \<and>
    free_frame s' = free_frame s \<and> kernel_pt s' = kernel_pt s \<and> pmem s' = pmem s \<and> kstacks s' = kstacks s \<and>
    ptbr1 s' = ptbr1 s \<and> sched.more s' = sched.more s"
proof -
  have below: "a < k" if "live s a" for a using live_below [OF heap that] by (simp add: k_def)
  have k0: "0 < k" using heap by (simp add: heap_ok_def k_def)
  define pd where "pd = nd_data (nodes s parent)"
  note I = sched_invD [OF inv]
  have dQ: "l < k" if "l \<in> dom Q \<or> queued Q l" for l using lists_ok_below [OF heap I(3) that] by (simp add: k_def)
  have B: "B \<subseteq> dom Q" using I(1) by (simp add: sched_mid_def)
  have Ak: "pcb_a_children p < k" using dQ A(1) by (auto simp: p_def)
  have pk: "parent < k" "pd < k" "live s parent" "live s pd" "p = pcbs s pd"
    using par below by (auto simp: proc_ok_def pd_def p_def)
  obtain N L U P where init: "process_init hw s = Some (k + 5, s\<lparr>brk_next := k + 6,
      alive := (\<lambda>a. alive s a \<or> k \<le> a \<and> a < k + 6), nodes := N, lls := L, upts := U, pcbs := P,
      pids := helper_new_pid hw (pids s) (k + 3) # pids s\<rparr>)" (is "_ = Some (_, ?s1)")
    and old: "\<forall>a<k. N a = nodes s a \<and> L a = lls s a \<and> U a = upts s a \<and> P a = pcbs s a"
    and new: "nd_data (N (k + 5)) = k" "L (k + 1) = \<lparr>ll_size = 0, ll_head = NULL, ll_tail = NULL\<rparr>"
      "L (k + 2) = \<lparr>ll_size = 0, ll_head = NULL, ll_tail = NULL\<rparr>"
      "entries (NUM_PAGES_1 hw) (u_pt (U (k + 3))) = (\<lambda>_. None)"
      "pcb_pid (P k) = helper_new_pid hw (pids s) (k + 3)" "pcb_a_children (P k) = k + 1" "pcb_d_children (P k) = k + 2"
      "pcb_userpt (P k) = k + 3" "pcb_kstack (P k) = k + 4"
    using process_init_spec [OF hw heap] by (auto simp: k_def)
  define s1 where "s1 = ?s1"
  have live1: "live s1 a \<longleftrightarrow> live s a \<or> k \<le> a \<and> a < k + 6" for a
    using k0 by (auto simp: s1_def live_def)
  have s1: "nodes s1 = N" "lls s1 = L" "pcbs s1 = P" "upts s1 = U" "procs s1 = procs s" "idle_node s1 = idle_node s"
    "brk_next s1 = k + 6" by (simp_all add: s1_def)
  have e1: "extends s s1" using old below by (auto simp: extends_def live1 s1)
  let ?Q1 = "Q(k + 1 \<mapsto> [], k + 2 \<mapsto> [])"
  have nB: "k + 1 \<notin> B" "k + 2 \<notin> B" using B dQ by fastforce+
  have "ll_at s1 (k + 1) []" "ll_at s1 (k + 2) []" using new(2,3) by (simp_all add: ll_at_def live1 s1)
  then have inv1: "sched_inv s1 ?Q1 B"
    using sched_inv_new_list [OF sched_inv_new_list [OF sched_inv_extends [OF inv e1] _ nB(1)] _ nB(2)] by blast
  define s2 where "s2 = s1\<lparr>brk_next := k + 7, alive := (alive s1)(k + 6 := True),
    nodes := (nodes s1)(k + 6 := (nodes s1 (k + 6))\<lparr>nd_data := k, nd_next := NULL, nd_prev := NULL\<rparr>)\<rparr>"
  have node2: "new_node k s1 = Some (k + 6, s2)"
    by (simp add: new_node_eq s1(7) s2_def Let_def)
  have "\<not> live s1 (k + 6)" using below [of "k + 6"] by (auto simp: live1)
  then have e2: "extends s1 s2" by (auto simp: extends_def s2_def live_def)
  have inv2: "sched_inv s2 ?Q1 B" by (rule sched_inv_extends [OF inv1 e2])
  have l2: "lists_ok s2 ?Q1" using sched_invD(3) [OF inv2] .
  have live2: "live s2 a \<longleftrightarrow> live s a \<or> k \<le> a \<and> a < k + 7" for a
    using k0 by (auto simp: s2_def s1_def live_def)
  have heap2: "heap_ok s2" using heap by (fastforce simp: heap_ok_def s2_def s1_def k_def)
  have nq: "\<not> queued ?Q1 a" if "k \<le> a" "a \<noteq> k + 1" for a
    using dQ [of a] that by (auto simp: queued_upd dest!: queued_sub)
  have Q1A: "?Q1 (pcb_a_children p) = Some as" using A(1) Ak by (auto simp: p_def)
  have nq6: "\<not> queued ?Q1 (k + 6)" using nq by simp
  have "live s2 (k + 6)" by (simp add: live2)
  then obtain s3 where s3: "enqueue (pcb_a_children p) (k + 6) s2 = Some s3" "lists_ok s3 Q'" "links_only s2 s3"
    using enqueue_ok [OF l2 Q1A _ nq6] unfolding Q'_def by blast
  obtain N3 L3 where s3_eq: "s3 = s2\<lparr>nodes := N3, lls := L3\<rparr>" using s3(3) by (auto simp: links_only_def)
  have d3: "nd_data (N3 a) = nd_data (nodes s2 a)" for a using links_onlyD(4) [OF s3(3)] by (simp add: s3_eq)
  have live3: "live s3 a = live s2 a" for a using links_onlyD(1) [OF s3(3)] .
  have idle: "idle_node s < k" "running (procs s) < k"
    using I(4,5) below by (auto simp: proc_ok_def)
  have inv3: "sched_inv s3 Q' B"
    unfolding Q'_def
    by (rule sched_inv_other_list [OF inv2 s3(2) [unfolded Q'_def] s3(3), of "k + 6"])
      (use A(2) Q1A idle in \<open>auto simp: p_def s2_def s1\<close>)
  define s4 where "s4 = s3\<lparr>pcbs := (pcbs s3)(k := (pcbs s3 k)\<lparr>pcb_parent := parent, pcb_uc := pcb_uc p\<rparr>)\<rparr>"
  have s4: "nd_data (nodes s4 (k + 5)) = k" "live s4 k" "live s4 parent" "live s4 pd" "live s4 (k + 5)"
      "nd_data (nodes s2 parent) = pd" "nd_data (nodes s2 (k + 5)) = k" "pcbs s2 pd = p"
    using new(1) k0 pk old by (auto simp: s4_def s3_eq d3 live_def s2_def s1 s1_def pd_def)
  have e4: "extends s3 s4" by (simp add: extends_def s4_def)
  have e: "sched_inv s4 Q' B" by (rule sched_inv_extends [OF inv3 e4])
  have pok: "proc_ok s4 (k + 5)"
    using new s4 live3 live2 k0 by (auto simp: proc_ok_def s4_def s3_eq d3 s2_def s1)
  have s4f: "procs s4 = procs s" "idle_node s4 = idle_node s" "free_frame s4 = free_frame s" "kernel_pt s4 = kernel_pt s"
      "pmem s4 = pmem s" "kstacks s4 = kstacks s" "ptbr1 s4 = ptbr1 s" "sched.more s4 = sched.more s" "upts s4 = U"
      "pcbs s4 = P(k := (P k)\<lparr>pcb_parent := parent, pcb_uc := pcb_uc p\<rparr>)"
    by (simp_all add: s4_def s3_eq s2_def s1_def)
  have "process_copy hw parent s = do {
      s \<leftarrow> copy_user_mem hw (pcb_userpt p) (k + 3) s4; Some (k + 5, s) }"
  proof -
    have lv: "live s1 (k + 5)" "live s1 parent" "nd_data (nodes s1 (k + 5)) = k" "nd_data (nodes s1 parent) = pd"
        "live s2 pd" "pcbs s2 pd = p" "live s3 k" "pd \<noteq> k" "pcbs s4 pd = p" "live s3 pd" "pcbs s2 k = P k" "pcbs s3 = pcbs s2"
      using new(1) k0 pk old s4 live3 live2 by (simp_all add: live1 s1 pd_def s4f s2_def) (simp add: s3_eq s2_def s1)
    have u: "upd_pcb k (\<lambda>c. c\<lparr>pcb_uc := pcb_uc p\<rparr>) (s3\<lparr>pcbs := (pcbs s3)(k := (pcbs s3 k)\<lparr>pcb_parent := parent\<rparr>)\<rparr>) = Some s4"
      using lv(7) by (simp add: s4_def)
    show ?thesis
      using lv u s4(2,4) new(8) by (simp add: process_copy_def init node2 s3(1) Let_def flip: s1_def)
  qed
  moreover have "heap_ok s4" using heap_ok_links [OF s3(3) heap2] by (simp add: s4_def heap_ok_def)
  moreover have "nd_data (nodes s4 a) = nd_data (nodes s a)" if "a < k" for a
    using that old by (simp add: s4_def s3_eq d3) (simp add: s2_def s1)
  moreover have "live s4 a" if "live s a" for a using that by (simp add: s4_def live3 live2)
  moreover have "\<not> queued Q' (k + 5)"
  proof -
    have "\<not> queued ?Q1 (k + 5)" using nq by simp
    moreover have "k + 5 \<notin> set (as @ [k + 6])" using not_queuedD [OF calculation Q1A] by simp
    ultimately show ?thesis unfolding Q'_def by (rule not_queued_sub)
  qed
  moreover have "upages hw (k + 3) s4 = (\<lambda>_. None)" using new(4) by (simp add: upages_def s4f)
  moreover have "\<forall>a<k. pcbs s4 a = pcbs s a \<and> upts s4 a = upts s a" using old by (simp add: s4f)
  moreover have "pcb_pid (P k) \<notin> set (pids s)" using hw new(5) by (simp add: hw_ok_def)
  ultimately show ?thesis using e pok new s4(1)
    by (intro exI [of _ s4] conjI) (simp_all add: s4f)
qed

text \<open>The pages of a stack show in the kernel's page map.\<close>

lemma stack_mapped_cong:
  assumes hw: "hw_ok hw" and m: "stack_mapped hw s" and k: "kpages hw s' = (kpages hw s)(dummy_index hw := e)"
    and u: "used hw (free_frame s) \<subseteq> used hw (free_frame s')" and j: "0 \<le> j" "j < NUM_KSTACK_PAGES hw"
  shows "pte_valid (k_pt (kernel_pt s') (ks_index hw j)) \<noteq> 0 \<and> stack_frame hw s' j = stack_frame hw s j \<and>
    stack_frame hw s j \<in> used hw (free_frame s')"
proof -
  note I = ks_index [OF hw j]
  have "pte_valid (k_pt (kernel_pt s) (ks_index hw j)) \<noteq> 0" "stack_frame hw s j \<in> used hw (free_frame s)"
    using m j by (simp_all add: stack_mapped_def)
  moreover have "kpages hw s' (ks_index hw j) = kpages hw s (ks_index hw j)" using k I(3) by simp
  ultimately show ?thesis using u I by (auto simp: kpages_def entries_def stack_frame_def split: if_splits)
qed

lemma used_pool: "ff_size ff' = ff_size ff \<Longrightarrow> pool hw ff' \<subseteq> pool hw ff \<Longrightarrow> used hw ff \<subseteq> used hw ff'"
  using used_range [of hw ff] by (auto simp: pool_def)

lemma frames_left_pool:
  assumes "frames_ok hw ff" "frames_ok hw ff'" "pool hw ff' = pool hw ff - F ` V" "F ` V \<subseteq> pool hw ff" "inj_on F V"
  shows "frames_left ff' = frames_left ff - int (card V)"
proof -
  have "card (F ` V) \<le> card (pool hw ff)" by (rule card_mono [OF finite_pool assms(4)])
  then show ?thesis
    using assms(3-5) by (simp add: card_image card_Diff_subset finite_subset flip: card_pool [OF assms(1)] card_pool [OF assms(2)])
qed

text \<open>The break fields of a table, that is, all of it but the pages and their number.\<close>

definition same_breaks :: "user_pt \<Rightarrow> user_pt \<Rightarrow> bool" where
  "same_breaks u u' \<longleftrightarrow> u_brk u' = u_brk u \<and> u_data_end u' = u_data_end u \<and> u_stack_low u' = u_stack_low u"

lemma process_copy_spec:
  fixes s :: "'z sched_scheme"
  assumes hw: "hw_ok hw" and heap: "heap_ok s" and inv: "sched_inv s Q B" and par: "proc_ok s parent"
    and A: "Q (pcb_a_children (the_pcb s parent)) = Some as" "pcb_a_children (the_pcb s parent) \<notin> B"
    and u: "u_inv hw (pcb_userpt (the_pcb s parent)) s" and cur: "ptbr1 s = pcb_userpt (the_pcb s parent)"
    and room: "int (card (mapped_pages hw (ptbr1 s) s)) \<le> frames_left (free_frame s)"
  defines "k \<equiv> brk_next s" and "p \<equiv> the_pcb s parent" and "V \<equiv> mapped_pages hw (ptbr1 s) s"
  defines "Q' \<equiv> Q(k + 1 \<mapsto> [], k + 2 \<mapsto> [], pcb_a_children p \<mapsto> as @ [k + 6])"
  shows "\<exists>s' F. process_copy hw parent s = Some (k + 5, s') \<and>
    procs s' = procs s \<and> idle_node s' = idle_node s \<and> (\<forall>a. live s a \<longrightarrow> live s' a) \<and>
    (\<forall>a<k. nd_data (nodes s' a) = nd_data (nodes s a)) \<and> sched_inv s' Q' B \<and>
    proc_ok s' (k + 5) \<and> \<not> queued Q' (k + 5) \<and>
    nd_data (nodes s' (k + 5)) = k \<and> pcb_pid (pcbs s' k) \<notin> set (pids s) \<and> pcb_parent (pcbs s' k) = parent \<and>
    pcb_uc (pcbs s' k) = pcb_uc p \<and> pcb_userpt (pcbs s' k) = k + 3 \<and> pcb_kstack (pcbs s' k) = k + 4 \<and>
    inj_on F V \<and> F ` V \<subseteq> pool hw (free_frame s) \<and> frames_ok hw (free_frame s') \<and>
    ff_size (free_frame s') = ff_size (free_frame s) \<and> pool hw (free_frame s') = pool hw (free_frame s) - F ` V \<and>
    upages hw (k + 3) s' = (\<lambda>i. if i \<in> V then Some (F i, prot_of hw (ptbr1 s) s i) else None) \<and>
    (\<forall>i\<in>V. \<forall>j<PAGESIZE hw. pmem s' (F i) j = pmem s (frame_of hw (ptbr1 s) s i) j) \<and>
    (\<forall>f. f \<notin> F ` V \<longrightarrow> pmem s' f = pmem s f) \<and> (\<forall>a<k. upts s' a = upts s a \<and> pcbs s' a = pcbs s a) \<and>
    kpages hw s' = (kpages hw s)(dummy_index hw := None) \<and> ptbr1 s' = ptbr1 s \<and>
    heap_ok s' \<and> kstacks s' = kstacks s \<and> sched.more s' = sched.more s \<and>
    (\<forall>i. i \<noteq> dummy_index hw \<longrightarrow> k_pt (kernel_pt s') i = k_pt (kernel_pt s) i) \<and>
    pcb_a_children (pcbs s' k) = k + 1 \<and> same_breaks (upts s (ptbr1 s)) (upts s' (k + 3))"
proof -
  obtain s1 where s1: "process_copy hw parent s = do {
      s \<leftarrow> copy_user_mem hw (pcb_userpt p) (k + 3) s1; Some (k + 5, s) }"
    "procs s1 = procs s" "idle_node s1 = idle_node s" "\<forall>a. live s a \<longrightarrow> live s1 a"
    "\<forall>a<k. nd_data (nodes s1 a) = nd_data (nodes s a)" "sched_inv s1 Q' B" "proc_ok s1 (k + 5)" "\<not> queued Q' (k + 5)"
    "nd_data (nodes s1 (k + 5)) = k" "pcb_pid (pcbs s1 k) \<notin> set (pids s)" "pcb_parent (pcbs s1 k) = parent"
    "pcb_uc (pcbs s1 k) = pcb_uc p" "pcb_userpt (pcbs s1 k) = k + 3" "pcb_kstack (pcbs s1 k) = k + 4"
    "\<forall>a<k. pcbs s1 a = pcbs s a \<and> upts s1 a = upts s a" "upages hw (k + 3) s1 = (\<lambda>_. None)"
    "free_frame s1 = free_frame s" "kernel_pt s1 = kernel_pt s" "pmem s1 = pmem s" "ptbr1 s1 = ptbr1 s"
    "heap_ok s1" "kstacks s1 = kstacks s" "sched.more s1 = sched.more s" "pcb_a_children (pcbs s1 k) = k + 1"
    using process_copy_heap [OF hw heap inv par A] unfolding k_def [symmetric] p_def [symmetric] Q'_def [symmetric]
    by (elim exE conjE) (rule that; assumption)
  let ?up = "ptbr1 s"
  have up: "pcb_userpt p = ?up" "live s ?up" "?up < k" using u cur live_below [OF heap] by (auto simp: p_def u_inv_def k_def)
  have pages: "upages hw ?up s1 = upages hw ?up s" using s1(15) up(3) by (simp add: upages_def)
  then have V1: "mapped_pages hw ?up s1 = V" "frame_of hw ?up s1 = frame_of hw ?up s" "prot_of hw ?up s1 = prot_of hw ?up s"
    by (simp_all add: mapped_pages_def frame_of_def prot_of_def V_def fun_eq_iff)
  have u1: "u_inv hw ?up s1" using u up s1(4) pages by (simp add: u_inv_def s1(17) p_def)
  have d1: "live s1 (k + 3)" using s1(7,9,13) by (simp add: proc_ok_def)
  have ne: "ptbr1 s \<noteq> k + 3" using up(3) by simp
  have r1: "int (card (mapped_pages hw ?up s1)) \<le> frames_left (free_frame s1)" using room by (simp add: V1 s1(17) V_def)
  obtain s2 F where s2: "copy_user_mem hw ?up (k + 3) s1 = Some s2" "inj_on F V" "F ` V \<subseteq> pool hw (free_frame s)"
    "frames_ok hw (free_frame s2)" "pool hw (free_frame s2) = pool hw (free_frame s) - F ` V"
    "upages hw (k + 3) s2 = (\<lambda>i. if i \<in> V then Some (F i, prot_of hw ?up s i) else None)"
    "\<forall>i\<in>V. \<forall>j<PAGESIZE hw. pmem s2 (F i) j = pmem s (frame_of hw ?up s i) j"
    "\<forall>f. f \<notin> F ` V \<longrightarrow> pmem s2 f = pmem s f" "\<forall>a. a \<noteq> k + 3 \<longrightarrow> upts s2 a = upts s1 a"
    "kpages hw s2 = (kpages hw s1)(dummy_index hw := None)" "same_heap s1 s2" "kstacks s2 = kstacks s1"
    "\<forall>i. i \<noteq> dummy_index hw \<longrightarrow> k_pt (kernel_pt s2) i = k_pt (kernel_pt s1) i" "u_brk (upts s2 (k + 3)) = u_brk (upts s1 ?up)"
    "u_data_end (upts s2 (k + 3)) = u_data_end (upts s1 ?up)" "u_stack_low (upts s2 (k + 3)) = u_stack_low (upts s1 ?up)"
    using copy_user_mem_spec [OF hw u1 d1 ne s1(20) s1(16) r1] unfolding V1 s1(17,19)
    by (elim exE conjE) (rule that; assumption)
  note H = same_heap_sched [OF s2(11)]
  have h: "nodes s2 = nodes s1" "lls s2 = lls s1" "live s2 a = live s1 a" "ptbr1 s2 = ptbr1 s1"
      "ff_size (free_frame s2) = ff_size (free_frame s)" for a
    using s2(11) by (simp_all add: same_heap_def live_def s1(17))
  have e: "extends s1 s2" by (simp add: extends_def h H)
  have "kpages hw s1 = kpages hw s" by (simp add: kpages_def s1(18))
  moreover have "heap_ok s2" using s1(21) s2(11) by (simp add: heap_ok_def same_heap_def)
  moreover have "same_breaks (upts s ?up) (upts s2 (k + 3))" using s2(14-16) s1(15) up(3) by (simp add: same_breaks_def)
  ultimately show ?thesis
    using s2 s1 e h H up(1,3)
    by (intro exI [of _ s2] exI [of _ F]) (simp add: sched_inv_extends [OF s1(6) e] proc_ok_extends [OF e])
qed

section \<open>Fork as a whole\<close>

text \<open>The control block of the child, its tables and its list of children are new blocks.\<close>

definition child_ok :: "'z sched_scheme \<Rightarrow> addr \<Rightarrow> 'z sched_scheme \<Rightarrow> bool" where
  "child_ok s c s' \<longleftrightarrow> proc_ok s' c \<and> \<not> live s (nd_data (nodes s' c)) \<and> \<not> live s (pcb_userpt (the_pcb s' c)) \<and>
     \<not> live s (pcb_kstack (the_pcb s' c)) \<and> \<not> live s (pcb_a_children (the_pcb s' c))"

text \<open>
  What a successful fork has made of the state \<open>s\<close>: \<open>F\<close> and \<open>G\<close> are the frames of the child's
  pages and of its kernel stack.
\<close>

definition forked :: "hw \<Rightarrow> addr \<Rightarrow> addr \<Rightarrow> (int \<Rightarrow> int) \<Rightarrow> (int \<Rightarrow> int) \<Rightarrow> 'z sched_scheme \<Rightarrow> 'z sched_scheme \<Rightarrow> bool" where
  "forked hw parent c F G s s' \<longleftrightarrow>
     (let up = pcb_userpt (the_pcb s parent); V = mapped_pages hw up s; K = {0..<NUM_KSTACK_PAGES hw}; ch = the_pcb s' c in
      pcb_pid ch \<notin> set (pids s) \<and> pcb_parent ch = parent \<and> pcb_uc ch = pcb_uc (the_pcb s parent) \<and>
      pcb_kc ch = KC_Fork parent c \<and>
      inj_on F V \<and> inj_on G K \<and> F ` V \<inter> G ` K = {} \<and> F ` V \<union> G ` K \<subseteq> pool hw (free_frame s) \<and>
      pool hw (free_frame s') = pool hw (free_frame s) - (F ` V \<union> G ` K) \<and>
      upages hw (pcb_userpt ch) s' = (\<lambda>i. if i \<in> V then Some (F i, prot_of hw up s i) else None) \<and>
      (\<forall>i\<in>V. \<forall>j<PAGESIZE hw. pmem s' (F i) j = pmem s (frame_of hw up s i) j) \<and>
      kspages hw (pcb_kstack ch) s' = (\<lambda>i. if i \<in> K then Some (G i, PROT_RW hw) else None) \<and>
      (\<forall>i\<in>K. \<forall>j<PAGESIZE hw. pmem s' (G i) j = pmem s (stack_frame hw s i) j) \<and>
      (\<forall>f. f \<notin> F ` V \<union> G ` K \<longrightarrow> pmem s' f = pmem s f) \<and> upts s' up = upts s up \<and>
      the_pcb s' parent = the_pcb s parent \<and> procs s' = procs s)"

lemma fork_spec:
  fixes s :: "'z sched_scheme"
  assumes hw: "hw_ok hw" and heap: "heap_ok s" and inv: "sched_inv s Q B"
  defines "parent \<equiv> running (procs s)"
  defines "p \<equiv> the_pcb s parent"
  assumes A: "Q (pcb_a_children p) = Some as" "pcb_a_children p \<notin> B"
    and u: "u_inv hw (pcb_userpt p) s" and cur: "ptbr1 s = pcb_userpt p" and stack: "stack_mapped hw s"
    and room: "int (card (mapped_pages hw (ptbr1 s) s)) + NUM_KSTACK_PAGES hw \<le> frames_left (free_frame s)"
    and go: "no_kernel_memory hw (u_size (upts s (pcb_userpt p)) + 3) s = 0"
  shows "\<exists>c s' F G Q'. KernelFork hw s = Some (pcb_pid (the_pcb s' c), s') \<and> forked hw parent c F G s s' \<and>
    sched_inv s' Q' B \<and> Q' (ready_ll (procs s)) = Some (ready_of s Q @ [c]) \<and>
    (\<forall>l\<in>B. l \<noteq> ready_ll (procs s) \<longrightarrow> Q' l = Q l) \<and>
    (\<exists>n. Q' (pcb_a_children p) = Some (as @ [n])) \<and> enlarged hw s s' \<and> sched.more s' = sched.more s \<and> \<not> live s c \<and>
    child_ok s c s' \<and> same_breaks (upts s (ptbr1 s)) (upts s' (pcb_userpt (the_pcb s' c))) \<and>
    Q' (pcb_a_children (the_pcb s' c)) = Some [] \<and> (\<forall>l. l \<in> dom Q \<longrightarrow> l \<noteq> ready_ll (procs s) \<longrightarrow> l \<noteq> pcb_a_children p \<longrightarrow> Q' l = Q l)"
proof -
  define k where "k = brk_next s"
  define V where "V = mapped_pages hw (ptbr1 s) s"
  define Q1 where "Q1 = Q(k + 1 \<mapsto> [], k + 2 \<mapsto> [], pcb_a_children p \<mapsto> as @ [k + 6])"
  note I = sched_invD [OF inv]
  have par: "proc_ok s parent" using I(4) by (simp add: parent_def)
  have room1: "int (card (mapped_pages hw (ptbr1 s) s)) \<le> frames_left (free_frame s)"
    using room region_0(6) [OF hw] by linarith
  obtain s2 F where s2: "process_copy hw parent s = Some (k + 5, s2)" "procs s2 = procs s" "idle_node s2 = idle_node s"
    "\<forall>a. live s a \<longrightarrow> live s2 a" "\<forall>a<k. nd_data (nodes s2 a) = nd_data (nodes s a)" "sched_inv s2 Q1 B"
    "proc_ok s2 (k + 5)" "\<not> queued Q1 (k + 5)" "nd_data (nodes s2 (k + 5)) = k" "pcb_pid (pcbs s2 k) \<notin> set (pids s)"
    "pcb_parent (pcbs s2 k) = parent" "pcb_uc (pcbs s2 k) = pcb_uc p" "pcb_userpt (pcbs s2 k) = k + 3"
    "pcb_kstack (pcbs s2 k) = k + 4" "inj_on F V" "F ` V \<subseteq> pool hw (free_frame s)" "frames_ok hw (free_frame s2)"
    "ff_size (free_frame s2) = ff_size (free_frame s)" "pool hw (free_frame s2) = pool hw (free_frame s) - F ` V"
    "upages hw (k + 3) s2 = (\<lambda>i. if i \<in> V then Some (F i, prot_of hw (ptbr1 s) s i) else None)"
    "\<forall>i\<in>V. \<forall>j<PAGESIZE hw. pmem s2 (F i) j = pmem s (frame_of hw (ptbr1 s) s i) j"
    "\<forall>f. f \<notin> F ` V \<longrightarrow> pmem s2 f = pmem s f" "\<forall>a<k. upts s2 a = upts s a \<and> pcbs s2 a = pcbs s a"
    "kpages hw s2 = (kpages hw s)(dummy_index hw := None)" "ptbr1 s2 = ptbr1 s"
    "heap_ok s2" "kstacks s2 = kstacks s" "sched.more s2 = sched.more s" "\<forall>i. i \<noteq> dummy_index hw \<longrightarrow> k_pt (kernel_pt s2) i = k_pt (kernel_pt s) i"
    "pcb_a_children (pcbs s2 k) = k + 1" "same_breaks (upts s (ptbr1 s)) (upts s2 (k + 3))"
    using process_copy_spec [OF hw heap inv par A [unfolded p_def] u [unfolded p_def] cur [unfolded p_def] room1]
    unfolding k_def [symmetric] V_def [symmetric] p_def [symmetric] Q1_def [symmetric]
    by (elim exE conjE) (rule that; assumption)
  have below: "a < k" if "live s a" for a using live_below [OF heap that] by (simp add: k_def)
  have old: "k + 5 \<noteq> running (procs s2)" "k + 5 \<noteq> idle_node s2" "pcb_userpt p < k" "parent < k" "nd_data (nodes s parent) < k"
    using I(4,5) u below [of "running (procs s)"] below [of "idle_node s"] below [of "pcb_userpt p"] below [of "nd_data (nodes s parent)"]
    by (auto simp: proc_ok_def u_inv_def parent_def s2(2,3))
  obtain s3 where s3: "ready (k + 5) s2 = Some s3" "links_only s2 s3"
      "sched_inv s3 (Q1(ready_ll (procs s2) \<mapsto> ready_of s2 Q1 @ [k + 5])) B"
    using ready_ok [OF s2(6,7,8) old(1,2)] by blast
  define Q' where "Q' = Q1(ready_ll (procs s) \<mapsto> ready_of s Q1 @ [k + 5])"
  obtain N3 L3 where s3_eq: "s3 = s2\<lparr>nodes := N3, lls := L3\<rparr>" using s3(2) by (auto simp: links_only_def)
  have d3: "nd_data (N3 a) = nd_data (nodes s2 a)" for a using links_onlyD(4) [OF s3(2)] by (simp add: s3_eq)
  have "B \<subseteq> dom Q" using I(1) by (simp add: sched_mid_def)
  then have new: "k + 1 \<notin> B" "k + 2 \<notin> B" "l \<in> B \<Longrightarrow> l \<noteq> k + 1 \<and> l \<noteq> k + 2" "pcb_a_children p \<noteq> k + 1"
      "pcb_a_children p \<noteq> k + 2" for l
    using lists_ok_below [OF heap I(3)] A(1) unfolding k_def [symmetric] by fastforce+
  define K where "K = {0..<NUM_KSTACK_PAGES hw}"
  define g where "g = stack_frame hw s"
  have fr: "frames_ok hw (free_frame s)" using u by (simp add: u_inv_def sound_def)
  have s3f: "pcbs s3 = pcbs s2" "free_frame s3 = free_frame s2" "kernel_pt s3 = kernel_pt s2" "pmem s3 = pmem s2"
      "kstacks s3 = kstacks s2" "upts s3 = upts s2" "procs s3 = procs s2" "live s3 a = live s2 a" for a
    by (simp_all add: s3_eq)
  have m: "stack_mapped hw s3" and sf: "\<And>j. j \<in> K \<Longrightarrow> stack_frame hw s3 j = g j"
    using stack_mapped_cong [OF hw stack s2(24) used_pool [OF s2(18)]] s2(19)
    by (auto simp: stack_mapped_def stack_frame_def s3f K_def g_def)
  have l3: "live s3 k" "live s3 (pcb_kstack (pcbs s3 k))" using s2(7,9) by (simp_all add: proc_ok_def s3f)
  have fr3: "frames_ok hw (free_frame s3)" using s2(17) by (simp add: s3f)
  have room3: "NUM_KSTACK_PAGES hw \<le> frames_left (free_frame s3)"
    using frames_left_pool [OF fr s2(17,19,16,15)] room by (simp add: s3f V_def)
  obtain ff D M U G where s4: "KCCopy hw (KC_Fork parent (k + 5)) k s3 = Some (s3\<lparr>pcbs := (pcbs s2)(k := (pcbs s2 k)\<lparr>pcb_kc := KC_Fork parent (k + 5)\<rparr>),
        free_frame := ff, kernel_pt := (kernel_pt s2)\<lparr>k_pt := (k_pt (kernel_pt s2))(dummy_index hw := D)\<rparr>, pmem := M,
        kstacks := (kstacks s2)(k + 4 := U)\<rparr>)" (is "_ = Some ?s4")
    and G: "frames_ok hw ff" "inj_on G K" "G ` K \<subseteq> pool hw (free_frame s2)" "pool hw ff = pool hw (free_frame s2) - G ` K"
      "entries (NUM_KSTACK_PAGES hw) U = (\<lambda>j. if j \<in> K then Some (G j, PROT_RW hw) else None)"
      "\<forall>j\<in>K. \<forall>i<PAGESIZE hw. M (G j) i = pmem s2 (stack_frame hw s3 j) i" "\<forall>f. f \<notin> G ` K \<longrightarrow> M f = pmem s2 f"
      "ff_size ff = ff_size (free_frame s2)"
    using KCCopy_spec [OF hw fr3 l3 m room3, of "KC_Fork parent (k + 5)"]
    unfolding s3f K_def [symmetric] s2(14) by (elim exE conjE) (rule that; assumption)
  define s4 where "s4 = ?s4"
  have g: "g j \<notin> F ` V" if "j \<in> K" for j
    using stack s2(16) that by (auto simp: stack_mapped_def g_def K_def pool_def)
  have FG: "F ` V \<inter> G ` K = {}" using G(3) s2(19) by blast
  have d4: "nd_data (nodes s4 (k + 5)) = k" "nd_data (nodes s4 parent) = nd_data (nodes s parent)"
      "nd_data (nodes s parent) \<noteq> k" "running (procs s4) = parent" "live s4 (k + 5)" "live s4 k"
    using s2(5,9,7) old l3(1) s2(2) by (auto simp: s4_def s3_eq d3 parent_def proc_ok_def)
  have run: "KernelFork hw s = Some (pcb_pid (the_pcb s4 (k + 5)), s4)"
  proof -
    have "curr_pcb s = Some p" "rd_upt s (pcb_userpt p) = Some (upts s (pcb_userpt p))"
      using par u by (simp_all add: curr_pcb_def p_def u_inv_def rd_upt_def flip: parent_def)
    moreover have "copy_kernel hw (KC_Fork parent (k + 5)) (k + 5) s3 = Some s4"
    proof -
      have "rd_node s3 (k + 5) = Some (nodes s3 (k + 5))" "nd_data (nodes s3 (k + 5)) = k"
        using s2(7,9) by (simp_all add: s3_eq d3 proc_ok_def)
      then show ?thesis using s4 by (simp add: copy_kernel_def flip: s4_def)
    qed
    ultimately show ?thesis
      using go s2(1) s3(1) d4
      by (simp add: KernelFork_def Let_def fork_return_def get_pid_def pcb_of_def flip: parent_def)
  qed
  have sM: "M (F i) = pmem s2 (F i)" if "i \<in> V" for i using G(7) FG that by blast
  have fk: "forked hw parent (k + 5) F G s s4"
    unfolding forked_def Let_def
    apply (intro conjI)
    subgoal using s2(10) d4 by (simp add: s4_def)
    subgoal using s2(11) d4 by (simp add: s4_def)
    subgoal using s2(12) d4 by (simp add: s4_def p_def)
    subgoal using d4 by (simp add: s4_def)
    subgoal using s2(15) cur by (simp add: V_def p_def)
    subgoal using G(2) by (simp add: K_def)
    subgoal using FG cur by (simp add: K_def V_def p_def)
    subgoal using G(3) s2(16,19) cur by (auto simp: K_def V_def p_def)
    subgoal using G(4) s2(19) cur by (auto simp: K_def V_def p_def s4_def)
    subgoal using s2(13) s2(20) [unfolded cur V_def p_def] d4 by (simp add: upages_def s4_def s3f)
    subgoal using s2(21) sM cur by (simp add: V_def p_def s4_def)
    subgoal using s2(14) d4 G(5) by (simp add: kspages_def s4_def K_def)
    subgoal using G(6) sf g s2(22) by (simp add: s4_def K_def g_def)
    subgoal using G(7) s2(22) cur by (auto simp: K_def V_def p_def s4_def)
    subgoal using s2(23) old(3) by (simp add: s4_def s3f p_def)
    subgoal using s2(23) old(5) d4 by (simp add: s4_def)
    subgoal using s2(2) by (simp add: s4_def s3f)
    done
  have "extends s3 s4" by (simp add: extends_def s4_def s3f)
  then have "sched_inv s4 Q' B" using sched_inv_extends [OF s3(3)] by (simp add: Q'_def s2(2))
  moreover have "Q' (ready_ll (procs s)) = Some (ready_of s Q @ [k + 5])" "Q' (pcb_a_children p) = Some (as @ [k + 6])"
     "\<forall>l\<in>B. l \<noteq> ready_ll (procs s) \<longrightarrow> Q' l = Q l"
    using A(2) new sched_midD(5) [OF I(1)] by (auto simp: Q'_def Q1_def)
  moreover have "enlarged hw s s4"
  proof -
    have "heap_ok s3" by (rule heap_ok_links [OF s3(2) s2(26)])
    then have "heap_ok s4" by (simp add: heap_ok_def s4_def)
    moreover have "live s4 a \<and> nd_data (nodes s4 a) = nd_data (nodes s a) \<and> pcbs s4 a = pcbs s a \<and> upts s4 a = upts s a \<and> kstacks s4 a = kstacks s a"
      if a: "live s a" for a
      using below [OF a] s2(4,5,23,27) a by (auto simp: s4_def s3_eq d3 live_def)
    moreover have "k_pt (kernel_pt s4) (ks_index hw j) = k_pt (kernel_pt s) (ks_index hw j)" if "0 \<le> j" "j < NUM_KSTACK_PAGES hw" for j
      using s2(29) ks_index(3) [OF hw that] by (simp add: s4_def s3f)
    moreover have "pmem s4 f = pmem s f" if f: "f \<in> used hw (free_frame s)" for f
    proof -
      have "f \<notin> pool hw (free_frame s)" using f by (simp add: pool_def)
      then have "f \<notin> F ` V" "f \<notin> G ` K" using s2(16,19) G(3) by auto
      then show ?thesis using G(7) s2(22) by (simp add: s4_def)
    qed
    ultimately show ?thesis
      using G(1,4,8) s2(2,3,18,19,25) by (auto simp: enlarged_def s4_def s3_eq)
  qed
  moreover have "sched.more s4 = sched.more s" using s2(28) by (simp add: s4_def s3_eq)
  moreover have nl: "\<not> live s (k + i)" for i using below [of "k + i"] by auto
  moreover have "child_ok s (k + 5) s4"
  proof -
    have "proc_ok s4 (k + 5)" using s2(7,13,14) d4 by (simp add: proc_ok_def s4_def s3_eq d3 live_def)
    then show ?thesis using nl [of 0] nl [of 1] nl [of 3] nl [of 4] d4(1) s2(13,14,30) by (simp add: child_ok_def s4_def)
  qed
  moreover have "same_breaks (upts s (ptbr1 s)) (upts s4 (pcb_userpt (the_pcb s4 (k + 5))))"
    using s2(13,31) d4(1) by (simp add: s4_def s3f)
  moreover have "Q' (pcb_a_children (the_pcb s4 (k + 5))) = Some []"
    using s2(30) d4(1) new sched_midD(5) [OF I(1)] by (auto simp: s4_def Q'_def Q1_def)
  moreover have "\<forall>l. l \<in> dom Q \<longrightarrow> l \<noteq> ready_ll (procs s) \<longrightarrow> l \<noteq> pcb_a_children p \<longrightarrow> Q' l = Q l"
    using lists_ok_below [OF heap I(3)] unfolding k_def [symmetric] by (fastforce simp: Q'_def Q1_def)
  ultimately show ?thesis using run fk nl [of 5]
    by (intro exI [of _ "k + 5"] exI [of _ s4]) (rule exI [of _ F], rule exI [of _ G], rule exI [of _ Q'], simp)
qed


lemma demo_stack: "stack_mapped demo demo_kernel"
proof -
  have "stack_frame demo demo_kernel j \<in> used demo demo_ff \<and> pte_valid (k_pt (kernel_pt demo_kernel) (ks_index demo j)) \<noteq> 0"
    if "0 \<le> j" "j < 2" for j
    using that by (cases "j = 0") (auto simp: stack_frame_def ks_index_def demo_kernel_def entry_def demo_used)
  then show ?thesis by (simp add: stack_mapped_def)
qed


end
