(* ===== verification/Scheduler_Runs.thy ===== *)
theory Scheduler_Runs
  imports Fork_Spec
begin

text \<open>
  The scheduler over many calls: every call returns, and no process is lost or duplicated.
\<close>

section \<open>The processes a scheduler has\<close>

definition members :: "(addr \<rightharpoonup> addr list) \<Rightarrow> addr set \<Rightarrow> addr set" where
  "members Q B = (\<Union>l\<in>B. set (the (Q l)))"

definition processes :: "'z sched_scheme \<Rightarrow> (addr \<rightharpoonup> addr list) \<Rightarrow> addr set \<Rightarrow> addr set" where
  "processes s Q B = members Q B \<union> ({running (procs s)} - {idle_node s})"

lemma members_grow:
  "l \<in> B \<Longrightarrow> set xs = insert n (set (the (Q l))) \<Longrightarrow> members (Q(l \<mapsto> xs)) B = insert n (members Q B)"
  by (auto simp: members_def split: if_splits)

lemma members_move:
  "\<lbrakk>l \<in> B; r \<in> B; l \<noteq> r; set (the (Q l)) = set xs \<union> set ys; set zs = set (the (Q r)) \<union> set ys\<rbrakk> \<Longrightarrow>
   members (Q(l \<mapsto> xs, r \<mapsto> zs)) B = members Q B"
  by (fastforce simp: members_def split: if_splits)

text \<open>A process keeps its blocks.\<close>

definition same_procs :: "'z sched_scheme \<Rightarrow> 'z sched_scheme \<Rightarrow> bool" where
  "same_procs s s' \<longleftrightarrow> idle_node s' = idle_node s \<and> (\<forall>a. nd_data (nodes s' a) = nd_data (nodes s a)) \<and>
     (\<forall>a. pcb_kstack (pcbs s' a) = pcb_kstack (pcbs s a) \<and> pcb_userpt (pcbs s' a) = pcb_userpt (pcbs s a))"

lemma same_procs_refl: "same_procs s s"
  by (simp add: same_procs_def)

lemma same_procs_trans: "same_procs s s' \<Longrightarrow> same_procs s' s'' \<Longrightarrow> same_procs s s''"
  by (simp add: same_procs_def)

lemma same_procs_frame: "sched_frame hw s s' \<Longrightarrow> same_procs s s'"
  using sched_frame_pcb [of hw s s'] sched_frameD [of hw s s'] by (simp add: same_procs_def)

lemma same_procs_relabel [simp]: "same_procs (relabel f s) s' = same_procs s s'"
  by (simp add: same_procs_def)

text \<open>A call keeps the invariant, the processes, the other lists and the blocks of processes.\<close>

definition conserves :: "addr set \<Rightarrow> (addr \<rightharpoonup> addr list) \<Rightarrow> 'z sched_scheme \<Rightarrow> 'z sched_scheme \<Rightarrow> bool" where
  "conserves B Q s s' \<longleftrightarrow> (\<exists>Q'. sched_inv s' Q' B \<and> processes s' Q' B = processes s Q B \<and>
     (\<forall>l. l \<notin> B \<longrightarrow> Q' l = Q l) \<and> same_procs s s')"

lemma conserves_refl: "sched_inv s Q B \<Longrightarrow> conserves B Q s s"
  using same_procs_refl by (auto simp: conserves_def)

lemma conserves_trans:
  assumes "conserves B Q s s'" and "\<And>Q'. sched_inv s' Q' B \<Longrightarrow> conserves B Q' s' s''"
  shows "conserves B Q s s''"
proof -
  obtain Q' where Q': "sched_inv s' Q' B" "processes s' Q' B = processes s Q B" "\<forall>l. l \<notin> B \<longrightarrow> Q' l = Q l" "same_procs s s'"
    using assms(1) by (auto simp: conserves_def)
  from assms(2) [OF Q'(1)] obtain Q'' where "sched_inv s'' Q'' B" "processes s'' Q'' B = processes s' Q' B"
      "\<forall>l. l \<notin> B \<longrightarrow> Q'' l = Q' l" "same_procs s' s''"
    by (auto simp: conserves_def)
  with Q' same_procs_trans show ?thesis unfolding conserves_def by metis
qed

lemma conserves_links:
  assumes "links_only s s'" and "sched_inv s' Q' B" and "members Q' B = members Q B" and "\<And>l. l \<notin> B \<Longrightarrow> Q' l = Q l"
  shows "conserves B Q s s'"
  using assms(2-4) same_procs_frame [OF links_sched_frame(1) [OF assms(1)]] links_sched_frame(2) [OF assms(1)] sched_frameD(8) [OF links_sched_frame(1) [OF assms(1)]]
  by (auto simp: conserves_def processes_def)

lemma conserves_moved:
  assumes "links_only s s'" and "sched_inv s' (Q(l \<mapsto> xs, r \<mapsto> ys)) B" and "members (Q(l \<mapsto> xs, r \<mapsto> ys)) B = members Q B"
    and "l \<in> B" "r \<in> B"
  shows "conserves B Q s s'"
  using assms(4,5) by (intro conserves_links [OF assms(1-3)]) auto

lemma conserves_dispatch:
  assumes sw: "switched hw kc s s' (next_up s Q')" and inv: "sched_inv s' (dispatch (ready_ll (procs s)) Q') B"
    and r: "ready_ll (procs s) \<in> B" and Q': "Q' (ready_ll (procs s)) \<noteq> None" and idle: "\<not> queued Q' (idle_node s)"
    and m: "members Q' B = processes s Q B" and o: "\<And>l. l \<notin> B \<Longrightarrow> Q' l = Q l"
  shows "conserves B Q s s'"
proof -
  let ?r = "ready_ll (procs s)"
  have f: "running (procs s') = next_up s Q'" "idle_node s' = idle_node s"
    using sw sched_frameD(8) [of hw s s'] by (simp_all add: switched_def)
  obtain xs where xs: "Q' ?r = Some xs" using Q' by blast
  have "members (dispatch ?r Q') B \<union> ({running (procs s')} - {idle_node s'}) = members Q' B"
  proof (cases xs)
    case Nil
    then have "dispatch ?r Q' = Q'" using xs by (auto simp: dispatch_def)
    with Nil show ?thesis by (simp add: f next_up_def xs)
  next
    case (Cons n R)
    then have "n \<noteq> idle_node s" using not_queuedD [OF idle xs] by auto
    moreover have "members ((dispatch ?r Q')(?r \<mapsto> n # R)) B = insert n (members (dispatch ?r Q') B)"
      by (rule members_grow [OF r]) (simp add: dispatch_def xs Cons)
    moreover have "(dispatch ?r Q')(?r \<mapsto> n # R) = Q'" using xs Cons by (auto simp: dispatch_def)
    ultimately show ?thesis by (simp add: f next_up_def xs Cons)
  qed
  moreover have "dispatch ?r Q' l = Q l" if "l \<notin> B" for l using o [OF that] that r by (auto simp: dispatch_def)
  moreover have "same_procs s s'" using sw same_procs_frame by (auto simp: switched_def)
  ultimately show ?thesis using inv m unfolding conserves_def processes_def by blast
qed

section \<open>Each call\<close>

lemma put_conserves:
  assumes inv: "sched_inv s Q B" and "l \<in> B" and "running (procs s) \<noteq> idle_node s"
    and xs: "set xs = insert (running (procs s)) (set (the (Q l)))"
    and s': "switched hw kc s s' (next_up s (Q(l \<mapsto> xs)))" "sched_inv s' (dispatch (ready_ll (procs s)) (Q(l \<mapsto> xs))) B"
  shows "conserves B Q s s'"
proof (rule conserves_dispatch [OF s'])
  note M = sched_midD [OF sched_invD(1) [OF inv]]
  show "ready_ll (procs s) \<in> B" by (rule M(5))
  show "(Q(l \<mapsto> xs)) (ready_ll (procs s)) \<noteq> None" using M(9) by (auto simp del: not_None_eq)
  show "members (Q(l \<mapsto> xs)) B = processes s Q B"
    using members_grow [OF assms(2), of xs "running (procs s)" Q] xs assms(3) by (simp add: processes_def)
  have "idle_node s \<notin> set xs" using xs assms(3) not_queuedD [OF M(4) M(10) [OF assms(2)]] by auto
  then show "\<not> queued (Q(l \<mapsto> xs)) (idle_node s)" by (rule not_queued_sub [OF M(4)])
qed (use assms(2) in auto)

lemma block_conserves:
  assumes "hw_ok hw" and "sched_inv s Q B" and "l \<in> B" and "running (procs s) \<noteq> idle_node s"
  shows "\<exists>s'. block hw kc l s = Some s' \<and> conserves B Q s s'"
    and "\<exists>s'. h_block hw kc l s = Some s' \<and> conserves B Q s s'"
  using block_ok [OF assms, of kc] h_block_ok [OF assms, of kc] put_conserves [OF assms(2-4)]
  by (metis list.set(2) set_append empty_set Un_insert_right sup_bot_right)+

lemma preempt_conserves:
  assumes hw: "hw_ok hw" and inv: "sched_inv s Q B"
  shows "\<exists>res s'. rr_preempt hw kc s = Some (res, s') \<and> conserves B Q s s'"
proof (cases "ready_of s Q")
  case Nil
  then show ?thesis using rr_preempt_ok(1) [OF assms] conserves_refl [OF inv] by auto
next
  case (Cons n R)
  note M = sched_midD [OF sched_invD(1) [OF inv]]
  let ?Q = "if running (procs s) = idle_node s then Q else Q(ready_ll (procs s) \<mapsto> ready_of s Q @ [running (procs s)])"
  obtain s' where s': "rr_preempt hw kc s = Some (Switched, s')" "switched hw kc s s' n"
      "sched_inv s' (dispatch (ready_ll (procs s)) ?Q) B"
    using rr_preempt_ok(2) [OF assms Cons] by blast
  have sw: "switched hw kc s s' (next_up s ?Q)" using s'(2) Cons by (simp add: next_up_def)
  have "conserves B Q s s'"
  proof (cases "running (procs s) = idle_node s")
    case True
    then show ?thesis using conserves_dispatch [OF sw s'(3) M(5)] M(4,9)
      by (auto simp: processes_def simp del: not_None_eq)
  next
    case False
    then show ?thesis using put_conserves [OF inv M(5) False, of "ready_of s Q @ [running (procs s)]"] sw s'(3) by simp
  qed
  with s'(1) show ?thesis by blast
qed

lemma wake_conserves:
  assumes inv: "sched_inv s Q B" and "l \<in> B" and "l \<noteq> ready_ll (procs s)"
  shows "\<exists>s'. unblock_head l s = Some s' \<and> conserves B Q s s'"
    and "\<exists>s'. unblock_all l s = Some s' \<and> conserves B Q s s'"
proof -
  note M = sched_midD [OF sched_invD(1) [OF inv]]
  note Ql = M(10) [OF assms(2)]
  show "\<exists>s'. unblock_head l s = Some s' \<and> conserves B Q s s'"
  proof (cases "the (Q l)")
    case Nil
    then have "unblock_head l s = Some s"
      using Ql ll_atD(1,8) [OF lists_okD [OF M(1) Ql]] unblock_none [OF M(1)] by (simp add: unblock_head_def)
    with conserves_refl [OF inv] show ?thesis by blast
  next
    case (Cons n ys)
    then have "members (Q(l \<mapsto> ys, ready_ll (procs s) \<mapsto> ready_of s Q @ [n])) B = members Q B"
      by (intro members_move [OF assms(2) M(5) assms(3), where ys = "[n]"]) auto
    with unblock_head_ok [OF assms, of n ys] Ql Cons assms(2) M(5) show ?thesis by (auto intro: conserves_moved)
  qed
  have "members (Q(l \<mapsto> [], ready_ll (procs s) \<mapsto> ready_of s Q @ the (Q l))) B = members Q B"
    by (intro members_move [OF assms(2) M(5) assms(3), where ys = "the (Q l)"]) auto
  with unblock_all_ok [OF assms Ql] assms(2) M(5) show "\<exists>s'. unblock_all l s = Some s' \<and> conserves B Q s s'"
    by (auto intro: conserves_moved)
qed

lemma check_wait_conserves:
  assumes inv: "sched_inv s Q B" and "parent \<noteq> NULL"
  shows "\<exists>s'. check_wait parent s = Some s' \<and> conserves B Q s s'"
proof (cases "parent \<in> set (the (Q (waiting_ll (procs s))))")
  case True
  note M = sched_midD [OF sched_invD(1) [OF inv]]
  obtain xs ys where q: "the (Q (waiting_ll (procs s))) = xs @ parent # ys" using True by (meson split_list)
  then have "members (Q(waiting_ll (procs s) \<mapsto> xs @ ys, ready_ll (procs s) \<mapsto> ready_of s Q @ [parent])) B = members Q B"
    by (intro members_move [OF M(6,5) M(12) [symmetric], where ys = "[parent]"]) auto
  with check_wait_ok [OF assms, of xs ys] M(5,6) M(10) [OF M(6)] q show ?thesis by (auto intro: conserves_moved)
qed (use check_wait_mid(1) [OF sched_invD(1) [OF inv] assms(2)] conserves_refl [OF inv] in auto)

text \<open>A tick changes the labels of the sleeping processes and wakes at most one.\<close>

lemma processes_relabel [simp]: "processes (relabel f s) Q B = processes s Q B"
  by (simp add: processes_def)

lemma conserves_relabel: "conserves B Q (relabel f s) s' = conserves B Q s s'"
  by (simp add: conserves_def)

lemma check_delay_woken:
  assumes inv: "sched_inv s Q B"
  shows "\<exists>f s' Q' w. check_delay s = Some s' \<and> links_only (relabel f s) s' \<and> sched_inv s' Q' B \<and>
    members Q' B = members Q B \<and> Q' (ready_ll (procs s)) = Some (ready_of s Q @ w) \<and> (\<forall>l. l \<notin> B \<longrightarrow> Q' l = Q l)"
proof -
  note M = sched_midD [OF sched_invD(1) [OF inv]]
  define xs where "xs = the (Q (delayed_ll (procs s)))"
  have D: "Q (delayed_ll (procs s)) = Some xs" using M(10) [OF M(7)] by (simp add: xs_def)
  define ys where "ys = passed s xs"
  have xs: "xs = ys @ drop (length ys) xs" by (simp add: ys_def passed_def flip: dropWhile_eq_drop)
  show ?thesis
  proof (cases "drop (length ys) xs")
    case Nil
    with xs have "passed s xs = xs" by (simp add: ys_def)
    then have "check_delay s = Some (relabel (tick_codes s (set xs)) s)" by (rule check_delay_ok(1) [OF inv D])
    with inv M(9) show ?thesis
      by (intro exI [of _ "tick_codes s (set xs)"] exI [of _ "relabel (tick_codes s (set xs)) s"] exI [of _ Q] exI [of _ "[]"]) simp
  next
    case (Cons n zs)
    with xs have e: "xs = ys @ n # zs" by simp
    let ?Q = "Q(delayed_ll (procs s) \<mapsto> ys @ zs, ready_ll (procs s) \<mapsto> ready_of s Q @ [n])"
    obtain s' where s': "check_delay s = Some s'" "links_only (relabel (tick_codes s (set (ys @ [n]))) s) s'" "sched_inv s' ?Q B"
      using check_delay_ok(2) [OF inv D e ys_def [symmetric]] by blast
    have "members ?Q B = members Q B"
      using e D by (intro members_move [OF M(7,5) M(13) [symmetric], where ys = "[n]"]) auto
    with s' M(5,7) show ?thesis
      by (intro exI [of _ "tick_codes s (set (ys @ [n]))"] exI [of _ s'] exI [of _ ?Q] exI [of _ "[n]"]) simp
  qed
qed

lemma check_delay_conserves:
  assumes inv: "sched_inv s Q B"
  shows "\<exists>s'. check_delay s = Some s' \<and> conserves B Q s s'"
  using check_delay_woken [OF assms] by (metis conserves_links conserves_relabel)

lemma block_delay_conserves:
  assumes "hw_ok hw" and inv: "sched_inv s Q B" and run: "running (procs s) \<noteq> idle_node s"
  shows "\<exists>s'. block_delay hw kc t s = Some s' \<and> conserves B Q s s'"
proof -
  let ?s = "relabel ((code_in s)(running (procs s) := t)) s"
  note M = sched_midD [OF sched_invD(1) [OF inv]]
  have "block_delay hw kc t s = block hw kc (delayed_ll (procs s)) ?s"
    using proc_okD(1) [OF M(2)] by (simp add: block_delay_def upd_code)
  with block_conserves(1) [OF assms(1), of ?s Q B "delayed_ll (procs s)"] inv run M(7) show ?thesis
    by (simp add: conserves_relabel)
qed

section \<open>Any sequence of calls\<close>

text \<open>
  The calls other components make of the scheduler.  The lists \<open>B\<close> are those of the kernel and
  of its objects that hold processes; nobody wakes the ready queue, and the idle process, which
  makes no system call, does not block.
\<close>

inductive sched_call :: "hw \<Rightarrow> addr set \<Rightarrow> 'z sched_scheme \<Rightarrow> 'z sched_scheme option \<Rightarrow> bool" for hw B where
  preempted: "sched_call hw B s (map_option snd (rr_preempt hw kc s))"
| ticked: "sched_call hw B s (check_delay s)"
| blocked: "l \<in> B \<Longrightarrow> running (procs s) \<noteq> idle_node s \<Longrightarrow> sched_call hw B s (block hw kc l s)"
| h_blocked: "l \<in> B \<Longrightarrow> running (procs s) \<noteq> idle_node s \<Longrightarrow> sched_call hw B s (h_block hw kc l s)"
| waits: "running (procs s) \<noteq> idle_node s \<Longrightarrow> sched_call hw B s (block_wait hw kc s)"
| delayed: "running (procs s) \<noteq> idle_node s \<Longrightarrow> sched_call hw B s (block_delay hw kc t s)"
| woken: "l \<in> B \<Longrightarrow> l \<noteq> ready_ll (procs s) \<Longrightarrow> sched_call hw B s (unblock_head l s)"
| all_woken: "l \<in> B \<Longrightarrow> l \<noteq> ready_ll (procs s) \<Longrightarrow> sched_call hw B s (unblock_all l s)"
| checked: "parent \<noteq> NULL \<Longrightarrow> sched_call hw B s (check_wait parent s)"

lemma sched_call_returns:
  assumes "sched_call hw B s res" and hw: "hw_ok hw" and inv: "sched_inv s Q B"
  shows "\<exists>s'. res = Some s' \<and> conserves B Q s s'"
  using assms(1)
proof cases
  case (preempted kc)
  then show ?thesis using preempt_conserves [OF hw inv, of kc] by auto
next
  case (waits kc)
  then show ?thesis
    using block_conserves(1) [OF hw inv sched_midD(6) [OF sched_invD(1) [OF inv]]] by (simp add: block_wait_def)
qed (use block_conserves [OF hw inv] check_delay_conserves [OF inv] block_delay_conserves [OF hw inv]
    wake_conserves [OF inv] check_wait_conserves [OF inv] in simp_all)

inductive sched_runs :: "hw \<Rightarrow> addr set \<Rightarrow> 'z sched_scheme \<Rightarrow> 'z sched_scheme \<Rightarrow> bool" for hw B where
  start: "sched_runs hw B s s"
| call: "sched_runs hw B s s' \<Longrightarrow> sched_call hw B s' (Some s'') \<Longrightarrow> sched_runs hw B s s''"

lemma sched_runs_conserves:
  assumes "sched_runs hw B s s'" and "hw_ok hw" and "sched_inv s Q B"
  shows "conserves B Q s s'"
  using assms
proof induction
  case (call s s' s'')
  have "conserves B Q' s' s''" if "sched_inv s' Q' B" for Q' using sched_call_returns [OF call(2) call(4) that] by simp
  with conserves_trans call show ?case by blast
qed (rule conserves_refl)

text \<open>
  C14: No process is lost.  After any sequence of calls of the scheduler its lists are sound, hold
  every process at most once, and the processes on them together with the one that runs are
  those of the start; and every call returns.
\<close>

theorem no_process_lost:
  assumes "hw_ok hw" and "sched_inv s Q B" and "sched_runs hw B s s'"
  shows "(\<exists>Q'. sched_inv s' Q' B \<and> processes s' Q' B = processes s Q B) \<and>
    (\<forall>res. sched_call hw B s' res \<longrightarrow> res \<noteq> None)"
proof -
  have c: "conserves B Q s s'" by (rule sched_runs_conserves [OF assms(3,1,2)])
  moreover have "res \<noteq> None" if "sched_call hw B s' res" for res
    using sched_call_returns [OF that assms(1)] c by (fastforce simp: conserves_def)
  ultimately show ?thesis unfolding conserves_def by blast
qed

theorem no_process_lost_witness:
  "\<exists>s1 s2 Q'. block_delay demo KC_Delay 7 demo_kernel = Some s1 \<and> check_delay s1 = Some s2 \<and> sched_inv s2 Q' demo_B \<and>
    processes s2 Q' demo_B = {10, 11, 13, 14, 15, 16}"
proof -
  have r0: "sched_runs demo demo_B demo_kernel demo_kernel" by (rule start)
  have "sched_call demo demo_B demo_kernel (block_delay demo KC_Delay 7 demo_kernel)" by (rule delayed) simp
  then obtain s1 where s1: "block_delay demo KC_Delay 7 demo_kernel = Some s1" "sched_runs demo demo_B demo_kernel s1"
    using no_process_lost [OF demo_ok demo_inv r0] call [OF r0] by (metis not_None_eq)
  then obtain s2 where s2: "check_delay s1 = Some s2" "sched_runs demo demo_B demo_kernel s2"
    using no_process_lost [OF demo_ok demo_inv s1(2)] call [OF s1(2)] ticked by (metis not_None_eq)
  have "processes demo_kernel demo_Q demo_B = {10, 11, 13, 14, 15, 16}"
    by (auto simp: processes_def members_def demo_lists_def)
  with s1 s2 no_process_lost [OF demo_ok demo_inv s2(2)] show ?thesis by auto
qed

end
