(* ===== verification/Clock_Spec.thy ===== *)
theory Clock_Spec
  imports Scheduler_Runs
begin

text \<open>
  The clock trap: the switch it makes, the way back to user mode, and what follows for a process
  that is interrupted and for one that is ready.
\<close>

section \<open>The clock\<close>

lemma links_pcbs: "links_only (relabel f s) s' \<Longrightarrow> pcbs s' = pcbs s"
proof -
  assume "links_only (relabel f s) s'"
  then obtain N L where "s' = (relabel f s)\<lparr>nodes := N, lls := L\<rparr>" by (auto simp: links_only_def)
  then show ?thesis by simp
qed

lemma trap_clock_next:
  assumes hw: "hw_ok hw" and inv: "sched_inv s Q B" and R: "ready_of s Q = n # R"
  shows "\<exists>s' Q' w. TrapClock hw uc s = Some (Switched, s') \<and> running (procs s') = n \<and> sched_inv s' Q' B \<and>
    ready_ll (procs s') = ready_ll (procs s) \<and> ready_of s' Q' = R @ w \<and> idle_node s' = idle_node s \<and>
    (\<forall>a. nd_data (nodes s' a) = nd_data (nodes s a)) \<and>
    pcbs s' = (pcbs s)(nd_data (nodes s (running (procs s))) :=
      (the_pcb s (running (procs s)))\<lparr>pcb_uc := uc, pcb_kc := KC_Clock\<rparr>)"
proof -
  let ?p = "nd_data (nodes s (running (procs s)))"
  note I = sched_invD [OF inv]
  define s1 where "s1 = s\<lparr>pcbs := (pcbs s)(?p := (pcbs s ?p)\<lparr>pcb_uc := uc\<rparr>)\<rparr>"
  have save: "save_uc uc s = Some s1" using I(4) by (simp add: save_uc_def proc_ok_def s1_def)
  have inv1: "sched_inv s1 Q B" by (rule sched_inv_extends [OF inv]) (simp add: extends_def s1_def)
  obtain f s2 Q2 w where s2: "check_delay s1 = Some s2" "links_only (relabel f s1) s2" "sched_inv s2 Q2 B"
      "Q2 (ready_ll (procs s1)) = Some (ready_of s1 Q @ w)"
    using check_delay_woken [OF inv1] by blast
  note F = links_sched_frame [OF s2(2)]
  have f2: "procs s2 = procs s" "pcbs s2 = pcbs s1" "idle_node s2 = idle_node s" "nd_data (nodes s2 a) = nd_data (nodes s a)" for a
    using F(2) sched_frameD(2,8) [OF F(1)] links_pcbs [OF s2(2)] by (simp_all add: s1_def)
  have R2: "ready_of s2 Q2 = n # R @ w" using s2(4) R by (simp add: f2 s1_def)
  obtain s3 where s3: "rr_preempt hw KC_Clock s2 = Some (Switched, s3)" "switched hw KC_Clock s2 s3 n"
      "sched_inv s3 (dispatch (ready_ll (procs s2)) (if running (procs s2) = idle_node s2 then Q2
        else Q2(ready_ll (procs s2) \<mapsto> ready_of s2 Q2 @ [running (procs s2)]))) B" (is "sched_inv s3 ?Q B")
    using rr_preempt_ok(2) [OF hw s2(3) R2] by blast
  have fr: "sched_frame hw s2 s3" "running (procs s3) = n" using s3(2) by (simp_all add: switched_def)
  have "TrapClock hw uc s = Some (Switched, s3)" using save s2(1) s3(1) by (simp add: TrapClock_def)
  moreover have "ready_of s3 ?Q = R @ (w @ (if running (procs s2) = idle_node s2 then [] else [running (procs s2)]))"
    using R2 by (simp add: sched_frameD(4) [OF fr(1)] dispatch_def)
  moreover have "pcbs s3 = (pcbs s)(?p := (pcbs s ?p)\<lparr>pcb_uc := uc, pcb_kc := KC_Clock\<rparr>)"
    using s3(2) by (simp add: switched_def f2) (simp add: s1_def)
  ultimately show ?thesis
    by (intro exI [of _ s3] exI [of _ ?Q] exI [of _ "w @ (if running (procs s2) = idle_node s2 then [] else [running (procs s2)])"])
      (use s3(3) fr(2) in \<open>simp add: sched_frameD(2,4,8) [OF fr(1)] f2\<close>)
qed


text \<open>
  User code runs with registers \<open>u\<close> until the clock interrupts it; after a switch the next
  process is resumed in the kernel.
\<close>

fun clock_run :: "hw \<Rightarrow> user_context list \<Rightarrow> 'z kernel_scheme \<Rightarrow> 'z kernel_scheme option" where
  "clock_run hw [] s = Some s"
| "clock_run hw (u # us) s = do {
     (res, s) \<leftarrow> TrapClock hw u s;
     (_, s) \<leftarrow> (if res = Switched then resume hw s else Some (res, s));
     clock_run hw us s
   }"

text \<open>The contexts from which a process goes straight back to user mode.\<close>

fun to_user :: "addr \<Rightarrow> kernel_context \<Rightarrow> bool" where
  "to_user n KC_Clock = True"
| "to_user n KC_Start = True"
| "to_user n KC_Delay = True"
| "to_user n (KC_Fork parent child_node) = (n \<noteq> parent)"
| "to_user n _ = False"

lemma resume_to_user:
  assumes "proc_ok s (running (procs s))" and "to_user (running (procs s)) (pcb_kc (the_pcb s (running (procs s))))"
  defines "p \<equiv> nd_data (nodes s (running (procs s)))"
  shows "\<exists>u. resume hw s = Some (Ret u, s\<lparr>pcbs := (pcbs s)(p := (pcbs s p)\<lparr>pcb_uc := u\<rparr>)\<rparr>) \<and>
    u = (case pcb_kc (pcbs s p) of KC_Fork _ _ \<Rightarrow> set_reg0 0 (pcb_uc (pcbs s p))
      | KC_Delay \<Rightarrow> set_reg0 0 (pcb_uc (pcbs s p)) | _ \<Rightarrow> pcb_uc (pcbs s p))"
proof -
  have same: "s\<lparr>pcbs := (pcbs s)(p := (pcbs s p)\<lparr>pcb_uc := pcb_uc (pcbs s p)\<rparr>)\<rparr> = s" by simp
  have ok: "live s (running (procs s))" "live s p" using assms(1) by (simp_all add: proc_ok_def p_def)
  then have lw: "leave_with r s = Some (Ret (set_reg0 r (pcb_uc (pcbs s p))),
      s\<lparr>pcbs := (pcbs s)(p := (pcbs s p)\<lparr>pcb_uc := set_reg0 r (pcb_uc (pcbs s p))\<rparr>)\<rparr>)" for r
    by (simp add: leave_with_def leave_def add_return_val_def restore_uc_def pcb_of_def p_def)
  have pc: "curr_pcb s = Some (pcbs s p)" "leave s = Some (Ret (pcb_uc (pcbs s p)), s)"
    using ok by (simp_all add: curr_pcb_def leave_def restore_uc_def pcb_of_def p_def)
  have kc: "to_user (running (procs s)) (pcb_kc (pcbs s p))" using assms(2) by (simp add: p_def)
  have cl: "resume hw s = Some (Ret (pcb_uc (pcbs s p)), s\<lparr>pcbs := (pcbs s)(p := (pcbs s p)\<lparr>pcb_uc := pcb_uc (pcbs s p)\<rparr>)\<rparr>)"
    if "pcb_kc (pcbs s p) \<in> {KC_Clock, KC_Start}"
    using that pc unfolding same by (auto simp: resume_def)
  show ?thesis
  proof (cases "pcb_kc (pcbs s p)")
    case (KC_Fork parent c)
    with kc lw [of 0] pc show ?thesis by (simp add: resume_def fork_return_def)
  next
    case KC_Delay
    with lw [of 0] pc show ?thesis by (simp add: resume_def)
  next
    case KC_Clock
    with cl show ?thesis by (intro exI [of _ "pcb_uc (pcbs s p)"]) simp
  next
    case KC_Start
    with cl show ?thesis by (intro exI [of _ "pcb_uc (pcbs s p)"]) simp
  qed (use kc in simp_all)
qed

text \<open>With nothing to return the user context and the state are as they were.\<close>

lemma resume_clock:
  assumes "proc_ok s (running (procs s))" and "pcb_kc (the_pcb s (running (procs s))) = KC_Clock"
  shows "resume hw s = Some (Ret (pcb_uc (the_pcb s (running (procs s)))), s)"
  using assms by (simp add: resume_def curr_pcb_def leave_def restore_uc_def)

lemma clock_run_next:
  fixes s :: "'z kernel_scheme"
  assumes hw: "hw_ok hw" and inv: "sched_inv s Q B" and R: "ready_of s Q = n # R" and kc: "to_user n (pcb_kc (the_pcb s n))"
  shows "\<exists>s' Q' w. clock_run hw (u # us) s = clock_run hw us s' \<and> running (procs s') = n \<and> sched_inv s' Q' B \<and>
    ready_of s' Q' = R @ w \<and> (\<forall>m. to_user m (pcb_kc (the_pcb s m)) \<longrightarrow> to_user m (pcb_kc (the_pcb s' m)))"
proof -
  obtain s1 Q1 w where s1: "TrapClock hw u s = Some (Switched, s1)" "running (procs s1) = n" "sched_inv s1 Q1 B"
      "ready_of s1 Q1 = R @ w" "\<forall>a. nd_data (nodes s1 a) = nd_data (nodes s a)"
      "pcbs s1 = (pcbs s)(nd_data (nodes s (running (procs s))) :=
        (the_pcb s (running (procs s)))\<lparr>pcb_uc := u, pcb_kc := KC_Clock\<rparr>)"
    using trap_clock_next [OF hw inv R, of u] by blast
  have kc1: "to_user m (pcb_kc (the_pcb s1 m))" if "to_user m (pcb_kc (the_pcb s m))" for m
    using that s1(5,6) by simp
  define p where "p = nd_data (nodes s1 n)"
  obtain v where v: "resume hw s1 = Some (Ret v, s1\<lparr>pcbs := (pcbs s1)(p := (pcbs s1 p)\<lparr>pcb_uc := v\<rparr>)\<rparr>)" (is "_ = Some (_, ?s2)")
    using resume_to_user [of s1 hw] sched_invD(4) [OF s1(3)] kc1 [OF kc] unfolding s1(2) p_def by blast
  have "sched_inv ?s2 Q1 B" by (rule sched_inv_extends [OF s1(3)]) (simp add: extends_def)
  moreover have "clock_run hw (u # us) s = clock_run hw us ?s2" using s1(1) v by simp
  moreover have "to_user m (pcb_kc (the_pcb ?s2 m))" if "to_user m (pcb_kc (the_pcb s m))" for m
    using kc1 [OF that] by (cases "nd_data (nodes s1 m) = p") simp_all
  ultimately show ?thesis using s1(2,4)
    by (intro exI [of _ ?s2] exI [of _ Q1] exI [of _ w]) simp
qed

lemma clock_run_reaches:
  fixes s :: "'z kernel_scheme"
  assumes "hw_ok hw" and "sched_inv s Q B" and "ready_of s Q = xs @ n # ys"
    and "\<forall>m\<in>set (xs @ [n]). to_user m (pcb_kc (the_pcb s m))" and "length us = length xs"
  shows "\<exists>s' Q'. clock_run hw (us @ [u]) s = Some s' \<and> running (procs s') = n \<and> sched_inv s' Q' B"
  using assms(2-)
proof (induction xs arbitrary: s Q us ys)
  case Nil
  with clock_run_next [OF assms(1) Nil(1), of n ys u "[]"] show ?case by fastforce
next
  case (Cons m xs)
  obtain v vs where us: "us = v # vs" "length vs = length xs" using Cons.prems(4) by (cases us) auto
  have R: "ready_of s Q = m # (xs @ n # ys)" and kc: "to_user m (pcb_kc (the_pcb s m))" using Cons.prems(2,3) by simp_all
  obtain s' Q' w where s': "clock_run hw (v # vs @ [u]) s = clock_run hw (vs @ [u]) s'" "sched_inv s' Q' B"
      "ready_of s' Q' = (xs @ n # ys) @ w" "\<forall>m. to_user m (pcb_kc (the_pcb s m)) \<longrightarrow> to_user m (pcb_kc (the_pcb s' m))"
    using clock_run_next [OF assms(1) Cons.prems(1) R kc] by blast
  have "\<forall>m\<in>set (xs @ [n]). to_user m (pcb_kc (the_pcb s' m))" using Cons.prems(3) s'(4) by simp
  with Cons.IH [OF s'(2), of "ys @ w" vs] s'(1,3) us show ?case by simp
qed





end
