(* ===== verification/Exit_Spec.thy ===== *)
theory Exit_Spec
  imports Clock_Spec
begin

text \<open>
  The end of a process in full: \<open>process_terminate\<close>, \<open>graveyard\<close> and \<open>KernelExit\<close>.
\<close>

section \<open>Orphans\<close>

text \<open>The blocks \<open>F\<close> are freed and the control blocks \<open>C\<close> have no parent any more.\<close>

definition orphaned :: "addr set \<Rightarrow> addr set \<Rightarrow> 'z proc_state_scheme \<Rightarrow> 'z proc_state_scheme" where
  "orphaned F C s = s\<lparr>alive := (\<lambda>a. alive s a \<and> a \<notin> F),
     pcbs := (\<lambda>c. if c \<in> C then (pcbs s c)\<lparr>pcb_parent := NULL\<rparr> else pcbs s c)\<rparr>"

lemma orphaned_simps [simp]:
  "live (orphaned F C s) a \<longleftrightarrow> live s a \<and> a \<notin> F" "nodes (orphaned F C s) = nodes s" "lls (orphaned F C s) = lls s"
  "alive (orphaned F C s) a \<longleftrightarrow> alive s a \<and> a \<notin> F"
  "pcbs (orphaned F C s) c = (if c \<in> C then (pcbs s c)\<lparr>pcb_parent := NULL\<rparr> else pcbs s c)"
  by (auto simp: orphaned_def live_def)

lemma live_pcbs [simp]: "live (s\<lparr>pcbs := P\<rparr>) a = live s a" "alive (s\<lparr>pcbs := P\<rparr>) = alive s"
  by (simp_all add: live_def)

lemma orphaned_orphaned: "orphaned F C (orphaned F' C' s) = orphaned (F' \<union> F) (C' \<union> C) s"
  by (simp add: orphaned_def fun_eq_iff conj_ac)

lemma dseg_orphaned: "dseg s p xs q \<Longrightarrow> set xs \<inter> F = {} \<Longrightarrow> dseg (orphaned F C s) p xs q"
  by (rule dseg_cong) (auto dest: dseg_live)

lemma free_orphaned: "live s a \<Longrightarrow> free a s = Some (orphaned {a} {} s)"
  by (auto simp: free_def live_def orphaned_def fun_eq_iff)

lemma orphan_eq: "live s c \<Longrightarrow> upd_pcb c (\<lambda>p. p\<lparr>pcb_parent := NULL\<rparr>) s = Some (orphaned {} {c} s)"
  by (auto simp: orphaned_def fun_eq_iff)

text \<open>The loop and the call of \<open>free\<close> behind it: all nodes of the list are freed.\<close>

lemma orphan_children_ok:
  assumes "dseg s p xs NULL" and "distinct xs" and "lst \<notin> set xs" and "lst \<noteq> NULL \<Longrightarrow> live s lst"
    and "\<forall>n\<in>set xs. live s (nd_data (nodes s n)) \<and> nd_data (nodes s n) \<notin> insert lst (set xs)"
  shows "do { (lst, s) \<leftarrow> orphan_children lst (first xs NULL) s; free lst s } =
    Some (orphaned (insert lst (set xs) - {NULL}) ((\<lambda>n. nd_data (nodes s n)) ` set xs) s)"
  using assms
proof (induction xs arbitrary: s p lst)
  case Nil
  have "orphaned {} {} s = s" by (simp add: orphaned_def)
  moreover have "free NULL s = Some s" by (simp add: free_def)
  ultimately show ?case using Nil
    by (cases "lst = NULL") (simp_all add: orphan_children.simps [of _ NULL] free_orphaned insert_Diff_if)
next
  case (Cons n xs)
  let ?c = "nd_data (nodes s n)"
  define s2 where "s2 = orphaned (if lst = NULL then {} else {lst}) {?c} s"
  have n: "live s n" "n \<noteq> NULL" "n \<noteq> lst" "nd_next (nodes s n) = first xs NULL" "live s ?c" "?c \<noteq> lst"
    using Cons.prems by (auto simp: live_def)
  have f: "free lst (orphaned {} {?c} s) = Some s2"
    using Cons.prems(4) by (auto simp: s2_def free_orphaned orphaned_orphaned) (simp_all add: free_def)
  have "orphan_children lst n s = orphan_children n (first xs NULL) s2"
  proof -
    have "rd_node s2 n = Some (nodes s n)" using n by (simp add: s2_def)
    with n f show ?thesis by (simp add: orphan_children.simps [of lst n] orphan_eq del: upd_pcb_live)
  qed
  moreover have "do { (lst, s) \<leftarrow> orphan_children n (first xs NULL) s2; free lst s } =
    Some (orphaned (insert n (set xs) - {NULL}) ((\<lambda>n. nd_data (nodes s2 n)) ` set xs) s2)"
  proof (rule Cons.IH)
    show "dseg s2 n xs NULL" unfolding s2_def using Cons.prems(1,3) by (intro dseg_orphaned) auto
  qed (use Cons.prems n in \<open>auto simp: s2_def\<close>)
  moreover have "orphaned (insert n (set xs) - {NULL}) ((\<lambda>n. nd_data (nodes s2 n)) ` set xs) s2 =
      orphaned (insert lst (set (n # xs)) - {NULL}) ((\<lambda>n. nd_data (nodes s n)) ` set (n # xs)) s"
    by (auto simp: s2_def orphaned_orphaned intro!: arg_cong2 [of _ _ _ _ "\<lambda>F C. orphaned F C s"])
  ultimately show ?case by simp
qed

section \<open>The end of a process\<close>

lemma same_heap_proc:
  fixes s s' :: "'z proc_state_scheme"
  assumes "same_heap s s'"
  shows "pcbs s' = pcbs s" "pids s' = pids s" "proc_state.more s' = proc_state.more s"
proof -
  have m: "mem.more s' = mem.more s" using assms by (simp add: same_heap_def)
  then show "pcbs s' = pcbs s" "pids s' = pids s" "proc_state.more s' = proc_state.more s"
    by (cases s; cases s'; simp)+
qed

lemma destroy_usermem_all:
  assumes "hw_ok hw" and "u_inv hw up s"
  shows "\<exists>s'. destroy_usermem hw up s = Some s' \<and> upages hw up s' = (\<lambda>_. None) \<and> upt_keep up s s' \<and> u_inv hw up s' \<and>
    pool hw (free_frame s') = pool hw (free_frame s) \<union> {f. \<exists>i p. upages hw up s i = Some (f, p)}"
proof -
  obtain s' where s': "destroy_usermem hw up s = Some s'" "upt.unmapped hw up {0..<NUM_PAGES_1 hw} s s'"
    using destroy_usermem_spec [OF assms] by blast
  have r: "upages hw up s i = Some e \<Longrightarrow> i \<in> {0..<NUM_PAGES_1 hw}" for i e
    by (auto simp: upages_def dest: entries_bounds)
  then have "upages hw up s' i = None" for i
    using s'(2) unfolding upt.unmapped_def by (metis option.exhaust)
  moreover have "{f. \<exists>i\<in>{0..<NUM_PAGES_1 hw}. \<exists>p. upages hw up s i = Some (f, p)} = {f. \<exists>i p. upages hw up s i = Some (f, p)}"
    using r by blast
  ultimately show ?thesis using s' unfolding upt.unmapped_def by auto
qed

text \<open>The control block of the process that ends, and those of its children.\<close>

definition ended_pcbs :: "addr \<Rightarrow> addr set \<Rightarrow> (addr \<Rightarrow> pcb) \<Rightarrow> addr \<Rightarrow> pcb" where
  "ended_pcbs p C P = (let P' = (\<lambda>c. if c \<in> C then (P c)\<lparr>pcb_parent := NULL\<rparr> else P c) in
     P'(p := (P' p)\<lparr>pcb_a_children := NULL, pcb_d_children := NULL\<rparr>))"

lemma process_terminate_ok:
  fixes s :: "'z proc_state_scheme"
  assumes hw: "hw_ok hw" and ok: "proc_ok s proc"
  defines "p \<equiv> nd_data (nodes s proc)"
  defines "up \<equiv> pcb_userpt (pcbs s p)" and "A \<equiv> pcb_a_children (pcbs s p)" and "D \<equiv> pcb_d_children (pcbs s p)"
  assumes u: "u_inv hw up s" and A: "ll_at s A xs" and D: "ll_at s D []"
    and apart: "distinct (p # A # D # xs)" "proc \<notin> insert A (insert D (set xs))"
    and kids: "\<forall>n\<in>set xs. live s (nd_data (nodes s n)) \<and> nd_data (nodes s n) \<notin> set xs"
  shows "\<exists>s'. process_terminate hw proc rc s = Some s' \<and>
    alive s' = (\<lambda>a. alive s a \<and> a \<notin> insert A (insert D (set xs))) \<and> brk_next s' = brk_next s \<and>
    nodes s' = (nodes s)(proc := (nodes s proc)\<lparr>nd_code := rc\<rparr>) \<and> lls s' = lls s \<and>
    pids s' = removeAll (pcb_pid (pcbs s p)) (pids s) \<and>
    pcbs s' = ended_pcbs p ((\<lambda>n. nd_data (nodes s n)) ` set xs) (pcbs s) \<and>
    upages hw up s' = (\<lambda>_. None) \<and> (\<forall>a. a \<noteq> up \<longrightarrow> upts s' a = upts s a) \<and> frames_ok hw (free_frame s') \<and>
    pool hw (free_frame s') = pool hw (free_frame s) \<union> {f. \<exists>i q. upages hw up s i = Some (f, q)} \<and>
    kernel_pt s' = kernel_pt s \<and> kstacks s' = kstacks s \<and> pmem s' = pmem s \<and> ptbr1 s' = ptbr1 s \<and>
    vm_enable s' = vm_enable s \<and> proc_state.more s' = proc_state.more s"
proof -
  define s1 where "s1 = helper_retire_pid (pcb_pid (pcbs s p)) (s\<lparr>nodes := (nodes s)(proc := (nodes s proc)\<lparr>nd_code := rc\<rparr>)\<rparr>)"
  have l: "live s proc" "live s p" using ok by (simp_all add: proc_ok_def p_def)
  have "u_inv hw up s1" using u by (simp add: s1_def helper_retire_pid_def u_inv_def upages_def live_def)
  then obtain s2 where s2: "destroy_usermem hw up s1 = Some s2" "upages hw up s2 = (\<lambda>_. None)" "upt_keep up s1 s2" "u_inv hw up s2"
    "pool hw (free_frame s2) = pool hw (free_frame s1) \<union> {f. \<exists>i p. upages hw up s1 i = Some (f, p)}"
    using destroy_usermem_all [OF hw] by blast
  have same: "same_heap s1 s2" using s2(3) by (simp add: upt_keep_def)
  note P = same_heap_proc [OF same]
  have h: "alive s2 = alive s" "brk_next s2 = brk_next s" "nodes s2 = nodes s1" "lls s2 = lls s" "ptbr1 s2 = ptbr1 s" "vm_enable s2 = vm_enable s"
      "pcbs s2 = pcbs s" "live s2 a = live s a" for a
    using same P(1) by (simp_all add: same_heap_def s1_def helper_retire_pid_def live_def)
  have nd: "nd_data (nodes s1 n) = nd_data (nodes s n)" for n by (simp add: s1_def helper_retire_pid_def)
  have nl: "nodes s1 n = nodes s n" if "n \<in> set xs" for n using apart(2) that by (auto simp: s1_def helper_retire_pid_def)
  note LA = ll_atD [OF A] and LD = ll_atD [OF D]
  have "dseg s2 NULL xs NULL" by (rule dseg_cong [OF LA(6)]) (use LA(6) in \<open>auto simp: h nl dest: dseg_live\<close>)
  moreover have "NULL \<notin> set xs" using LA(6) by (rule dseg_NULL)
  ultimately have loop: "do { (lst, s) \<leftarrow> orphan_children NULL (first xs NULL) s2; free lst s } =
      Some (orphaned (set xs) ((\<lambda>n. nd_data (nodes s n)) ` set xs) s2)" (is "_ = Some (orphaned _ ?C _)")
    using orphan_children_ok [of s2 NULL xs NULL] apart(1) kids by (simp add: nl h live_def)
  then obtain lst s3 where s3: "orphan_children NULL (first xs NULL) s2 = Some (lst, s3)" "free lst s3 = Some (orphaned (set xs) ?C s2)"
    by (auto simp: bind_Some_iff)
  define s4 where "s4 = orphaned (set xs) ?C s2"
  define s5 where "s5 = orphaned {A} {} s4"
  define s6 where "s6 = s5\<lparr>pcbs := (pcbs s5)(p := (pcbs s5 p)\<lparr>pcb_a_children := NULL\<rparr>)\<rparr>"
  define s7 where "s7 = orphaned {D} {} s6"
  define s8 where "s8 = s7\<lparr>pcbs := (pcbs s7)(p := (pcbs s7 p)\<lparr>pcb_d_children := NULL\<rparr>)\<rparr>"
  have "process_terminate hw proc rc s = Some s8"
  proof -
    have r1: "upd_node proc (\<lambda>n. n\<lparr>nd_code := rc\<rparr>) s = Some (s\<lparr>nodes := (nodes s)(proc := (nodes s proc)\<lparr>nd_code := rc\<rparr>)\<rparr>)"
      using l by (simp add: upd_node_def)
    have r2: "rd_pcb s2 p = Some (pcbs s p)" "rd_ll s2 A = Some (lls s A)" "ll_head (lls s A) = first xs NULL"
      using l LA by (simp_all add: h rd_pcb_def rd_ll_def)
    have r4: "rd_pcb s4 p = Some (pcbs s4 p)" "pcb_a_children (pcbs s4 p) = A" "free A s4 = Some s5"
      using l apart(1) LA(1) by (auto simp: s4_def s5_def h rd_pcb_def A_def free_orphaned)
    have r6: "live s5 p" "rd_pcb s6 p = Some (pcbs s6 p)" "pcb_d_children (pcbs s6 p) = D" "rd_ll s6 D = Some (lls s D)"
        "ll_head (lls s D) = NULL" "free D s6 = Some s7" "live s7 p" "pcb_d_children (pcbs s7 p) = D"
      using l apart(1) LD by (auto simp: s4_def s5_def s6_def s7_def h rd_pcb_def rd_ll_def D_def free_orphaned)
    show ?thesis
      using l r1 r2 r4 r6 s2(1) s3
      by (simp add: process_terminate_def Let_def destroy_children.simps [of hw NULL]
          flip: p_def up_def A_def s1_def s4_def s6_def s8_def)
  qed
  moreover have "pcbs s8 = ended_pcbs p ?C (pcbs s)"
    by (auto simp: ended_pcbs_def s8_def s7_def s6_def s5_def s4_def h fun_eq_iff Let_def)
  moreover have "alive s8 = (\<lambda>a. alive s a \<and> a \<notin> insert A (insert D (set xs)))"
    by (auto simp: s8_def s7_def s6_def s5_def s4_def h)
  moreover have f: "brk_next s8 = brk_next s" "nodes s8 = nodes s1" "lls s8 = lls s" "pids s8 = pids s1" "upts s8 = upts s2"
      "free_frame s8 = free_frame s2" "kernel_pt s8 = kernel_pt s2" "kstacks s8 = kstacks s2" "pmem s8 = pmem s2"
      "ptbr1 s8 = ptbr1 s" "vm_enable s8 = vm_enable s" "proc_state.more s8 = proc_state.more s1"
    using h P(2,3) by (simp_all add: s8_def s7_def s6_def s5_def s4_def orphaned_def)
  moreover have "nodes s1 = (nodes s)(proc := (nodes s proc)\<lparr>nd_code := rc\<rparr>)" "pids s1 = removeAll (pcb_pid (pcbs s p)) (pids s)"
      "proc_state.more s1 = proc_state.more s" "free_frame s1 = free_frame s" "upages hw up s1 = upages hw up s"
      "upts s1 = upts s" "kernel_pt s1 = kernel_pt s" "kstacks s1 = kstacks s" "pmem s1 = pmem s"
    by (simp_all add: s1_def helper_retire_pid_def upages_def)
  moreover have "upages hw up s8 = (\<lambda>_. None)" using s2(2) f(5) by (simp add: upages_def)
  moreover have "frames_ok hw (free_frame s2)" using u_inv_frames [OF s2(4)] .
  ultimately show ?thesis using s2(3,5)
    by (intro exI [of _ s8] conjI) (simp_all add: upt_keep_def)
qed

section \<open>The types of blocks\<close>

text \<open>
  What the blocks of the heap that the scheduler knows of are used for: no two uses share a
  block, because C gives every block one type.
\<close>

datatype block = B_ll | B_node | B_pcb | B_kstack | B_userpt

definition heap_typed :: "(addr \<Rightarrow> block) \<Rightarrow> 'z sched_scheme \<Rightarrow> (addr \<rightharpoonup> addr list) \<Rightarrow> addr set \<Rightarrow> bool" where
  "heap_typed T s Q B \<longleftrightarrow>
     (\<forall>l\<in>dom Q. T l = B_ll) \<and> (\<forall>n. queued Q n \<longrightarrow> T n = B_node) \<and>
     (\<forall>n\<in>insert (running (procs s)) (insert (idle_node s) (members Q B)).
        T n = B_node \<and> T (nd_data (nodes s n)) = B_pcb \<and> T (pcb_kstack (the_pcb s n)) = B_kstack \<and>
        T (pcb_userpt (the_pcb s n)) = B_userpt)"

lemma lists_ok_restrict: "lists_ok s Q \<Longrightarrow> dom Q' \<subseteq> dom Q \<Longrightarrow> (\<And>l. l \<in> dom Q' \<Longrightarrow> Q' l = Q l) \<Longrightarrow> lists_ok s Q'"
  unfolding lists_ok_def by (metis domI subsetD)

text \<open>The scheduler's view of the state after the lists \<open>A\<close> and \<open>D\<close> and the nodes of \<open>A\<close> are freed.\<close>

lemma sched_inv_freed:
  assumes inv: "sched_inv s Q B" and ty: "heap_typed T s Q B" and A: "Q A = Some xs" "A \<notin> B" and D: "Q D = Some []" "D \<notin> B"
    and al: "alive s' = (\<lambda>a. alive s a \<and> a \<notin> insert A (insert D (set xs)))"
    and nod: "nodes s' = (nodes s)(m := (nodes s m)\<lparr>nd_code := rc\<rparr>)" "\<not> queued Q m" and "lls s' = lls s"
    and pc: "\<forall>c. pcb_kstack (pcbs s' c) = pcb_kstack (pcbs s c) \<and> pcb_userpt (pcbs s' c) = pcb_userpt (pcbs s c)"
    and rest: "procs s' = procs s" "idle_node s' = idle_node s"
  shows "sched_inv s' (Q(A := None, D := None)) B"
proof -
  let ?Q = "Q(A := None, D := None)"
  note I = sched_invD [OF inv] and M = sched_midD [OF sched_invD(1) [OF inv]]
  have nA: "T n = B_node" if "n \<in> set xs" for n using ty A(1) that by (auto simp: heap_typed_def queued_def)
  have tAD: "T A = B_ll" "T D = B_ll" using ty A(1) D(1) by (auto simp: heap_typed_def)
  have lv: "live s' a \<longleftrightarrow> live s a" if "T a \<notin> {B_ll, B_node}" for a
    using that nA tAD by (auto simp: live_def al)
  have lvn: "live s' n \<longleftrightarrow> live s n" if "T n = B_node" "n \<notin> set xs" for n
    using that tAD by (auto simp: live_def al)
  have nx: "n \<notin> set xs" if "\<not> queued Q n" for n using not_queuedD [OF that A(1)] .
  have other: "n \<notin> set xs" if "queued ?Q n" for n
    using that A(1) M(1) by (fastforce simp: queued_def lists_ok_def split: if_splits)
  have ok: "proc_ok s' n" if "n \<in> insert (running (procs s)) (insert (idle_node s) (members Q B))" "proc_ok s n" "n \<notin> set xs" for n
  proof -
    have "T n = B_node" "T (nd_data (nodes s n)) = B_pcb" "T (pcb_kstack (the_pcb s n)) = B_kstack" "T (pcb_userpt (the_pcb s n)) = B_userpt"
      using ty that(1) by (auto simp: heap_typed_def)
    moreover have "nd_data (nodes s' n) = nd_data (nodes s n)" by (simp add: nod(1))
    ultimately show ?thesis using that(2,3) pc by (simp add: proc_ok_def lv lvn)
  qed
  have q: "queued ?Q n \<Longrightarrow> queued Q n" for n by (auto simp: queued_def split: if_splits)
  have "lists_ok s ?Q" by (rule lists_ok_restrict [OF M(1)]) auto
  then have "lists_ok s' ?Q"
  proof (rule lists_ok_cong)
    show "live s' l \<and> lls s' l = lls s l" if "l \<in> dom ?Q" for l
    proof -
      have "T l = B_ll" "l \<noteq> A" "l \<noteq> D" using ty that by (auto simp: heap_typed_def split: if_splits)
      moreover have "l \<notin> set xs" using nA calculation(1) by auto
      moreover have "live s l" using lists_ok_hdr [OF M(1), of l] that by (auto split: if_splits)
      ultimately show ?thesis using assms(10) by (simp add: live_def al)
    qed
    show "live s' n \<and> nodes s' n = nodes s n" if "queued ?Q n" for n
      using lvn [OF _ other [OF that]] ty q [OF that] lists_ok_live [OF M(1)] nod by (auto simp: heap_typed_def)
  qed
  moreover have "B \<subseteq> dom ?Q" using I(1) A(2) D(2) by (auto simp: sched_mid_def)
  moreover have "proc_ok s' n" if "l \<in> B" "n \<in> set (the (?Q l))" for l n
  proof -
    have Ql: "Q l = Some (the (Q l))" "l \<noteq> A" "l \<noteq> D" using M(10) [OF that(1)] that(1) A(2) D(2) by auto
    then have "queued ?Q n" using that(2) by (auto simp: queued_def)
    moreover have "n \<in> members Q B" using that Ql(2,3) by (auto simp: members_def)
    ultimately show ?thesis using ok [of n] M(11) [OF that(1), of n] that(2) Ql(2,3) other by simp
  qed
  moreover have "proc_ok s' (running (procs s))" "proc_ok s' (idle_node s)"
    using ok I(4,5) nx [OF I(2)] nx [OF M(4)] by auto
  ultimately show ?thesis
    using I(1,2) M(4) q by (simp add: sched_inv_def sched_mid_def rest del: map_upd_eqD1) blast
qed

section \<open>Putting a process that ended away\<close>

text \<open>What a parent that waits sees: it is taken from the waiting list to the ready queue.\<close>

definition woken_parent :: "'z sched_scheme \<Rightarrow> (addr \<rightharpoonup> addr list) \<Rightarrow> addr \<Rightarrow> (addr \<rightharpoonup> addr list)" where
  "woken_parent s Q par =
     (if par \<in> set (the (Q (waiting_ll (procs s))))
      then Q(waiting_ll (procs s) \<mapsto> remove1 par (the (Q (waiting_ll (procs s)))),
             ready_ll (procs s) \<mapsto> ready_of s Q @ [par]) else Q)"

lemma check_wait_woken:
  assumes mid: "sched_mid s Q B" and "par \<noteq> NULL"
  shows "\<exists>s'. check_wait par s = Some s' \<and> links_only s s' \<and> sched_mid s' (woken_parent s Q par) B"
proof (cases "par \<in> set (the (Q (waiting_ll (procs s))))")
  case True
  obtain xs ys where "the (Q (waiting_ll (procs s))) = xs @ par # ys" "par \<notin> set xs" using True by (meson split_list_first)
  moreover then have "remove1 par (the (Q (waiting_ll (procs s)))) = xs @ ys" by (simp add: remove1_append)
  ultimately show ?thesis
    using check_wait_mid(2) [OF assms, of xs ys] sched_midD(10) [OF mid sched_midD(6) [OF mid]] True
    by (simp add: woken_parent_def)
next
  case False
  with check_wait_mid(1) [OF assms] mid show ?thesis by (auto simp: woken_parent_def)
qed

text \<open>\<open>graveyard\<close> for the running process.\<close>

definition buried :: "'z sched_scheme \<Rightarrow> (addr \<rightharpoonup> addr list) \<Rightarrow> (addr \<rightharpoonup> addr list)" where
  "buried s Q = (let me = running (procs s); par = pcb_parent (the_pcb s me);
       l = (if par = NULL then orphans_ll (procs s) else pcb_d_children (the_pcb s par)); Q' = Q(l \<mapsto> the (Q l) @ [me]) in
     if par = NULL then Q' else woken_parent s Q' par)"

lemma graveyard_ok:
  fixes s :: "'z sched_scheme"
  assumes hw: "hw_ok hw" and inv: "sched_inv s Q B" and "running (procs s) \<noteq> idle_node s"
  defines "par \<equiv> pcb_parent (the_pcb s (running (procs s)))"
  assumes par: "par \<noteq> NULL \<Longrightarrow> live s par \<and> live s (nd_data (nodes s par)) \<and>
      pcb_d_children (the_pcb s par) \<in> dom Q - B"
  shows "\<exists>s'. graveyard hw kc s = Some s' \<and> switched hw kc s s' (next_up s (buried s Q)) \<and>
    sched_inv s' (dispatch (ready_ll (procs s)) (buried s Q)) B"
proof -
  let ?me = "running (procs s)"
  note I = sched_invD [OF inv] and M = sched_midD [OF sched_invD(1) [OF inv]]
  have gp: "get_parent ?me s = Some par" using I(4) by (simp add: get_parent_def par_def)
  obtain s2 where s2: "(if par \<noteq> NULL then do {
            p \<leftarrow> pcb_of s par;
            s \<leftarrow> enqueue (pcb_d_children p) ?me s;
            check_wait par s
          } else enqueue (orphans_ll (procs s)) ?me s) = Some s2" "links_only s s2" "sched_mid s2 (buried s Q) B"
  proof (cases "par = NULL")
    case True
    then have b: "buried s Q = Q(orphans_ll (procs s) \<mapsto> the (Q (orphans_ll (procs s))) @ [?me])"
      by (simp add: buried_def par_def Let_def)
    with put_running(1) [OF inv M(8) assms(3)] True that show ?thesis by auto
  next
    case False
    let ?d = "pcb_d_children (the_pcb s par)"
    obtain ds where d: "Q ?d = Some ds" "?d \<notin> B" using par [OF False] by auto
    let ?Q = "Q(?d \<mapsto> ds @ [?me])"
    obtain s1 where s1: "enqueue ?d ?me s = Some s1" "links_only s s1" "lists_ok s1 ?Q"
      using enqueue_ok [OF M(1) d(1) proc_okD(1) [OF I(4)] I(2)] by blast
    note F = links_sched_frame [OF s1(2)]
    have "?me \<noteq> idle_node s" "idle_node s \<notin> set ds" using assms(3) not_queuedD [OF M(4) d(1)] by auto
    then have mid1: "sched_mid s1 ?Q B"
      by (intro sched_mid_step [OF I(1) s1(3) F(1)])
        (use M(2,11) d(2) F(2) in \<open>auto intro!: not_queued_sub [OF M(4)] split: if_splits\<close>)
    obtain s2 where s2: "check_wait par s1 = Some s2" "links_only s1 s2" "sched_mid s2 (woken_parent s1 ?Q par) B"
      using check_wait_woken [OF mid1 False] by blast
    moreover have "woken_parent s1 ?Q par = buried s Q"
      using False d(1) by (simp add: woken_parent_def buried_def Let_def F(2) par_def)
    ultimately show ?thesis
      using that [of s2] par [OF False] s1 False links_only_trans [OF s1(2) s2(2)] by (simp add: pcb_of_def)
  qed
  obtain s' where "run_next_ready hw kc s2 = Some s'" "switched hw kc s s' (next_up s (buried s Q))"
      "sched_inv s' (dispatch (ready_ll (procs s)) (buried s Q)) B"
    using block_then_next [OF hw s2(2,3)] by blast
  moreover from this(1) have "graveyard hw kc s = Some s'"
    using gp s2(1) by (cases "par = NULL") (auto simp: graveyard_def bind_eq_Some_conv)
  ultimately show ?thesis by blast
qed

section \<open>\<open>KernelExit\<close>\<close>

lemma kernel_exit_ok:
  fixes s :: "'z sched_scheme"
  assumes hw: "hw_ok hw" and inv: "sched_inv s Q B" and ty: "heap_typed T s Q B"
  defines "me \<equiv> running (procs s)"
  defines "p \<equiv> the_pcb s me"
  defines "par \<equiv> pcb_parent p" and "A \<equiv> pcb_a_children p" and "D \<equiv> pcb_d_children p" and "up \<equiv> pcb_userpt p"
  assumes me: "me \<noteq> idle_node s" "me \<noteq> init_node s" and O: "Q (orphans_ll (procs s)) = Some []"
    and A: "Q A = Some xs" "A \<notin> B" and D: "Q D = Some []" "D \<notin> B" "A \<noteq> D" and u: "u_inv hw up s"
    and kids: "\<forall>n\<in>set xs. live s (nd_data (nodes s n)) \<and> T (nd_data (nodes s n)) = B_pcb \<and> nd_data (nodes s n) \<noteq> nd_data (nodes s me)"
    and par: "par \<noteq> NULL \<Longrightarrow> live s par \<and> T par = B_node \<and> par \<notin> set xs \<and> live s (nd_data (nodes s par)) \<and>
      T (nd_data (nodes s par)) = B_pcb \<and> nd_data (nodes s par) \<noteq> nd_data (nodes s me) \<and>
      pcb_d_children (the_pcb s par) \<in> dom Q - B - {A, D}"
  defines "Q' \<equiv> buried s (Q(A := None, D := None))"
  shows "\<exists>s'. KernelExit hw status s = Some (Switched, s') \<and> running (procs s') = next_up s Q' \<and>
    sched_inv s' (dispatch (ready_ll (procs s)) Q') B \<and> code_in s' me = status \<and>
    (\<forall>a. alive s' a = (alive s a \<and> a \<notin> insert A (insert D (set xs)))) \<and>
    pids s' = removeAll (pcb_pid p) (pids s) \<and> (\<forall>n\<in>set xs. pcb_parent (pcbs s' (nd_data (nodes s n))) = NULL) \<and>
    upages hw up s' = (\<lambda>_. None) \<and> (\<forall>a. a \<noteq> up \<longrightarrow> upts s' a = upts s a) \<and>
    pool hw (free_frame s') = pool hw (free_frame s) \<union> {f. \<exists>i q. upages hw up s i = Some (f, q)} \<and> pmem s' = pmem s"
proof -
  note I = sched_invD [OF inv] and M = sched_midD [OF sched_invD(1) [OF inv]]
  let ?d = "nd_data (nodes s me)"
  let ?C = "(\<lambda>n. nd_data (nodes s n)) ` set xs"
  have nA: "T n = B_node" if "n \<in> set xs" for n using ty A(1) that by (auto simp: heap_typed_def queued_def)
  have tAD: "T A = B_ll" "T D = B_ll" using ty A(1) D(1) by (auto simp: heap_typed_def)
  have tme: "T me = B_node" "T ?d = B_pcb" using ty by (simp_all add: heap_typed_def me_def)
  have mx: "me \<notin> set xs" using not_queuedD [OF I(2) A(1)] by (simp add: me_def)
  have apart: "distinct (?d # A # D # xs)" "me \<notin> insert A (insert D (set xs))"
    using D(3) nA tAD tme mx ll_atD(3) [OF lists_okD [OF I(3) A(1)]] by auto
  have kids': "\<forall>n\<in>set xs. live s (nd_data (nodes s n)) \<and> nd_data (nodes s n) \<notin> set xs" using kids nA by auto
  have reap: "reap_orphans hw s = Some s"
    using is_empty_eq [OF I(3) O] by (simp add: reap_orphans.simps)
  obtain s1 where s1: "process_terminate hw me status s = Some s1"
      "alive s1 = (\<lambda>a. alive s a \<and> a \<notin> insert A (insert D (set xs)))"
      "nodes s1 = (nodes s)(me := (nodes s me)\<lparr>nd_code := status\<rparr>)" "lls s1 = lls s"
      "pids s1 = removeAll (pcb_pid p) (pids s)" "pcbs s1 = ended_pcbs ?d ?C (pcbs s)"
      "upages hw up s1 = (\<lambda>_. None)" "\<forall>a. a \<noteq> up \<longrightarrow> upts s1 a = upts s a"
      "pool hw (free_frame s1) = pool hw (free_frame s) \<union> {f. \<exists>i q. upages hw up s i = Some (f, q)}"
      "pmem s1 = pmem s" "proc_state.more s1 = proc_state.more s"
    using process_terminate_ok [OF hw I(4), folded me_def, folded p_def, folded up_def A_def D_def, OF u
        lists_okD [OF I(3) A(1)] lists_okD [OF I(3) D(1)] apart kids', where rc = status] by (elim exE conjE) (rule that; assumption)
  have f1: "procs s1 = procs s" "idle_node s1 = idle_node s" "init_node s1 = init_node s"
    using s1(11) by (cases s; cases s1; simp)+
  let ?Q = "Q(A := None, D := None)"
  have pf: "pcb_kstack (pcbs s1 c) = pcb_kstack (pcbs s c) \<and> pcb_userpt (pcbs s1 c) = pcb_userpt (pcbs s c)" for c
    by (simp add: s1(6) ended_pcbs_def Let_def)
  have nd: "nd_data (nodes s1 n) = nd_data (nodes s n)" for n by (simp add: s1(3))
  have inv1: "sched_inv s1 ?Q B"
    using sched_inv_freed [OF inv ty A D(1,2) s1(2,3) _ s1(4) _ f1(1,2)] pf I(2) by (simp add: me_def)
  have noC: "?d \<notin> ?C" using kids by auto
  have par1: "pcb_parent (the_pcb s1 (running (procs s1))) = par"
    using noC by (simp add: f1 nd s1(6) ended_pcbs_def Let_def par_def p_def flip: me_def)
  have d1: "pcb_d_children (pcbs s1 (nd_data (nodes s par))) = pcb_d_children (the_pcb s par)" if "par \<noteq> NULL"
    using par [OF that] by (simp add: nd s1(6) ended_pcbs_def Let_def)
  have pl: "live s1 par \<and> live s1 (nd_data (nodes s1 par)) \<and> pcb_d_children (the_pcb s1 par) \<in> dom ?Q - B" if "par \<noteq> NULL"
  proof -
    have "par \<notin> insert A (insert D (set xs))" "nd_data (nodes s par) \<notin> insert A (insert D (set xs))"
      using par [OF that] nA tAD by auto
    then show ?thesis using par [OF that] by (simp add: d1 [OF that] nd live_def s1(2))
  qed
  have run1: "running (procs s1) \<noteq> idle_node s1" using me(1) by (simp add: f1 me_def)
  have par0: "pcb_parent (the_pcb s (running (procs s))) = par" by (simp only: par_def p_def me_def)
  have p1: "pcb_parent (pcbs s1 (nd_data (nodes s (running (procs s))))) = par" using par1 unfolding f1 nd .
  have wp: "woken_parent s1 R par = woken_parent s R par" for R by (simp only: woken_parent_def f1)
  have bur: "buried s1 ?Q = Q'"
  proof (cases "par = NULL")
    case True
    then show ?thesis unfolding Q'_def buried_def Let_def f1 nd unfolding par0 p1 by simp
  next
    case False
    then show ?thesis unfolding Q'_def buried_def Let_def f1 nd unfolding par0 p1 by (simp add: wp d1)
  qed
  obtain s' where s': "graveyard hw KC_Exit s1 = Some s'" "switched hw KC_Exit s1 s' (next_up s1 Q')"
      "sched_inv s' (dispatch (ready_ll (procs s)) Q') B"
    using graveyard_ok [OF hw inv1 run1, unfolded par1, of KC_Exit] pl unfolding bur f1 by blast
  have "KernelExit hw status s = Some (Switched, s')"
    using me(2) reap s1(1) s'(1) by (simp add: KernelExit_def flip: me_def)
  moreover have fr: "sched_frame hw s1 s'" "running (procs s') = next_up s Q'"
  proof -
    have "next_up s1 Q' = next_up s Q'" unfolding next_up_def f1 ..
    with s'(2) show "sched_frame hw s1 s'" "running (procs s') = next_up s Q'" by (simp_all add: switched_def)
  qed
  moreover have "code_in s' me = status" using sched_frameD(3) [OF fr(1)] by (simp add: s1(3))
  moreover have "pcb_parent (pcbs s' (nd_data (nodes s n))) = NULL" if "n \<in> set xs" for n
    using sched_frame_pcb(2) [OF fr(1)] that kids by (auto simp: s1(6) ended_pcbs_def Let_def)
  moreover have "alive s' = alive s1" "pids s' = pids s1" "upts s' = upts s1" "free_frame s' = free_frame s1" "pmem s' = pmem s1"
    using fr(1) by (simp_all add: sched_frame_def)
  ultimately show ?thesis using s'(3) s1(2,5,7-10) by (simp add: upages_def)
qed


definition demo_types :: "addr \<Rightarrow> block" where
  "demo_types a = (if a < 10 then B_ll else if a < 20 then B_node else if a < 30 then B_pcb
     else if a < 40 then B_userpt else if a < 50 then B_kstack else if a \<in> {61, 63, 66} then B_node else B_ll)"

abbreviation demo_family :: "addr \<rightharpoonup> addr list" where
  "demo_family \<equiv> demo_Q(70 \<mapsto> [], 71 \<mapsto> [])"

lemma demo_family_inv: "sched_inv demo_kernel demo_family demo_B"
  by (intro sched_inv_new_list demo_inv) (simp_all add: ll_at_def demo_lls_def single_def)

lemma demo_typed: "heap_typed demo_types (demo_kernel\<lparr>init_node := i\<rparr>) demo_family demo_B"
proof -
  have "\<forall>l\<in>dom demo_family. demo_types l = B_ll" by (simp add: demo_lists_def demo_types_def)
  moreover have "queued demo_family n \<Longrightarrow> queued demo_Q n" for n by (auto simp: queued_def split: if_splits)
  then have "queued demo_family n \<Longrightarrow> demo_types n = B_node" for n
    using demo_queued [of n] by (auto simp: demo_types_def)
  moreover have "members demo_family demo_B = {11, 13, 14, 15, 16}" by (auto simp: members_def demo_lists_def)
  ultimately show ?thesis by (simp add: heap_typed_def) (simp add: demo_types_def demo_nodes_def)
qed



section \<open>Uses of blocks\<close>



end
