(* ===== verification/User_Bytes.thy ===== *)
theory User_Bytes
  imports Exit_Spec
begin

text \<open>
  The memory of the process that runs as bytes at addresses: what is stored at an address of its
  own is loaded from there, and nothing else changes.
\<close>

section \<open>Single bytes\<close>

abbreviation own :: "hw \<Rightarrow> 'z mem_scheme \<Rightarrow> nat \<Rightarrow> bool" where
  "own hw s a \<equiv> user_addr hw (ptbr1 s) s a"

definition only_bytes :: "'z mem_scheme \<Rightarrow> 'z mem_scheme \<Rightarrow> bool" where
  "only_bytes s s' \<longleftrightarrow> (\<exists>M. s' = s\<lparr>pmem := M\<rparr>)"

lemma only_bytes_refl [simp]: "only_bytes s s"
  unfolding only_bytes_def by (rule exI [of _ "pmem s"]) simp

lemma only_bytes_trans: "only_bytes s s' \<Longrightarrow> only_bytes s' s'' \<Longrightarrow> only_bytes s s''"
  by (auto simp: only_bytes_def)

lemma only_bytesD:
  assumes "only_bytes s s'"
  shows "ptbr1 s' = ptbr1 s" "upages hw up s' = upages hw up s" "user_addr hw up s' a = user_addr hw up s a"
    "u_inv hw up s' = u_inv hw up s" "live s' b = live s b" "upts s' = upts s" "free_frame s' = free_frame s"
    "mem.more s' = mem.more s"
  using assms by (auto simp: only_bytes_def upages_def user_addr_def u_inv_def live_def)

text \<open>An address is its page and its place in the page.\<close>

lemma same_place:
  assumes "hw_ok hw" and "user_page hw a = user_page hw b" and "a mod PAGESIZE hw = b mod PAGESIZE hw"
  shows "a = b"
proof -
  have "a div PAGESIZE hw = b div PAGESIZE hw" using assms(2) by (simp add: user_page_def page_of [OF assms(1)])
  with assms(3) show ?thesis by (metis div_mult_mod_eq)
qed

lemma own_frame:
  assumes "hw_ok hw" and "live s (ptbr1 s)" and "own hw s a"
  obtains f p where "upages hw (ptbr1 s) s (user_page hw a) = Some (f, p)"
    "frame_at hw s (int (drop_bit (PAGESHIFT hw) a)) = Some f"
proof -
  obtain f p where e: "upages hw (ptbr1 s) s (user_page hw a) = Some (f, p)" "in_region_1 hw a"
    using assms(3) by (auto simp: user_addr_def)
  with user_page_range [OF assms(1) e(2)] assms(2) that show thesis
    by (auto simp: frame_at_def rd_upte_def upages_def entries_def user_page_def split: if_splits)
qed

lemma store_ok:
  assumes hw: "hw_ok hw" and u: "u_inv hw (ptbr1 s) s" and a: "own hw s a"
  shows "\<exists>s'. store hw a c s = Some s' \<and> only_bytes s s' \<and>
    (\<forall>b. own hw s b \<longrightarrow> load hw s' b = (if b = a then Some c else load hw s b)) \<and>
    (\<forall>f. (\<forall>i p. upages hw (ptbr1 s) s i \<noteq> Some (f, p)) \<longrightarrow> pmem s' f = pmem s f)"
proof -
  have live: "live s (ptbr1 s)" using u by (simp add: u_inv_def)
  obtain f p where f: "upages hw (ptbr1 s) s (user_page hw a) = Some (f, p)"
      "frame_at hw s (int (drop_bit (PAGESHIFT hw) a)) = Some f"
    using own_frame [OF hw live a] .
  define s' where "s' = s\<lparr>pmem := (pmem s)(f := (pmem s f)(a mod PAGESIZE hw := c))\<rparr>"
  have fr: "frame_at hw s' v = frame_at hw s v" for v
    by (simp add: frame_at_def s'_def rd_kpte_def rd_upte_def live_def)
  have "load hw s' b = (if b = a then Some c else load hw s b)" if b: "own hw s b" for b
  proof -
    obtain g q where g: "upages hw (ptbr1 s) s (user_page hw b) = Some (g, q)"
        "frame_at hw s (int (drop_bit (PAGESHIFT hw) b)) = Some g"
      using own_frame [OF hw live b] .
    have "user_page hw a = user_page hw b" if "g = f"
      using u f(1) g(1) that unfolding u_inv_def sound_def by blast
    with same_place [OF hw, of a b] f(2) g(2) show ?thesis
      by (auto simp: load_def fr) (auto simp: s'_def)
  qed
  moreover have "store hw a c s = Some s'" using f(2) by (simp add: store_def s'_def)
  moreover have "only_bytes s s'" by (auto simp: only_bytes_def s'_def)
  moreover have "pmem s' g = pmem s g" if "\<forall>i p. upages hw (ptbr1 s) s i \<noteq> Some (g, p)" for g
    using that f(1) by (auto simp: s'_def)
  ultimately show ?thesis by blast
qed

section \<open>Strings of bytes\<close>

text \<open>The addresses \<open>W\<close> were written with the bytes \<open>g\<close>.\<close>

definition written :: "hw \<Rightarrow> nat set \<Rightarrow> (nat \<Rightarrow> byte) \<Rightarrow> 'z mem_scheme \<Rightarrow> 'z mem_scheme \<Rightarrow> bool" where
  "written hw W g s s' \<longleftrightarrow> only_bytes s s' \<and>
     (\<forall>b. own hw s b \<longrightarrow> load hw s' b = (if b \<in> W then Some (g b) else load hw s b)) \<and>
     (\<forall>f. (\<forall>i p. upages hw (ptbr1 s) s i \<noteq> Some (f, p)) \<longrightarrow> pmem s' f = pmem s f)"

lemma written_none: "written hw {} g s s"
  by (simp add: written_def)

lemma written_trans:
  assumes "written hw W g s s'" and "written hw W' g' s' s''"
  shows "written hw (W \<union> W') (\<lambda>b. if b \<in> W' then g' b else g b) s s''"
proof -
  note D = only_bytesD [of s s']
  have o: "only_bytes s s'" "only_bytes s' s''" using assms by (simp_all add: written_def)
  with assms D [OF o(1)] only_bytes_trans [OF o] show ?thesis by (simp add: written_def)
qed

lemma written_cong: "written hw W g s s' \<Longrightarrow> W = W' \<Longrightarrow> (\<And>b. b \<in> W \<Longrightarrow> g b = g' b) \<Longrightarrow> written hw W' g' s s'"
  by (simp add: written_def)

lemma store_bytes_ok:
  assumes hw: "hw_ok hw" and "u_inv hw (ptbr1 s) s" and "\<forall>b. a \<le> b \<and> b < a + length cs \<longrightarrow> own hw s b"
    and "a + length cs < 2 ^ 32"
  shows "\<exists>s'. store_bytes hw a cs s = Some s' \<and> written hw {a..<a + length cs} (\<lambda>b. cs ! (b - a)) s s'"
  using assms(2-)
proof (induction cs arbitrary: a s)
  case Nil
  then show ?case by (simp add: written_none)
next
  case (Cons c cs)
  obtain s1 where s1: "store hw a c s = Some s1" "only_bytes s s1"
      "\<forall>b. own hw s b \<longrightarrow> load hw s1 b = (if b = a then Some c else load hw s b)"
      "\<forall>f. (\<forall>i p. upages hw (ptbr1 s) s i \<noteq> Some (f, p)) \<longrightarrow> pmem s1 f = pmem s f"
    using store_ok [OF hw Cons.prems(1), of a c] Cons.prems(2) by auto
  note D = only_bytesD [OF s1(2)]
  have w1: "written hw {a} (\<lambda>_. c) s s1" using s1 by (simp add: written_def)
  have e: "uadd a 1 = a + 1" using Cons.prems(3) by (simp add: uadd_exact)
  obtain s' where s': "store_bytes hw (a + 1) cs s1 = Some s'" "written hw {a + 1..<a + 1 + length cs} (\<lambda>b. cs ! (b - (a + 1))) s1 s'"
    using Cons.IH [of s1 "a + 1"] Cons.prems by (auto simp: D)
  have "written hw {a..<a + length (c # cs)} (\<lambda>b. (c # cs) ! (b - a)) s s'"
    by (rule written_cong [OF written_trans [OF w1 s'(2)]]) (auto simp: nth_Cons')
  with s1(1) s'(1) e show ?case by auto
qed

section \<open>Words\<close>

lemma byte_sum:
  fixes v :: int
  shows "nat (v mod 256) + 256 * nat (v div 256 mod 256) + 65536 * nat (v div 65536 mod 256) +
    16777216 * nat (v div 16777216 mod 256) = nat (v mod 4294967296)"
proof -
  have n: "int (nat (x mod 256)) = x mod 256" for x by simp
  have e1: "v mod 65536 = 256 * (v div 256 mod 256) + v mod 256"
    using zmod_zmult2_eq [of 256 v 256] by simp
  have e2: "v mod 16777216 = 65536 * (v div 65536 mod 256) + v mod 65536"
    using zmod_zmult2_eq [of 256 v 65536] by simp
  have e3: "v mod 4294967296 = 16777216 * (v div 16777216 mod 256) + v mod 16777216"
    using zmod_zmult2_eq [of 256 v 16777216] by simp
  have "int (nat (v mod 256) + 256 * nat (v div 256 mod 256) + 65536 * nat (v div 65536 mod 256) +
    16777216 * nat (v div 16777216 mod 256)) = v mod 4294967296"
    unfolding of_nat_add of_nat_mult n e3 e2 e1 of_nat_numeral by (simp only: ac_simps)
  then show ?thesis by (metis nat_int)
qed

definition word_byte :: "int \<Rightarrow> nat \<Rightarrow> byte" where
  "word_byte v k = word_of_int (v div 2 ^ (8 * k))"

lemma load32_bytes:
  assumes "a + 4 \<le> 2 ^ 32" and "\<And>k. k < 4 \<Longrightarrow> load hw s (a + k) = Some (word_byte v k)"
  shows "load32 hw s a = Some (nat (v mod 2 ^ 32))"
proof -
  have u: "unat (word_byte v k) = nat (v div 2 ^ (8 * k) mod 256)" for k
    by (simp add: word_byte_def unat_eq_nat_uint uint_word_of_int)
  have "uadd a 1 = a + 1" "uadd a 2 = a + 2" "uadd a 3 = a + 3" using assms(1) by (simp_all add: uadd_exact)
  with assms(2) [of 0] assms(2) [of 1] assms(2) [of 2] assms(2) [of 3] show ?thesis
    using byte_sum [of v] by (simp add: load32_def u del: nat_mod_distrib)
qed

lemma store32_ok:
  assumes hw: "hw_ok hw" and "u_inv hw (ptbr1 s) s" and "\<forall>b. a \<le> b \<and> b < a + 4 \<longrightarrow> own hw s b" and "a + 4 < 2 ^ 32"
  shows "\<exists>s'. store32 hw a v s = Some s' \<and> written hw {a..<a + 4} (\<lambda>b. word_byte v (b - a)) s s'"
proof -
  let ?cs = "map (\<lambda>k. word_of_int (v div 2 ^ (8 * k))) [0..<4] :: byte list"
  obtain s' where "store_bytes hw a ?cs s = Some s'" "written hw {a..<a + length ?cs} (\<lambda>b. ?cs ! (b - a)) s s'"
    using store_bytes_ok [OF hw assms(2), of a ?cs] assms(3,4) by auto
  moreover have "?cs ! (b - a) = word_byte v (b - a)" if "b \<in> {a..<a + 4}" for b
    using that by (auto simp: word_byte_def nth_append less_Suc_eq numeral_eq_Suc)
  ultimately show ?thesis by (auto simp: store32_def intro: written_cong)
qed

section \<open>Isolation\<close>

lemma frame_in_table:
  assumes "hw_ok hw" and "VMEM_1_BASE hw \<le> a" and "frame_at hw s (int (drop_bit (PAGESHIFT hw) a)) = Some f"
  shows "\<exists>i p. upages hw (ptbr1 s) s i = Some (f, p)"
proof -
  have "VMEM_1_BASE hw div PAGESIZE hw \<le> a div PAGESIZE hw" using assms(2) by (rule div_le_mono)
  then have "\<not> int (drop_bit (PAGESHIFT hw) a) < BASE_PAGE_1 hw"
    by (simp add: BASE_PAGE_1_def page_of [OF assms(1)])
  then obtain p where p: "rd_upte hw s (ptbr1 s) (int (drop_bit (PAGESHIFT hw) a) - BASE_PAGE_1 hw) = Some p"
      "pte_valid p \<noteq> 0" "f = pte_pfn p"
    using assms(3) by (auto simp: frame_at_def bind_Some_iff simp del: of_nat_drop_bit split: if_splits)
  then have "upages hw (ptbr1 s) s (int (drop_bit (PAGESHIFT hw) a) - BASE_PAGE_1 hw) = Some (f, pte_prot p)"
    unfolding rd_upte_def upages_def entries_def by (metis (no_types, lifting) option.distinct(1) option.inject)
  then show ?thesis by blast
qed

lemma store_elsewhere:
  assumes hw: "hw_ok hw" and a: "VMEM_1_BASE hw \<le> a" "store hw a c (s\<lparr>ptbr1 := up\<rparr>) = Some s'"
    and apart: "\<And>i j f p q. upages hw up s i = Some (f, p) \<Longrightarrow> upages hw up' s j \<noteq> Some (f, q)" and b: "VMEM_1_BASE hw \<le> b"
  shows "load hw (s'\<lparr>ptbr1 := up'\<rparr>) b = load hw (s\<lparr>ptbr1 := up'\<rparr>) b"
proof -
  have pg: "upages hw x (t\<lparr>ptbr1 := y\<rparr>) = upages hw x t" for x y and t :: "'a mem_scheme" by (simp add: upages_def)
  obtain f where f: "frame_at hw (s\<lparr>ptbr1 := up\<rparr>) (int (drop_bit (PAGESHIFT hw) a)) = Some f"
      "s' = s\<lparr>ptbr1 := up, pmem := (pmem s)(f := (pmem s f)(a mod PAGESIZE hw := c))\<rparr>"
    using a(2) by (auto simp: store_def bind_Some_iff)
  obtain i p where i: "upages hw up s i = Some (f, p)" using frame_in_table [OF hw a(1) f(1)] by (auto simp: pg)
  have fr: "frame_at hw (s'\<lparr>ptbr1 := up'\<rparr>) v = frame_at hw (s\<lparr>ptbr1 := up'\<rparr>) v" for v
    by (simp add: frame_at_def f(2) rd_kpte_def rd_upte_def live_def)
  show ?thesis
  proof (cases "frame_at hw (s\<lparr>ptbr1 := up'\<rparr>) (int (drop_bit (PAGESHIFT hw) b))")
    case (Some g)
    then obtain j q where "upages hw up' s j = Some (g, q)" using frame_in_table [OF hw b Some] by (auto simp: pg)
    with apart [OF i] have "g \<noteq> f" by metis
    with Some show ?thesis by (simp add: load_def fr) (simp add: f(2))
  qed (simp add: load_def fr)
qed


lemma demo_fork:
  "\<exists>c s' F G. KernelFork demo demo_kernel = Some (pcb_pid (the_pcb s' c), s') \<and> forked demo 10 c F G demo_kernel s' \<and>
    proc_ok s' 10 \<and> proc_ok s' c"
proof -
  let ?Q = "demo_Q(70 \<mapsto> [])"
  have heap: "heap_ok demo_kernel" by (simp add: heap_ok_def demo_kernel_def)
  have inv: "sched_inv demo_kernel ?Q demo_B"
    by (rule sched_inv_new_list [OF demo_inv]) (simp_all add: ll_at_def demo_lls_def single_def)
  have m: "card (mapped_pages demo 30 demo_kernel) = 3"
  proof -
    have "mapped_pages demo 30 demo_kernel = {0, 1, 15}" by (auto simp: mapped_pages_def demo_upages split: if_splits)
    then show ?thesis by simp
  qed
  have u: "u_inv demo 30 demo_kernel" using demo_region region_okD(1) by blast
  have nk: "no_kernel_memory demo 6 demo_kernel = 0"
    by (simp add: no_kernel_memory_def frames_left_def demo_kernel_def usub_exact)
  have f: "running (procs demo_kernel) = 10" "pcb_userpt (the_pcb demo_kernel 10) = 30" "pcb_a_children (the_pcb demo_kernel 10) = 70"
      "u_size (upts demo_kernel 30) = 3" "frames_left (free_frame demo_kernel) = 15" "NUM_KSTACK_PAGES demo = 2"
    by (simp_all add: demo_nodes_def demo_pcbs_def demo_user_pt_def frames_left_def)
  obtain c s' F G Q' where s': "KernelFork demo demo_kernel = Some (pcb_pid (the_pcb s' c), s')" "forked demo 10 c F G demo_kernel s'"
      "sched_inv s' Q' demo_B" "Q' (ready_ll (procs demo_kernel)) = Some (ready_of demo_kernel ?Q @ [c])"
    using fork_spec [OF demo_ok heap inv, unfolded f, of "[]"] u nk demo_stack m by auto
  have p: "procs s' = procs demo_kernel" using s'(2) by (simp add: forked_def Let_def)
  note I = sched_invD [OF s'(3)]
  have "proc_ok s' c" using sched_midD(11) [OF I(1) sched_midD(5) [OF I(1)], of c] s'(4) by (simp add: p)
  moreover have "proc_ok s' 10" using I(4) by (simp add: p)
  ultimately show ?thesis using s'(1,2) by blast
qed


end
