(* ===== verification/Arguments.thy ===== *)
theory Arguments
  imports User_Bytes
begin

text \<open>
  The stack of a new program: where \<open>LoadProgram\<close> puts the arguments, and that the program finds
  them there.
\<close>

section \<open>The arguments of a program\<close>

lemma c_string_at:
  "\<lbrakk>\<forall>k<length a. load hw s (cp + k) = Some (a ! k); load hw s (cp + length a) = Some 0; 0 \<notin> set a;
    cp + length a < 2 ^ 32\<rbrakk> \<Longrightarrow> c_string hw s cp = Some a"
proof (induction a arbitrary: cp)
  case Nil
  then show ?case by (simp add: c_string.simps [of hw s cp])
next
  case (Cons c cs)
  have "\<forall>k<length cs. load hw s (cp + 1 + k) = Some (cs ! k)" using Cons.prems(1) by fastforce
  then have "c_string hw s (cp + 1) = Some cs" using Cons by (intro Cons.IH) simp_all
  moreover have "load hw s cp = Some c" using Cons.prems(1) [rule_format, of 0] by simp
  moreover have "uadd cp 1 = cp + 1" using Cons.prems(4) by (simp add: uadd_exact)
  ultimately show ?case using Cons.prems(3) by (simp add: c_string.simps [of hw s cp])
qed

definition args_len :: "byte list list \<Rightarrow> nat" where
  "args_len as = (\<Sum>a\<leftarrow>as. length a + 1)"

lemma args_len_simps [simp]: "args_len [] = 0" "args_len (a # as) = length a + 1 + args_len as"
  by (simp_all add: args_len_def)

lemma args_size_len: "args_size as = int (args_len as)"
  by (induction as) (simp_all add: args_size_def)

text \<open>The pointers of a vector at \<open>cpp\<close> and the strings they point to, which begin at \<open>cp\<close>.\<close>

fun args_at :: "hw \<Rightarrow> 'z mem_scheme \<Rightarrow> nat \<Rightarrow> nat \<Rightarrow> byte list list \<Rightarrow> bool" where
  "args_at hw s cpp cp [] = True"
| "args_at hw s cpp cp (a # as) =
     ((\<forall>k<4. load hw s (cpp + k) = Some (word_byte (int cp) k)) \<and>
      (\<forall>k<length a. load hw s (cp + k) = Some (a ! k)) \<and> load hw s (cp + length a) = Some 0 \<and>
      args_at hw s (cpp + 4) (cp + (length a + 1)) as)"

definition args_area :: "nat \<Rightarrow> nat \<Rightarrow> byte list list \<Rightarrow> nat set" where
  "args_area cpp cp as = {cpp..<cpp + 4 * length as} \<union> {cp..<cp + args_len as}"

lemma args_at_cong:
  "\<lbrakk>args_at hw s cpp cp as; \<And>b. b \<in> args_area cpp cp as \<Longrightarrow> load hw s' b = load hw s b\<rbrakk> \<Longrightarrow> args_at hw s' cpp cp as"
proof (induction as arbitrary: cpp cp)
  case (Cons a as)
  have "args_area (cpp + 4) (cp + (length a + 1)) as \<subseteq> args_area cpp cp (a # as)" by (auto simp: args_area_def)
  then have "args_at hw s' (cpp + 4) (cp + (length a + 1)) as" using Cons by (intro Cons.IH) auto
  moreover have "{cpp..<cpp + 4} \<union> {cp..cp + length a} \<subseteq> args_area cpp cp (a # as)" by (auto simp: args_area_def)
  ultimately show ?case using Cons.prems by (auto simp: subset_iff)
qed simp

lemma c_args_at:
  "\<lbrakk>args_at hw s cpp cp as; load32 hw s (cpp + 4 * length as) = Some 0; 0 < cp; cpp + 4 * length as + 4 \<le> 2 ^ 32;
    cp + args_len as < 2 ^ 32; \<forall>a\<in>set as. 0 \<notin> set a\<rbrakk> \<Longrightarrow> c_args hw s cpp = Some as"
proof (induction as arbitrary: cpp cp)
  case Nil
  then show ?case by (simp add: c_args.simps [of hw s cpp])
next
  case (Cons a as)
  have "c_args hw s (cpp + 4) = Some as" using Cons.prems by (intro Cons.IH [of _ "cp + (length a + 1)"]) (simp_all add: add.assoc)
  moreover have "load32 hw s cpp = Some (nat (int cp mod 2 ^ 32))"
    by (rule load32_bytes) (use Cons.prems in simp_all)
  then have "load32 hw s cpp = Some cp" using Cons.prems(5) by simp
  moreover have "c_string hw s cp = Some a" using Cons.prems by (intro c_string_at) simp_all
  moreover have "uadd cpp 4 = cpp + 4" using Cons.prems(4) by (simp add: uadd_exact)
  ultimately show ?case using Cons.prems(3) by (simp add: c_args.simps [of hw s cpp])
qed

lemma put_args_ok:
  assumes hw: "hw_ok hw" and "u_inv hw (ptbr1 s) s" and "\<forall>b\<in>args_area cpp cp as. own hw s b"
    and "cpp + 4 * length as \<le> cp" and "cp + args_len as < 2 ^ 32"
  shows "\<exists>s' g. put_args hw cpp cp as s = Some (cpp + 4 * length as, s') \<and>
    written hw (args_area cpp cp as) g s s' \<and> args_at hw s' cpp cp as"
  using assms(2-)
proof (induction as arbitrary: s cpp cp)
  case Nil
  then show ?case by (auto simp: args_area_def intro: written_none)
next
  case (Cons a as)
  have sub: "{cpp..<cpp + 4} \<subseteq> args_area cpp cp (a # as)" "{cp..<cp + length (a @ [0 :: byte])} \<subseteq> args_area cpp cp (a # as)"
      "args_area (cpp + 4) (cp + (length a + 1)) as \<subseteq> args_area cpp cp (a # as)"
    by (auto simp: args_area_def)
  have own: "own hw s b" if "b \<in> args_area cpp cp (a # as)" for b using Cons.prems(2) that by blast
  have o4: "\<forall>b. cpp \<le> b \<and> b < cpp + 4 \<longrightarrow> own hw s b"
    and os: "\<forall>b. cp \<le> b \<and> b < cp + length (a @ [0 :: byte]) \<longrightarrow> own hw s b"
    using own sub(1,2) by (simp_all add: subset_iff)
  obtain s1 where s1: "store32 hw cpp (int cp) s = Some s1" "written hw {cpp..<cpp + 4} (\<lambda>b. word_byte (int cp) (b - cpp)) s s1"
    using store32_ok [OF hw Cons.prems(1) o4, of "int cp"] Cons.prems(3,4) by auto
  have o1: "only_bytes s s1" using s1(2) by (simp add: written_def)
  note D1 = only_bytesD [OF o1]
  obtain s2 where s2: "store_bytes hw cp (a @ [0]) s1 = Some s2"
      "written hw {cp..<cp + length (a @ [0 :: byte])} (\<lambda>b. (a @ [0]) ! (b - cp)) s1 s2"
    using store_bytes_ok [OF hw, of s1 cp "a @ [0]"] os Cons.prems(1,4) unfolding D1 by auto
  have o2: "only_bytes s s2" using o1 s2(2) by (auto simp: written_def intro: only_bytes_trans)
  note D2 = only_bytesD [OF o2]
  obtain s' g where s': "put_args hw (cpp + 4) (cp + (length a + 1)) as s2 = Some (cpp + 4 * length (a # as), s')"
      "written hw (args_area (cpp + 4) (cp + (length a + 1)) as) g s2 s'" "args_at hw s' (cpp + 4) (cp + (length a + 1)) as"
  proof -
    have "u_inv hw (ptbr1 s2) s2" "\<forall>b\<in>args_area (cpp + 4) (cp + (length a + 1)) as. own hw s2 b"
      using Cons.prems(1) own sub(3) by (auto simp: D2)
    moreover have "cpp + 4 + 4 * length as \<le> cp + (length a + 1)" "cp + (length a + 1) + args_len as < 2 ^ 32"
        "cpp + 4 + 4 * length as = cpp + 4 * length (a # as)"
      using Cons.prems(3,4) by simp_all
    ultimately show thesis using Cons.IH [of s2 "cpp + 4" "cp + (length a + 1)"] that by metis
  qed
  have u: "uadd cpp 4 = cpp + 4" "uadd cp (length a + 1) = cp + (length a + 1)"
    using Cons.prems(3,4) by (simp_all add: uadd_exact)
  have new: "b \<notin> args_area (cpp + 4) (cp + (length a + 1)) as" if "b \<in> {cpp..<cpp + 4} \<union> {cp..<cp + length a + 1}" for b
    using that Cons.prems(3) by (auto simp: args_area_def)
  have ld: "load hw s' b = load hw s2 b" if "b \<in> {cpp..<cpp + 4} \<union> {cp..<cp + length a + 1}" for b
  proof -
    have "own hw s2 b" using own [of b] sub(1,2) that by (auto simp: D2)
    with s'(2) new [OF that] show ?thesis by (simp add: written_def)
  qed
  have "{cpp..<cpp + 4} \<union> {cp..<cp + length (a @ [0 :: byte])} \<union> args_area (cpp + 4) (cp + (length a + 1)) as =
      args_area cpp cp (a # as)" by (auto simp: args_area_def)
  with written_trans [OF written_trans [OF s1(2) s2(2)] s'(2)]
  obtain g' where W: "written hw (args_area cpp cp (a # as)) g' s s'" by auto
  have l2: "load hw s2 b = (if b \<in> {cp..<cp + length a + 1} then Some ((a @ [0]) ! (b - cp)) else Some (word_byte (int cp) (b - cpp)))"
    if "b \<in> {cpp..<cpp + 4} \<union> {cp..<cp + length a + 1}" for b
    using own [of b] sub(1,2) that s1(2) s2(2) by (auto simp: written_def D1)
  have "\<forall>k<4. load hw s' (cpp + k) = Some (word_byte (int cp) k)"
    using ld l2 Cons.prems(3) by simp
  moreover have "\<forall>k<length a. load hw s' (cp + k) = Some (a ! k)" "load hw s' (cp + length a) = Some 0"
    using ld l2 by (simp_all add: nth_append)
  ultimately have "args_at hw s' cpp cp (a # as)" using s'(3) by simp
  with W s1(1) s2(1) s'(1) u show ?case by auto
qed

section \<open>The stack of a new program\<close>

text \<open>Arguments, argument vector and initial frame fit into region 1.\<close>

definition args_fit :: "hw \<Rightarrow> byte list list \<Rightarrow> bool" where
  "args_fit hw as \<longleftrightarrow> 0 \<le> POST_ARGV_NULL_SPACE hw \<and> 0 \<le> INITIAL_STACK_FRAME_SIZE hw \<and>
     args_size as + (int (length as) + 3 + POST_ARGV_NULL_SPACE hw) * 4 + 8 + INITIAL_STACK_FRAME_SIZE hw \<le> int (VMEM_1_SIZE hw)"

lemma stack_layout:
  assumes hw: "hw_ok hw" and fit: "args_fit hw as"
  shows "args_start hw as + args_len as = VMEM_1_LIMIT hw"
    and "argv_start hw as + 4 * (length as + 3) \<le> args_start hw as" and "argv_start hw as mod 8 = 0"
    and "VMEM_1_BASE hw + nat (INITIAL_STACK_FRAME_SIZE hw) \<le> argv_start hw as"
    and "int (initial_sp hw as) = int (argv_start hw as) - INITIAL_STACK_FRAME_SIZE hw"
proof -
  define S where "S = int (args_len as)"
  define W where "W = (int (length as) + 3 + POST_ARGV_NULL_SPACE hw) * 4"
  define L where "L = int (VMEM_1_LIMIT hw)"
  have h: "L = int (VMEM_1_BASE hw) + int (VMEM_1_SIZE hw)" "L < 2 ^ 32" using hw by (simp_all add: hw_ok_def L_def)
  have f: "0 \<le> S" "(int (length as) + 3) * 4 \<le> W" "0 \<le> W" "0 \<le> INITIAL_STACK_FRAME_SIZE hw"
      "S + W + 8 + INITIAL_STACK_FRAME_SIZE hw \<le> int (VMEM_1_SIZE hw)"
    using fit by (auto simp: args_fit_def S_def W_def args_size_len)
  have a: "int (args_start hw as) = L - S"
    using h f by (simp add: args_start_def args_size_len u32_id flip: S_def L_def)
  then show "args_start hw as + args_len as = VMEM_1_LIMIT hw" by (simp add: S_def L_def)
  define x where "x = nat (L - S - W)"
  have x: "argv_start hw as = x div 8 * 8" "int x = L - S - W"
    using h f a by (simp_all add: argv_start_def u32_id x_def W_def)
  have y: "x div 8 * 8 \<le> x" "x \<le> x div 8 * 8 + 7" by simp_all
  show "argv_start hw as mod 8 = 0" by (simp add: x(1))
  show "argv_start hw as + 4 * (length as + 3) \<le> args_start hw as" 
  proof -
    have "int (4 * (length as + 3)) = (int (length as) + 3) * 4" by simp
    then show ?thesis using a f(2) x y by linarith
  qed
  show b: "VMEM_1_BASE hw + nat (INITIAL_STACK_FRAME_SIZE hw) \<le> argv_start hw as" using h f x y by linarith
  show "int (initial_sp hw as) = int (argv_start hw as) - INITIAL_STACK_FRAME_SIZE hw"
    using b h f x y by (simp add: initial_sp_def u32_id)
qed

text \<open>The pages \<open>stack_npg\<close> counts reach down to the initial stack pointer.\<close>

lemma argument_pages:
  assumes hw: "hw_ok hw" and fit: "args_fit hw as"
  shows "LIM_PAGE_1 hw - stack_npg hw as = int (initial_sp hw as div PAGESIZE hw)"
    and "0 < stack_npg hw as" and "stack_npg hw as \<le> NUM_PAGES_1 hw"
proof -
  note L = stack_layout [OF hw fit]
  have h: "VMEM_1_LIMIT hw < 2 ^ 32" "PAGESIZE hw dvd VMEM_1_LIMIT hw" "0 < PAGESIZE hw" "PAGESIZE hw dvd VMEM_1_BASE hw"
    using hw hw_size [OF hw] by (auto simp: hw_ok_def)
  have sp: "VMEM_1_BASE hw \<le> initial_sp hw as" "initial_sp hw as < VMEM_1_LIMIT hw"
    using L fit by (auto simp: args_fit_def)
  let ?d = "initial_sp hw as div PAGESIZE hw"
  obtain m where m: "VMEM_1_LIMIT hw = PAGESIZE hw * m" using h(2) by blast
  obtain b where b: "VMEM_1_BASE hw = PAGESIZE hw * b" using h(4) by blast
  have lt: "?d < m" using sp(2) h(3) unfolding m by (simp add: less_mult_imp_div_less mult.commute)
  have ge: "b \<le> ?d" using sp(1) h(3) unfolding b by (metis div_le_mono nonzero_mult_div_cancel_left not_less0)
  have "?d * PAGESIZE hw \<le> VMEM_1_LIMIT hw" using lt m by (simp add: mult.commute)
  then have "usub (VMEM_1_LIMIT hw) (?d * PAGESIZE hw) = PAGESIZE hw * (m - ?d)"
    using h(1) m by (subst usub_exact) (simp_all add: diff_mult_distrib2 mult.commute)
  then have n: "stack_npg hw as = int (m - ?d)"
    using h(3) by (simp add: stack_npg_def down_page [OF hw] page_of [OF hw])
  show "0 < stack_npg hw as" using lt n by simp
  have "LIM_PAGE_1 hw = int m" "BASE_PAGE_1 hw = int b"
    using h(3) m b by (simp_all add: LIM_PAGE_1_def BASE_PAGE_1_def page_of [OF hw])
  then show "LIM_PAGE_1 hw - stack_npg hw as = int ?d" "stack_npg hw as \<le> NUM_PAGES_1 hw"
    using n lt ge region_1(1) [OF hw] by simp_all
qed

lemma written_out: "\<lbrakk>written hw W g s s'; own hw s b; b \<notin> W\<rbrakk> \<Longrightarrow> load hw s' b = load hw s b"
  and written_in: "\<lbrakk>written hw W g s s'; own hw s b; b \<in> W\<rbrakk> \<Longrightarrow> load hw s' b = Some (g b)"
  and written_bytes: "written hw W g s s' \<Longrightarrow> only_bytes s s'"
  by (simp_all add: written_def)

lemma build_stack_ok:
  assumes hw: "hw_ok hw" and fit: "args_fit hw as" and u: "u_inv hw (ptbr1 s) s"
    and own: "\<forall>b. argv_start hw as \<le> b \<and> b < VMEM_1_LIMIT hw \<longrightarrow> own hw s b" and zf: "\<forall>a\<in>set as. 0 \<notin> set a"
  shows "\<exists>s'. build_stack hw as s = Some s' \<and> only_bytes s s' \<and>
    load32 hw s' (argv_start hw as) = Some (length as) \<and> c_args hw s' (argv_start hw as + 4) = Some as \<and>
    (\<forall>b. own hw s b \<longrightarrow> b < argv_start hw as \<longrightarrow> load hw s' b = load hw s b)"
proof -
  define p q n where "p = argv_start hw as" and "q = args_start hw as" and "n = length as"
  let ?L = "VMEM_1_LIMIT hw"
  note Y = stack_layout [OF hw fit, folded p_def q_def n_def]
  have L: "?L < 2 ^ 32" "0 < q" using hw Y(2) by (simp_all add: hw_ok_def)
  have ow: "own hw s b" if "p \<le> b" "b < ?L" for b using own that by (simp add: p_def)
  obtain s1 where s1: "store_bytes hw p (replicate (?L - p) 0) s = Some s1" "written hw {p..<p + (?L - p)} (\<lambda>b. replicate (?L - p) 0 ! (b - p)) s s1"
    using store_bytes_ok [OF hw u, of p "replicate (?L - p) 0"] ow Y(1,2) L(1) by auto
  note D1 = only_bytesD [OF written_bytes [OF s1(2)]]
  obtain s2 where s2: "store32 hw p (int n) s1 = Some s2" "written hw {p..<p + 4} (\<lambda>b. word_byte (int n) (b - p)) s1 s2"
    using store32_ok [OF hw, of s1 p "int n"] u ow Y(1,2) L(1) by (auto simp: D1)
  note D2 = only_bytesD [OF written_bytes [OF s2(2)], unfolded D1]
  have area: "b \<in> {p + 4..<p + 4 + 4 * n} \<union> {q..<?L}" if "b \<in> args_area (p + 4) q as" for b
    using that Y(1) by (auto simp: args_area_def n_def)
  obtain s3 g where s3: "put_args hw (p + 4) q as s2 = Some (p + 4 + 4 * n, s3)" "written hw (args_area (p + 4) q as) g s2 s3"
      "args_at hw s3 (p + 4) q as"
  proof -
    have "\<forall>b\<in>args_area (p + 4) q as. own hw s2 b" using area ow Y(1,2) by (fastforce simp: D2)
    moreover have "u_inv hw (ptbr1 s2) s2" using u by (simp add: D2)
    ultimately show thesis
      using put_args_ok [OF hw, of s2 "p + 4" q as] that Y(1,2) L(1) by (auto simp: n_def)
  qed
  note D3 = only_bytesD [OF written_bytes [OF s3(2)], unfolded D2]
  obtain s4 where s4: "store32 hw (p + 4 + 4 * n) 0 s3 = Some s4" "written hw {p + 4 + 4 * n..<p + 4 + 4 * n + 4} (\<lambda>b. word_byte 0 (b - (p + 4 + 4 * n))) s3 s4"
    using store32_ok [OF hw, of s3 "p + 4 + 4 * n" 0] u ow Y(1,2) L(1) by (auto simp: D3)
  note D4 = only_bytesD [OF written_bytes [OF s4(2)], unfolded D3]
  obtain s5 where s5: "store32 hw (p + 8 + 4 * n) 0 s4 = Some s5" "written hw {p + 8 + 4 * n..<p + 8 + 4 * n + 4} (\<lambda>b. word_byte 0 (b - (p + 8 + 4 * n))) s4 s5"
    using store32_ok [OF hw, of s4 "p + 8 + 4 * n" 0] u ow Y(1,2) L(1) by (auto simp: D4)
  note D5 = only_bytesD [OF written_bytes [OF s5(2)], unfolded D4]
  have o: "own hw s1 b = own hw s b" "own hw s2 b = own hw s b" "own hw s3 b = own hw s b" "own hw s4 b = own hw s b" for b
    by (simp_all add: D1 D2 D3 D4)
  have tail: "load hw s5 b = load hw s3 b" if "own hw s b" "b < p + 4 + 4 * n \<or> p + 12 + 4 * n \<le> b" for b
    using that written_out [OF s4(2)] written_out [OF s5(2)] by (auto simp: o)
  have "args_at hw s5 (p + 4) q as"
  proof (rule args_at_cong [OF s3(3)])
    fix b assume "b \<in> args_area (p + 4) q as"
    then have "b \<in> {p + 4..<p + 4 + 4 * n} \<union> {q..<?L}" by (rule area)
    then have "own hw s b" "b < p + 4 + 4 * n \<or> p + 12 + 4 * n \<le> b" using ow Y(1,2) by auto
    then show "load hw s5 b = load hw s3 b" by (rule tail)
  qed
  moreover have "load32 hw s5 (p + 4 + 4 * n) = Some (nat (0 mod 2 ^ 32))"
  proof (rule load32_bytes)
    show "load hw s5 (p + 4 + 4 * n + k) = Some (word_byte 0 k)" if "k < 4" for k
      using that ow [of "p + 4 + 4 * n + k"] Y(1,2) written_in [OF s4(2), of "p + 4 + 4 * n + k"]
        written_out [OF s5(2), of "p + 4 + 4 * n + k"] by (simp add: o)
  qed (use Y(1,2) L in simp)
  ultimately have "c_args hw s5 (p + 4) = Some as"
    using Y(1,2) L zf by (intro c_args_at [of _ _ _ q]) (simp_all add: n_def)
  moreover have "load32 hw s5 p = Some (nat (int n mod 2 ^ 32))"
  proof (rule load32_bytes)
    fix k :: nat assume k: "k < 4"
    then have b: "own hw s (p + k)" "p + k \<notin> args_area (p + 4) q as" using ow [of "p + k"] Y(1,2) area [of "p + k"] by auto
    have "load hw s5 (p + k) = load hw s3 (p + k)" using k tail [OF b(1)] by simp
    also have "\<dots> = load hw s2 (p + k)" using written_out [OF s3(2), of "p + k"] b by (simp add: o)
    also have "\<dots> = Some (word_byte (int n) k)" using written_in [OF s2(2), of "p + k"] b(1) k by (simp add: o)
    finally show "load hw s5 (p + k) = Some (word_byte (int n) k)" .
  qed (use Y(1,2) L in simp)
  then have "load32 hw s5 p = Some n" using Y(1,2) L by simp
  moreover have "load hw s5 b = load hw s b" if b: "own hw s b" "b < p" for b
  proof -
    have "b \<notin> args_area (p + 4) q as" using b(2) area [of b] Y(2) by auto
    then have "load hw s3 b = load hw s2 b" using written_out [OF s3(2), of b] b(1) by (simp add: o)
    then show ?thesis using tail [of b] written_out [OF s2(2), of b] written_out [OF s1(2), of b] b by (simp add: o)
  qed
  moreover have "build_stack hw as s = Some s5"
  proof -
    have "usub ?L p = ?L - p" "uadd p 4 = p + 4" "uadd (p + 4 + 4 * n) 4 = p + 8 + 4 * n"
      using Y(1,2) L by (simp_all add: usub_exact uadd_exact)
    then show ?thesis
      using s1(1) s2(1) s3(1) s4(1) s5(1) by (simp add: build_stack_def set_zero_def Let_def flip: p_def q_def n_def)
  qed
  moreover have "only_bytes s s5"
    using written_bytes [OF s1(2)] written_bytes [OF s2(2)] written_bytes [OF s3(2)] written_bytes [OF s4(2)] written_bytes [OF s5(2)]
    by (meson only_bytes_trans)
  ultimately show ?thesis unfolding p_def n_def by blast
qed

text \<open>
  C28: The stack of a program that is loaded.  When arguments, argument vector and initial frame
  fit into region 1, the address the vector starts at is a multiple of 8, the vector with its
  two terminators ends below the strings and the strings end with the region, the initial stack
  pointer is the frame's size below the vector and within region 1, and the pages that are
  counted for the stack are exactly those from the one of the stack pointer to the end.
\<close>

theorem exec_stack_bounds:
  assumes "hw_ok hw" and "args_fit hw as"
  shows "argv_start hw as mod 8 = 0 \<and> VMEM_1_BASE hw \<le> initial_sp hw as \<and>
    int (initial_sp hw as) = int (argv_start hw as) - INITIAL_STACK_FRAME_SIZE hw \<and>
    argv_start hw as + 4 * (length as + 3) \<le> args_start hw as \<and>
    int (args_start hw as) + args_size as = int (VMEM_1_LIMIT hw) \<and>
    LIM_PAGE_1 hw - stack_npg hw as = int (initial_sp hw as div PAGESIZE hw) \<and>
    0 < stack_npg hw as \<and> stack_npg hw as \<le> NUM_PAGES_1 hw"
proof -
  note L = stack_layout [OF assms]
  have "VMEM_1_BASE hw \<le> initial_sp hw as" using L(4,5) assms(2) by (auto simp: args_fit_def)
  moreover have "int (args_start hw as) + args_size as = int (VMEM_1_LIMIT hw)" using L(1) by (simp add: args_size_len)
  ultimately show ?thesis using L argument_pages [OF assms] by simp
qed

theorem exec_stack_bounds_witness:
  "args_fit demo [[104, 105], [120]] \<and> argv_start demo [[104, 105], [120]] + 20 \<le> args_start demo [[104, 105], [120]] \<and>
    stack_npg demo [[104, 105], [120]] \<le> 16"
proof -
  have "args_fit demo [[104, 105], [120]]" by (simp add: args_fit_def args_size_def) (simp add: demo_def)
  with exec_stack_bounds [OF demo_ok this] show ?thesis by simp
qed

text \<open>
  C27: Arguments.  What the loader writes on the stack of the new program reads back: at the
  start of the vector there is the number of arguments, behind it a vector of pointers, ended by
  NULL, to strings that are the arguments, in their order; memory below is not written.
\<close>

theorem exec_arguments:
  assumes "hw_ok hw" and "args_fit hw as" and "u_inv hw (ptbr1 s) s"
    and "\<forall>b. argv_start hw as \<le> b \<and> b < VMEM_1_LIMIT hw \<longrightarrow> user_addr hw (ptbr1 s) s b" and "\<forall>a\<in>set as. 0 \<notin> set a"
  shows "\<exists>s'. build_stack hw as s = Some s' \<and> (\<exists>M. s' = s\<lparr>pmem := M\<rparr>) \<and>
    load32 hw s' (argv_start hw as) = Some (length as) \<and> c_args hw s' (argv_start hw as + 4) = Some as \<and>
    (\<forall>b. user_addr hw (ptbr1 s) s b \<longrightarrow> b < argv_start hw as \<longrightarrow> load hw s' b = load hw s b)"
  using build_stack_ok [OF assms] unfolding only_bytes_def .

definition demo_stack :: kernel where
  "demo_stack = demo_kernel\<lparr>upts := (\<lambda>_. demo_empty_pt)(30 := demo_user_pt\<lparr>u_pt := (u_pt demo_user_pt)(14 := entry 19 3)\<rparr>)\<rparr>"

theorem exec_arguments_witness:
  "\<exists>s'. build_stack demo [[104, 105], [120]] demo_stack = Some s' \<and> load32 demo s' 480 = Some 2 \<and>
    c_args demo s' 484 = Some [[104, 105], [120]]"
proof -
  let ?as = "[[104, 105], [120]] :: byte list list"
  have fit: "args_fit demo ?as" by (simp add: args_fit_def args_size_def) (simp add: demo_def)
  have av: "argv_start demo ?as = 480" by (simp add: argv_start_def args_start_def args_size_def u32_id) (simp add: demo_def u32_id)
  have pg: "upages demo 30 demo_stack = [0 \<mapsto> (16, 5), 1 \<mapsto> (17, 3), 14 \<mapsto> (19, 3), 15 \<mapsto> (18, 3)]"
    by (auto simp: demo_stack_def upages_def entries_def demo_user_pt_def demo_empty_pt_def entry_def no_entry_def)
  have b: "ptbr1 demo_stack = 30" "live demo_stack 30" "free_frame demo_stack = demo_ff"
    by (simp_all add: demo_stack_def live_def) (simp add: demo_kernel_def)
  then have u: "u_inv demo (ptbr1 demo_stack) demo_stack"
    by (auto simp: u_inv_def sound_def demo_ff_ok pg demo_used split: if_splits)
  have own: "\<forall>b. 480 \<le> b \<and> b < VMEM_1_LIMIT demo \<longrightarrow> user_addr demo (ptbr1 demo_stack) demo_stack b"
  proof (intro allI impI)
    fix b assume i: "480 \<le> b \<and> b < VMEM_1_LIMIT demo"
    then have "b div 16 = 30 \<or> b div 16 = 31" by auto
    with i show "user_addr demo (ptbr1 demo_stack) demo_stack b"
      by (auto simp: b user_addr_def in_region_1_def user_page_def drop_bit_eq_div pg)
  qed
  show ?thesis using exec_arguments [OF demo_ok fit u] own unfolding av by auto
qed

end
