(* ===== verification/Wait_Spec.thy ===== *)
theory Wait_Spec
  imports Arguments
begin

text \<open>
  Collecting processes that have ended: \<open>process_destroy\<close>, \<open>reap_orphans\<close> and \<open>KernelWait\<close>.
\<close>

section \<open>Destroying one process\<close>

text \<open>The four blocks of a process, and the frames of its kernel stack.\<close>

definition blocks_of :: "'z proc_state_scheme \<Rightarrow> addr \<Rightarrow> addr set" where
  "blocks_of s n = {n, nd_data (nodes s n), pcb_kstack (the_pcb s n), pcb_userpt (the_pcb s n)}"

definition stack_frames :: "hw \<Rightarrow> 'z proc_state_scheme \<Rightarrow> addr \<Rightarrow> int set" where
  "stack_frames hw s n = {f. \<exists>i p. kspages hw (pcb_kstack (the_pcb s n)) s i = Some (f, p)}"

text \<open>The processes \<open>ns\<close> were destroyed: their blocks are freed and the frames of their kernel
  stacks are in the pool; of everything else at most the links between nodes have changed.\<close>

definition reaped :: "hw \<Rightarrow> addr list \<Rightarrow> 'z proc_state_scheme \<Rightarrow> 'z proc_state_scheme \<Rightarrow> bool" where
  "reaped hw ns s s' \<longleftrightarrow>
     alive s' = (\<lambda>a. alive s a \<and> a \<notin> \<Union> (blocks_of s ` set ns)) \<and> brk_next s' = brk_next s \<and>
     (\<forall>m. m \<notin> set ns \<longrightarrow> nd_data (nodes s' m) = nd_data (nodes s m) \<and> nd_code (nodes s' m) = nd_code (nodes s m)) \<and>
     pcbs s' = pcbs s \<and> pids s' = pids s \<and> upts s' = upts s \<and> kernel_pt s' = kernel_pt s \<and> pmem s' = pmem s \<and>
     ptbr1 s' = ptbr1 s \<and> vm_enable s' = vm_enable s \<and> frames_ok hw (free_frame s') \<and>
     (\<forall>k. k \<notin> (\<lambda>n. pcb_kstack (the_pcb s n)) ` set ns \<longrightarrow> kstacks s' k = kstacks s k) \<and>
     ff_size (free_frame s') = ff_size (free_frame s) \<and>
     pool hw (free_frame s') = pool hw (free_frame s) \<union> \<Union> (stack_frames hw s ` set ns) \<and>
     proc_state.more s' = proc_state.more s"

lemma process_destroy_ok:
  assumes hw: "hw_ok hw" and ok: "proc_ok s n" and ks: "ks_inv hw (pcb_kstack (the_pcb s n)) s"
    and d: "distinct [n, nd_data (nodes s n), pcb_kstack (the_pcb s n), pcb_userpt (the_pcb s n)]"
  shows "\<exists>s'. process_destroy hw n s = Some s' \<and> reaped hw [n] s s' \<and> lls s' = lls s \<and>
    (\<forall>m. m \<noteq> n \<longrightarrow> nodes s' m = nodes s m)"
proof -
  let ?p = "nd_data (nodes s n)"
  let ?k = "pcb_kstack (pcbs s ?p)" and ?u = "pcb_userpt (pcbs s ?p)"
  obtain s1 where s1: "destroy_kstack hw ?k s = Some s1" "kst.unmapped hw ?k {0..<NUM_KSTACK_PAGES hw} s s1"
    using destroy_kstack_spec [OF hw ks] by blast
  have keep: "ks_keep ?k s s1" "ks_inv hw ?k s1" "pool hw (free_frame s1) = pool hw (free_frame s) \<union>
      {f. \<exists>i\<in>{0..<NUM_KSTACK_PAGES hw}. \<exists>p. kspages hw ?k s i = Some (f, p)}"
    using s1(2) by (simp_all add: kst.unmapped_def)
  have range: "kspages hw ?k s i = Some e \<Longrightarrow> i \<in> {0..<NUM_KSTACK_PAGES hw}" for i e
    by (auto simp: kspages_def dest: entries_bounds)
  have frames: "pool hw (free_frame s1) = pool hw (free_frame s) \<union> stack_frames hw s n"
    using range unfolding keep(3) stack_frames_def by blast
  have same: "same_heap s s1" using keep(1) by (simp add: ks_keep_def)
  note P = same_heap_proc [OF same]
  have h: "live s1 a = live s a" "nodes s1 = nodes s" "lls s1 = lls s" "pcbs s1 = pcbs s" for a
    using same P by (simp_all add: same_heap_def live_def)
  have l: "live s n" "live s ?p" "live s ?k" "live s ?u" "n \<noteq> NULL"
    using ok by (auto simp: proc_ok_def dest: live_pos)
  define s2 where "s2 = orphaned {?k} {} s1"
  define s3 where "s3 = orphaned {?u} {} s2"
  define s4 where "s4 = orphaned {?p} {} s3"
  define s5 where "s5 = s4\<lparr>nodes := (nodes s4)(n := (nodes s4 n)\<lparr>nd_data := NULL, nd_next := NULL, nd_prev := NULL, nd_code := - 1\<rparr>)\<rparr>"
  define s6 where "s6 = orphaned {n} {} s5"
  have f: "free ?k s1 = Some s2" "free ?u s2 = Some s3" "free ?p s3 = Some s4" "free n s5 = Some s6"
    using l d by (auto simp: s2_def s3_def s4_def s5_def s6_def free_orphaned h)
  have r: "rd_node s n = Some (nodes s n)" "rd_pcb s ?p = Some (pcbs s ?p)" "rd_pcb s1 ?p = Some (pcbs s ?p)"
      "rd_pcb s2 ?p = Some (pcbs s ?p)" "rd_node s3 n = Some (nodes s n)"
    using l d by (auto simp: s2_def s3_def h)
  have u: "do { s \<leftarrow> upd_node n (\<lambda>n. n\<lparr>nd_data := NULL, nd_next := NULL, nd_prev := NULL\<rparr>) s4;
      upd_node n (\<lambda>n. n\<lparr>nd_code := - 1\<rparr>) s } = Some s5"
    using l d by (auto simp: s5_def s4_def s3_def s2_def h upd_node_def)
  have "destroy_node n s3 = Some s6"
    using l(5) r(5) f(3,4) u by (auto simp: destroy_node_def bind_Some_iff)
  then have "process_destroy hw n s = Some s6"
    using r f s1(1) by (simp add: process_destroy_def Let_def)
  moreover have n6: "nodes s6 = (nodes s)(n := (nodes s n)\<lparr>nd_data := NULL, nd_next := NULL, nd_prev := NULL, nd_code := - 1\<rparr>)"
    by (simp add: s6_def s5_def s4_def s3_def s2_def h)
  moreover have "lls s6 = lls s" by (simp add: s6_def s5_def s4_def s3_def s2_def h)
  moreover have "reaped hw [n] s s6"
  proof -
    have "alive s6 = (\<lambda>a. alive s a \<and> a \<notin> blocks_of s n)"
      using same by (auto simp: s6_def s5_def s4_def s3_def s2_def blocks_of_def same_heap_def)
    moreover have "frames_ok hw (free_frame s1)" using keep(2) by (simp add: ks_inv_def sound_def)
    moreover have "brk_next s6 = brk_next s1" "pcbs s6 = pcbs s1" "pids s6 = pids s1" "upts s6 = upts s1" "kernel_pt s6 = kernel_pt s1"
      "pmem s6 = pmem s1" "ptbr1 s6 = ptbr1 s1" "vm_enable s6 = vm_enable s1" "free_frame s6 = free_frame s1"
      "kstacks s6 = kstacks s1" "proc_state.more s6 = proc_state.more s1"
      by (simp_all add: s6_def s5_def s4_def s3_def s2_def orphaned_def)
    ultimately show ?thesis
      using frames keep(1) P n6 by (simp add: reaped_def ks_keep_def same_heap_def)
  qed
  ultimately show ?thesis by (intro exI [of _ s6]) simp
qed


section \<open>Processes that wait to be destroyed\<close>

abbreviation scope :: "'z sched_scheme \<Rightarrow> (addr \<rightharpoonup> addr list) \<Rightarrow> addr set \<Rightarrow> addr set" where
  "scope s Q B \<equiv> insert (running (procs s)) (insert (idle_node s) (members Q B))"

definition typed_proc :: "(addr \<Rightarrow> block) \<Rightarrow> 'z proc_state_scheme \<Rightarrow> addr \<Rightarrow> bool" where
  "typed_proc T s n \<longleftrightarrow> T n = B_node \<and> T (nd_data (nodes s n)) = B_pcb \<and> T (pcb_kstack (the_pcb s n)) = B_kstack \<and>
     T (pcb_userpt (the_pcb s n)) = B_userpt"

lemma heap_typed_iff: "heap_typed T s Q B \<longleftrightarrow>
    (\<forall>l\<in>dom Q. T l = B_ll) \<and> (\<forall>n. queued Q n \<longrightarrow> T n = B_node) \<and> (\<forall>n\<in>scope s Q B. typed_proc T s n)"
  by (simp add: heap_typed_def typed_proc_def)

definition shares_none :: "'z proc_state_scheme \<Rightarrow> addr \<Rightarrow> addr \<Rightarrow> bool" where
  "shares_none s n m \<longleftrightarrow> nd_data (nodes s n) \<noteq> nd_data (nodes s m) \<and>
     pcb_kstack (the_pcb s n) \<noteq> pcb_kstack (the_pcb s m) \<and> pcb_userpt (the_pcb s n) \<noteq> pcb_userpt (the_pcb s m)"

text \<open>The processes \<open>ns\<close> can be destroyed one after the other: each is whole, and no other process
  of \<open>ns\<close> or of \<open>P\<close> has a block or a frame of its kernel stack.\<close>

definition defuncts ::
  "hw \<Rightarrow> (addr \<Rightarrow> block) \<Rightarrow> 'z proc_state_scheme \<Rightarrow> addr set \<Rightarrow> addr list \<Rightarrow> bool" where
  "defuncts hw T s P ns \<longleftrightarrow> distinct ns \<and>
     (\<forall>n\<in>set ns. typed_proc T s n \<and> proc_ok s n \<and> ks_inv hw (pcb_kstack (the_pcb s n)) s) \<and>
     (\<forall>n\<in>set ns. \<forall>m\<in>P \<union> set ns. n \<noteq> m \<longrightarrow> shares_none s n m) \<and>
     (\<forall>n\<in>set ns. \<forall>m\<in>set ns. n \<noteq> m \<longrightarrow> stack_frames hw s n \<inter> stack_frames hw s m = {})"

lemma defuncts_cong:
  assumes "defuncts hw T s P ns" and "P' \<subseteq> P"
    and "\<And>n. n \<in> P \<union> set ns \<Longrightarrow> nd_data (nodes s' n) = nd_data (nodes s n)" and "pcbs s' = pcbs s" and "alive s' = alive s"
    and "kstacks s' = kstacks s" and "free_frame s' = free_frame s"
  shows "defuncts hw T s' P' ns"
proof -
  have l: "live s' a = live s a" for a by (simp add: live_def assms(5))
  have p: "the_pcb s' n = the_pcb s n" if "n \<in> P \<union> set ns" for n using assms(3) [OF that] by (simp add: assms(4))
  have k: "kspages hw a s' = kspages hw a s" for a by (simp add: kspages_def assms(6))
  have "typed_proc T s' n = typed_proc T s n" "proc_ok s' n = proc_ok s n" "stack_frames hw s' n = stack_frames hw s n"
      "ks_inv hw (pcb_kstack (the_pcb s' n)) s' = ks_inv hw (pcb_kstack (the_pcb s n)) s" if "n \<in> P \<union> set ns" for n
    using assms(3) [OF that] p [OF that]
    by (simp_all add: typed_proc_def proc_ok_def stack_frames_def ks_inv_def l k assms(4,7))
  moreover have "shares_none s' n m = shares_none s n m" if "n \<in> P \<union> set ns" "m \<in> P \<union> set ns" for n m
    using assms(3) [OF that(1)] assms(3) [OF that(2)] by (simp add: shares_none_def assms(4))
  moreover have "m \<in> P' \<union> set ns \<Longrightarrow> m \<in> P \<union> set ns" for m using assms(2) by auto
  ultimately show ?thesis using assms(1) unfolding defuncts_def by simp
qed

lemma sound_pool:
  assumes "sound hw ff E" and "frames_ok hw ff'" and "ff_size ff' = ff_size ff" and "pool hw ff' = pool hw ff \<union> F"
    and "\<And>i f p. E i = Some (f, p) \<Longrightarrow> f \<notin> F"
  shows "sound hw ff' E"
proof -
  have "f \<in> used hw ff'" if E: "E i = Some (f, p)" for i f p
  proof -
    have "f \<in> used hw ff" using assms(1) E by (auto simp: sound_def)
    then have "f \<in> {BASE_FRAME hw..<BASE_FRAME hw + ff_size ff'} - pool hw ff'"
      using assms(4) assms(5) [OF E] used_range [of hw ff] by (auto simp: assms(3) pool_def)
    then show ?thesis by (simp add: pool_def)
  qed
  with assms(1,2) show ?thesis by (simp add: sound_def)
qed

lemma more_sched:
  fixes s s' :: "'z sched_scheme"
  assumes "proc_state.more s' = proc_state.more s"
  shows "procs s' = procs s" "idle_node s' = idle_node s" "init_node s' = init_node s" "sched.more s' = sched.more s"
  using assms by (cases s; cases s'; simp)+

lemma reapedD:
  fixes s s' :: "'z sched_scheme"
  assumes "reaped hw ns s s'"
  shows "pcbs s' = pcbs s" "procs s' = procs s" "idle_node s' = idle_node s" "init_node s' = init_node s"
    "live s' a \<longleftrightarrow> live s a \<and> a \<notin> \<Union> (blocks_of s ` set ns)"
    "m \<notin> set ns \<Longrightarrow> nd_data (nodes s' m) = nd_data (nodes s m)"
  using assms more_sched [of s' s] by (auto simp: reaped_def live_def)

lemma destroy_step:
  fixes s :: "'z sched_scheme"
  assumes hw: "hw_ok hw" and inv: "sched_inv s Q B" and ty: "heap_typed T s Q B" and df: "defuncts hw T s P (n # ms)"
    and P: "scope s Q B \<subseteq> P" and n: "\<not> queued Q n" "n \<notin> P"
  shows "\<exists>s'. process_destroy hw n s = Some s' \<and> reaped hw [n] s s' \<and> sched_inv s' Q B \<and> heap_typed T s' Q B \<and>
    defuncts hw T s' P ms"
proof -
  note I = sched_invD [OF inv] and M = sched_midD [OF sched_invD(1) [OF inv]]
  have tn: "typed_proc T s n" "proc_ok s n" "ks_inv hw (pcb_kstack (the_pcb s n)) s" using df by (simp_all add: defuncts_def)
  then have "distinct [n, nd_data (nodes s n), pcb_kstack (the_pcb s n), pcb_userpt (the_pcb s n)]"
    by (auto simp: typed_proc_def)
  then obtain s' where s': "process_destroy hw n s = Some s'" "reaped hw [n] s s'" "lls s' = lls s"
      "\<And>m. m \<noteq> n \<Longrightarrow> nodes s' m = nodes s m"
    using process_destroy_ok [OF hw tn(2,3)] by blast
  note R = reapedD [OF s'(2)]
  have lv: "live s' a \<longleftrightarrow> live s a \<and> a \<notin> blocks_of s n" for a using R(5) by simp
  have ty': "\<forall>l\<in>dom Q. T l = B_ll" "\<And>m. queued Q m \<Longrightarrow> T m = B_node" "\<And>m. m \<in> scope s Q B \<Longrightarrow> typed_proc T s m"
    using ty by (auto simp: heap_typed_iff)
  have sh: "shares_none s n m" "m \<noteq> n" if "m \<in> P \<union> set ms" for m
    using df that n(2) by (auto simp: defuncts_def)
  have lok: "lists_ok s' Q"
  proof (rule lists_ok_cong [OF M(1)])
    show "live s' l \<and> lls s' l = lls s l" if "l \<in> dom Q" for l
    proof -
      have "T l = B_ll" using ty'(1) that by simp
      then have "l \<notin> blocks_of s n" using tn(1) by (auto simp: blocks_of_def typed_proc_def)
      with that lists_ok_hdr [OF M(1), of l] s'(3) show ?thesis by (auto simp: lv)
    qed
    show "live s' m \<and> nodes s' m = nodes s m" if "queued Q m" for m
    proof -
      have "m \<noteq> n" using that n(1) by auto
      with ty'(2) [OF that] tn(1) lists_ok_live [OF M(1) that] s'(4) show ?thesis
        by (auto simp: lv blocks_of_def typed_proc_def)
    qed
  qed
  have keep: "typed_proc T s' m" "proc_ok s' m" if "m \<in> P \<union> set ms" "typed_proc T s m" "proc_ok s m" for m
    using sh [OF that(1)] that(2,3) tn(1) s'(4)
    by (auto simp: typed_proc_def proc_ok_def R(1) lv blocks_of_def shares_none_def)
  have sc: "scope s' Q B = scope s Q B" by (simp only: R(2,3))
  have ok: "typed_proc T s' m" "proc_ok s' m" if m: "m \<in> scope s Q B" for m
  proof -
    have "m \<in> P \<union> set ms" using m P by blast
    moreover have "proc_ok s m" using m M(2,3,11) by (auto simp: members_def)
    ultimately show "typed_proc T s' m" "proc_ok s' m" using keep ty'(3) [OF m] by blast+
  qed
  have "proc_ok s' m" if "l \<in> B" "m \<in> set (the (Q l))" for l m
    using ok(2) [of m] that by (auto simp: members_def)
  moreover have "proc_ok s' (running (procs s))" "proc_ok s' (idle_node s)" using ok(2) by simp_all
  ultimately have "sched_inv s' Q B"
    using inv lok by (simp add: sched_inv_def sched_mid_def R(2,3))
  moreover have "heap_typed T s' Q B"
    unfolding heap_typed_iff sc using ty'(1,2) ok(1) by blast
  moreover have "defuncts hw T s' P ms"
  proof -
    have kp: "kspages hw (pcb_kstack (the_pcb s' m)) s' = kspages hw (pcb_kstack (the_pcb s m)) s" if "m \<in> set ms" for m
    proof -
      have "shares_none s n m" "m \<noteq> n" using sh that by auto
      then have "pcb_kstack (the_pcb s m) \<noteq> pcb_kstack (the_pcb s n)" "the_pcb s' m = the_pcb s m"
        using s'(4) R(1) by (auto simp: shares_none_def)
      then show ?thesis using s'(2) by (simp add: reaped_def kspages_def)
    qed
    have fr: "stack_frames hw s' m = stack_frames hw s m" if "m \<in> set ms" for m
      using kp [OF that] by (simp add: stack_frames_def)
    have "ks_inv hw (pcb_kstack (the_pcb s' m)) s'" if m: "m \<in> set ms" for m
    proof -
      have d: "ks_inv hw (pcb_kstack (the_pcb s m)) s" "stack_frames hw s n \<inter> stack_frames hw s m = {}"
        using df m by (auto simp: defuncts_def)
      have "sound hw (free_frame s') (kspages hw (pcb_kstack (the_pcb s m)) s)"
      proof (rule sound_pool)
        show "sound hw (free_frame s) (kspages hw (pcb_kstack (the_pcb s m)) s)" using d(1) by (simp add: ks_inv_def)
        show "frames_ok hw (free_frame s')" "ff_size (free_frame s') = ff_size (free_frame s)"
            "pool hw (free_frame s') = pool hw (free_frame s) \<union> stack_frames hw s n"
          using s'(2) by (simp_all add: reaped_def)
        show "f \<notin> stack_frames hw s n" if "kspages hw (pcb_kstack (the_pcb s m)) s i = Some (f, p)" for i f p
          using d(2) that by (auto simp: stack_frames_def)
      qed
      moreover have "proc_ok s' m" using keep(2) [of m] df m by (simp add: defuncts_def)
      ultimately show ?thesis using kp [OF m] by (simp add: ks_inv_def proc_ok_def)
    qed
    moreover have "shares_none s' m k" if "m \<in> set ms" "k \<in> P \<union> set ms" "m \<noteq> k" for m k
    proof -
      have "shares_none s m k" using df that by (auto simp: defuncts_def)
      with sh(2) that(1,2) s'(4) R(1) show ?thesis by (simp add: shares_none_def)
    qed
    moreover have "typed_proc T s m" "proc_ok s m" if "m \<in> set ms" for m using df that by (auto simp: defuncts_def)
    moreover have "distinct ms" "\<forall>m\<in>set ms. \<forall>k\<in>set ms. m \<noteq> k \<longrightarrow> stack_frames hw s m \<inter> stack_frames hw s k = {}"
      using df by (auto simp: defuncts_def)
    ultimately show ?thesis unfolding defuncts_def using keep fr by simp
  qed
  ultimately show ?thesis using s'(1,2) by blast
qed


section \<open>The orphans\<close>

lemma reaped_trans:
  assumes "reaped hw ns s s'" and "reaped hw ms s' s''"
    and "\<And>m. m \<in> set ms \<Longrightarrow> m \<notin> set ns \<and> pcb_kstack (the_pcb s m) \<notin> (\<lambda>n. pcb_kstack (the_pcb s n)) ` set ns"
  shows "reaped hw (ns @ ms) s s''"
proof -
  have p: "pcbs s' = pcbs s" using assms(1) by (simp add: reaped_def)
  have k: "blocks_of s' m = blocks_of s m" "pcb_kstack (the_pcb s' m) = pcb_kstack (the_pcb s m)"
      "stack_frames hw s' m = stack_frames hw s m" if "m \<in> set ms" for m
  proof -
    have "the_pcb s' m = the_pcb s m" "nd_data (nodes s' m) = nd_data (nodes s m)"
        "kstacks s' (pcb_kstack (the_pcb s m)) = kstacks s (pcb_kstack (the_pcb s m))"
      using assms(1) assms(3) [OF that] by (simp_all add: reaped_def)
    then show "blocks_of s' m = blocks_of s m" "pcb_kstack (the_pcb s' m) = pcb_kstack (the_pcb s m)"
      "stack_frames hw s' m = stack_frames hw s m" by (simp_all add: blocks_of_def stack_frames_def kspages_def)
  qed
  have u: "\<Union> (blocks_of s' ` set ms) = \<Union> (blocks_of s ` set ms)" "\<Union> (stack_frames hw s' ` set ms) = \<Union> (stack_frames hw s ` set ms)"
      "(\<lambda>n. pcb_kstack (the_pcb s' n)) ` set ms = (\<lambda>n. pcb_kstack (the_pcb s n)) ` set ms"
    using k by (auto intro: image_cong)
  have ks: "kstacks s'' k = kstacks s k" if "k \<notin> (\<lambda>n. pcb_kstack (the_pcb s n)) ` set (ns @ ms)" for k
  proof -
    have k: "k \<notin> (\<lambda>n. pcb_kstack (the_pcb s n)) ` set ns" "k \<notin> (\<lambda>n. pcb_kstack (the_pcb s' n)) ` set ms"
      unfolding u(3) using that by (simp_all add: image_Un del: image_iff)
    have "kstacks s'' k = kstacks s' k" using assms(2) k(2) unfolding reaped_def by blast
    moreover have "kstacks s' k = kstacks s k" using assms(1) k(1) unfolding reaped_def by blast
    ultimately show ?thesis by simp
  qed
  have nd: "nd_data (nodes s'' m) = nd_data (nodes s m) \<and> nd_code (nodes s'' m) = nd_code (nodes s m)" if "m \<notin> set (ns @ ms)" for m
    using assms(1,2) that by (simp add: reaped_def)
  have al: "alive s'' = (\<lambda>a. alive s a \<and> a \<notin> \<Union> (blocks_of s ` set (ns @ ms)))"
  proof -
    have "alive s' = (\<lambda>a. alive s a \<and> a \<notin> \<Union> (blocks_of s ` set ns))"
      "alive s'' = (\<lambda>a. alive s' a \<and> a \<notin> \<Union> (blocks_of s ` set ms))" using assms(1,2) unfolding reaped_def u(1) by blast+
    then show ?thesis by auto
  qed
  have "pool hw (free_frame s'') = pool hw (free_frame s) \<union> \<Union> (stack_frames hw s ` set (ns @ ms))"
  proof -
    have "pool hw (free_frame s') = pool hw (free_frame s) \<union> \<Union> (stack_frames hw s ` set ns)"
      "pool hw (free_frame s'') = pool hw (free_frame s') \<union> \<Union> (stack_frames hw s ` set ms)"
      using assms(1,2) unfolding reaped_def u(2) by blast+
    then show ?thesis by auto
  qed
  with al ks nd assms(1,2) show ?thesis unfolding reaped_def by simp
qed

lemma links_mem:
  fixes s s' :: "'z sched_scheme"
  assumes "links_only s s'"
  shows "pcbs s' = pcbs s" "kstacks s' = kstacks s" "free_frame s' = free_frame s" "upts s' = upts s" "ptbr1 s' = ptbr1 s"
proof -
  obtain N L where "s' = s\<lparr>nodes := N, lls := L\<rparr>" using assms by (auto simp: links_only_def)
  then show "pcbs s' = pcbs s" "kstacks s' = kstacks s" "free_frame s' = free_frame s" "upts s' = upts s" "ptbr1 s' = ptbr1 s"
    by simp_all
qed

lemma reaped_links:
  assumes "links_only s s1" and "reaped hw ns s1 s'"
  shows "reaped hw ns s s'"
proof -
  obtain N L where s1: "s1 = s\<lparr>nodes := N, lls := L\<rparr>" using assms(1) by (auto simp: links_only_def)
  have d: "nd_data (N m) = nd_data (nodes s m)" "nd_code (N m) = nd_code (nodes s m)" for m
    using links_onlyD(4,5) [OF assms(1)] by (simp_all add: s1)
  have "blocks_of s1 = blocks_of s" "stack_frames hw s1 = stack_frames hw s"
    by (simp_all add: fun_eq_iff blocks_of_def stack_frames_def kspages_def s1 d)
  with assms(2) show ?thesis by (simp add: reaped_def s1 d)
qed

lemma reaped_none: "frames_ok hw (free_frame s) \<Longrightarrow> reaped hw [] s s"
  by (simp add: reaped_def)

text \<open>A node is taken from the front of a list of processes.\<close>

lemma take_first:
  assumes inv: "sched_inv s Q B" and ty: "heap_typed T s Q B" and Q: "Q l = Some (n # xs)"
  shows "\<exists>s'. dequeue l s = Some (n, s') \<and> links_only s s' \<and> sched_inv s' (Q(l \<mapsto> xs)) B \<and> heap_typed T s' (Q(l \<mapsto> xs)) B \<and>
    \<not> queued (Q(l \<mapsto> xs)) n"
proof -
  note I = sched_invD [OF inv] and M = sched_midD [OF sched_invD(1) [OF inv]]
  obtain s1 where s1: "dequeue l s = Some (n, s1)" "lists_ok s1 (Q(l \<mapsto> xs))" "links_only s s1"
    using dequeue_ok [OF M(1) Q] by blast
  note F = links_sched_frame [OF s1(3)]
  have q: "queued (Q(l \<mapsto> xs)) m \<Longrightarrow> queued Q m" for m using Q by (fastforce simp: queued_def split: if_splits)
  have mem: "members (Q(l \<mapsto> xs)) B \<subseteq> members Q B" using Q by (force simp: members_def split: if_splits)
  have "sched_mid s1 (Q(l \<mapsto> xs)) B"
    by (rule sched_mid_step [OF I(1) s1(2) F(1)]) (use M(2,4,11) q F(2) Q in \<open>auto split: if_splits\<close>)
  then have "sched_inv s1 (Q(l \<mapsto> xs)) B" using q I(2) by (auto simp: sched_inv_def F(2))
  moreover have "heap_typed T s1 (Q(l \<mapsto> xs)) B"
    unfolding heap_typed_iff
  proof (intro conjI ballI allI impI)
    show "T k = B_ll" if "k \<in> dom (Q(l \<mapsto> xs))" for k
    proof -
      have "k \<in> dom Q" using that Q by (auto split: if_splits)
      with ty show ?thesis by (simp only: heap_typed_iff)
    qed
    show "T m = B_node" if "queued (Q(l \<mapsto> xs)) m" for m using ty q [OF that] by (simp only: heap_typed_iff)
    show "typed_proc T s1 m" if "m \<in> scope s1 (Q(l \<mapsto> xs)) B" for m
    proof -
      have "m \<in> scope s Q B" using that mem F by (auto simp: sched_frameD [OF F(1)])
      then have "typed_proc T s m" using ty by (simp only: heap_typed_iff)
      then show ?thesis by (simp add: typed_proc_def links_onlyD(4) [OF s1(3)] sched_frame_pcb [OF F(1)])
    qed
  qed
  moreover have "\<not> queued (Q(l \<mapsto> xs)) n" using nodeq.taken_out [OF M(1), of l "[]" n xs] Q by simp
  ultimately show ?thesis using s1(1,3) by blast
qed

lemma reap_orphans_ok:
  fixes s :: "'z sched_scheme"
  assumes hw: "hw_ok hw" and "sched_inv s Q B" and "heap_typed T s Q B" and "Q (orphans_ll (procs s)) = Some ns"
    and "defuncts hw T s P ns" and "P \<inter> set ns = {}" and "scope s Q B \<subseteq> P \<union> set ns" and "frames_ok hw (free_frame s)"
  shows "\<exists>s'. reap_orphans hw s = Some s' \<and> reaped hw ns s s' \<and> sched_inv s' (Q(orphans_ll (procs s) \<mapsto> [])) B \<and>
    heap_typed T s' (Q(orphans_ll (procs s) \<mapsto> [])) B"
  using assms(2-)
proof (induction ns arbitrary: s Q)
  case Nil
  have "is_empty (orphans_ll (procs s)) s = Some 1" using is_empty_eq [OF sched_invD(3) [OF Nil(1)] Nil(3)] by simp
  moreover have "Q(orphans_ll (procs s) \<mapsto> []) = Q" using Nil(3) by auto
  ultimately show ?case using Nil reaped_none by (auto simp: reap_orphans.simps [of hw s])
next
  case (Cons n ns)
  let ?l = "orphans_ll (procs s)"
  have e: "is_empty ?l s = Some 0" using is_empty_eq [OF sched_invD(3) [OF Cons.prems(1)] Cons.prems(3)] by simp
  obtain s1 where s1: "dequeue ?l s = Some (n, s1)" "links_only s s1" "sched_inv s1 (Q(?l \<mapsto> ns)) B"
      "heap_typed T s1 (Q(?l \<mapsto> ns)) B" "\<not> queued (Q(?l \<mapsto> ns)) n"
    using take_first [OF Cons.prems(1-3)] by blast
  note F = links_sched_frame [OF s1(2)] and L = links_onlyD [OF s1(2)]
  have same: "pcbs s1 = pcbs s" "kstacks s1 = kstacks s" "free_frame s1 = free_frame s"
    using links_mem [OF s1(2)] by simp_all
  have "defuncts hw T s (P \<union> set ns) (n # ns)" using Cons.prems(4) by (auto simp: defuncts_def)
  then have df: "defuncts hw T s1 (P \<union> set ns) (n # ns)"
    by (rule defuncts_cong) (simp_all add: L same)
  have sc: "scope s1 (Q(?l \<mapsto> ns)) B \<subseteq> P \<union> set ns"
  proof -
    have "members (Q(?l \<mapsto> ns)) B \<subseteq> members Q B" "n \<notin> members (Q(?l \<mapsto> ns)) B"
      using Cons.prems(3) s1(5) sched_midD(10) [OF sched_invD(1) [OF s1(3)]]
      by (force simp: members_def split: if_splits, force simp: members_def queued_def)
    moreover have "n \<noteq> running (procs s)" "n \<noteq> idle_node s"
      using sched_invD(2) [OF Cons.prems(1)] sched_midD(4) [OF sched_invD(1) [OF Cons.prems(1)]]
        not_queuedD [of Q _ ?l "n # ns"] Cons.prems(3) by auto
    ultimately show ?thesis using Cons.prems(6) by (auto simp: F(2) sched_frameD(8) [OF F(1)])
  qed
  have n: "n \<notin> P \<union> set ns" using Cons.prems(4,5) by (auto simp: defuncts_def)
  obtain s2 where s2: "process_destroy hw n s1 = Some s2" "reaped hw [n] s1 s2" "sched_inv s2 (Q(?l \<mapsto> ns)) B"
      "heap_typed T s2 (Q(?l \<mapsto> ns)) B" "defuncts hw T s2 (P \<union> set ns) ns"
    using destroy_step [OF hw s1(3,4) df sc s1(5) n] by blast
  have p2: "procs s2 = procs s" "idle_node s2 = idle_node s"
    using reapedD(2,3) [OF s2(2)] F by (simp_all add: sched_frameD(8) [OF F(1)])
  have df2: "defuncts hw T s2 P ns" by (rule defuncts_cong [OF s2(5)]) simp_all
  have sc2: "scope s2 (Q(?l \<mapsto> ns)) B \<subseteq> P \<union> set ns" using sc by (simp add: p2 F(2) sched_frameD(8) [OF F(1)])
  have ok2: "frames_ok hw (free_frame s2)" using s2(2) by (simp add: reaped_def)
  obtain s' where s': "reap_orphans hw s2 = Some s'" "reaped hw ns s2 s'" "sched_inv s' (Q(?l \<mapsto> [])) B"
      "heap_typed T s' (Q(?l \<mapsto> [])) B"
  proof -
    have "(Q(?l \<mapsto> ns)) (orphans_ll (procs s2)) = Some ns" "P \<inter> set ns = {}" using Cons.prems(5) by (simp_all add: p2)
    from Cons.IH [OF s2(3,4) this(1) df2 this(2) sc2 ok2] that show thesis unfolding p2(1) fun_upd_upd by blast
  qed
  have "reap_orphans hw s = Some s'"
    using e s1(1) s2(1) s'(1) by (simp add: reap_orphans.simps [of hw s])
  moreover have "reaped hw ([n] @ ns) s s'"
  proof (rule reaped_trans [OF reaped_links [OF s1(2) s2(2)] s'(2)])
    show "m \<notin> set [n] \<and> pcb_kstack (the_pcb s m) \<notin> (\<lambda>n. pcb_kstack (the_pcb s n)) ` set [n]" if "m \<in> set ns" for m
      using Cons.prems(4) that by (force simp: defuncts_def shares_none_def)
  qed
  then have "reaped hw (n # ns) s s'" by simp
  ultimately show ?case using s'(3,4) by blast
qed


section \<open>Collecting a child\<close>

lemma load_same:
  assumes "hw_ok hw" and "live s (ptbr1 s)" "live s' (ptbr1 s)" and "ptbr1 s' = ptbr1 s" "upts s' = upts s" "pmem s' = pmem s"
    and "own hw s b"
  shows "load hw s' b = load hw s b"
proof -
  obtain f p where f: "upages hw (ptbr1 s) s (user_page hw b) = Some (f, p)" "frame_at hw s (int (drop_bit (PAGESHIFT hw) b)) = Some f"
    using own_frame [OF assms(1,2,7)] .
  have "upages hw x s' = upages hw x s" for x by (simp add: upages_def assms(5))
  then have "own hw s' b" "live s' (ptbr1 s')" using assms(3,4,7) by (simp_all add: user_addr_def)
  then obtain g q where "upages hw (ptbr1 s') s' (user_page hw b) = Some (g, q)" "frame_at hw s' (int (drop_bit (PAGESHIFT hw) b)) = Some g"
    using own_frame [OF assms(1), of s' b] by metis
  with f assms(4-6) show ?thesis by (simp add: load_def upages_def)
qed

lemma status_store:
  assumes hw: "hw_ok hw" and u: "u_inv hw (ptbr1 s) s" and st: "st = NULL \<or> (\<forall>b. st \<le> b \<and> b < st + 4 \<longrightarrow> own hw s b)"
  shows "\<exists>s'. (if st \<noteq> NULL then store32 hw st v s else Some s) = Some s' \<and>
    written hw (if st = NULL then {} else {st..<st + 4}) (\<lambda>b. word_byte v (b - st)) s s'"
proof (cases "st = NULL")
  case True
  then show ?thesis by (simp add: written_none)
next
  case False
  then have "own hw s (st + 3)" using st by simp
  then have "st + 4 < 2 ^ 32" using hw by (auto simp: user_addr_def in_region_1_def hw_ok_def)
  with store32_ok [OF hw u] st False show ?thesis by simp
qed

lemma links_pmem: assumes "links_only s s1" shows "links_only (s\<lparr>pmem := M\<rparr>) (s1\<lparr>pmem := M\<rparr>)"
proof -
  have e: "s1 = s\<lparr>nodes := nodes s1, lls := lls s1\<rparr>" "\<forall>m. nd_data (nodes s1 m) = nd_data (nodes s m) \<and> nd_code (nodes s1 m) = nd_code (nodes s m)" using assms by (simp_all add: links_only_def)
  have "s1\<lparr>pmem := M\<rparr> = s\<lparr>pmem := M, nodes := nodes s1, lls := lls s1\<rparr>" by (subst e(1)) simp
  with e(2) show ?thesis by (simp add: links_only_def)
qed

lemma wait_collects:
  fixes s :: "'z sched_scheme"
  assumes hw: "hw_ok hw" and inv: "sched_inv s Q B" and ty: "heap_typed T s Q B"
  defines "p \<equiv> the_pcb s (running (procs s))"
  defines "D \<equiv> pcb_d_children p"
  assumes u: "u_inv hw (ptbr1 s) s" "ptbr1 s = pcb_userpt p" and st: "st = NULL \<or> (\<forall>b. st \<le> b \<and> b < st + 4 \<longrightarrow> own hw s b)"
    and A: "Q (pcb_a_children p) \<noteq> None" and D: "Q D = Some (c # cs)" "D \<notin> B" and os: "Q (orphans_ll (procs s)) = Some os"
    and df: "defuncts hw T s (scope s Q B) (c # os)"
  shows "\<exists>s'. KernelWait hw st s = Some (Ret (pcb_pid (the_pcb s c)), s') \<and>
    sched_inv s' (Q(D \<mapsto> cs, orphans_ll (procs s) \<mapsto> [])) B \<and> heap_typed T s' (Q(D \<mapsto> cs, orphans_ll (procs s) \<mapsto> [])) B \<and>
    reaped hw (c # os) (s\<lparr>pmem := pmem s'\<rparr>) s' \<and>
    (\<forall>b. own hw s b \<longrightarrow> load hw s' b =
      (if st \<noteq> NULL \<and> st \<le> b \<and> b < st + 4 then Some (word_byte (code_in s c) (b - st)) else load hw s b))"
proof -
  let ?me = "running (procs s)" and ?Q = "Q(D \<mapsto> cs)" and ?l = "orphans_ll (procs s)"
  note I = sched_invD [OF inv] and M = sched_midD [OF sched_invD(1) [OF inv]]
  have live: "live s ?me" "live s (nd_data (nodes s ?me))" "live s (ptbr1 s)"
    using I(4) u by (simp_all add: proc_ok_def u_inv_def)
  have tc: "typed_proc T s c" "proc_ok s c" using df by (simp_all add: defuncts_def)
  obtain xs where xs: "Q (pcb_a_children p) = Some xs" using A by blast
  obtain s1 where s1: "dequeue D s = Some (c, s1)" "links_only s s1" "sched_inv s1 ?Q B" "heap_typed T s1 ?Q B" "\<not> queued ?Q c"
    using take_first [OF inv ty D(1)] by blast
  note L = links_onlyD [OF s1(2)] and G = links_mem [OF s1(2)] and F = links_sched_frame [OF s1(2)]
  have u1: "u_inv hw (ptbr1 s1) s1" "own hw s1 b = own hw s b" "load hw s1 b = load hw s b" for b
  proof -
    obtain N L' where "s1 = s\<lparr>nodes := N, lls := L'\<rparr>" using s1(2) by (auto simp: links_only_def)
    then show "u_inv hw (ptbr1 s1) s1" "own hw s1 b = own hw s b" "load hw s1 b = load hw s b"
      using u(1) by (auto simp: u_inv_def user_addr_def upages_def load_def frame_at_def rd_kpte_def rd_upte_def live_def)
  qed
  obtain s2 where s2: "(if st \<noteq> NULL then store32 hw st (code_in s c) s1 else Some s1) = Some s2"
      "written hw (if st = NULL then {} else {st..<st + 4}) (\<lambda>b. word_byte (code_in s c) (b - st)) s1 s2"
    using status_store [OF hw u1(1)] st unfolding u1(2) by blast
  then obtain m where m: "s2 = s1\<lparr>pmem := m\<rparr>" by (auto simp: written_def only_bytes_def)
  have inv2: "sched_inv s2 ?Q B" "heap_typed T s2 ?Q B"
    using s1(3,4) by (simp_all add: m heap_typed_def sched_inv_alike [of "s1\<lparr>pmem := m\<rparr>" s1])
  have df2: "defuncts hw T s2 (scope s Q B) (c # os)"
    by (rule defuncts_cong [OF df]) (simp_all add: m L G)
  have mem: "members ?Q B = members Q B" using D(2) by (force simp: members_def split: if_splits)
  have sc: "scope s2 ?Q B = scope s Q B" by (simp add: m mem F(2) sched_frameD(8) [OF F(1)])
  have "c \<notin> members Q B"
  proof
    assume "c \<in> members Q B"
    then obtain l where "l \<in> B" "c \<in> set (the (?Q l))" unfolding mem [symmetric] by (auto simp: members_def)
    with s1(5) sched_midD(10) [OF sched_invD(1) [OF s1(3)]] show False by (metis queued_def)
  qed
  moreover have "c \<noteq> ?me" "c \<noteq> idle_node s" using not_queuedD [OF I(2) D(1)] not_queuedD [OF M(4) D(1)] by auto
  ultimately have c: "c \<notin> scope s Q B" by simp
  obtain s3 where s3: "process_destroy hw c s2 = Some s3" "reaped hw [c] s2 s3" "sched_inv s3 ?Q B" "heap_typed T s3 ?Q B"
      "defuncts hw T s3 (scope s Q B) os"
    using destroy_step [OF hw inv2 df2 _ s1(5) c] sc by auto
  have p3: "procs s3 = procs s" "idle_node s3 = idle_node s"
    using reapedD(2,3) [OF s3(2)] F by (simp_all add: m sched_frameD(8) [OF F(1)])
  have lo: "?l \<noteq> D" using D(2) M(8) by auto
  have Q3: "?Q (orphans_ll (procs s3)) = Some os" using os lo by (simp add: p3)
  have sc3: "scope s3 ?Q B \<subseteq> (scope s Q B - set os) \<union> set os" by (auto simp: p3 mem)
  have df3: "defuncts hw T s3 (scope s Q B - set os) os" by (rule defuncts_cong [OF s3(5)]) auto
  have ok3: "frames_ok hw (free_frame s3)" using s3(2) by (simp add: reaped_def)
  obtain s' where s': "reap_orphans hw s3 = Some s'" "reaped hw os s3 s'" "sched_inv s' (?Q(?l \<mapsto> [])) B" "heap_typed T s' (?Q(?l \<mapsto> [])) B"
    using reap_orphans_ok [OF hw s3(3,4) Q3 df3 _ sc3 ok3] unfolding p3(1) by blast
  have "reaped hw ([c] @ os) s2 s'"
  proof (rule reaped_trans [OF s3(2) s'(2)])
    show "x \<notin> set [c] \<and> pcb_kstack (the_pcb s2 x) \<notin> (\<lambda>n. pcb_kstack (the_pcb s2 n)) ` set [c]" if "x \<in> set os" for x
      using df2 that by (force simp: defuncts_def shares_none_def)
  qed
  then have r: "reaped hw (c # os) s2 s'" by simp
  then have pm: "pmem s' = m" "ptbr1 s' = ptbr1 s" "upts s' = upts s" by (simp_all add: reaped_def m G)
  have "reaped hw (c # os) (s\<lparr>pmem := pmem s'\<rparr>) s'"
    unfolding pm using reaped_links [OF links_pmem [OF s1(2)]] r [unfolded m] by blast
  moreover have "KernelWait hw st s = Some (Ret (pcb_pid (the_pcb s c)), s')"
  proof -
    have "st \<noteq> NULL \<Longrightarrow> check_addr hw st (PROT_WRITE hw) (pcb_userpt p) s = Some 1"
      using st u(2) check_addr_eq [OF hw live(3)] by simp
    moreover have "is_empty (pcb_a_children p) s = Some (if xs = [] then 1 else 0)" using is_empty_eq [OF M(1) xs] .
    moreover have "is_empty D s = Some 0" using is_empty_eq [OF M(1) D(1)] by simp
    moreover have "get_pid c s1 = Some (pcb_pid (the_pcb s c))" "rd_node s1 c = Some (nodes s1 c)"
      using tc(2) by (simp_all add: get_pid_def sched_frameD(11) [OF F(1)] G L proc_ok_def)
    ultimately have "KernelWait hw st s = wait_loop hw (nd_data (nodes s ?me)) st s"
      using I(4) live(1) unfolding KernelWait_def curr_pcb_def by (simp add: p_def D_def)
    moreover have "wait_loop hw (nd_data (nodes s ?me)) st s = Some (Ret (pcb_pid (the_pcb s c)), s')"
    proof -
      have "c \<noteq> NULL" using tc(2) by (rule proc_okD)
      moreover have "get_pid c s1 = Some (pcb_pid (the_pcb s c))" "rd_node s1 c = Some (nodes s1 c)" "code_in s1 c = code_in s c"
        using tc(2) by (simp_all add: get_pid_def sched_frameD(11) [OF F(1)] G L proc_ok_def)
      moreover have "rd_pcb s (nd_data (nodes s ?me)) = Some p" using live(2) by (simp add: p_def)
      ultimately show ?thesis unfolding wait_loop_def using s1(1) s2(1) s3(1) s'(1)
        by (cases "st = NULL") (simp_all flip: D_def)
    qed
    ultimately show ?thesis by simp
  qed
  moreover have "load hw s' b = (if st \<noteq> NULL \<and> st \<le> b \<and> b < st + 4 then Some (word_byte (code_in s c) (b - st)) else load hw s b)"
    if b: "own hw s b" for b
  proof -
    have "ptbr1 s2 = ptbr1 s" "upts s2 = upts s" "live s2 a = live s a" "own hw s2 b" for a
      using b u1(2) by (simp_all add: m G L user_addr_def upages_def)
    moreover have "live s' (ptbr1 s)"
    proof -
      have "?me \<notin> set (c # os)" using c not_queuedD [OF I(2) os] by auto
      then have "the_pcb s' ?me = p" using reapedD(1,6) [OF r] by (simp add: m L G p_def)
      moreover have "proc_ok s' ?me" using sched_invD(4) [OF s'(3)] reapedD(2) [OF r] by (simp add: m F(2))
      ultimately show ?thesis using u(2) by (simp add: proc_ok_def)
    qed
    ultimately have "load hw s' b = load hw s2 b"
      using load_same [OF hw, of s2 s' b] live(3) pm by (simp add: m)
    also have "\<dots> = (if st \<noteq> NULL \<and> st \<le> b \<and> b < st + 4 then Some (word_byte (code_in s c) (b - st)) else load hw s b)"
      using s2(2) b u1(2,3) by (simp add: written_def)
    finally show ?thesis .
  qed
  ultimately show ?thesis using s'(3,4) by blast
qed


section \<open>Waiting\<close>

lemma wait_waits:
  fixes s :: "'z sched_scheme"
  assumes hw: "hw_ok hw" and inv: "sched_inv s Q B"
  defines "me \<equiv> running (procs s)" and "W \<equiv> waiting_ll (procs s)"
  defines "p \<equiv> the_pcb s me"
  defines "Q' \<equiv> Q(W \<mapsto> the (Q W) @ [me])"
  assumes me: "me \<noteq> idle_node s" and u: "live s (pcb_userpt p)"
    and A: "Q (pcb_a_children p) = Some xs" and D: "Q (pcb_d_children p) = Some []"
  shows "if st \<noteq> NULL \<and> \<not> user_addr hw (pcb_userpt p) s st \<or> xs = [] then KernelWait hw st s = Some (Ret (ERROR hw), s)
    else \<exists>s'. KernelWait hw st s = Some (Switched, s') \<and>
      switched hw (KC_Wait (nd_data (nodes s me)) st) s s' (next_up s Q') \<and> sched_inv s' (dispatch (ready_ll (procs s)) Q') B"
proof -
  note I = sched_invD [OF inv] and M = sched_midD [OF sched_invD(1) [OF inv]]
  have live: "live s me" "live s (nd_data (nodes s me))" using I(4) by (simp_all add: proc_ok_def me_def)
  have c: "check_addr hw st (PROT_WRITE hw) (pcb_userpt p) s = Some (of_bool (user_addr hw (pcb_userpt p) s st))"
    by (rule check_addr_eq [OF hw u])
  have e: "is_empty (pcb_a_children p) s = Some (if xs = [] then 1 else 0)" "is_empty (pcb_d_children p) s = Some 1"
    using is_empty_eq [OF M(1) A] is_empty_eq [OF M(1) D] by simp_all
  have cp: "curr_pcb s = Some p" using I(4) by (simp add: curr_pcb_def p_def me_def)
  show ?thesis
  proof (cases "st \<noteq> NULL \<and> \<not> user_addr hw (pcb_userpt p) s st \<or> xs = []")
    case True
    with c e cp live show ?thesis by (auto simp: KernelWait_def simp flip: me_def)
  next
    case False
    have d: "dequeue (pcb_d_children p) s = Some (NULL, s)" by (rule dequeue_empty [OF lists_okD [OF M(1) D]])
    obtain s' where s': "block hw (KC_Wait (nd_data (nodes s me)) st) W s = Some s'"
        "switched hw (KC_Wait (nd_data (nodes s me)) st) s s' (next_up s Q')" "sched_inv s' (dispatch (ready_ll (procs s)) Q') B"
      using block_ok [OF hw inv M(6), of "KC_Wait (nd_data (nodes s me)) st"] me unfolding Q'_def W_def me_def by blast
    have "KernelWait hw st s = wait_loop hw (nd_data (nodes s me)) st s"
      using False c e cp live by (auto simp: KernelWait_def simp flip: me_def)
    also have "\<dots> = Some (Switched, s')"
      using live(2) d s'(1) by (simp add: wait_loop_def block_wait_def W_def p_def)
    finally show ?thesis using False s'(2,3) by simp
  qed
qed

text \<open>
  C10: Wait.  With a child that has ended, \<open>KernelWait\<close> returns the pid of the first one and stores
  its exit status at the given address, if one is given; no other byte of the process changes.
  The child, and every orphan, is gone: exactly their blocks are freed and exactly the frames of
  their kernel stacks are back in the pool, and the scheduler is sound.
\<close>

theorem wait_collects_child:
  fixes s :: "'z sched_scheme"
  assumes "hw_ok hw" and "sched_inv s Q B" and "heap_typed T s Q B"
  defines "p \<equiv> the_pcb s (running (procs s))"
  defines "D \<equiv> pcb_d_children p"
  assumes "u_inv hw (ptbr1 s) s" and "ptbr1 s = pcb_userpt p" and "st = NULL \<or> (\<forall>b. st \<le> b \<and> b < st + 4 \<longrightarrow> own hw s b)"
    and "Q (pcb_a_children p) \<noteq> None" and "Q D = Some (c # cs)" and "D \<notin> B" and "Q (orphans_ll (procs s)) = Some os"
    and "defuncts hw T s (scope s Q B) (c # os)"
  shows "\<exists>s'. KernelWait hw st s = Some (Ret (pcb_pid (the_pcb s c)), s') \<and>
    sched_inv s' (Q(D \<mapsto> cs, orphans_ll (procs s) \<mapsto> [])) B \<and> reaped hw (c # os) (s\<lparr>pmem := pmem s'\<rparr>) s' \<and>
    (st \<noteq> NULL \<longrightarrow> load32 hw s' st = Some (nat (code_in s c mod 2 ^ 32))) \<and>
    (\<forall>b. own hw s b \<and> (st = NULL \<or> b < st \<or> st + 4 \<le> b) \<longrightarrow> load hw s' b = load hw s b)"
proof -
  obtain s' where s': "KernelWait hw st s = Some (Ret (pcb_pid (the_pcb s c)), s')"
    "sched_inv s' (Q(D \<mapsto> cs, orphans_ll (procs s) \<mapsto> [])) B" "reaped hw (c # os) (s\<lparr>pmem := pmem s'\<rparr>) s'"
    "\<forall>b. own hw s b \<longrightarrow> load hw s' b =
      (if st \<noteq> NULL \<and> st \<le> b \<and> b < st + 4 then Some (word_byte (code_in s c) (b - st)) else load hw s b)"
    using wait_collects [OF assms(1-3)] assms(6-13) unfolding p_def D_def by blast
  have "load32 hw s' st = Some (nat (code_in s c mod 2 ^ 32))" if "st \<noteq> NULL"
  proof (rule load32_bytes)
    have "own hw s (st + 3)" using assms(8) that by simp
    then show "st + 4 \<le> 2 ^ 32" using assms(1) by (auto simp: user_addr_def in_region_1_def hw_ok_def)
    show "load hw s' (st + k) = Some (word_byte (code_in s c) k)" if k: "k < 4" for k
      using s'(4) assms(8) k \<open>st \<noteq> NULL\<close> by simp
  qed
  with s' show ?thesis by (intro exI [of _ s']) auto
qed

text \<open>
  C19: Waiting.  Without a child that has ended, \<open>KernelWait\<close> is an error when the process has no
  children at all, or when the address for the status is not its own; otherwise the process
  waits, to look for a child again when it is woken, and the next process runs.
\<close>

theorem wait_without_defunct:
  fixes s :: "'z sched_scheme"
  assumes "hw_ok hw" and "sched_inv s Q B"
  defines "me \<equiv> running (procs s)" and "W \<equiv> waiting_ll (procs s)"
  defines "p \<equiv> the_pcb s me"
  defines "Q' \<equiv> Q(W \<mapsto> the (Q W) @ [me])"
  assumes "me \<noteq> idle_node s" and "live s (pcb_userpt p)"
    and "Q (pcb_a_children p) = Some xs" and "Q (pcb_d_children p) = Some []"
  shows "if st \<noteq> NULL \<and> \<not> user_addr hw (pcb_userpt p) s st \<or> xs = [] then KernelWait hw st s = Some (Ret (ERROR hw), s)
    else \<exists>s'. KernelWait hw st s = Some (Switched, s') \<and>
      switched hw (KC_Wait (nd_data (nodes s me)) st) s s' (next_up s Q') \<and> sched_inv s' (dispatch (ready_ll (procs s)) Q') B"
  using wait_waits [OF assms(1,2)] assms(7-10) unfolding me_def W_def p_def Q'_def by blast

section \<open>Children that were collected\<close>

fun chain :: "(addr \<Rightarrow> node) \<Rightarrow> addr \<Rightarrow> addr list \<Rightarrow> bool" where
  "chain N p [] \<longleftrightarrow> p = NULL"
| "chain N p (n # xs) \<longleftrightarrow> p = n \<and> n \<noteq> NULL \<and> chain N (nd_next (N n)) xs"

lemma dseg_chain: "dseg s p xs NULL \<Longrightarrow> chain (nodes s) (first xs NULL) xs"
proof (induction xs arbitrary: p)
  case (Cons n xs)
  then show ?case by (auto simp: live_def)
qed simp

text \<open>The loop that orphans the children writes to the control block of each of them.\<close>

lemma orphan_children_live:
  "orphan_children lst cur s = Some r \<Longrightarrow> chain (nodes s) cur xs \<Longrightarrow> n \<in> set xs \<Longrightarrow> live s (nd_data (nodes s n))"
proof (induction xs arbitrary: lst cur s)
  case (Cons m xs)
  then have cur: "cur = m" "m \<noteq> NULL" "chain (nodes s) (nd_next (nodes s m)) xs" by simp_all
  obtain c c2 :: node and s1 s2 where e: "rd_node s m = Some c" "upd_pcb (nd_data c) (\<lambda>p. p\<lparr>pcb_parent := NULL\<rparr>) s = Some s1"
      "free lst s1 = Some s2" "rd_node s2 m = Some c2" "orphan_children m (nd_next c2) s2 = Some r"
    using Cons.prems(1) cur(2) unfolding cur(1) orphan_children.simps [of lst m s] by (auto simp: bind_Some_iff)
  have c: "c = nodes s m" using e(1) by (simp add: rd_node_def split: if_splits)
  have l: "live s (nd_data (nodes s m))" "nodes s1 = nodes s" "alive s1 = alive s"
    using e(2) unfolding c by (auto simp: upd_pcb_def split: if_splits)
  have s2: "nodes s2 = nodes s" "alive s2 a \<Longrightarrow> alive s a" for a
    using e(3) l(2,3) by (auto simp: free_def split: if_splits)
  have "c2 = nodes s m" using e(4) by (simp add: rd_node_def s2 split: if_splits)
  then have "orphan_children m (nd_next (nodes s m)) s2 = Some r" "chain (nodes s2) (nd_next (nodes s m)) xs"
    using e(5) cur(3) by (simp_all add: s2)
  from Cons.IH [OF this] have "n \<in> set xs \<Longrightarrow> live s (nd_data (nodes s n))"
    using s2 by (auto simp: live_def)
  with Cons.prems(3) l(1) show ?case by auto
qed simp

text \<open>What tearing down region 1 leaves of the heap, whatever the table: everything.\<close>

definition same_blocks :: "'z proc_state_scheme \<Rightarrow> 'z proc_state_scheme \<Rightarrow> bool" where
  "same_blocks s s' \<longleftrightarrow> nodes s' = nodes s \<and> lls s' = lls s \<and> pcbs s' = pcbs s \<and> alive s' = alive s"

lemma destroy_usermem_blocks: "destroy_usermem hw up s = Some s' \<Longrightarrow> same_blocks s s'"
  unfolding destroy_usermem_def for_up_def
proof (erule for_each_rel)
  show "same_blocks s s'" if "do { p \<leftarrow> rd_upte hw s up (i - BASE_PAGE_1 hw);
      if pte_valid p \<noteq> 0 then unmap_upage hw up (i - BASE_PAGE_1 hw) s else Some s } = Some s'" for i and s s' :: "'z proc_state_scheme"
    using that by (auto simp: unmap_upage_def upd_upte_def upd_upt_def bind_Some_iff same_blocks_def split: if_splits)
qed (simp_all add: same_blocks_def)

lemma process_terminate_stale:
  assumes "process_terminate hw proc rc s = Some s'" and "dseg s q xs NULL"
    and "ll_head (lls s (pcb_a_children (the_pcb s proc))) = first xs NULL" and "n \<in> set xs"
  shows "live s (nd_data (nodes s n))"
proof -
  obtain m :: node and x x2 :: pcb and L :: ll and s1 s2 r where e:
    "upd_node proc (\<lambda>n. n\<lparr>nd_code := rc\<rparr>) s = Some s1" "rd_node s1 proc = Some m"
    "destroy_usermem hw (pcb_userpt x) (helper_retire_pid (pcb_pid x) s1) = Some s2" "rd_pcb s2 (nd_data m) = Some x2"
    "rd_ll s2 (pcb_a_children x2) = Some L" "orphan_children NULL (ll_head L) s2 = Some r"
    using assms(1) by (auto simp: process_terminate_def Let_def bind_Some_iff)
  have s1: "nodes s1 = (nodes s)(proc := (nodes s proc)\<lparr>nd_code := rc\<rparr>)" "lls s1 = lls s" "pcbs s1 = pcbs s" "alive s1 = alive s"
    using e(1) by (auto simp: upd_node_def split: if_splits)
  have s2: "nodes s2 = nodes s1" "lls s2 = lls s" "pcbs s2 = pcbs s" "alive s2 = alive s"
    using destroy_usermem_blocks [OF e(3)] s1 by (simp_all add: same_blocks_def helper_retire_pid_def)
  have nd: "nd_data (nodes s2 a) = nd_data (nodes s a)" "nd_next (nodes s2 a) = nd_next (nodes s a)" for a
    by (simp_all add: s2 s1)
  have "nd_data m = nd_data (nodes s proc)" using e(2) s1(1) by (auto simp: rd_node_def split: if_splits)
  then have "x2 = the_pcb s proc" using e(4) by (auto simp: rd_pcb_def s2 split: if_splits)
  then have "ll_head L = first xs NULL" using e(5) assms(3) by (auto simp: rd_ll_def s2 split: if_splits)
  moreover have "chain (nodes s2) p ys = chain (nodes s) p ys" for p ys by (induction ys arbitrary: p) (simp_all add: nd)
  ultimately have "live s2 (nd_data (nodes s2 n))"
    using orphan_children_live [OF e(6)] dseg_chain [OF assms(2)] assms(4) by simp
  then show ?thesis by (simp add: live_def nd(1) s2(4) s1(4))
qed

text \<open>
  C38: A process that collected a child uses freed memory when it exits.  \<open>KernelFork\<close> gives the
  parent a second node for the control block of the child, \<open>KernelWait\<close> frees that block and
  leaves the node among the living children, and then \<open>KernelExit\<close> has no result: it writes
  the parent field of the freed block.
\<close>

theorem exit_after_wait:
  fixes s :: "'z sched_scheme"
  assumes "hw_ok hw" and "sched_inv s Q B" and "heap_typed T s Q B"
  defines "p \<equiv> the_pcb s (running (procs s))"
  defines "A \<equiv> pcb_a_children p" and "D \<equiv> pcb_d_children p"
  assumes "running (procs s) \<noteq> init_node s" and "u_inv hw (ptbr1 s) s" and "ptbr1 s = pcb_userpt p" 
    and "Q A = Some xs" and "A \<notin> B" and "A \<noteq> D" and "Q D = Some (c # cs)" and "D \<notin> B" and "Q (orphans_ll (procs s)) = Some os"
    and "defuncts hw T s (scope s Q B) (c # os)" and "n \<in> set xs" and "nd_data (nodes s n) = nd_data (nodes s c)"
  shows "\<exists>s'. KernelWait hw NULL s = Some (Ret (pcb_pid (the_pcb s c)), s') \<and> KernelExit hw status s' = None"
proof -
  have A0: "Q (pcb_a_children (the_pcb s (running (procs s)))) \<noteq> None" using assms(10) by (simp add: A_def p_def)
  obtain s' where s': "KernelWait hw NULL s = Some (Ret (pcb_pid (the_pcb s c)), s')"
    "sched_inv s' (Q(D \<mapsto> cs, orphans_ll (procs s) \<mapsto> [])) B" "reaped hw (c # os) (s\<lparr>pmem := pmem s'\<rparr>) s'"
    using wait_collects [OF assms(1-3), of NULL c cs os] assms(8,9,13-16) A0 unfolding p_def D_def by blast
  note R = reapedD [OF s'(3)]
  note I = sched_invD [OF assms(2)] and I' = sched_invD [OF s'(2)]
  let ?me = "running (procs s)" and ?Q = "Q(D \<mapsto> cs, orphans_ll (procs s) \<mapsto> [])"
  have o: "orphans_ll (procs s) \<in> B" using sched_midD(8) [OF I(1)] .
  have QA: "?Q A = Some xs" using assms(10-12) o by auto
  have f: "procs s' = procs s" "init_node s' = init_node s" "pcbs s' = pcbs s" using R(1,2,4) by simp_all
  have apart: "m \<notin> set (c # os)" if "m = ?me \<or> m \<in> set xs" for m
  proof -
    have "?me \<notin> set (c # os)" using not_queuedD [OF I(2) assms(13)] not_queuedD [OF I(2) assms(15)] by auto
    moreover have "set xs \<inter> set (c # cs) = {}" "set xs \<inter> set os = {}"
      using I(3) assms(10-13,15) o unfolding lists_ok_def by (metis, metis)
    ultimately show ?thesis using that by auto
  qed
  have nd: "nd_data (nodes s' ?me) = nd_data (nodes s ?me)" "nd_data (nodes s' n) = nd_data (nodes s c)"
    using R(6) apart assms(17,18) by auto
  have dead: "\<not> live s' (nd_data (nodes s' n))" unfolding nd(2) by (simp add: R(5) blocks_of_def)
  have "is_empty (orphans_ll (procs s')) s' = Some 1" using is_empty_eq [OF I'(3), of "orphans_ll (procs s)" "[]"] by (simp add: f)
  then have "reap_orphans hw s' = Some s'" by (simp add: reap_orphans.simps [of hw s'])
  moreover have "process_terminate hw ?me status s' = None"
  proof (rule ccontr)
    assume "process_terminate hw ?me status s' \<noteq> None"
    then obtain s'' where t: "process_terminate hw ?me status s' = Some s''" by blast
    have "pcb_a_children (the_pcb s' ?me) = A" by (simp add: nd f A_def p_def)
    then have "live s' (nd_data (nodes s' n))"
      using process_terminate_stale [OF t, of NULL xs n] ll_atD(6) [OF lists_okD [OF I'(3) QA]]
        lists_okD [OF I'(3) QA] assms(17) by (simp add: ll_at_def)
    with dead show False by simp
  qed
  ultimately have "KernelExit hw status s' = None" using assms(7) by (simp add: KernelExit_def f)
  with s'(1) show ?thesis by blast
qed


section \<open>A state with a child that has ended\<close>

text \<open>Process 10 has the child 17, which ended with status 3 and is or is not among the defunct
  children \<open>ds\<close>; node 18 is its copy.\<close>

definition demo_parent :: "addr list \<Rightarrow> kernel" where
  "demo_parent ds = demo_kernel\<lparr>init_node := 12,
     nodes := demo_nodes(17 := \<lparr>nd_data = 27, nd_code = 3, nd_next = NULL, nd_prev = NULL\<rparr>,
       18 := \<lparr>nd_data = 27, nd_code = 0, nd_next = NULL, nd_prev = NULL\<rparr>),
     lls := demo_lls(70 := single 18, 71 := \<lparr>ll_size = int (length ds), ll_head = first ds NULL, ll_tail = final NULL ds\<rparr>),
     kstacks := (kstacks demo_kernel)(47 := (\<lambda>i. entry (i + 19) 3))\<rparr>"

abbreviation demo_parent_Q :: "addr list \<Rightarrow> (addr \<rightharpoonup> addr list)" where
  "demo_parent_Q ds \<equiv> map_of ((70, [18]) # (71, ds) # demo_lists)"

lemma demo_parent_simps [simp]:
  "live (demo_parent ds) a \<longleftrightarrow> 0 < a \<and> a < 100" "procs (demo_parent ds) = procs demo_kernel" "idle_node (demo_parent ds) = 12"
  "init_node (demo_parent ds) = 12" "pcbs (demo_parent ds) = demo_pcbs" "upts (demo_parent ds) = upts demo_kernel"
  "ptbr1 (demo_parent ds) = 30" "free_frame (demo_parent ds) = demo_ff"
  by (simp_all add: demo_parent_def live_def) (simp_all add: demo_kernel_def live_def)

lemma demo_parent_nodes:
  "nodes (demo_parent ds) = demo_nodes(17 := \<lparr>nd_data = 27, nd_code = 3, nd_next = NULL, nd_prev = NULL\<rparr>,
     18 := \<lparr>nd_data = 27, nd_code = 0, nd_next = NULL, nd_prev = NULL\<rparr>)"
  "lls (demo_parent ds) = demo_lls(70 := single 18, 71 := \<lparr>ll_size = int (length ds), ll_head = first ds NULL, ll_tail = final NULL ds\<rparr>)"
  by (simp_all add: demo_parent_def)

lemma demo_parent_data:
  "n < 17 \<Longrightarrow> nd_data (nodes (demo_parent ds) n) = n + 10" "nd_data (nodes (demo_parent ds) 17) = 27" "nd_data (nodes (demo_parent ds) 18) = 27"
  by (simp_all add: demo_parent_nodes demo_nodes_def)

lemma demo_parent_scope: "scope (demo_parent ds) (demo_parent_Q ds) demo_B = {10, 11, 12, 13, 14, 15, 16}"
proof -
  have "members (demo_parent_Q ds) demo_B = {11, 13, 14, 15, 16}" by (auto simp: members_def demo_lists_def)
  then show ?thesis by auto
qed

lemma demo_parent_queued: "ds \<in> {[], [17]} \<Longrightarrow> queued (demo_parent_Q ds) n \<Longrightarrow> n \<in> {17, 18, 11, 13, 14, 63, 61, 66, 15, 16}"
  using demo_queued [of n] by (auto simp: queued_def split: if_splits)

lemma demo_parent_inv: assumes "ds \<in> {[], [17]}" shows "sched_inv (demo_parent ds) (demo_parent_Q ds) demo_B"
proof -
  let ?Q = "demo_parent_Q ds" and ?s = "demo_parent ds"
  have "lists_ok ?s ?Q"
  proof (rule lists_ok_map_of)
    have "ll_at ?s 70 [18]" by (simp add: ll_at_def demo_parent_nodes single_def)
    moreover have "ll_at ?s 71 ds" using assms by (auto simp: ll_at_def demo_parent_nodes)
    moreover have "ll_at ?s l xs" if "(l, xs) \<in> set demo_lists" for l xs
      using that by (auto simp: demo_lists_def ll_at_def demo_parent_nodes demo_nodes_def demo_lls_def single_def)
    ultimately show "ll_at ?s l xs" if "(l, xs) \<in> set ((70, [18]) # (71, ds) # demo_lists)" for l xs using that by auto
  qed (use assms in \<open>auto simp: demo_lists_def\<close>)
  moreover have "\<not> queued ?Q 10" "\<not> queued ?Q 12" using demo_parent_queued [OF assms] by fastforce+
  moreover have ok: "proc_ok ?s n" if "n \<in> scope ?s ?Q demo_B" for n
    using that unfolding demo_parent_scope by (auto simp: proc_ok_def demo_parent_data)
  have "proc_ok ?s 10" "proc_ok ?s 12" using ok by simp_all
  moreover have "\<forall>l\<in>demo_B. \<forall>n\<in>set (the (?Q l)). proc_ok ?s n" using ok unfolding members_def by blast
  moreover have "demo_B \<subseteq> dom ?Q" by (simp add: demo_lists_def)
  ultimately show ?thesis unfolding sched_inv_def sched_mid_def demo_parent_simps demo_kernel_simps by simp
qed

lemma demo_parent_typed: "heap_typed demo_types (demo_parent [17]) (demo_parent_Q [17]) demo_B"
proof -
  have "\<forall>l\<in>dom (demo_parent_Q [17]). demo_types l = B_ll" by (simp add: demo_lists_def demo_types_def)
  moreover have "queued (demo_parent_Q [17]) n \<Longrightarrow> demo_types n = B_node" for n
    using demo_parent_queued [of "[17]" n] by (auto simp: demo_types_def)
  moreover have "\<forall>n\<in>{10, 11, 12, 13, 14, 15, 16}. typed_proc demo_types (demo_parent [17]) n"
    by (simp add: typed_proc_def demo_parent_data demo_types_def)
  ultimately show ?thesis unfolding heap_typed_iff demo_parent_scope by blast
qed

lemma demo_parent_defunct:
  "defuncts demo demo_types (demo_parent [17]) (scope (demo_parent [17]) (demo_parent_Q [17]) demo_B) [17]"
proof -
  have "kspages demo 47 (demo_parent [17]) = [0 \<mapsto> (19, 3), 1 \<mapsto> (20, 3)]"
    by (auto simp: kspages_def entries_def demo_parent_def entry_def)
  then have "ks_inv demo 47 (demo_parent [17])" by (auto simp: ks_inv_def sound_def demo_ff_ok demo_used split: if_splits)
  moreover have "typed_proc demo_types (demo_parent [17]) 17" "proc_ok (demo_parent [17]) 17"
    by (simp_all add: typed_proc_def proc_ok_def demo_parent_data demo_types_def)
  moreover have "\<forall>m\<in>{10, 11, 12, 13, 14, 15, 16}. shares_none (demo_parent [17]) 17 m" by (simp add: shares_none_def demo_parent_data)
  ultimately show ?thesis unfolding defuncts_def demo_parent_scope by (simp add: demo_parent_data)
qed

lemma demo_parent_own: "u_inv demo 30 (demo_parent ds)" "272 \<le> b \<Longrightarrow> b < 276 \<Longrightarrow> own demo (demo_parent ds) b"
proof -
  have e: "upages demo 30 (demo_parent ds) = upages demo 30 demo_kernel" by (simp add: upages_def)
  show "u_inv demo 30 (demo_parent ds)" using region_okD(1) [OF demo_region] by (simp add: u_inv_def e)
  show "own demo (demo_parent ds) b" if "272 \<le> b" "b < 276"
  proof -
    have "b div 16 = 17" using that by presburger
    with that show ?thesis by (simp add: user_addr_def in_region_1_def user_page_def e demo_upages drop_bit_eq_div)
  qed
qed

lemma demo_parent_facts:
  "running (procs (demo_parent ds)) = 10" "orphans_ll (procs (demo_parent ds)) = 4" "waiting_ll (procs (demo_parent ds)) = 2"
  "pcb_a_children (pcbs (demo_parent ds) 20) = 70" "pcb_d_children (pcbs (demo_parent ds) 20) = 71"
  "pcb_userpt (pcbs (demo_parent ds) 20) = 30" "pcb_pid (the_pcb (demo_parent ds) 17) = 7" "nd_data (nodes (demo_parent ds) 10) = 20"
  "code_in (demo_parent ds) 17 = 3" "demo_parent_Q ds 70 = Some [18]" "demo_parent_Q ds 71 = Some ds" "demo_parent_Q ds 4 = Some []"
  "70 \<notin> demo_B" "71 \<notin> demo_B" "(70 :: addr) \<noteq> 71"
  by (simp_all add: demo_parent_data demo_pcbs_def) (simp_all add: demo_parent_nodes demo_lists_def)

theorem wait_collects_child_witness:
  "\<exists>s'. KernelWait demo 272 (demo_parent [17]) = Some (Ret 7, s') \<and> load32 demo s' 272 = Some 3 \<and>
    (\<forall>a. alive s' a = (alive (demo_parent [17]) a \<and> a \<notin> {17, 27, 37, 47}))"
proof -
  note f = demo_parent_facts
  have o: "(272 :: nat) = NULL \<or> (\<forall>b. 272 \<le> b \<and> b < 272 + 4 \<longrightarrow> own demo (demo_parent [17]) b)" using demo_parent_own(2) by auto
  have pre: "[17] \<in> {[], [17 :: addr]}" "Some [18 :: addr] \<noteq> None" by simp_all
  obtain s' where s': "KernelWait demo 272 (demo_parent [17]) = Some (Ret 7, s')" "reaped demo [17] (demo_parent [17]\<lparr>pmem := pmem s'\<rparr>) s'"
      "272 \<noteq> NULL \<longrightarrow> load32 demo s' 272 = Some (nat (3 mod 2 ^ 32))"
    using wait_collects_child [OF demo_ok demo_parent_inv demo_parent_typed, of 272 17 "[]" "[]", unfolded f demo_parent_simps(7), OF pre(1)
      demo_parent_own(1) refl o [unfolded demo_parent_simps(7)] pre(2) refl f(14) refl
      demo_parent_defunct [unfolded f]] by blast
  have "blocks_of (demo_parent [17]\<lparr>pmem := M\<rparr>) 17 = {17, 27, 37, 47}" for M by (auto simp: blocks_of_def demo_parent_data)
  with s' show ?thesis by (auto simp: reaped_def)
qed

theorem wait_without_defunct_witness:
  "\<exists>s'. KernelWait demo 272 (demo_parent []) = Some (Switched, s') \<and> running (procs s') = 11 \<and>
    pcb_kc (the_pcb s' 10) = KC_Wait 20 272"
proof -
  note f = demo_parent_facts
  have i: "10 \<noteq> idle_node (demo_parent [])" "live (demo_parent []) 30" by simp_all
  have o: "user_addr demo 30 (demo_parent []) 272" using demo_parent_own(2) [of 272 "[]"] by simp
  let ?Q = "(demo_parent_Q [])(2 \<mapsto> the (demo_parent_Q [] 2) @ [10])"
  have n: "next_up (demo_parent []) ?Q = 11" by (simp add: next_up_def demo_lists_def)
  obtain s' where "KernelWait demo 272 (demo_parent []) = Some (Switched, s')" "switched demo (KC_Wait 20 272) (demo_parent []) s' 11"
    using wait_without_defunct [OF demo_ok demo_parent_inv, of "[]" "[18]" 272, unfolded f, OF _ i refl refl] o unfolding n by auto
  then show ?thesis by (auto simp: switched_def sched_frame_def f demo_parent_data)
qed

theorem exit_after_wait_witness:
  "\<exists>s'. KernelWait demo 0 (demo_parent [17]) = Some (Ret 7, s') \<and> KernelExit demo 0 s' = None"
proof -
  note f = demo_parent_facts
  have n: "(18 :: addr) \<in> set [18]" "nd_data (nodes (demo_parent [17]) 18) = nd_data (nodes (demo_parent [17]) 17)" "10 \<noteq> init_node (demo_parent [17])"
    by (simp_all add: demo_parent_data)
  show ?thesis
    using exit_after_wait [OF demo_ok demo_parent_inv demo_parent_typed, of "[18]" 17 "[]" "[]" 18 0, unfolded f demo_parent_simps(7), OF _ n(3)
      demo_parent_own(1) refl refl f(13,15) refl f(14) refl demo_parent_defunct [unfolded f] n(1,2) [unfolded f]] by simp
qed

end
