(* ===== verification/Program_Image.thy ===== *)
theory Program_Image
  imports Wait_Spec
begin

text \<open>
  Steps of the loader: where a program lies in region 1, mapping its pages, reading a segment,
  protecting pages, and the addresses the fields of the region hold afterwards.
\<close>

section \<open>Runs of pages\<close>

text \<open>The index of the page at which a segment starts, as the loader computes it.\<close>

lemma page_start:
  assumes hw: "hw_ok hw" and "VMEM_1_BASE hw \<le> v" "v < 2 ^ 32"
  shows "int (drop_bit (PAGESHIFT hw) (usub v (VMEM_1_BASE hw))) = page_index hw v"
proof -
  have d: "PAGESIZE hw dvd VMEM_1_BASE hw" using hw by (auto simp: hw_ok_def)
  have "v div PAGESIZE hw = VMEM_1_BASE hw div PAGESIZE hw + (v - VMEM_1_BASE hw) div PAGESIZE hw"
    using div_add_pages [OF d, of "v - VMEM_1_BASE hw"] assms(2) by simp
  moreover have "usub v (VMEM_1_BASE hw) = v - VMEM_1_BASE hw" using assms by (intro usub_exact) simp_all
  ultimately show ?thesis by (simp add: page_index_def BASE_PAGE_1_def page_of [OF hw])
qed

lemma run_addr:
  assumes hw: "hw_ok hw" and "VMEM_1_BASE hw \<le> v" "PAGESIZE hw dvd v" and n: "page_index hw v + int n \<le> NUM_PAGES_1 hw"
    and b: "v \<le> b" "b < v + n * PAGESIZE hw"
  shows "in_region_1 hw b" and "page_index hw v \<le> user_page hw b" and "user_page hw b < page_index hw v + int n"
proof -
  let ?p = "PAGESIZE hw"
  have p: "0 < ?p" using hw_size(2) [OF hw] .
  obtain k where k: "v = ?p * k" using assms(3) by blast
  have i: "page_index hw v = int k - BASE_PAGE_1 hw" using p by (simp add: page_index_def k)
  have "k * ?p \<le> b" "b < (k + n) * ?p" using b by (simp_all add: k algebra_simps)
  then have d: "k \<le> b div ?p" "b div ?p < k + n"
    using p by (simp_all add: less_eq_div_iff_mult_less_eq div_less_iff_less_mult)
  have u: "user_page hw b = int (b div ?p) - BASE_PAGE_1 hw" by (simp add: user_page_def page_of [OF hw])
  show "page_index hw v \<le> user_page hw b" "user_page hw b < page_index hw v + int n" using d by (simp_all add: u i)
  have "b div ?p < VMEM_1_LIMIT hw div ?p"
  proof -
    have "int k + int n \<le> LIM_PAGE_1 hw" using n region_1(1) [OF hw] by (simp add: i)
    then show ?thesis using d(2) by (simp add: LIM_PAGE_1_def page_of [OF hw])
  qed
  then have "b < VMEM_1_LIMIT hw" by (meson div_le_mono leI not_less)
  then show "in_region_1 hw b" using assms(2) b(1) by (simp add: in_region_1_def)
qed

section \<open>The pages of a program\<close>

text \<open>A program as \<open>LoadInfo\<close> describes it: text and data are runs of whole pages of region 1, the
  text first, with room for the stack above; the file has all the bytes.\<close>

definition program_ok :: "hw \<Rightarrow> load_info \<Rightarrow> exec_file \<Rightarrow> bool" where
  "program_ok hw li f \<longleftrightarrow>
     0 \<le> li_t_npg li \<and> 0 \<le> li_id_npg li \<and> 0 \<le> li_ud_npg li \<and> 0 < data_npg li \<and>
     VMEM_1_BASE hw \<le> li_t_vaddr li \<and> PAGESIZE hw dvd li_t_vaddr li \<and>
     li_t_vaddr li + nat (li_t_npg li) * PAGESIZE hw \<le> li_id_vaddr li \<and> li_id_vaddr li < VMEM_1_LIMIT hw \<and> PAGESIZE hw dvd li_id_vaddr li \<and>
     li_id_vaddr li \<le> li_id_end li \<and> li_id_end li \<le> li_ud_end li \<and>
     li_ud_end li \<le> li_id_vaddr li + nat (data_npg li) * PAGESIZE hw \<and>
     li_t_faddr li + nat (li_t_npg li) * PAGESIZE hw \<le> length (ef_bytes f) \<and>
     li_id_faddr li + nat (li_id_npg li) * PAGESIZE hw \<le> length (ef_bytes f)"

definition text_pages :: "hw \<Rightarrow> load_info \<Rightarrow> int set" where
  "text_pages hw li = {text_pg1 hw li..<text_pg1 hw li + li_t_npg li}"

definition data_pages :: "hw \<Rightarrow> load_info \<Rightarrow> int set" where
  "data_pages hw li = {data_pg1 hw li..<data_pg1 hw li + data_npg li}"

definition stack_pages_of :: "hw \<Rightarrow> byte list list \<Rightarrow> int set" where
  "stack_pages_of hw as = {NUM_PAGES_1 hw - stack_npg hw as..<NUM_PAGES_1 hw}"

definition program_pages :: "hw \<Rightarrow> load_info \<Rightarrow> byte list list \<Rightarrow> int set" where
  "program_pages hw li as = text_pages hw li \<union> data_pages hw li \<union> stack_pages_of hw as"

lemma program_layout:
  assumes hw: "hw_ok hw" and ok: "program_ok hw li f" and room: "stack_npg hw as + data_pg1 hw li + data_npg li < MAX_PT_LEN hw"
    and st: "0 < stack_npg hw as"
  shows "0 \<le> text_pg1 hw li" "text_pg1 hw li + li_t_npg li \<le> data_pg1 hw li"
    "data_pg1 hw li + data_npg li < NUM_PAGES_1 hw - stack_npg hw as" "MAX_PT_LEN hw = NUM_PAGES_1 hw"
    "text_pg1 hw li = page_index hw (li_t_vaddr li)" "data_pg1 hw li = page_index hw (li_id_vaddr li)"
proof -
  let ?p = "PAGESIZE hw" and ?t = "li_t_vaddr li" and ?d = "li_id_vaddr li"
  have h: "VMEM_1_LIMIT hw < 2 ^ 32" "PAGESIZE hw dvd VMEM_1_BASE hw" using hw by (auto simp: hw_ok_def)
  note P = ok [unfolded program_ok_def]
  have p: "0 < ?p" using hw_size(2) [OF hw] .
  have r: "VMEM_1_BASE hw \<le> ?t" "?t < 2 ^ 32" "VMEM_1_BASE hw \<le> ?d" "?d < 2 ^ 32" using P h by auto
  show t: "text_pg1 hw li = page_index hw ?t" and d: "data_pg1 hw li = page_index hw ?d"
    using page_start [OF hw r(1,2)] page_start [OF hw r(3,4)] by (simp_all add: text_pg1_def data_pg1_def)
  show m: "MAX_PT_LEN hw = NUM_PAGES_1 hw" using hw by (simp add: hw_ok_def NUM_PAGES_1_def page_of [OF hw])
  show "data_pg1 hw li + data_npg li < NUM_PAGES_1 hw - stack_npg hw as" using room m by simp
  have "VMEM_1_BASE hw div ?p \<le> ?t div ?p" using r(1) by (rule div_le_mono)
  then show "0 \<le> text_pg1 hw li" by (simp add: t page_index_def BASE_PAGE_1_def page_of [OF hw])
  obtain k where k: "?t = ?p * k" using P by blast
  have "(k + nat (li_t_npg li)) * ?p \<le> ?d" using P by (simp add: k algebra_simps)
  then have "k + nat (li_t_npg li) \<le> ?d div ?p" using p by (simp add: less_eq_div_iff_mult_less_eq)
  then show "text_pg1 hw li + li_t_npg li \<le> data_pg1 hw li" using p P by (simp add: t d page_index_def k)
qed

text \<open>Mapping text, data and stack.\<close>

lemma build_region1_ok:
  assumes hw: "hw_ok hw" and u: "u_inv hw up s" and none: "upages hw up s = (\<lambda>_. None)"
    and L: "0 \<le> text_pg1 hw li" "text_pg1 hw li + li_t_npg li \<le> data_pg1 hw li" "0 \<le> li_t_npg li" "0 \<le> data_npg li"
      "data_pg1 hw li + data_npg li < NUM_PAGES_1 hw - stack_npg hw as" "MAX_PT_LEN hw = NUM_PAGES_1 hw" "0 < stack_npg hw as"
    and room: "li_t_npg li + data_npg li + stack_npg hw as \<le> frames_left (free_frame s)"
  defines "I \<equiv> program_pages hw li as"
  shows "\<exists>s' F. build_region1 hw up li as s = Some s' \<and> u_inv hw up s' \<and> inj_on F I \<and> F ` I \<subseteq> pool hw (free_frame s) \<and>
    pool hw (free_frame s') = pool hw (free_frame s) - F ` I \<and>
    upages hw up s' = (\<lambda>i. if i \<in> I then Some (F i, PROT_RW hw) else None) \<and>
    same_heap s s' \<and> kernel_pt s' = kernel_pt s \<and> kstacks s' = kstacks s \<and> pmem s' = pmem s \<and> (\<forall>a. a \<noteq> up \<longrightarrow> upts s' a = upts s a) \<and>
    u_size (upts s' up) = li_t_npg li + data_npg li + stack_npg hw as \<and>
    u_data_end (upts s' up) = u32 (push_bit (PAGESHIFT hw) (data_pg1 hw li + data_npg li + BASE_PAGE_1 hw - 1)) \<and>
    u_brk (upts s' up) = u32 (push_bit (PAGESHIFT hw) (data_pg1 hw li + data_npg li + BASE_PAGE_1 hw)) \<and>
    u_stack_low (upts s' up) = u32 (push_bit (PAGESHIFT hw) (LIM_PAGE_1 hw - stack_npg hw as))"
proof -
  define T D S where "T = text_pages hw li" and "D = data_pages hw li" and "S = stack_pages_of hw as"
  have live: "live s up" using u by (simp add: u_inv_def)
  define s0 where "s0 = s\<lparr>upts := (upts s)(up := (upts s up)\<lparr>u_size := li_t_npg li + data_npg li + stack_npg hw as\<rparr>)\<rparr>"
  have p0: "upages hw up s0 = (\<lambda>_. None)" using none by (simp add: s0_def upages_def)
  have u0: "u_inv hw up s0" using u by (simp add: u_inv_def p0 none) (simp add: s0_def)
  have fr: "frames_ok hw (free_frame s)" using u by (simp add: u_inv_def sound_def)
  have pool0: "int (card (pool hw (free_frame s0))) = frames_left (free_frame s)" using card_pool [OF fr] by (simp add: s0_def)
  have card: "int (card T) = li_t_npg li" "int (card D) = data_npg li" using L by (simp_all add: T_def D_def text_pages_def data_pages_def)
  obtain s1 where s1: "for_up (text_pg1 hw li) (text_pg1 hw li + li_t_npg li) (map_upage hw up (PROT_RW hw)) s0 = Some s1"
      "upt.mapped hw up T (PROT_RW hw) s0 s1"
    using upt.map_range [of hw up s0 "text_pg1 hw li" "text_pg1 hw li + li_t_npg li" "PROT_RW hw"] u0 L room pool0 p0
    by (auto simp: T_def text_pages_def)
  have c1: "int (card (pool hw (free_frame s1))) = frames_left (free_frame s) - li_t_npg li"
    using upt.mapped_card [OF s1(2)] card pool0 by (simp add: T_def text_pages_def)
  have u1: "u_inv hw up s1" "\<And>i. i \<notin> T \<Longrightarrow> upages hw up s1 i = None" using s1(2) p0 by (auto simp: upt.mapped_def)
  obtain s2 where s2: "for_up (data_pg1 hw li) (data_pg1 hw li + data_npg li) (map_upage hw up (PROT_RW hw)) s1 = Some s2"
      "upt.mapped hw up D (PROT_RW hw) s1 s2"
  proof -
    have "\<exists>s'. for_up (data_pg1 hw li) (data_pg1 hw li + data_npg li) (map_upage hw up (PROT_RW hw)) s1 = Some s' \<and>
        upt.mapped hw up {data_pg1 hw li..<data_pg1 hw li + data_npg li} (PROT_RW hw) s1 s'"
      by (rule upt.map_range) (use L room c1 u1 in \<open>auto simp: T_def text_pages_def\<close>)
    then show thesis using that by (auto simp: D_def data_pages_def)
  qed
  have m2: "upt.mapped hw up (T \<union> D) (PROT_RW hw) s0 s2"
    using upt.mapped_both [OF s1(2) s2(2)] L by (auto simp: T_def D_def text_pages_def data_pages_def)
  have "card (T \<union> D) = card T + card D" using L by (intro card_Un_disjoint) (auto simp: T_def D_def text_pages_def data_pages_def)
  then have c2: "int (card (pool hw (free_frame s2))) = frames_left (free_frame s) - li_t_npg li - data_npg li"
    using upt.mapped_card [OF m2] card pool0 by (simp add: T_def D_def text_pages_def data_pages_def)
  have u2: "u_inv hw up s2" "\<And>i. i \<notin> T \<union> D \<Longrightarrow> upages hw up s2 i = None" using m2 p0 by (auto simp: upt.mapped_def)
  obtain s3 where s3: "for_down (MAX_PT_LEN hw - stack_npg hw as) (MAX_PT_LEN hw) (map_upage hw up (PROT_RW hw)) s2 = Some s3"
      "upt.mapped hw up S (PROT_RW hw) s2 s3"
  proof -
    have "\<exists>s'. for_down (NUM_PAGES_1 hw - stack_npg hw as) (NUM_PAGES_1 hw) (map_upage hw up (PROT_RW hw)) s2 = Some s' \<and>
        upt.mapped hw up {NUM_PAGES_1 hw - stack_npg hw as..<NUM_PAGES_1 hw} (PROT_RW hw) s2 s'"
      by (rule upt.map_range_down) (use L room c2 u2 in \<open>auto simp: T_def D_def text_pages_def data_pages_def\<close>)
    then show thesis using that L(6) by (auto simp: S_def stack_pages_of_def)
  qed
  have m3: "upt.mapped hw up I (PROT_RW hw) s0 s3"
  proof -
    have "(T \<union> D) \<inter> S = {}" using L by (auto simp: T_def D_def S_def text_pages_def data_pages_def stack_pages_of_def)
    from upt.mapped_both [OF m2 s3(2) this] show ?thesis unfolding I_def program_pages_def T_def D_def S_def .
  qed
  define u' where "u' = (upts s3 up)
       \<lparr>u_data_end := u32 (push_bit (PAGESHIFT hw) (data_pg1 hw li + data_npg li + BASE_PAGE_1 hw - 1)),
        u_brk := u32 (push_bit (PAGESHIFT hw) (data_pg1 hw li + data_npg li + BASE_PAGE_1 hw)),
        u_stack_low := u32 (push_bit (PAGESHIFT hw) (LIM_PAGE_1 hw - stack_npg hw as))\<rparr>"
  define s4 where "s4 = s3\<lparr>upts := (upts s3)(up := u')\<rparr>"
  have keep: "upt_keep up s0 s3" "u_inv hw up s3" using m3 by (simp_all add: upt.mapped_def)
  have l3: "live s3 up" using keep(2) by (simp add: u_inv_def)
  have "build_region1 hw up li as s = Some s4"
    using live l3 s1(1) s2(1) s3(1) by (simp add: build_region1_def upd_upt_def s4_def u'_def flip: s0_def)
  moreover have pg: "upages hw up s4 = upages hw up s3" by (simp add: s4_def upages_def u'_def)
  moreover have "u_inv hw up s4" using keep(2) by (simp add: u_inv_def pg) (simp add: s4_def)
  moreover obtain F where "inj_on F I" "F ` I \<subseteq> pool hw (free_frame s)" "pool hw (free_frame s3) = pool hw (free_frame s) - F ` I"
      "\<forall>i. upages hw up s3 i = (if i \<in> I then Some (F i, PROT_RW hw) else None)"
    using m3 p0 unfolding upt.mapped_def by (auto simp: s0_def)
  moreover have "same_heap s s4" "kernel_pt s4 = kernel_pt s" "kstacks s4 = kstacks s" "pmem s4 = pmem s"
      "\<forall>a. a \<noteq> up \<longrightarrow> upts s4 a = upts s a" "u_size u' = li_t_npg li + data_npg li + stack_npg hw as" "free_frame s4 = free_frame s3"
    using keep(1) by (auto simp: upt_keep_def same_heap_def s4_def s0_def u'_def)
  ultimately show ?thesis by (intro exI [of _ s4] exI [of _ F]) (auto simp: s4_def u'_def)
qed

section \<open>What is on the pages\<close>

lemma read_segment_ok:
  assumes hw: "hw_ok hw" and u: "u_inv hw (ptbr1 s) s" and n: "0 \<le> n" and f: "off + nat n * PAGESIZE hw \<le> length (ef_bytes f)"
    and own: "\<forall>b. a \<le> b \<and> b < a + nat n * PAGESIZE hw \<longrightarrow> own hw s b" and a: "a + nat n * PAGESIZE hw < 2 ^ 32"
  shows "\<exists>s'. read_segment hw f off a n s = Some (True, s') \<and>
    written hw {a..<a + nat n * PAGESIZE hw} (\<lambda>b. ef_bytes f ! (off + (b - a))) s s'"
proof -
  define N where "N = nat n * PAGESIZE hw"
  have "push_bit (PAGESHIFT hw) n = n * int (PAGESIZE hw)" using hw by (simp add: hw_ok_def push_bit_eq_mult)
  then have seg: "push_bit (PAGESHIFT hw) n = int N" using n by (simp add: N_def)
  let ?cs = "take N (drop off (ef_bytes f))"
  have len: "length ?cs = N" using f by (simp add: N_def)
  obtain s' where s': "store_bytes hw a ?cs s = Some s'" "written hw {a..<a + length ?cs} (\<lambda>b. ?cs ! (b - a)) s s'"
    using store_bytes_ok [OF hw u, of a ?cs] own [folded N_def] a [folded N_def] unfolding len by blast
  moreover have "written hw {a..<a + N} (\<lambda>b. ef_bytes f ! (off + (b - a))) s s'"
    by (rule written_cong [OF s'(2)]) (use f len in \<open>auto simp: N_def\<close>)
  moreover have "read_segment hw f off a n s = Some (True, s')"
    unfolding read_segment_def seg Let_def nat_int using s'(1) len by simp
  ultimately show ?thesis by (auto simp: N_def)
qed

text \<open>Changing the protection of pages changes nothing that loads or stores see.\<close>

definition reprotected :: "addr \<Rightarrow> int set \<Rightarrow> int \<Rightarrow> 'z mem_scheme \<Rightarrow> 'z mem_scheme \<Rightarrow> bool" where
  "reprotected up I prot s s' \<longleftrightarrow> s' = s\<lparr>upts := (upts s)(up := (upts s up)\<lparr>u_pt :=
     (\<lambda>i. if i \<in> I then (u_pt (upts s up) i)\<lparr>pte_prot := prot\<rparr> else u_pt (upts s up) i)\<rparr>)\<rparr>"

lemma protect_ok:
  assumes "live s up" and "0 \<le> a" "a \<le> b" "b \<le> NUM_PAGES_1 hw"
  shows "for_up a b (\<lambda>i. upd_upte hw up i (\<lambda>e. e\<lparr>pte_prot := prot\<rparr>)) s =
    Some (s\<lparr>upts := (upts s)(up := (upts s up)\<lparr>u_pt :=
     (\<lambda>i. if i \<in> {a..<b} then (u_pt (upts s up) i)\<lparr>pte_prot := prot\<rparr> else u_pt (upts s up) i)\<rparr>)\<rparr>)"
proof -
  have "\<exists>s'. for_up a b (\<lambda>i. upd_upte hw up i (\<lambda>e. e\<lparr>pte_prot := prot\<rparr>)) s = Some s' \<and> reprotected up {a..<b} prot s s'"
  proof (rule for_up_rule [where P = "\<lambda>n. reprotected up {a..<n} prot s"])
    fix i s' assume i: "a \<le> i" "i < b" and m: "reprotected up {a..<i} prot s s'"
    have "{a..<i + 1} = insert i {a..<i}" using i by auto
    moreover have "live s' up" using assms(1) m by (simp add: reprotected_def)
    ultimately show "\<exists>s''. upd_upte hw up i (\<lambda>e. e\<lparr>pte_prot := prot\<rparr>) s' = Some s'' \<and> reprotected up {a..<i + 1} prot s s''"
      using i assms(2,4) m by (auto simp: upd_upte_live reprotected_def fun_eq_iff)
  qed (use assms in \<open>auto simp: reprotected_def\<close>)
  then show ?thesis by (simp add: reprotected_def)
qed

lemma reprotectedD:
  assumes "reprotected up I prot s s'"
  shows "upages hw up s' = (\<lambda>i. if i \<in> I then map_option (\<lambda>(f, _). (f, prot)) (upages hw up s i) else upages hw up s i)"
    "user_addr hw up s' b = user_addr hw up s b" "u_inv hw up s' = u_inv hw up s" "load hw s' b = load hw s b"
proof -
  have s': "s' = s\<lparr>upts := (upts s)(up := (upts s up)\<lparr>u_pt :=
     (\<lambda>i. if i \<in> I then (u_pt (upts s up) i)\<lparr>pte_prot := prot\<rparr> else u_pt (upts s up) i)\<rparr>)\<rparr>"
    using assms by (simp add: reprotected_def)
  show pg: "upages hw up s' = (\<lambda>i. if i \<in> I then map_option (\<lambda>(f, _). (f, prot)) (upages hw up s i) else upages hw up s i)" for hw
    by (simp add: s' upages_def entries_def fun_eq_iff)
  show "user_addr hw up s' b = user_addr hw up s b" by (auto simp: user_addr_def pg)
  have fst: "(\<exists>p. upages hw up s' i = Some (f, p)) = (\<exists>p. upages hw up s i = Some (f, p))" for i f
    by (auto simp: pg)
  have "sound hw ff (upages hw up s') = sound hw ff (upages hw up s)" for ff
    using fst unfolding sound_def by (metis (no_types, lifting))
  then show "u_inv hw up s' = u_inv hw up s" by (simp add: u_inv_def) (simp add: s')
  show "load hw s' b = load hw s b"
    by (auto simp: load_def frame_at_def rd_kpte_def rd_upte_def s')
qed

section \<open>The layout a program starts with\<close>

lemma page_addr:
  assumes hw: "hw_ok hw" and x: "0 \<le> x" and le: "(nat x + 1) * PAGESIZE hw \<le> 2 ^ 32"
  defines "a \<equiv> u32 (push_bit (PAGESHIFT hw) x)"
  shows "a = nat x * PAGESIZE hw" "page_index hw (UP_TO_PAGE hw a) = x - BASE_PAGE_1 hw" "page_index hw (DOWN_TO_PAGE hw a) = x - BASE_PAGE_1 hw"
    "a + PAGESIZE hw \<le> 2 ^ 32"
proof -
  let ?p = "PAGESIZE hw"
  have p: "0 < ?p" using hw_size(2) [OF hw] .
  have pb: "push_bit (PAGESHIFT hw) x = int (nat x * ?p)" using hw x by (simp add: hw_ok_def push_bit_eq_mult)
  have lt: "nat x * ?p + ?p \<le> 2 ^ 32" using le by simp
  then have "nat x * ?p < 2 ^ 32" using p by linarith
  then show a: "a = nat x * ?p" 
  proof -
    have "u32 (int n) = n" if "n < 2 ^ 32" for n using that by (simp add: u32_id)
    with \<open>nat x * ?p < 2 ^ 32\<close> show ?thesis unfolding a_def pb by blast
  qed
  with lt show l: "a + ?p \<le> 2 ^ 32" by simp
  have "(nat x * ?p + ?p - 1) div ?p = nat x"
  proof -
    have "nat x * ?p + ?p - 1 = (?p - 1) + nat x * ?p" using p by simp
    then show ?thesis using p by (simp only: div_mult_self1) simp
  qed
  with up_page [OF hw l] p x show "page_index hw (UP_TO_PAGE hw a) = x - BASE_PAGE_1 hw" by (simp add: a page_index_def)
  show "page_index hw (DOWN_TO_PAGE hw a) = x - BASE_PAGE_1 hw" using p x by (simp add: a page_index_def down_page [OF hw])
qed

lemma region_limit:
  assumes hw: "hw_ok hw" and "x \<le> LIM_PAGE_1 hw"
  shows "nat x * PAGESIZE hw \<le> VMEM_1_LIMIT hw" "(nat x + 1) * PAGESIZE hw \<le> 2 ^ 32"
proof -
  have d: "PAGESIZE hw dvd VMEM_1_LIMIT hw" "VMEM_1_LIMIT hw < 2 ^ 32" using hw by (auto simp: hw_ok_def)
  have "nat x \<le> VMEM_1_LIMIT hw div PAGESIZE hw" using assms(2) by (simp add: LIM_PAGE_1_def page_of [OF hw])
  then have "nat x * PAGESIZE hw \<le> VMEM_1_LIMIT hw div PAGESIZE hw * PAGESIZE hw" by (rule mult_le_mono1)
  then show n: "nat x * PAGESIZE hw \<le> VMEM_1_LIMIT hw" using d(1) by simp
  have "PAGESIZE hw dvd 2 ^ 32"
  proof -
    have "PAGESIZE hw \<le> VMEM_1_LIMIT hw" using hw d(1) by (auto simp: hw_ok_def intro: dvd_imp_le)
    then have "(2::nat) ^ PAGESHIFT hw < 2 ^ 32" using d(2) hw by (simp add: hw_ok_def)
    then have "PAGESHIFT hw < 32" by (rule power_less_imp_less_exp [rotated]) simp
    then have "(2::nat) ^ PAGESHIFT hw dvd 2 ^ 32" by (intro le_imp_power_dvd) simp
    moreover have "PAGESIZE hw = 2 ^ PAGESHIFT hw" using hw by (simp add: hw_ok_def)
    ultimately show ?thesis by simp
  qed
  moreover have "PAGESIZE hw dvd nat x * PAGESIZE hw" by simp
  moreover have "nat x * PAGESIZE hw < 2 ^ 32" using n d(2) by linarith
  ultimately have "nat x * PAGESIZE hw + PAGESIZE hw \<le> 2 ^ 32"
    by (metis add.commute dvd_add_left_iff dvd_diff_nat dvd_imp_le le_add_diff_inverse less_imp_le_nat nat_add_left_cancel_le zero_less_diff)
  then show "(nat x + 1) * PAGESIZE hw \<le> 2 ^ 32" by simp
qed

lemma run_end:
  assumes hw: "hw_ok hw" and "VMEM_1_BASE hw \<le> v" "PAGESIZE hw dvd v" and "page_index hw v + int n \<le> NUM_PAGES_1 hw"
  shows "v + n * PAGESIZE hw \<le> VMEM_1_LIMIT hw" "v + n * PAGESIZE hw < 2 ^ 32"
proof -
  have p: "0 < PAGESIZE hw" using hw_size(2) [OF hw] .
  obtain k where k: "v = PAGESIZE hw * k" using assms(3) by blast
  have "int (k + n) \<le> LIM_PAGE_1 hw" using assms(4) region_1(1) [OF hw] p by (simp add: page_index_def k)
  from region_limit(1) [OF hw this] have "(k + n) * PAGESIZE hw \<le> VMEM_1_LIMIT hw" unfolding nat_int .
  then show l: "v + n * PAGESIZE hw \<le> VMEM_1_LIMIT hw" by (simp add: k algebra_simps)
  then show "v + n * PAGESIZE hw < 2 ^ 32" using hw by (simp add: hw_ok_def)
qed

text \<open>Strings and vectors depend on the bytes only: they are read in a state that has the same bytes.\<close>

definition sees :: "hw \<Rightarrow> 'y mem_scheme \<Rightarrow> 'z mem_scheme \<Rightarrow> bool" where
  "sees hw s s' \<longleftrightarrow> (\<forall>a c. load hw s a = Some c \<longrightarrow> load hw s' a = Some c)"

lemma sees_same: "load hw s' = load hw s \<Longrightarrow> sees hw s s'"
  by (simp add: sees_def)

lemma load32_same: "load32 hw s a = Some w \<Longrightarrow> sees hw s s' \<Longrightarrow> load32 hw s' a = Some w"
  by (auto simp: load32_def sees_def bind_Some_iff)

lemma c_string_same: "c_string hw s a = Some r \<Longrightarrow> sees hw s s' \<longrightarrow> c_string hw s' a = Some r"
proof (erule c_string.raw_induct [rotated])
  fix cs hw and s :: "'a mem_scheme" and a r
  assume IH: "\<And>hw s a r. cs hw s a = Some r \<Longrightarrow> sees hw s s' \<longrightarrow> c_string hw s' a = Some r"
    and eq: "do { c \<leftarrow> load hw s a; if c = 0 then Some [] else do { ds \<leftarrow> cs hw s (uadd a 1); Some (c # ds) } } = Some r"
  show "sees hw s s' \<longrightarrow> c_string hw s' a = Some r"
  proof
    assume l: "sees hw s s'"
    from eq obtain c where c: "load hw s a = Some c" "(if c = 0 then Some [] else do { ds \<leftarrow> cs hw s (uadd a 1); Some (c # ds) }) = Some r"
      by (auto simp: bind_Some_iff)
    then show "c_string hw s' a = Some r"
      using IH [of hw s "uadd a 1"] l by (auto simp: c_string.simps [of hw s' a] sees_def bind_Some_iff split: if_splits)
  qed
qed

lemma c_args_same: "c_args hw s a = Some r \<Longrightarrow> sees hw s s' \<longrightarrow> c_args hw s' a = Some r"
proof (erule c_args.raw_induct [rotated])
  fix ca hw and s :: "'a mem_scheme" and a r
  assume IH: "\<And>hw s a r. ca hw s a = Some r \<Longrightarrow> sees hw s s' \<longrightarrow> c_args hw s' a = Some r"
    and eq: "do { p \<leftarrow> load32 hw s a; if p = 0 then Some [] else do { b \<leftarrow> c_string hw s p; bs \<leftarrow> ca hw s (uadd a 4); Some (b # bs) } } = Some r"
  show "sees hw s s' \<longrightarrow> c_args hw s' a = Some r"
  proof
    assume l: "sees hw s s'"
    from eq obtain p where p: "load32 hw s a = Some p"
        "(if p = 0 then Some [] else do { b \<leftarrow> c_string hw s p; bs \<leftarrow> ca hw s (uadd a 4); Some (b # bs) }) = Some r"
      by (auto simp: bind_Some_iff)
    show "c_args hw s' a = Some r"
    proof (cases "p = 0")
      case True
      with p load32_same [OF p(1) l] show ?thesis by (simp add: c_args.simps [of hw s' a])
    next
      case False
      with p(2) obtain b bs where "c_string hw s p = Some b" "ca hw s (uadd a 4) = Some bs" "r = b # bs" by (auto simp: bind_Some_iff)
      with load32_same [OF p(1) l] False IH [of hw s "uadd a 4" bs] c_string_same [of hw s p b s'] l show ?thesis
        by (simp add: c_args.simps [of hw s' a])
    qed
  qed
qed

end
