(* ===== verification/Load_Spec.thy ===== *)
theory Load_Spec
  imports Program_Image
begin

text \<open>
  \<open>LoadProgram\<close> as a whole: the memory of the new program, what is in it, and the ways in which
  loading fails; and what the checks of \<open>KernelExec\<close> are worth to it.
\<close>

section \<open>What a program finds\<close>

text \<open>The frames a program can be loaded on: the free ones and those of the old program.\<close>

definition at_hand :: "hw \<Rightarrow> addr \<Rightarrow> 'z mem_scheme \<Rightarrow> int set" where
  "at_hand hw up s = pool hw (free_frame s) \<union> {f. \<exists>i p. upages hw up s i = Some (f, p)}"

text \<open>The bytes of text and data, zeros up to the end of the data, and the arguments.\<close>

definition segments_at :: "hw \<Rightarrow> exec_file \<Rightarrow> load_info \<Rightarrow> 'z mem_scheme \<Rightarrow> bool" where
  "segments_at hw f li s \<longleftrightarrow>
     (\<forall>k < nat (li_t_npg li) * PAGESIZE hw. load hw s (li_t_vaddr li + k) = Some (ef_bytes f ! (li_t_faddr li + k))) \<and>
     (\<forall>k < nat (li_id_npg li) * PAGESIZE hw. li_id_vaddr li + k < li_id_end li \<longrightarrow>
        load hw s (li_id_vaddr li + k) = Some (ef_bytes f ! (li_id_faddr li + k))) \<and>
     (\<forall>b. li_id_end li \<le> b \<and> b < li_ud_end li \<longrightarrow> load hw s b = Some 0)"

definition program_at :: "hw \<Rightarrow> exec_file \<Rightarrow> load_info \<Rightarrow> byte list list \<Rightarrow> 'z mem_scheme \<Rightarrow> bool" where
  "program_at hw f li as s \<longleftrightarrow> segments_at hw f li s \<and>
     load32 hw s (argv_start hw as) = Some (length as) \<and> c_args hw s (argv_start hw as + 4) = Some as"

definition program_mapped :: "hw \<Rightarrow> load_info \<Rightarrow> byte list list \<Rightarrow> addr \<Rightarrow> int set \<Rightarrow> 'z mem_scheme \<Rightarrow> bool" where
  "program_mapped hw li as up A s \<longleftrightarrow> u_inv hw up s \<and>
     (\<exists>F. F ` program_pages hw li as \<subseteq> A \<and> upages hw up s = (\<lambda>i.
       if i \<in> text_pages hw li then Some (F i, or (PROT_READ hw) (PROT_EXEC hw))
       else if i \<in> program_pages hw li as then Some (F i, PROT_RW hw) else None))"

lemma page_index_user: "hw_ok hw \<Longrightarrow> user_page hw b = page_index hw b"
  by (simp add: user_page_def page_index_def page_of)

text \<open>The part of the stack that the arguments need is on its pages, above text and data.\<close>

lemma stack_own:
  assumes hw: "hw_ok hw" and fit: "args_fit hw as" and b: "argv_start hw as \<le> b" "b < VMEM_1_LIMIT hw"
  shows "in_region_1 hw b" "user_page hw b \<in> stack_pages_of hw as"
proof -
  note Y = stack_layout [OF hw fit] and P = argument_pages [OF hw fit]
  have "0 \<le> INITIAL_STACK_FRAME_SIZE hw" using fit by (simp add: args_fit_def)
  then have sp: "initial_sp hw as \<le> b" "VMEM_1_BASE hw \<le> b" using Y(4,5) b by linarith+
  then show r: "in_region_1 hw b" using b by (simp add: in_region_1_def)
  have "initial_sp hw as div PAGESIZE hw \<le> b div PAGESIZE hw" using sp(1) by (rule div_le_mono)
  then have "LIM_PAGE_1 hw - stack_npg hw as - BASE_PAGE_1 hw \<le> user_page hw b"
    using P(1) by (simp add: user_page_def page_of [OF hw])
  with user_page_range(2) [OF hw r] region_1(1) [OF hw] show "user_page hw b \<in> stack_pages_of hw as"
    by (simp add: stack_pages_of_def)
qed

lemma below_stack:
  assumes hw: "hw_ok hw" and fit: "args_fit hw as" and "user_page hw b < NUM_PAGES_1 hw - stack_npg hw as"
  shows "b < argv_start hw as"
proof (rule ccontr)
  note Y = stack_layout [OF hw fit] and P = argument_pages [OF hw fit]
  assume "\<not> b < argv_start hw as"
  moreover have "0 \<le> INITIAL_STACK_FRAME_SIZE hw" using fit by (simp add: args_fit_def)
  ultimately have "initial_sp hw as \<le> b" using Y(5) by linarith
  then have "initial_sp hw as div PAGESIZE hw \<le> b div PAGESIZE hw" by (rule div_le_mono)
  with assms(3) P(1) region_1(1) [OF hw] show False by (simp add: user_page_def page_of [OF hw])
qed

lemma written_ptbr: "written hw W g s s' \<Longrightarrow> ptbr1 s' = ptbr1 s"
  by (auto simp: written_def only_bytes_def)

text \<open>What loading leaves alone: lists and nodes, the tables of the kernel and of kernel stacks, and what the levels above add.\<close>

definition load_keep :: "'z proc_state_scheme \<Rightarrow> 'z proc_state_scheme \<Rightarrow> bool" where
  "load_keep s s' \<longleftrightarrow> nodes s' = nodes s \<and> lls s' = lls s \<and> kernel_pt s' = kernel_pt s \<and> kstacks s' = kstacks s \<and>
     vm_enable s' = vm_enable s \<and> ptbr1 s' = ptbr1 s \<and> pids s' = pids s \<and> proc_state.more s' = proc_state.more s \<and>
     brk_next s' = brk_next s \<and> ff_size (free_frame s') = ff_size (free_frame s)"

lemma load_keep_trans: "load_keep s s' \<Longrightarrow> load_keep s' s'' \<Longrightarrow> load_keep s s''"
  by (simp add: load_keep_def)

lemma load_keep_table:
  fixes s :: "'z proc_state_scheme"
  shows "\<lbrakk>same_heap s s'; kernel_pt s' = kernel_pt s; kstacks s' = kstacks s\<rbrakk> \<Longrightarrow> load_keep s s'"
  by (cases s; cases s') (simp add: load_keep_def same_heap_def)

lemma free_memory:
  fixes s :: "'z proc_state_scheme"
  assumes "live s a" and "a \<noteq> ptbr1 s"
  shows "\<exists>s'. free a s = Some s' \<and> load hw s' = load hw s \<and> alive s' = (\<lambda>b. alive s b \<and> b \<noteq> a) \<and> upts s' = upts s \<and>
    free_frame s' = free_frame s \<and> pcbs s' = pcbs s \<and> load_keep s s'"
proof -
  have "load hw (orphaned {a} {} s) b = load hw s b" for b
    using assms(2) by (simp add: load_def frame_at_def rd_kpte_def rd_upte_def) (simp add: orphaned_def)
  with free_orphaned [OF assms(1)] show ?thesis
    by (intro exI [of _ "orphaned {a} {} s"]) (simp add: orphaned_def load_keep_def fun_eq_iff)
qed

text \<open>The bytes of the segments and of the arguments are on pages of the program, apart from each other.\<close>

lemma program_own:
  assumes hw: "hw_ok hw" and cur: "ptbr1 s = up" and ok: "program_ok hw li f" and fit: "args_fit hw as"
    and room: "stack_npg hw as + data_pg1 hw li + data_npg li < MAX_PT_LEN hw"
    and pg: "\<forall>i\<in>program_pages hw li as. upages hw up s i \<noteq> None"
  shows "\<lbrakk>li_t_vaddr li \<le> b; b < li_t_vaddr li + nat (li_t_npg li) * PAGESIZE hw\<rbrakk> \<Longrightarrow> own hw s b \<and> b < argv_start hw as"
    "\<lbrakk>li_id_vaddr li \<le> b; b < li_id_vaddr li + nat (data_npg li) * PAGESIZE hw\<rbrakk> \<Longrightarrow> own hw s b \<and> b < argv_start hw as"
    "\<lbrakk>argv_start hw as \<le> b; b < VMEM_1_LIMIT hw\<rbrakk> \<Longrightarrow> own hw s b"
    "li_t_vaddr li + nat (li_t_npg li) * PAGESIZE hw < 2 ^ 32" "li_id_vaddr li + nat (data_npg li) * PAGESIZE hw < 2 ^ 32"
proof -
  let ?p = "PAGESIZE hw" and ?t = "li_t_vaddr li" and ?d = "li_id_vaddr li"
  note P = ok [unfolded program_ok_def]
  have st: "0 < stack_npg hw as" using argument_pages(2) [OF hw fit] .
  note L = program_layout [OF hw ok room st]
  have base: "VMEM_1_BASE hw \<le> ?t" "VMEM_1_BASE hw \<le> ?d" "?p dvd ?t" "?p dvd ?d" using P by auto
  have n: "0 \<le> li_t_npg li" "0 \<le> data_npg li" using P by simp_all
  have t: "page_index hw ?t + int (nat (li_t_npg li)) \<le> NUM_PAGES_1 hw"
    and d: "page_index hw ?d + int (nat (data_npg li)) \<le> NUM_PAGES_1 hw" using L n st by simp_all
  note ta = run_addr [OF hw base(1,3) t] and da = run_addr [OF hw base(2,4) d]
  have up: "own hw s b" if "in_region_1 hw b" "user_page hw b \<in> program_pages hw li as" for b
    using that pg by (auto simp: user_addr_def cur)
  have below: "own hw s b \<and> b < argv_start hw as" if "in_region_1 hw b" "user_page hw b \<in> text_pages hw li \<union> data_pages hw li" for b
  proof
    show "own hw s b" using that by (intro up) (auto simp: program_pages_def)
    have "user_page hw b < NUM_PAGES_1 hw - stack_npg hw as" using that(2) L n by (auto simp: text_pages_def data_pages_def)
    then show "b < argv_start hw as" by (rule below_stack [OF hw fit])
  qed
  show "own hw s b \<and> b < argv_start hw as" if "?t \<le> b" "b < ?t + nat (li_t_npg li) * ?p"
    using ta [OF that] L n by (intro below) (auto simp: text_pages_def)
  show "own hw s b \<and> b < argv_start hw as" if "?d \<le> b" "b < ?d + nat (data_npg li) * ?p"
    using da [OF that] L n by (intro below) (auto simp: data_pages_def)
  show "own hw s b" if "argv_start hw as \<le> b" "b < VMEM_1_LIMIT hw"
    using stack_own [OF hw fit that] by (intro up) (auto simp: program_pages_def)
  show "?t + nat (li_t_npg li) * ?p < 2 ^ 32" "?d + nat (data_npg li) * ?p < 2 ^ 32"
    using run_end(2) [OF hw base(1,3) t] run_end(2) [OF hw base(2,4) d] .
qed

lemma reprotected_pmem: "reprotected up I p s s' \<Longrightarrow> reprotected up I p (s\<lparr>pmem := M\<rparr>) (s'\<lparr>pmem := M\<rparr>)"
  by (simp add: reprotected_def cong: if_cong)

lemma segments_same:
  assumes "segments_at hw f li s" and "program_ok hw li f"
    and same: "\<And>b. li_t_vaddr li \<le> b \<and> b < li_t_vaddr li + nat (li_t_npg li) * PAGESIZE hw \<or>
      li_id_vaddr li \<le> b \<and> b < li_id_vaddr li + nat (data_npg li) * PAGESIZE hw \<Longrightarrow> load hw s' b = load hw s b"
  shows "segments_at hw f li s'"
proof -
  have e: "li_ud_end li \<le> li_id_vaddr li + nat (data_npg li) * PAGESIZE hw" "li_id_end li \<le> li_ud_end li" "li_id_vaddr li \<le> li_id_end li"
    using assms(2) by (simp_all add: program_ok_def)
  have "load hw s' (li_id_vaddr li + k) = load hw s (li_id_vaddr li + k)" if "li_id_vaddr li + k < li_id_end li" for k
    using that e by (intro same) linarith
  moreover have "load hw s' b = load hw s b" if "li_id_end li \<le> b" "b < li_ud_end li" for b
    using that e by (intro same) linarith
  ultimately show ?thesis using assms(1) same by (simp add: segments_at_def)
qed

text \<open>Reading the segments, protecting the text and clearing the rest of the data.\<close>

lemma load_segments:
  assumes hw: "hw_ok hw" and u: "u_inv hw up s" and cur: "ptbr1 s = up" and ok: "program_ok hw li f" and fit: "args_fit hw as"
    and room: "stack_npg hw as + data_pg1 hw li + data_npg li < MAX_PT_LEN hw"
    and pg: "\<forall>i\<in>program_pages hw li as. upages hw up s i \<noteq> None"
  shows "\<exists>s3 s4 s5 s6 M. read_segment hw f (li_t_faddr li) (li_t_vaddr li) (li_t_npg li) s = Some (True, s3) \<and>
    read_segment hw f (li_id_faddr li) (li_id_vaddr li) (li_id_npg li) s3 = Some (True, s4) \<and>
    for_up (text_pg1 hw li) (text_pg1 hw li + li_t_npg li)
      (\<lambda>i. upd_upte hw up i (\<lambda>e. e\<lparr>pte_prot := or (PROT_READ hw) (PROT_EXEC hw)\<rparr>)) s4 = Some s5 \<and>
    set_zero hw (li_id_end li) (usub (li_ud_end li) (li_id_end li)) s5 = Some s6 \<and>
    reprotected up (text_pages hw li) (or (PROT_READ hw) (PROT_EXEC hw)) (s\<lparr>pmem := M\<rparr>) s6 \<and> segments_at hw f li s6"
proof -
  let ?p = "PAGESIZE hw" and ?t = "li_t_vaddr li" and ?d = "li_id_vaddr li" and ?x = "or (PROT_READ hw) (PROT_EXEC hw)"
  define T D where "T = {?t..<?t + nat (li_t_npg li) * ?p}" and "D = {?d..<?d + nat (li_id_npg li) * ?p}"
  note P = ok [unfolded program_ok_def]
  have st: "0 < stack_npg hw as" using argument_pages(2) [OF hw fit] .
  note L = program_layout [OF hw ok room st] and O = program_own [OF hw cur ok fit room pg]
  have idn: "nat (li_id_npg li) * ?p \<le> nat (data_npg li) * ?p" using P by (intro mult_le_mono1) (auto simp: data_npg_def)
  have dsub: "?d \<le> b \<and> b < ?d + nat (data_npg li) * ?p" if "b \<in> D" for b
    using that idn unfolding D_def atLeastLessThan_iff by linarith
  have dend: "?d + nat (li_id_npg li) * ?p < 2 ^ 32" using idn O(5) by linarith
  have own: "b \<in> T \<or> b \<in> D \<or> li_id_end li \<le> b \<and> b < li_ud_end li \<Longrightarrow> own hw s b" for b
    using O(1,2) [of b] P dsub [of b] by (auto simp: T_def)
  obtain s3 where s3: "read_segment hw f (li_t_faddr li) ?t (li_t_npg li) s = Some (True, s3)"
      "written hw T (\<lambda>b. ef_bytes f ! (li_t_faddr li + (b - ?t))) s s3"
    using read_segment_ok [OF hw, of s "li_t_npg li" "li_t_faddr li" f ?t] u cur P O(1,4) by (auto simp: T_def)
  note D3 = only_bytesD [OF written_bytes [OF s3(2)]]
  obtain s4 where s4: "read_segment hw f (li_id_faddr li) ?d (li_id_npg li) s3 = Some (True, s4)"
      "written hw D (\<lambda>b. ef_bytes f ! (li_id_faddr li + (b - ?d))) s3 s4"
    using read_segment_ok [OF hw, of s3 "li_id_npg li" "li_id_faddr li" f ?d] u cur P own dend by (auto simp: D3 D_def)
  note D4 = only_bytesD [OF written_bytes [OF s4(2)], unfolded D3]
  have "live s4 up" using u by (simp add: D4 u_inv_def)
  then obtain s5 where s5: "for_up (text_pg1 hw li) (text_pg1 hw li + li_t_npg li) (\<lambda>i. upd_upte hw up i (\<lambda>e. e\<lparr>pte_prot := ?x\<rparr>)) s4 = Some s5"
      "reprotected up (text_pages hw li) ?x s4 s5"
    using protect_ok [of s4 up "text_pg1 hw li" "text_pg1 hw li + li_t_npg li" hw ?x] L P st
    by (auto simp: reprotected_def text_pages_def)
  note R = reprotectedD [OF s5(2)]
  have pt5: "ptbr1 s5 = up" using s5(2) cur by (simp add: reprotected_def D4)
  have z: "usub (li_ud_end li) (li_id_end li) = li_ud_end li - li_id_end li" "li_ud_end li < 2 ^ 32"
    using P O(5) by (auto simp: usub_exact)
  obtain s6 where s6: "set_zero hw (li_id_end li) (usub (li_ud_end li) (li_id_end li)) s5 = Some s6"
      "written hw {li_id_end li..<li_ud_end li} (\<lambda>b. replicate (li_ud_end li - li_id_end li) 0 ! (b - li_id_end li)) s5 s6"
    using store_bytes_ok [OF hw, of s5 "li_id_end li" "replicate (li_ud_end li - li_id_end li) 0"] u own P z cur
    by (auto simp: set_zero_def pt5 R D4)
  obtain M3 M4 M6 where M: "s3 = s\<lparr>pmem := M3\<rparr>" "s4 = s3\<lparr>pmem := M4\<rparr>" "s6 = s5\<lparr>pmem := M6\<rparr>"
    using written_bytes [OF s3(2)] written_bytes [OF s4(2)] written_bytes [OF s6(2)] by (auto simp: only_bytes_def)
  have re: "reprotected up (text_pages hw li) ?x (s\<lparr>pmem := M6\<rparr>) s6" using reprotected_pmem [OF s5(2) [unfolded M(2,1)], of M6] by (simp add: M)
  have o: "own hw s3 b = own hw s b" "own hw s5 b = own hw s b" for b using cur by (simp_all add: D3 D4 R pt5)
  have l5: "load hw s5 b = (if b \<in> D then Some (ef_bytes f ! (li_id_faddr li + (b - ?d))) else
     if b \<in> T then Some (ef_bytes f ! (li_t_faddr li + (b - ?t))) else load hw s b)" if "own hw s b" for b
    using s3(2) s4(2) that by (simp add: written_def R(4) o)
  have l6: "load hw s6 b = (if li_id_end li \<le> b \<and> b < li_ud_end li then Some 0 else load hw s5 b)" if "own hw s b" for b
    using written_in [OF s6(2), of b] written_out [OF s6(2), of b] that by (auto simp: o)
  have "segments_at hw f li s6"
    unfolding segments_at_def
  proof (intro conjI allI impI)
    fix k assume k: "k < nat (li_t_npg li) * ?p"
    then have "?t + k \<in> T" by (simp add: T_def)
    moreover have "?t + k < ?d" using P k by linarith
    ultimately show "load hw s6 (?t + k) = Some (ef_bytes f ! (li_t_faddr li + k))"
      using own [of "?t + k"] l5 [of "?t + k"] l6 [of "?t + k"] P by (auto simp: D_def)
  next
    fix k assume "k < nat (li_id_npg li) * ?p" "?d + k < li_id_end li"
    then show "load hw s6 (?d + k) = Some (ef_bytes f ! (li_id_faddr li + k))"
      using own [of "?d + k"] l5 [of "?d + k"] l6 [of "?d + k"] by (auto simp: D_def)
  next
    fix b assume "li_id_end li \<le> b \<and> b < li_ud_end li"
    then show "load hw s6 b = Some 0" using own [of b] l6 [of b] by auto
  qed
  with s3(1) s4(1) s5(1) s6(1) re show ?thesis by blast
qed

text \<open>Setting the entry point, building the stack and releasing the buffer of the arguments.\<close>

lemma load_stack:
  fixes s :: "'z proc_state_scheme"
  assumes hw: "hw_ok hw" and u: "u_inv hw up s" and cur: "ptbr1 s = up" and proc: "live s proc" and ab: "live s argbuf" "argbuf \<noteq> up"
    and ok: "program_ok hw li f" and fit: "args_fit hw as" and zf: "\<forall>a\<in>set as. 0 \<notin> set a"
    and room: "stack_npg hw as + data_pg1 hw li + data_npg li < MAX_PT_LEN hw"
    and pg: "\<forall>i\<in>program_pages hw li as. upages hw up s i \<noteq> None" and seg: "segments_at hw f li s"
  shows "\<exists>s'. (do {
      s \<leftarrow> upd_pcb proc (\<lambda>p. p\<lparr>pcb_uc := (pcb_uc p)\<lparr>uc_pc := li_entry li\<rparr>\<rparr>) s;
      s \<leftarrow> build_stack hw as s;
      s \<leftarrow> free argbuf s;
      Some (SUCCESS hw, s) }) = Some (SUCCESS hw, s') \<and> program_at hw f li as s' \<and> u_inv hw up s' \<and> upts s' = upts s \<and>
    pcbs s' = (pcbs s)(proc := (pcbs s proc)\<lparr>pcb_uc := (pcb_uc (pcbs s proc))\<lparr>uc_pc := li_entry li\<rparr>\<rparr>) \<and>
    alive s' = (\<lambda>b. alive s b \<and> b \<noteq> argbuf) \<and> free_frame s' = free_frame s \<and> load_keep s s'"
proof -
  note O = program_own [OF hw cur ok fit room pg]
  define s7 where "s7 = s\<lparr>pcbs := (pcbs s)(proc := (pcbs s proc)\<lparr>pcb_uc := (pcb_uc (pcbs s proc))\<lparr>uc_pc := li_entry li\<rparr>\<rparr>)\<rparr>"
  have l7: "load hw s7 b = load hw s b" for b by (simp add: s7_def load_def frame_at_def rd_kpte_def rd_upte_def)
  have o7: "own hw s7 b = own hw s b" "ptbr1 s7 = up" "u_inv hw up s7" for b
    using u cur by (simp_all add: s7_def user_addr_def upages_def u_inv_def)
  obtain s8 where s8: "build_stack hw as s7 = Some s8" "only_bytes s7 s8" "load32 hw s8 (argv_start hw as) = Some (length as)"
      "c_args hw s8 (argv_start hw as + 4) = Some as" "\<forall>b. own hw s7 b \<longrightarrow> b < argv_start hw as \<longrightarrow> load hw s8 b = load hw s7 b"
    using build_stack_ok [OF hw fit _ _ zf, of s7] o7 cur O(3) by auto
  note D8 = only_bytesD [OF s8(2)]
  have f8: "live s8 argbuf" "ptbr1 s8 = up" using ab(1) o7(2) by (auto simp: D8 s7_def)
  obtain s9 where s9: "free argbuf s8 = Some s9" "load hw s9 = load hw s8" "alive s9 = (\<lambda>b. alive s8 b \<and> b \<noteq> argbuf)"
      "upts s9 = upts s8" "free_frame s9 = free_frame s8" "pcbs s9 = pcbs s8" "load_keep s8 s9"
    using free_memory [OF f8(1)] ab(2) f8(2) by blast
  obtain M8 where M8: "s8 = s7\<lparr>pmem := M8\<rparr>" using s8(2) by (auto simp: only_bytes_def)
  have a9: "alive s9 = (\<lambda>b. alive s b \<and> b \<noteq> argbuf)" using s9(3) by (simp add: M8 s7_def)
  have "segments_at hw f li s9"
  proof (rule segments_same [OF seg ok])
    fix b assume "li_t_vaddr li \<le> b \<and> b < li_t_vaddr li + nat (li_t_npg li) * PAGESIZE hw \<or>
      li_id_vaddr li \<le> b \<and> b < li_id_vaddr li + nat (data_npg li) * PAGESIZE hw"
    then have "own hw s b" "b < argv_start hw as" using O(1,2) [of b] by auto
    then show "load hw s9 b = load hw s b" using s8(5) by (simp add: s9(2) o7(1) l7)
  qed
  moreover have "load32 hw s9 (argv_start hw as) = Some (length as)" "c_args hw s9 (argv_start hw as + 4) = Some as"
    using s8(3) c_args_same [OF s8(4), of s9] sees_same [OF s9(2)] s9(2) by (simp_all add: load32_def)
  moreover have "u_inv hw up s9" using o7(3) a9 u ab(2) D8 by (simp add: u_inv_def upages_def s9 live_def s7_def)
  moreover have "load_keep s s8" by (simp add: load_keep_def M8 s7_def)
  then have "load_keep s s9" using s9(7) by (rule load_keep_trans)
  ultimately show ?thesis
    using proc s8(1) s9 a9 by (intro exI [of _ s9]) (simp add: program_at_def M8 s7_def)
qed

section \<open>The new program\<close>

lemma region_loaded:
  assumes hw: "hw_ok hw" and u: "u_inv hw up s" and ok: "program_ok hw li f" and fit: "args_fit hw as"
    and room: "stack_npg hw as + data_pg1 hw li + data_npg li < MAX_PT_LEN hw"
    and pg: "\<And>i. upages hw up s i \<noteq> None \<longleftrightarrow> i \<in> program_pages hw li as"
    and fields: "u_data_end (upts s up) = u32 (push_bit (PAGESHIFT hw) (data_pg1 hw li + data_npg li + BASE_PAGE_1 hw - 1))"
      "u_brk (upts s up) = u32 (push_bit (PAGESHIFT hw) (data_pg1 hw li + data_npg li + BASE_PAGE_1 hw))"
      "u_stack_low (upts s up) = u32 (push_bit (PAGESHIFT hw) (LIM_PAGE_1 hw - stack_npg hw as))"
  shows "region_ok hw up s"
proof -
  have st: "0 < stack_npg hw as" using argument_pages(2) [OF hw fit] .
  note L = program_layout [OF hw ok room st] and r1 = region_1(1) [OF hw]
  have P: "0 \<le> li_t_npg li" "0 < data_npg li" using ok by (simp_all add: program_ok_def)
  have b: "0 \<le> BASE_PAGE_1 hw" by (simp add: BASE_PAGE_1_def)
  define d where "d = data_pg1 hw li + data_npg li"
  have d: "0 < d" "d < NUM_PAGES_1 hw - stack_npg hw as" using L P by (simp_all add: d_def)
  have x1: "0 \<le> d + BASE_PAGE_1 hw - 1" "d + BASE_PAGE_1 hw - 1 \<le> LIM_PAGE_1 hw"
    and x2: "0 \<le> d + BASE_PAGE_1 hw" "d + BASE_PAGE_1 hw \<le> LIM_PAGE_1 hw"
    and x3: "0 \<le> LIM_PAGE_1 hw - stack_npg hw as" "LIM_PAGE_1 hw - stack_npg hw as \<le> LIM_PAGE_1 hw"
    using d b r1 st by simp_all
  note A = page_addr [OF hw x1(1) region_limit(2) [OF hw x1(2)]] and B = page_addr [OF hw x2(1) region_limit(2) [OF hw x2(2)]]
    and C = page_addr [OF hw x3(1) region_limit(2) [OF hw x3(2)]]
  have none: "upages hw up s i = None" if "d \<le> i" "i < NUM_PAGES_1 hw - stack_npg hw as" for i
  proof -
    have "i \<notin> program_pages hw li as" using that L P
      by (auto simp: program_pages_def text_pages_def data_pages_def stack_pages_of_def d_def)
    then show ?thesis using pg [of i] by blast
  qed
  have some: "upages hw up s i \<noteq> None" if "d - 1 \<le> i" "i < d" for i
    using that P unfolding pg by (auto simp: program_pages_def data_pages_def d_def)
  have e: "page_index hw (UP_TO_PAGE hw (u_data_end (upts s up))) = d - 1" "heap_end hw (upts s up) = d"
      "stack_start hw (upts s up) = NUM_PAGES_1 hw - stack_npg hw as"
    using A(2) B(2) C(3) r1 by (simp_all add: fields heap_end_def stack_start_def d_def)
  have "u_stack_low (upts s up) \<le> VMEM_1_LIMIT hw" using C(1) region_limit(1) [OF hw x3(2)] by (simp add: fields)
  moreover have "u_data_end (upts s up) + PAGESIZE hw \<le> 2 ^ 32" "u_brk (upts s up) + PAGESIZE hw \<le> 2 ^ 32"
    using A(4) B(4) by (simp_all add: fields d_def)
  ultimately show ?thesis using u d none some by (simp add: region_ok_def Let_def e)
qed

text \<open>What is left to load when the old program is gone.\<close>

lemma load_committed_ok:
  fixes s :: "'z proc_state_scheme"
  assumes hw: "hw_ok hw" and u: "u_inv hw up s" and cur: "ptbr1 s = up" and proc: "live s proc" "pcb_userpt (pcbs s proc) = up"
    and ab: "live s argbuf" "argbuf \<noteq> up"
    and ok: "program_ok hw li f" and fit: "args_fit hw as" and zf: "\<forall>a\<in>set as. 0 \<notin> set a"
    and room: "stack_npg hw as + data_pg1 hw li + data_npg li < MAX_PT_LEN hw"
    and enough: "li_t_npg li + data_npg li + stack_npg hw as \<le> int (card (at_hand hw up s))"
  shows "\<exists>s'. load_committed hw f li as argbuf proc s = Some (SUCCESS hw, s') \<and> program_at hw f li as s' \<and>
    region_ok hw up s' \<and> program_mapped hw li as up (at_hand hw up s) s' \<and>
    u_size (upts s' up) = li_t_npg li + data_npg li + stack_npg hw as \<and> (\<forall>a. a \<noteq> up \<longrightarrow> upts s' a = upts s a) \<and>
    pcbs s' = (pcbs s)(proc := (pcbs s proc)\<lparr>pcb_uc := (pcb_uc (pcbs s proc))\<lparr>uc_pc := li_entry li\<rparr>\<rparr>) \<and>
    alive s' = (\<lambda>b. alive s b \<and> b \<noteq> argbuf) \<and> load_keep s s' \<and>
    pool hw (free_frame s') = at_hand hw up s - {f. \<exists>i p. upages hw up s' i = Some (f, p)} \<and>
    int (card (at_hand hw up s)) \<le> frames_left (free_frame s') + li_t_npg li + data_npg li + stack_npg hw as"
proof -
  let ?x = "or (PROT_READ hw) (PROT_EXEC hw)"
  have st: "0 < stack_npg hw as" using argument_pages(2) [OF hw fit] .
  note L = program_layout [OF hw ok room st]
  have P: "0 \<le> li_t_npg li" "0 \<le> data_npg li" using ok by (simp_all add: program_ok_def)
  obtain s1 where s1: "destroy_usermem hw up s = Some s1" "upages hw up s1 = (\<lambda>_. None)" "upt_keep up s s1" "u_inv hw up s1"
      "pool hw (free_frame s1) = at_hand hw up s"
    using destroy_usermem_all [OF hw u] by (auto simp: at_hand_def)
  have left: "frames_left (free_frame s1) = int (card (at_hand hw up s))"
    using card_pool [OF u_inv_frames [OF s1(4)]] s1(5) by simp
  obtain s2 F where s2: "build_region1 hw up li as s1 = Some s2" "u_inv hw up s2" "F ` program_pages hw li as \<subseteq> at_hand hw up s"
      "upages hw up s2 = (\<lambda>i. if i \<in> program_pages hw li as then Some (F i, PROT_RW hw) else None)"
      "same_heap s1 s2" "\<forall>a. a \<noteq> up \<longrightarrow> upts s2 a = upts s1 a" "kernel_pt s2 = kernel_pt s1" "kstacks s2 = kstacks s1"
      "pool hw (free_frame s2) = at_hand hw up s - F ` program_pages hw li as" and f2:
      "u_size (upts s2 up) = li_t_npg li + data_npg li + stack_npg hw as"
      "u_data_end (upts s2 up) = u32 (push_bit (PAGESHIFT hw) (data_pg1 hw li + data_npg li + BASE_PAGE_1 hw - 1))"
      "u_brk (upts s2 up) = u32 (push_bit (PAGESHIFT hw) (data_pg1 hw li + data_npg li + BASE_PAGE_1 hw))"
      "u_stack_low (upts s2 up) = u32 (push_bit (PAGESHIFT hw) (LIM_PAGE_1 hw - stack_npg hw as))"
    using build_region1_ok [OF hw s1(4,2) L(1,2) P L(3,4) st] enough unfolding left s1(5) by blast
  have h2: "ptbr1 s2 = up" "live s2 proc" "live s2 argbuf" "pcbs s2 = pcbs s" "alive s2 = alive s" "\<forall>a. a \<noteq> up \<longrightarrow> upts s2 a = upts s a"
    using s1(3) s2(5,6) cur proc ab same_heap_proc(1) [of s s1] same_heap_proc(1) [of s1 s2] by (auto simp: upt_keep_def same_heap_def live_def)
  have pg2: "\<forall>i\<in>program_pages hw li as. upages hw up s2 i \<noteq> None" by (simp add: s2(4))
  obtain s3 s4 s5 s6 M where S: "read_segment hw f (li_t_faddr li) (li_t_vaddr li) (li_t_npg li) s2 = Some (True, s3)"
      "read_segment hw f (li_id_faddr li) (li_id_vaddr li) (li_id_npg li) s3 = Some (True, s4)"
      "for_up (text_pg1 hw li) (text_pg1 hw li + li_t_npg li) (\<lambda>i. upd_upte hw up i (\<lambda>e. e\<lparr>pte_prot := ?x\<rparr>)) s4 = Some s5"
      "set_zero hw (li_id_end li) (usub (li_ud_end li) (li_id_end li)) s5 = Some s6"
      "reprotected up (text_pages hw li) ?x (s2\<lparr>pmem := M\<rparr>) s6" "segments_at hw f li s6"
    using load_segments [OF hw s2(2) h2(1) ok fit room pg2] by blast
  note R = reprotectedD [OF S(5)]
  have p2: "upages hw up (s2\<lparr>pmem := M\<rparr>) = upages hw up s2" "u_inv hw up (s2\<lparr>pmem := M\<rparr>) = u_inv hw up s2"
    by (simp_all add: upages_def u_inv_def)
  have pg6: "upages hw up s6 = (\<lambda>i. if i \<in> text_pages hw li then Some (F i, ?x)
      else if i \<in> program_pages hw li as then Some (F i, PROT_RW hw) else None)"
    unfolding R(1) p2(1) s2(4) by (auto simp: program_pages_def)
  have pg6': "\<forall>i\<in>program_pages hw li as. upages hw up s6 i \<noteq> None" by (simp add: pg6)
  have u6: "u_inv hw up s6" using R(3) p2(2) s2(2) by simp
  have h6: "ptbr1 s6 = up" "live s6 proc" "live s6 argbuf" "pcbs s6 = pcbs s" "alive s6 = alive s" "\<forall>a. a \<noteq> up \<longrightarrow> upts s6 a = upts s a"
    and f6: "u_size (upts s6 up) = u_size (upts s2 up)" "u_data_end (upts s6 up) = u_data_end (upts s2 up)"
      "u_brk (upts s6 up) = u_brk (upts s2 up)" "u_stack_low (upts s6 up) = u_stack_low (upts s2 up)"
    using S(5) h2 by (simp_all add: reprotected_def)
  obtain s9 where s9: "(do {
      s \<leftarrow> upd_pcb proc (\<lambda>p. p\<lparr>pcb_uc := (pcb_uc p)\<lparr>uc_pc := li_entry li\<rparr>\<rparr>) s6;
      s \<leftarrow> build_stack hw as s;
      s \<leftarrow> free argbuf s;
      Some (SUCCESS hw, s) }) = Some (SUCCESS hw, s9)" "program_at hw f li as s9" "u_inv hw up s9" "upts s9 = upts s6"
      "pcbs s9 = (pcbs s6)(proc := (pcbs s6 proc)\<lparr>pcb_uc := (pcb_uc (pcbs s6 proc))\<lparr>uc_pc := li_entry li\<rparr>\<rparr>)"
      "alive s9 = (\<lambda>b. alive s6 b \<and> b \<noteq> argbuf)" "load_keep s6 s9" "free_frame s9 = free_frame s6"
    using load_stack [OF hw u6 h6(1-3) ab(2) ok fit zf room pg6' S(6)] by blast
  have run: "load_committed hw f li as argbuf proc s = Some (SUCCESS hw, s9)"
    using proc s1(1) s2(1) S(1-4) s9(1) enough left by (simp add: load_committed_def rd_pcb_def)
  have pg9: "upages hw up s9 = upages hw up s6" by (simp add: upages_def s9(4))
  note f9 = f6 [folded s9(4)]
  have "upages hw up s9 i \<noteq> None \<longleftrightarrow> i \<in> program_pages hw li as" for i
    by (auto simp: pg9 pg6 program_pages_def)
  then have "region_ok hw up s9" using region_loaded [OF hw s9(3) ok fit room] f2 f9 by simp
  have "program_mapped hw li as up (at_hand hw up s) s9"
    using s9(3) s2(3) by (auto simp: program_mapped_def pg9 pg6)
  have "load_keep s s1" using s1(3) by (intro load_keep_table) (simp_all add: upt_keep_def)
  then have "load_keep s s2" using load_keep_table [OF s2(5,7,8)] by (rule load_keep_trans)
  moreover have "load_keep s2 s6" using S(5) by (simp add: reprotected_def load_keep_def)
  ultimately have keep: "load_keep s s9" using s9(7) load_keep_trans by blast
  have ff: "free_frame s9 = free_frame s2" using S(5) by (simp add: s9(8) reprotected_def)
  have fr: "{f. \<exists>i p. upages hw up s9 i = Some (f, p)} = F ` program_pages hw li as"
  proof -
    have "(\<exists>p. upages hw up s9 i = Some (f, p)) \<longleftrightarrow> i \<in> program_pages hw li as \<and> f = F i" for i f
      by (auto simp: pg9 pg6 program_pages_def)
    then show ?thesis by blast
  qed
  have "card (F ` program_pages hw li as) \<le> card (program_pages hw li as)"
    by (rule card_image_le) (simp add: program_pages_def text_pages_def data_pages_def stack_pages_of_def)
  also have "\<dots> \<le> card (text_pages hw li \<union> data_pages hw li) + card (stack_pages_of hw as)"
    unfolding program_pages_def by (rule card_Un_le)
  also have "\<dots> \<le> card (text_pages hw li) + card (data_pages hw li) + card (stack_pages_of hw as)"
    using card_Un_le [of "text_pages hw li" "data_pages hw li"] by simp
  finally have "int (card (F ` program_pages hw li as)) \<le> li_t_npg li + data_npg li + stack_npg hw as"
    using P st by (simp add: text_pages_def data_pages_def stack_pages_of_def)
  moreover have "finite (F ` program_pages hw li as)"
    by (simp add: program_pages_def text_pages_def data_pages_def stack_pages_of_def)
  from diff_card_le_card_Diff [OF this, of "at_hand hw up s"]
  have "card (at_hand hw up s) \<le> card (pool hw (free_frame s2)) + card (F ` program_pages hw li as)" unfolding s2(9) by linarith
  ultimately have "int (card (at_hand hw up s)) \<le> frames_left (free_frame s9) + li_t_npg li + data_npg li + stack_npg hw as"
    using card_pool [OF u_inv_frames [OF s2(2)]] ff by simp
  with \<open>region_ok hw up s9\<close> \<open>program_mapped hw li as up (at_hand hw up s) s9\<close> show ?thesis
    using run s9 h6 f9(1) f2(1) keep s2(9) ff fr by (intro exI [of _ s9]) simp
qed

text \<open>Too few frames: the old program is gone, and the process is to be killed.\<close>

lemma load_committed_short:
  assumes hw: "hw_ok hw" and u: "u_inv hw up s" and proc: "live s proc" "pcb_userpt (pcbs s proc) = up"
    and short: "int (card (at_hand hw up s)) < li_t_npg li + data_npg li + stack_npg hw as"
  shows "\<exists>s'. load_committed hw f li as argbuf proc s = Some (KILL hw, s') \<and> u_inv hw up s' \<and> upages hw up s' = (\<lambda>_. None) \<and>
    pool hw (free_frame s') = at_hand hw up s \<and> alive s' = alive s"
proof -
  obtain s1 where s1: "destroy_usermem hw up s = Some s1" "upages hw up s1 = (\<lambda>_. None)" "u_inv hw up s1"
      "pool hw (free_frame s1) = at_hand hw up s" "alive s1 = alive s"
    using destroy_usermem_all [OF hw u] by (auto simp: at_hand_def upt_keep_def same_heap_def)
  have "frames_left (free_frame s1) = int (card (at_hand hw up s))"
    using card_pool [OF u_inv_frames [OF s1(3)]] s1(4) by simp
  with proc s1 short show ?thesis by (intro exI [of _ s1]) (simp add: load_committed_def rd_pcb_def)
qed

section \<open>LoadProgram\<close>

text \<open>The strings that are read are without terminators.\<close>

lemma c_string_bytes: "c_string hw s a = Some r \<Longrightarrow> 0 \<notin> set r"
proof (erule c_string.raw_induct [rotated])
  fix cs hw and s :: "'a mem_scheme" and a r
  assume IH: "\<And>hw s a r. cs hw s a = Some r \<Longrightarrow> 0 \<notin> set r"
    and eq: "do { c \<leftarrow> load hw s a; if c = 0 then Some [] else do { ds \<leftarrow> cs hw s (uadd a 1); Some (c # ds) } } = Some r"
  then show "0 \<notin> set r" by (auto simp: bind_Some_iff split: if_splits)
qed

lemma c_args_bytes: "c_args hw s a = Some r \<Longrightarrow> \<forall>b\<in>set r. 0 \<notin> set b"
proof (erule c_args.raw_induct [rotated])
  fix ca hw and s :: "'a mem_scheme" and a r
  assume IH: "\<And>hw s a r. ca hw s a = Some r \<Longrightarrow> \<forall>b\<in>set r. 0 \<notin> set b"
    and eq: "do { p \<leftarrow> load32 hw s a; if p = 0 then Some [] else do { b \<leftarrow> c_string hw s p; bs \<leftarrow> ca hw s (uadd a 4); Some (b # bs) } } = Some r"
  from eq obtain p where "(if p = 0 then Some [] else do { b \<leftarrow> c_string hw s p; bs \<leftarrow> ca hw s (uadd a 4); Some (b # bs) }) = Some r"
    by (auto simp: bind_Some_iff)
  then consider "r = []" | b bs where "c_string hw s p = Some b" "ca hw s (uadd a 4) = Some bs" "r = b # bs"
    by (auto simp: bind_Some_iff split: if_splits)
  then show "\<forall>b\<in>set r. 0 \<notin> set b"
    by cases (use IH [of hw s "uadd a 4"] c_string_bytes [of hw s p] in auto)
qed

lemma LoadProgram_success:
  fixes s :: "'z proc_state_scheme"
  assumes "hw_ok hw" and "heap_ok s" and "u_inv hw (ptbr1 s) s" and "live s proc" and "pcb_userpt (pcbs s proc) = ptbr1 s"
    and "c_string hw s name = Some path" and "files hw path = Some f" and "ef_info f = Some li" and "c_args hw s args = Some as"
    and "program_ok hw li f" and "args_fit hw as"
    and "VMEM_1_BASE hw \<le> li_entry li" and "stack_npg hw as + data_pg1 hw li + data_npg li < MAX_PT_LEN hw"
    and "li_t_npg li + data_npg li + stack_npg hw as \<le> int (card (at_hand hw (ptbr1 s) s))"
  shows "\<exists>s'. LoadProgram hw name args proc s = Some (SUCCESS hw, s') \<and> program_at hw f li as s' \<and>
      region_ok hw (ptbr1 s) s' \<and> program_mapped hw li as (ptbr1 s) (at_hand hw (ptbr1 s) s) s' \<and>
      pcbs s' = (pcbs s)(proc := (pcbs s proc)\<lparr>pcb_uc := (pcb_uc (pcbs s proc))\<lparr>uc_sp := initial_sp hw as, uc_pc := li_entry li\<rparr>\<rparr>) \<and>
      u_size (upts s' (ptbr1 s)) = li_t_npg li + data_npg li + stack_npg hw as \<and>
      (\<forall>a. a \<noteq> ptbr1 s \<longrightarrow> upts s' a = upts s a) \<and> alive s' = alive s \<and> load_keep (s\<lparr>brk_next := Suc (brk_next s)\<rparr>) s' \<and>
      pool hw (free_frame s') = at_hand hw (ptbr1 s) s - {f. \<exists>i p. upages hw (ptbr1 s) s' i = Some (f, p)} \<and>
      int (card (at_hand hw (ptbr1 s) s)) \<le> frames_left (free_frame s') + li_t_npg li + data_npg li + stack_npg hw as"
proof -
  let ?up = "ptbr1 s"
  define q where "q = (pcbs s)(proc := (pcbs s proc)\<lparr>pcb_uc := (pcb_uc (pcbs s proc))\<lparr>uc_sp := initial_sp hw as\<rparr>\<rparr>)"
  define s1 where "s1 = s\<lparr>pcbs := q, brk_next := Suc (brk_next s), alive := (alive s)(brk_next s := True)\<rparr>"
  have up: "live s ?up" using assms(3) by (simp add: u_inv_def)
  have nx: "0 < brk_next s" "\<And>a. alive s a \<Longrightarrow> a < brk_next s" using assms(2) by (auto simp: heap_ok_def)
  have m: "malloc (s\<lparr>pcbs := q\<rparr>) = (brk_next s, s1)" by (simp add: malloc_def s1_def)
  have u1: "u_inv hw ?up s1" "ptbr1 s1 = ?up" "live s1 proc" "pcb_userpt (pcbs s1 proc) = ?up" "live s1 (brk_next s)" "brk_next s \<noteq> ?up"
    using assms(3-5) up nx(1) nx(2) [of ?up] by (auto simp: s1_def u_inv_def upages_def live_def q_def)
  have h1: "at_hand hw ?up s1 = at_hand hw ?up s" by (simp add: at_hand_def s1_def upages_def)
  have pre: "LoadProgram hw name args proc s = load_committed hw f li as (brk_next s) proc s1"
    using assms(4,6-9,12,13) m by (simp add: LoadProgram_def q_def)
  have many: "li_t_npg li + data_npg li + stack_npg hw as \<le> int (card (at_hand hw ?up s1))" using assms(14) by (simp add: h1)
  from load_committed_ok [OF assms(1) u1 assms(10,11) c_args_bytes [OF assms(9)] assms(13) many]
  obtain s' where s': "load_committed hw f li as (brk_next s) proc s1 = Some (SUCCESS hw, s')" "program_at hw f li as s'"
      "region_ok hw ?up s'" "program_mapped hw li as ?up (at_hand hw ?up s) s'"
      "u_size (upts s' ?up) = li_t_npg li + data_npg li + stack_npg hw as" "\<forall>a. a \<noteq> ?up \<longrightarrow> upts s' a = upts s1 a"
      "pcbs s' = (pcbs s1)(proc := (pcbs s1 proc)\<lparr>pcb_uc := (pcb_uc (pcbs s1 proc))\<lparr>uc_pc := li_entry li\<rparr>\<rparr>)"
      "alive s' = (\<lambda>b. alive s1 b \<and> b \<noteq> brk_next s)" "load_keep s1 s'"
      "pool hw (free_frame s') = at_hand hw ?up s - {f. \<exists>i p. upages hw ?up s' i = Some (f, p)}"
      "int (card (at_hand hw ?up s)) \<le> frames_left (free_frame s') + li_t_npg li + data_npg li + stack_npg hw as"
    unfolding h1 by blast
  have "alive s' = alive s" using s'(8) nx(2) by (auto simp: s1_def fun_eq_iff)
  moreover have "pcbs s' = (pcbs s)(proc := (pcbs s proc)\<lparr>pcb_uc := (pcb_uc (pcbs s proc))\<lparr>uc_sp := initial_sp hw as, uc_pc := li_entry li\<rparr>\<rparr>)"
    by (simp add: s'(7) s1_def q_def)
  moreover have "\<forall>a. a \<noteq> ?up \<longrightarrow> upts s' a = upts s a" using s'(6) by (simp add: s1_def)
  moreover have "load_keep (s\<lparr>brk_next := Suc (brk_next s)\<rparr>) s'" using s'(9) by (simp add: load_keep_def s1_def)
  ultimately show ?thesis using s' unfolding pre by blast
qed

text \<open>
  C11: The outcome of \<open>LoadProgram\<close>, for a file that describes a program and arguments that fit.  An entry point
  below region 1, or no page left between data and stack: an error, and nothing is changed.  Too
  few frames even with those of the old program: the old program is gone, all its frames are free,
  the caller has to kill the process, and the block with the saved arguments is never freed.
  Otherwise success: text and initialised data are the bytes of the file, the rest of the data is
  zero, the stack holds the arguments, on pages of their own with text not writable; break and
  stack fields describe the region; the process starts at the entry point on the new stack; the
  tables of all other processes are as before and no block is left allocated.
\<close>

theorem load_program:
  fixes s :: "'z proc_state_scheme"
  assumes "hw_ok hw" and "heap_ok s" and "u_inv hw (ptbr1 s) s" and "live s proc" and "pcb_userpt (pcbs s proc) = ptbr1 s"
    and "c_string hw s name = Some path" and "files hw path = Some f" and "ef_info f = Some li" and "c_args hw s args = Some as"
    and "program_ok hw li f" and "args_fit hw as"
  shows "if li_entry li < VMEM_1_BASE hw \<or> MAX_PT_LEN hw \<le> stack_npg hw as + data_pg1 hw li + data_npg li
    then LoadProgram hw name args proc s = Some (ERROR hw, s)
    else if int (card (at_hand hw (ptbr1 s) s)) < li_t_npg li + data_npg li + stack_npg hw as
    then \<exists>s'. LoadProgram hw name args proc s = Some (KILL hw, s') \<and> upages hw (ptbr1 s) s' = (\<lambda>_. None) \<and>
      pool hw (free_frame s') = at_hand hw (ptbr1 s) s \<and> alive s' = (alive s)(brk_next s := True)
    else \<exists>s'. LoadProgram hw name args proc s = Some (SUCCESS hw, s') \<and> program_at hw f li as s' \<and>
      region_ok hw (ptbr1 s) s' \<and> program_mapped hw li as (ptbr1 s) (at_hand hw (ptbr1 s) s) s' \<and>
      uc_pc (pcb_uc (pcbs s' proc)) = li_entry li \<and> uc_sp (pcb_uc (pcbs s' proc)) = initial_sp hw as \<and>
      u_size (upts s' (ptbr1 s)) = li_t_npg li + data_npg li + stack_npg hw as \<and>
      (\<forall>a. a \<noteq> ptbr1 s \<longrightarrow> upts s' a = upts s a) \<and> alive s' = alive s"
proof -
  let ?up = "ptbr1 s"
  define q where "q = (pcbs s)(proc := (pcbs s proc)\<lparr>pcb_uc := (pcb_uc (pcbs s proc))\<lparr>uc_sp := initial_sp hw as\<rparr>\<rparr>)"
  define s1 where "s1 = s\<lparr>pcbs := q, brk_next := Suc (brk_next s), alive := (alive s)(brk_next s := True)\<rparr>"
  have m: "malloc (s\<lparr>pcbs := q\<rparr>) = (brk_next s, s1)" by (simp add: malloc_def s1_def)
  have u1: "u_inv hw ?up s1" "live s1 proc" "pcb_userpt (pcbs s1 proc) = ?up" "at_hand hw ?up s1 = at_hand hw ?up s"
    using assms(3-5) by (auto simp: s1_def u_inv_def upages_def live_def q_def at_hand_def)
  have pre: "LoadProgram hw name args proc s = (if li_entry li < VMEM_1_BASE hw \<or> MAX_PT_LEN hw \<le> stack_npg hw as + data_pg1 hw li + data_npg li
      then Some (ERROR hw, s) else load_committed hw f li as (brk_next s) proc s1)"
    using assms(4,6-9) m by (simp add: LoadProgram_def q_def)
  consider "li_entry li < VMEM_1_BASE hw \<or> MAX_PT_LEN hw \<le> stack_npg hw as + data_pg1 hw li + data_npg li"
    | "\<not> (li_entry li < VMEM_1_BASE hw \<or> MAX_PT_LEN hw \<le> stack_npg hw as + data_pg1 hw li + data_npg li)"
      "int (card (at_hand hw ?up s)) < li_t_npg li + data_npg li + stack_npg hw as"
    | "VMEM_1_BASE hw \<le> li_entry li" "stack_npg hw as + data_pg1 hw li + data_npg li < MAX_PT_LEN hw"
      "li_t_npg li + data_npg li + stack_npg hw as \<le> int (card (at_hand hw ?up s))"
    by linarith
  then show ?thesis
  proof cases
    case 1
    then show ?thesis unfolding pre by simp
  next
    case 2
    with load_committed_short [OF assms(1) u1(1-3), of li as f "brk_next s"] show ?thesis
      unfolding pre u1(4) by (auto simp: s1_def)
  next
    case 3
    then have "\<not> (li_entry li < VMEM_1_BASE hw \<or> MAX_PT_LEN hw \<le> stack_npg hw as + data_pg1 hw li + data_npg li)"
        "\<not> int (card (at_hand hw ?up s)) < li_t_npg li + data_npg li + stack_npg hw as" by simp_all
    with LoadProgram_success [OF assms 3] show ?thesis
      by (simp only: if_False) (elim exE conjE, intro exI conjI, assumption, simp_all)
  qed
qed

section \<open>What the checks of Exec are worth\<close>

lemma uadd_more [simp]: "uadd (uadd a b) c = uadd a (b + c)"
proof -
  have "int (uadd a b) = (int a + int b) mod 2 ^ 32" by (simp add: uadd_def u32_def)
  then show ?thesis by (simp only: uadd_def u32_def mod_add_left_eq of_nat_add add.assoc)
qed

lemma uadd_none: "a < 2 ^ 32 \<Longrightarrow> uadd a 0 = a"
  by (simp add: uadd_exact)

lemma c_string_ends:
  assumes "\<forall>j\<le>n. load hw s (uadd a (i + j)) \<noteq> None" and "load hw s (uadd a (i + n)) = Some 0"
  shows "\<exists>r. c_string hw s (uadd a i) = Some r \<and> length r \<le> n"
  using assms
proof (induction n arbitrary: i)
  case 0
  then show ?case by (simp add: c_string.simps [of hw s "uadd a i"])
next
  case (Suc n)
  obtain c where c: "load hw s (uadd a i) = Some c" using Suc.prems(1) by fastforce
  have "\<forall>j\<le>n. load hw s (uadd a (Suc i + j)) \<noteq> None" using Suc.prems(1) by (metis Suc_le_mono add_Suc_shift)
  then obtain r where "c_string hw s (uadd a (Suc i)) = Some r" "length r \<le> n"
    using Suc.IH [of "Suc i"] Suc.prems(2) by auto
  with c show ?case by (auto simp: c_string.simps [of hw s "uadd a i"])
qed

lemma check_string_reads:
  assumes hw: "hw_ok hw" and live: "live s up" and cur: "ptbr1 s = up" and "a < 2 ^ 32" and "check_string hw a up s = Some 1"
  shows "\<exists>r. c_string hw s a = Some r \<and> length r < 256"
proof -
  obtain n where n: "n < 256" "\<forall>j\<le>n. user_addr hw up s (uadd a j)" "load hw s (uadd a n) = Some 0"
    using assms(5) by (auto simp: check_string_eq [OF hw live cur])
  have "\<forall>j\<le>n. load hw s (uadd a (0 + j)) \<noteq> None" using user_addr_load [OF hw live cur] n(2) by fastforce
  then obtain r where "c_string hw s (uadd a 0) = Some r" "length r \<le> n" using c_string_ends [of n hw s a 0] n(3) by auto
  with n(1) show ?thesis by (simp add: uadd_none [OF assms(4)])
qed

lemma load32_less: "load32 hw s a = Some p \<Longrightarrow> p < 2 ^ 32"
proof -
  assume "load32 hw s a = Some p"
  then obtain b0 b1 b2 b3 :: byte where p: "p = unat b0 + 2 ^ 8 * unat b1 + 2 ^ 16 * unat b2 + 2 ^ 24 * unat b3"
    by (auto simp: load32_def bind_Some_iff)
  have "unat b < 256" for b :: byte using unsigned_less [of b] by simp
  from this [of b0] this [of b1] this [of b2] this [of b3] show ?thesis unfolding p by simp
qed

lemma check_args_reads:
  assumes hw: "hw_ok hw" and live: "live s up" and cur: "ptbr1 s = up"
  shows "check_args_from hw args up i k s = Some 1 \<Longrightarrow>
    \<exists>as. c_args hw s (uadd args (4 * i)) = Some as \<and> length as < k \<and> (\<forall>a\<in>set as. length a < 256)"
proof (induction k arbitrary: i)
  case 0
  then show ?case by simp
next
  case (Suc k)
  from Suc.prems obtain p where p: "load32 hw s (uadd args (4 * i)) = Some p"
      "(if p = NULL then Some 1 else do {
         c \<leftarrow> check_string hw p up s;
         if c = 0 then Some 0 else check_args_from hw args up (Suc i) k s }) = Some 1"
    by (auto simp: bind_Some_iff split: if_splits)
  show ?case
  proof (cases "p = NULL")
    case True
    with p show ?thesis by (simp add: c_args.simps [of hw s "uadd args (4 * i)"])
  next
    case False
    with p(2) obtain c where c: "check_string hw p up s = Some c" "c \<noteq> 0" "check_args_from hw args up (Suc i) k s = Some 1"
      by (auto simp: bind_Some_iff split: if_splits)
    then have "check_string hw p up s = Some 1" by (auto simp: check_string_eq [OF hw live cur])
    from check_string_reads [OF hw live cur load32_less [OF p(1)] this]
    obtain r where r: "c_string hw s p = Some r" "length r < 256" by blast
    obtain as where as: "c_args hw s (uadd args (4 * Suc i)) = Some as" "length as < k" "\<forall>a\<in>set as. length a < 256"
      using Suc.IH [OF c(3)] by blast
    then have "c_args hw s (uadd args (4 * i)) = Some (r # as)"
      using p(1) False r(1) by (simp add: c_args.simps [of hw s "uadd args (4 * i)"] add.commute)
    with as r(2) show ?thesis by auto
  qed
qed

text \<open>
  C13: The checks that \<open>KernelExec\<close> makes are enough for the loader: when they accept the name and the
  vector of arguments, the loader can read all of them, the name and every argument are shorter
  than 256 bytes and there are fewer than 256 arguments.
\<close>

theorem exec_checks_suffice:
  assumes "hw_ok hw" and "live s up" and "ptbr1 s = up" and "name < 2 ^ 32" and "args < 2 ^ 32"
    and "check_string hw name up s = Some 1" and "check_args hw args up s = Some 1"
  shows "\<exists>path as. c_string hw s name = Some path \<and> length path < 256 \<and> c_args hw s args = Some as \<and>
    length as < 256 \<and> (\<forall>a\<in>set as. length a < 256)"
proof -
  have "check_args_from hw args up 0 256 s = Some 1" using assms(7) by (simp add: check_args_def MAX_CHECK_def)
  from check_args_reads [OF assms(1-3) this] check_string_reads [OF assms(1-4,6)] show ?thesis
    by (auto simp: uadd_none [OF assms(5)])
qed

text \<open>
  But the check itself can fault.  It looks at the page of the first byte of each pointer only: when
  the vector starts at a valid address and its first pointer goes on to a page that is not mapped,
  the kernel reads that page, in kernel mode, and \<open>Exec\<close> does not return an error.
\<close>

lemma exec_pointer_faults:
  assumes "hw_ok hw" and "curr_pcb s = Some p" and "live s (pcb_userpt p)" and "check_string hw name (pcb_userpt p) s = Some 1"
    and "user_addr hw (pcb_userpt p) s args" and "k \<in> {1, 2, 3}" and "args + 3 < 2 ^ 32" and "load hw s (args + k) = None"
  shows "KernelExec hw name args s = None"
proof -
  have u: "uadd args 0 = args" "uadd args 1 = args + 1" "uadd args 2 = args + 2" "uadd args 3 = args + 3"
    using assms(7) by (simp_all add: uadd_exact)
  have l: "load32 hw s args = None"
    using assms(6,8) unfolding load32_def u by (auto simp: bind_eq_None_conv)
  have "check_args_from hw args (pcb_userpt p) 0 256 s = None"
    using assms(5) l u(1) check_addr_eq [OF assms(1,3), of args "PROT_READ hw"] by (simp add: numeral_eq_Suc)
  then show ?thesis using assms(2,4) by (simp add: KernelExec_def check_args_def MAX_CHECK_def)
qed

section \<open>A program on the concrete machine\<close>

text \<open>A page of text and one of data, half of it initialised; the name \<open>p\<close> at 272, the vector of the
  arguments, with the one string \<open>a\<close>, at 276.\<close>

definition demo_info :: load_info where
  "demo_info = \<lparr>li_entry = 256, li_t_vaddr = 256, li_t_faddr = 0, li_t_npg = 1, li_id_vaddr = 272, li_id_faddr = 16,
     li_id_npg = 1, li_id_end = 280, li_ud_npg = 0, li_ud_end = 288\<rparr>"

definition demo_file :: exec_file where
  "demo_file = \<lparr>ef_info = Some demo_info, ef_bytes = replicate 16 1 @ replicate 16 2\<rparr>"

definition demo_disk :: hw where
  "demo_disk = demo\<lparr>files := [[112] \<mapsto> demo_file]\<rparr>"

definition demo_image :: kernel where
  "demo_image = demo_kernel\<lparr>pmem := (\<lambda>_ k. [112, 0, 0, 0, 28, 1, 0, 0, 0, 0, 0, 0, 97, 0, 0, 0] ! k)\<rparr>"

lemma demo_disk_ok: "hw_ok demo_disk"
  using demo_ok by (simp add: hw_ok_def demo_disk_def)

lemma demo_disk_simps [simp]:
  "PAGESIZE demo_disk = 16" "PAGESHIFT demo_disk = 4" "VMEM_1_BASE demo_disk = 256" "VMEM_1_LIMIT demo_disk = 512"
  "MAX_PT_LEN demo_disk = 16" "KILL demo_disk = - 2" "ERROR demo_disk = - 1" "SUCCESS demo_disk = 0" "VMEM_1_SIZE demo_disk = 256"
  "POST_ARGV_NULL_SPACE demo_disk = 1" "INITIAL_STACK_FRAME_SIZE demo_disk = 8" "DOWN_TO_PAGE demo_disk a = a div 16 * 16"
  "files demo_disk = [[112] \<mapsto> demo_file]" "BASE_PAGE_1 demo_disk = 16" "NUM_PAGES_1 demo_disk = 16" "PROT_READ demo_disk = 1"
  by (simp_all add: demo_disk_def BASE_PAGE_1_def NUM_PAGES_1_def LIM_PAGE_1_def drop_bit_eq_div) (simp_all add: demo_def)

lemma demo_image_simps [simp]:
  "ptbr1 demo_image = 30" "live demo_image a \<longleftrightarrow> 0 < a \<and> a < 100" "pcbs demo_image = demo_pcbs" "free_frame demo_image = demo_ff"
  "procs demo_image = procs demo_kernel" "nodes demo_image = demo_nodes" "brk_next demo_image = 100" "alive demo_image = alive demo_kernel"
  by (auto simp: demo_image_def live_def) (simp_all add: demo_kernel_def)

lemma demo_image_pages: "upages demo_disk 30 demo_image = [0 \<mapsto> (16, 5), 1 \<mapsto> (17, 3), 15 \<mapsto> (18, 3)]"
proof -
  have "upages demo_disk 30 demo_image = upages demo 30 demo_kernel" by (simp add: upages_def demo_image_def)
  then show ?thesis by (simp add: demo_upages)
qed

lemma demo_image_inv: "u_inv demo_disk 30 demo_image"
proof -
  have "frames_ok demo_disk demo_ff = frames_ok demo demo_ff" "used demo_disk demo_ff = used demo demo_ff"
    by (simp_all add: frames_ok_def used_def demo_disk_def BASE_FRAME_def)
  then show ?thesis by (auto simp: u_inv_def sound_def demo_ff_ok demo_image_pages demo_used split: if_splits)
qed

lemma demo_image_load: "272 \<le> a \<Longrightarrow> a < 288 \<Longrightarrow>
  load demo_disk demo_image a = Some ([112, 0, 0, 0, 28, 1, 0, 0, 0, 0, 0, 0, 97, 0, 0, 0] ! (a - 272))"
proof -
  assume a: "272 \<le> a" "a < 288"
  then have d: "a div 16 = 17" by auto
  then have "upages demo_disk 30 demo_image (user_page demo_disk a) = Some (17, 3)"
    by (simp add: user_page_def drop_bit_eq_div demo_image_pages)
  moreover have "a mod 16 = a - 272" using a by presburger
  ultimately show ?thesis
    using user_load [OF demo_disk_ok, of demo_image 30 a 17 3] a by (simp add: in_region_1_def demo_image_def)
qed

lemma demo_image_strings:
  "c_string demo_disk demo_image 272 = Some [112]" "c_args demo_disk demo_image 276 = Some [[97]]"
proof -
  have l: "load demo_disk demo_image 272 = Some 112" "load demo_disk demo_image 273 = Some 0"
      "load demo_disk demo_image 284 = Some 97" "load demo_disk demo_image 285 = Some 0"
    by (simp_all add: demo_image_load)
  have u: "uadd 272 1 = 273" "uadd 284 1 = 285" "uadd 276 4 = 280" by (simp_all add: uadd_exact)
  have w: "load32 demo_disk demo_image 276 = Some 284" "load32 demo_disk demo_image 280 = Some 0"
    by (simp_all add: load32_def uadd_exact demo_image_load)
  show "c_string demo_disk demo_image 272 = Some [112]"
    by (simp add: c_string.simps [of _ _ 272] c_string.simps [of _ _ 273] l u [simplified])
  have "c_string demo_disk demo_image 284 = Some [97]"
    by (simp add: c_string.simps [of _ _ 284] c_string.simps [of _ _ 285] l u [simplified])
  then show "c_args demo_disk demo_image 276 = Some [[97]]"
    by (simp add: c_args.simps [of _ _ 276] c_args.simps [of _ _ 280] w u)
qed

text \<open>Where a single argument of one byte is put, and that the program fits the machine.\<close>

lemma demo_layout:
  "argv_start demo_disk [[c]] = 488" "initial_sp demo_disk [[c]] = 480" "stack_npg demo_disk [[c]] = 2" "args_fit demo_disk [[c]]"
  "data_pg1 demo_disk demo_info = 1" "data_npg demo_info = 1" "program_ok demo_disk demo_info demo_file"
  "li_entry demo_info = 256" "li_t_npg demo_info = 1" "ef_info demo_file = Some demo_info"
proof -
  show av: "argv_start demo_disk [[c]] = 488" by (simp add: argv_start_def args_start_def args_size_def u32_id)
  then show sp: "initial_sp demo_disk [[c]] = 480" by (simp add: initial_sp_def u32_id)
  then show "stack_npg demo_disk [[c]] = 2" by (simp add: stack_npg_def usub_exact drop_bit_eq_div)
  show "args_fit demo_disk [[c]]" by (simp add: args_fit_def args_size_def)
  show pg: "data_pg1 demo_disk demo_info = 1" "data_npg demo_info = 1"
    by (simp_all add: data_pg1_def data_npg_def demo_info_def usub_exact drop_bit_eq_div)
  show "program_ok demo_disk demo_info demo_file" unfolding program_ok_def pg by (simp add: demo_info_def demo_file_def)
qed (simp_all add: demo_info_def demo_file_def)

theorem load_program_witness:
  "\<exists>s'. LoadProgram demo_disk 272 276 20 demo_image = Some (0, s') \<and> load demo_disk s' 256 = Some 1 \<and>
    load demo_disk s' 272 = Some 2 \<and> load demo_disk s' 280 = Some 0 \<and> c_args demo_disk s' 492 = Some [[97]] \<and>
    region_ok demo_disk 30 s' \<and> uc_pc (pcb_uc (pcbs s' 20)) = 256"
proof -
  note L = demo_layout(1-4) [of 97] demo_layout(5-10)
  have heap: "heap_ok demo_image" by (simp add: heap_ok_def demo_kernel_def)
  have "{f. \<exists>i p. upages demo_disk 30 demo_image i = Some (f, p)} \<subseteq> used demo_disk demo_ff"
    using demo_image_inv by (auto simp: u_inv_def sound_def)
  then have "finite (at_hand demo_disk 30 demo_image)" by (simp add: at_hand_def finite_subset [OF _ finite_used])
  then have "card (pool demo_disk demo_ff) \<le> card (at_hand demo_disk 30 demo_image)"
    by (intro card_mono) (auto simp: at_hand_def)
  then have many: "15 \<le> int (card (at_hand demo_disk 30 demo_image))"
    using card_pool [OF u_inv_frames [OF demo_image_inv]] by (simp add: frames_left_def)
  have f: "files demo_disk [112] = Some demo_file" by simp
  have p: "pcb_userpt (pcbs demo_image 20) = ptbr1 demo_image" "live demo_image 20" "u_inv demo_disk (ptbr1 demo_image) demo_image"
    using demo_image_inv by simp_all
  note X = load_program [OF demo_disk_ok heap p(3,2,1) demo_image_strings(1) f L(10) demo_image_strings(2) L(7,4)]
  with many obtain s' where s': "LoadProgram demo_disk 272 276 20 demo_image = Some (0, s')" "program_at demo_disk demo_file demo_info [[97]] s'"
      "region_ok demo_disk 30 s'" "uc_pc (pcb_uc (pcbs s' 20)) = 256"
    by (auto simp: L)
  then have m: "\<forall>k<16. load demo_disk s' (256 + k) = Some (ef_bytes demo_file ! k)"
      "\<forall>k<16. k < 8 \<longrightarrow> load demo_disk s' (272 + k) = Some (ef_bytes demo_file ! (16 + k))"
      "\<forall>b. 280 \<le> b \<and> b < 288 \<longrightarrow> load demo_disk s' b = Some 0" "c_args demo_disk s' 492 = Some [[97]]"
    by (simp_all add: program_at_def segments_at_def L(1) demo_info_def)
  have "load demo_disk s' 256 = Some 1" using m(1) [rule_format, of 0] by (simp add: demo_file_def nth_append)
  moreover have "load demo_disk s' 272 = Some 2" using m(2) [rule_format, of 0] by (simp add: demo_file_def nth_append)
  moreover have "load demo_disk s' 280 = Some 0" using m(3) [rule_format, of 280] by simp
  moreover note m(4)
  ultimately show ?thesis using s' by blast
qed

lemma demo_image_own: "272 \<le> a \<Longrightarrow> a < 288 \<Longrightarrow> user_addr demo_disk 30 demo_image a"
proof -
  assume a: "272 \<le> a" "a < 288"
  then have "a div 16 = 17" by auto
  with a show ?thesis by (simp add: user_addr_def in_region_1_def user_page_def drop_bit_eq_div demo_image_pages)
qed

lemma demo_image_checks: "check_string demo_disk 272 30 demo_image = Some 1" "check_string demo_disk 284 30 demo_image = Some 1"
proof -
  have "check_string demo_disk a 30 demo_image = Some 1" if "a = 272 \<or> a = 284" for a
  proof -
    have "\<forall>j\<le>1. uadd a j = a + j" using that by (auto simp: uadd_exact)
    with that have "(\<forall>j\<le>1. user_addr demo_disk 30 demo_image (uadd a j)) \<and> load demo_disk demo_image (uadd a 1) = Some 0"
      by (auto simp: demo_image_own demo_image_load)
    then have "\<exists>n<256. (\<forall>j\<le>n. user_addr demo_disk 30 demo_image (uadd a j)) \<and> load demo_disk demo_image (uadd a n) = Some 0"
      by (intro exI [of _ 1]) simp
    then show ?thesis using check_string_eq [OF demo_disk_ok, of demo_image 30 a] by simp
  qed
  then show "check_string demo_disk 272 30 demo_image = Some 1" "check_string demo_disk 284 30 demo_image = Some 1" by simp_all
qed

theorem exec_checks_suffice_witness:
  "check_args demo_disk 276 30 demo_image = Some 1 \<and> (\<exists>path as. c_string demo_disk demo_image 272 = Some path \<and>
    length path < 256 \<and> c_args demo_disk demo_image 276 = Some as \<and> length as < 256)"
proof -
  have u: "uadd 276 0 = 276" "uadd 276 4 = 280" by (simp_all add: uadd_exact)
  have w: "load32 demo_disk demo_image 276 = Some 284" "load32 demo_disk demo_image 280 = Some 0"
    by (simp_all add: load32_def uadd_exact demo_image_load)
  have o: "check_addr demo_disk 276 1 30 demo_image = Some 1" "check_addr demo_disk 280 1 30 demo_image = Some 1"
    by (simp_all add: check_addr_eq [OF demo_disk_ok] demo_image_own)
  have "check_args_from demo_disk 276 30 0 (Suc (Suc 254)) demo_image = Some 1"
    unfolding check_args_from.simps by (simp add: u w o demo_image_checks)
  then have "check_args demo_disk 276 30 demo_image = Some 1" by (simp add: check_args_def MAX_CHECK_def numeral_eq_Suc)
  with exec_checks_suffice [OF demo_disk_ok _ _ _ _ demo_image_checks(1) this] show ?thesis by auto
qed

end
