(* ===== verification/Boot_Spec.thy ===== *)
theory Boot_Spec
  imports User_Stack Demo_Memory
begin

text \<open>
  Booting: the identity mapping of region 0 that \<open>VM_setup\<close> makes.
\<close>

section \<open>The identity mapping\<close>

text \<open>The pages that \<open>VM_setup\<close> maps: text, data and heap, and the kernel stack.\<close>

definition data_page :: "hw \<Rightarrow> int" where
  "data_page hw = int (drop_bit (PAGESHIFT hw) (kernel_data_start hw))"

definition brk_page :: "hw \<Rightarrow> 'z mem_scheme \<Rightarrow> int" where
  "brk_page hw s = int (drop_bit (PAGESHIFT hw) (k_brk (kernel_pt s)))"

definition boot_pages :: "hw \<Rightarrow> int \<Rightarrow> int set" where
  "boot_pages hw b = {v. BASE_PAGE_0 hw \<le> v \<and> v < LIM_PAGE_0 hw \<and> (v < data_page hw \<or> v \<le> b \<or> BASE_PAGE_KSTACK hw \<le> v)}"

definition boot_prot :: "hw \<Rightarrow> int \<Rightarrow> int" where
  "boot_prot hw v = (if v < data_page hw then or (PROT_READ hw) (PROT_EXEC hw) else PROT_RW hw)"

lemma bit_at_zeros: "i < 8 * n \<Longrightarrow> \<not> bit_at (replicate n 0) i"
  by (simp add: bit_at_def)

lemma init_frames_ok: "frames_ok hw (init_frames hw pmem_size)" "used hw (init_frames hw pmem_size) = {}"
proof -
  define z where "z = pmem_size div PAGESIZE hw"
  have e: "init_frames hw pmem_size = \<lparr>ff_size = int z, ff_bits = replicate (z div 8 + 1) 0, ff_avail = BASE_FRAME hw, ff_filled = 0\<rparr>"
    using zdiv_int [of z 8] by (simp add: init_frames_def Let_def CELL_SIZE_def nat_add_distrib flip: z_def)
  have "nat (p - BASE_FRAME hw) < 8 * (z div 8 + 1)" if "BASE_FRAME hw \<le> p" "p < BASE_FRAME hw + int z" for p
  proof -
    have "nat (p - BASE_FRAME hw) < z" using that by simp
    moreover have "z < 8 * (z div 8 + 1)" using dividend_less_times_div [of 8 z] by simp
    ultimately show ?thesis by (rule less_trans)
  qed
  then have "\<not> bit_at (replicate (z div 8 + 1) 0) (nat (p - BASE_FRAME hw))" if "BASE_FRAME hw \<le> p" "p < BASE_FRAME hw + int z" for p
    using that bit_at_zeros by blast
  then show u: "used hw (init_frames hw pmem_size) = {}" unfolding used_def e free_frame.simps by blast
  show "frames_ok hw (init_frames hw pmem_size)" unfolding frames_ok_def u by (auto simp: e)
qed

lemma setup_page_eq: "setup_page hw v s =
   (if v < data_page hw \<or> v \<le> brk_page hw s \<or> BASE_PAGE_KSTACK hw \<le> v then do {
      (pfn, ff) \<leftarrow> get_frame hw v FIXED (free_frame s);
      upd_kpte hw (v - BASE_PAGE_0 hw) (set_pte 1 pfn (boot_prot hw v)) (s\<lparr>free_frame := ff\<rparr>)
    } else upd_kpte hw (v - BASE_PAGE_0 hw) (set_pte 0 NONE NONE) s)"
  by (simp add: setup_page_def Let_def boot_prot_def data_page_def brk_page_def)

text \<open>The table and the allocator when the loop has reached page \<open>n\<close>.\<close>

definition booted :: "hw \<Rightarrow> int \<Rightarrow> 'z mem_scheme \<Rightarrow> 'z mem_scheme \<Rightarrow> bool" where
  "booted hw n s s' \<longleftrightarrow> (\<exists>ff K. s' = s\<lparr>free_frame := ff, kernel_pt := (kernel_pt s)\<lparr>k_pt := K\<rparr>\<rparr> \<and> frames_ok hw ff \<and>
     ff_size ff = ff_size (free_frame s) \<and> used hw ff = {v \<in> boot_pages hw (brk_page hw s). v < n} \<and>
     (\<forall>i. 0 \<le> i \<longrightarrow> i + BASE_PAGE_0 hw < n \<longrightarrow>
        (if i + BASE_PAGE_0 hw \<in> boot_pages hw (brk_page hw s)
         then pte_valid (K i) = 1 \<and> pte_pfn (K i) = i + BASE_PAGE_0 hw \<and> pte_prot (K i) = boot_prot hw (i + BASE_PAGE_0 hw)
         else pte_valid (K i) = 0)))"

lemma setup_page_ok:
  assumes hw: "hw_ok hw" and mem: "BASE_FRAME hw \<le> BASE_PAGE_0 hw" "LIM_PAGE_0 hw \<le> BASE_FRAME hw + ff_size (free_frame s)"
    and v: "BASE_PAGE_0 hw \<le> v" "v < LIM_PAGE_0 hw" and b: "booted hw v s s'"
  shows "\<exists>s''. setup_page hw v s' = Some s'' \<and> booted hw (v + 1) s s''"
proof -
  let ?M = "boot_pages hw (brk_page hw s)" and ?i = "v - BASE_PAGE_0 hw"
  from b [unfolded booted_def] obtain ff K where B: "s' = s\<lparr>free_frame := ff, kernel_pt := (kernel_pt s)\<lparr>k_pt := K\<rparr>\<rparr>" "frames_ok hw ff"
      "ff_size ff = ff_size (free_frame s)" "used hw ff = {u \<in> ?M. u < v}"
      "\<forall>i. 0 \<le> i \<longrightarrow> i + BASE_PAGE_0 hw < v \<longrightarrow>
        (if i + BASE_PAGE_0 hw \<in> ?M
         then pte_valid (K i) = 1 \<and> pte_pfn (K i) = i + BASE_PAGE_0 hw \<and> pte_prot (K i) = boot_prot hw (i + BASE_PAGE_0 hw)
         else pte_valid (K i) = 0)"
    by blast
  have br: "brk_page hw s' = brk_page hw s" by (simp add: B(1) brk_page_def)
  have i: "0 \<le> ?i" "?i < NUM_PAGES_0 hw" using v region_0(1) [OF hw] by simp_all
  show ?thesis
  proof (cases "v \<in> ?M")
    case True
    have "used hw ff \<subseteq> {BASE_PAGE_0 hw..<v}" unfolding B(4) boot_pages_def by (rule subsetI) simp
    then have "card (used hw ff) \<le> card {BASE_PAGE_0 hw..<v}" by (rule card_mono [rotated]) simp
    then have left: "ff_filled ff < ff_size ff" using B(2,3) mem v by (simp add: frames_ok_def)
    have "BASE_FRAME hw \<le> v" "v < BASE_FRAME hw + ff_size ff" "v \<notin> used hw ff" using mem v B(3,4) by simp_all
    from get_frame_fixed [OF B(2) left this] obtain ff' where f: "get_frame hw v FIXED ff = Some (v, ff')" "frames_ok hw ff'" "used hw ff' = insert v (used hw ff)"
        "ff_size ff' = ff_size ff"
      by blast
    let ?s = "s\<lparr>free_frame := ff', kernel_pt := (kernel_pt s)\<lparr>k_pt := K(?i := set_pte 1 v (boot_prot hw v) (K ?i))\<rparr>\<rparr>"
    have "setup_page hw v s' = Some ?s"
      using True i f(1) by (simp add: setup_page_eq br boot_pages_def) (simp add: B(1) upd_kpte_def)
    moreover have "used hw ff' = {u \<in> ?M. u < v + 1}" unfolding f(3) B(4) using True by (auto simp: less_le)
    moreover have "booted hw (v + 1) s ?s"
      unfolding booted_def using f(2,4) calculation(2) B(3,5) True
      by (intro exI [of _ ff'] exI [of _ "K(?i := set_pte 1 v (boot_prot hw v) (K ?i))"]) (simp add: set_pte_def less_le)
    ultimately show ?thesis by blast
  next
    case False
    let ?s = "s'\<lparr>kernel_pt := (kernel_pt s')\<lparr>k_pt := K(?i := set_pte 0 NONE NONE (K ?i))\<rparr>\<rparr>"
    have "setup_page hw v s' = Some ?s"
      using False v i by (simp add: setup_page_eq br boot_pages_def) (simp add: B(1) upd_kpte_def)
    moreover have "{u \<in> ?M. u < v} = {u \<in> ?M. u < v + 1}" using False by (auto simp: less_le)
    then have "booted hw (v + 1) s ?s"
      unfolding booted_def using B False
      by (intro exI [of _ ff] exI [of _ "K(?i := set_pte 0 NONE NONE (K ?i))"]) (simp add: set_pte_def less_le)
    ultimately show ?thesis by blast
  qed
qed

text \<open>What \<open>VM_setup\<close> makes of memory, and that it leaves the rest.\<close>

lemma VM_setup_ok:
  assumes "hw_ok hw" and "heap_ok s" and "free_frame s = init_frames hw pmem_size"
    and "BASE_FRAME hw \<le> BASE_PAGE_0 hw" and "LIM_PAGE_0 hw \<le> BASE_FRAME hw + int (pmem_size div PAGESIZE hw)"
  defines "M \<equiv> boot_pages hw (brk_page hw s)"
  shows "\<exists>s'. VM_setup hw s = Some s' \<and> vm_enable s' \<and> k_inv hw s' \<and> used hw (free_frame s') = M \<and>
    kpages hw s' = (\<lambda>i. if i + BASE_PAGE_0 hw \<in> M then Some (i + BASE_PAGE_0 hw, boot_prot hw (i + BASE_PAGE_0 hw)) else None) \<and>
    upages hw (ptbr1 s') s' = (\<lambda>_. None) \<and>
    (\<forall>a. int (a div PAGESIZE hw) \<in> M \<longrightarrow> load hw s' a = Some (pmem s (int (a div PAGESIZE hw)) (a mod PAGESIZE hw))) \<and>
    heap_ok s' \<and> live s' (ptbr1 s') \<and> ff_size (free_frame s') = int (pmem_size div PAGESIZE hw) \<and> mem.more s' = mem.more s \<and>
    k_brk (kernel_pt s') = k_brk (kernel_pt s)"
proof -
  obtain s0 where s0: "new_user_pt hw s = Some (brk_next s, s0)" "live s0 (brk_next s)" "upages hw (brk_next s) s0 = (\<lambda>_. None)" "heap_ok s0"
      "s0 = s\<lparr>brk_next := Suc (brk_next s), alive := (alive s)(brk_next s := True), upts := upts s0\<rparr>"
    using new_user_pt_spec [OF assms(1,2)] by blast
  have h1: "heap_ok (s0\<lparr>ptbr1 := brk_next s\<rparr>)" using s0(4) by (simp add: heap_ok_def)
  define s1 where "s1 = s0\<lparr>ptbr1 := brk_next s\<rparr>"
  obtain U where "s0 = s\<lparr>brk_next := Suc (brk_next s), alive := (alive s)(brk_next s := True), upts := U\<rparr>" using s0(5) by blast
  then have f: "free_frame s1 = init_frames hw pmem_size" "kernel_pt s1 = kernel_pt s" "pmem s1 = pmem s" "mem.more s1 = mem.more s"
    using assms(3) by (simp_all add: s1_def)
  have br: "brk_page hw s1 = brk_page hw s" by (simp add: brk_page_def f)
  have sz: "ff_size (free_frame s1) = int (pmem_size div PAGESIZE hw)" by (simp add: f init_frames_def Let_def)
  have le: "BASE_PAGE_0 hw \<le> LIM_PAGE_0 hw" using region_0(3-6) [OF assms(1)] by linarith
  have "\<exists>s'. for_up (BASE_PAGE_0 hw) (LIM_PAGE_0 hw) (setup_page hw) s1 = Some s' \<and> booted hw (LIM_PAGE_0 hw) s1 s'"
  proof (rule for_up_rule [where P = "\<lambda>n. booted hw n s1", OF le])
    have "{v \<in> boot_pages hw b. v < BASE_PAGE_0 hw} = {}" for b by (auto simp: boot_pages_def)
    then show "booted hw (BASE_PAGE_0 hw) s1 s1"
      unfolding booted_def using init_frames_ok [of hw pmem_size] f
      by (intro exI [of _ "free_frame s1"] exI [of _ "k_pt (kernel_pt s1)"]) auto
  qed (use setup_page_ok [OF assms(1,4), of s1] assms(5) sz in auto)
  then obtain s2 where s2: "for_up (BASE_PAGE_0 hw) (LIM_PAGE_0 hw) (setup_page hw) s1 = Some s2" "booted hw (LIM_PAGE_0 hw) s1 s2" by blast
  from s2(2) [unfolded booted_def] sz obtain ff K where B: "s2 = s1\<lparr>free_frame := ff, kernel_pt := (kernel_pt s1)\<lparr>k_pt := K\<rparr>\<rparr>" "frames_ok hw ff"
      "used hw ff = {v \<in> M. v < LIM_PAGE_0 hw}" "\<forall>i. 0 \<le> i \<longrightarrow> i + BASE_PAGE_0 hw < LIM_PAGE_0 hw \<longrightarrow>
        (if i + BASE_PAGE_0 hw \<in> M
         then pte_valid (K i) = 1 \<and> pte_pfn (K i) = i + BASE_PAGE_0 hw \<and> pte_prot (K i) = boot_prot hw (i + BASE_PAGE_0 hw)
         else pte_valid (K i) = 0)" "ff_size ff = int (pmem_size div PAGESIZE hw)"
    unfolding M_def br by fastforce
  let ?s = "s2\<lparr>vm_enable := True\<rparr>"
  have M: "v \<in> M \<Longrightarrow> BASE_PAGE_0 hw \<le> v \<and> v < LIM_PAGE_0 hw" for v by (auto simp: M_def boot_pages_def)
  have u: "used hw ff = M" unfolding B(3) using M by blast
  have kp: "kpages hw ?s = (\<lambda>i. if i + BASE_PAGE_0 hw \<in> M then Some (i + BASE_PAGE_0 hw, boot_prot hw (i + BASE_PAGE_0 hw)) else None)"
  proof
    fix i show "kpages hw ?s i = (if i + BASE_PAGE_0 hw \<in> M then Some (i + BASE_PAGE_0 hw, boot_prot hw (i + BASE_PAGE_0 hw)) else None)"
      using B(4) [rule_format, of i] M [of "i + BASE_PAGE_0 hw"] region_0(1) [OF assms(1)]
      by (auto simp: kpages_def entries_def B(1) split: if_splits)
  qed
  have "k_inv hw ?s" unfolding k_inv_def sound_def kp using B(2) u by (auto simp: B(1) split: if_splits)
  moreover have "load hw ?s a = Some (pmem s (int (a div PAGESIZE hw)) (a mod PAGESIZE hw))" if a: "int (a div PAGESIZE hw) \<in> M" for a
  proof -
    define v where "v = int (a div PAGESIZE hw)"
    have v: "0 \<le> v - BASE_PAGE_0 hw" "v < LIM_PAGE_0 hw" using M [OF a] by (simp_all add: v_def)
    then have "rd_kpte hw ?s (v - BASE_PAGE_0 hw) = Some (K (v - BASE_PAGE_0 hw))" "v < BASE_PAGE_1 hw"
      using region_0(1,2) [OF assms(1)] by (simp_all add: rd_kpte_def B(1))
    then have "frame_at hw ?s v = Some v" using B(4) [rule_format, OF v(1)] v(2) a by (simp add: frame_at_def flip: v_def)
    then show ?thesis by (simp add: load_def page_of [OF assms(1)] B(1) f flip: v_def)
  qed
  moreover have "upages hw (ptbr1 ?s) ?s = (\<lambda>_. None)" using s0(3) by (simp add: B(1) s1_def upages_def)
  moreover have "VM_setup hw s = Some ?s" using s0(1) s2(1) by (simp add: VM_setup_def flip: s1_def)
  moreover have "heap_ok ?s" "live ?s (ptbr1 ?s)" using h1 s0(2) by (simp_all add: B(1) s1_def heap_ok_def live_def)
  ultimately show ?thesis using kp u f(2,4) B(5) by (intro exI [of _ ?s]) (simp add: B(1))
qed

text \<open>
  C24: Booting.  On memory that has the frames of region 0, \<open>VM_setup\<close> maps exactly the pages of text, data and heap, up to and including
  the one of the break, and of the kernel stack, each to the frame of the same number, text not writable; exactly these frames
  are taken.  So when translation is switched on, every byte of these pages is where it was.  Nothing is mapped in region 1.
\<close>

theorem boot_identity:
  assumes "hw_ok hw" and "heap_ok s" and "free_frame s = init_frames hw pmem_size"
    and "BASE_FRAME hw \<le> BASE_PAGE_0 hw" and "LIM_PAGE_0 hw \<le> BASE_FRAME hw + int (pmem_size div PAGESIZE hw)"
  defines "M \<equiv> boot_pages hw (brk_page hw s)"
  shows "\<exists>s'. VM_setup hw s = Some s' \<and> vm_enable s' \<and> k_inv hw s' \<and> used hw (free_frame s') = M \<and>
    kpages hw s' = (\<lambda>i. if i + BASE_PAGE_0 hw \<in> M then Some (i + BASE_PAGE_0 hw, boot_prot hw (i + BASE_PAGE_0 hw)) else None) \<and>
    upages hw (ptbr1 s') s' = (\<lambda>_. None) \<and>
    (\<forall>a. int (a div PAGESIZE hw) \<in> M \<longrightarrow> load hw s' a = Some (pmem s (int (a div PAGESIZE hw)) (a mod PAGESIZE hw)))"
  using VM_setup_ok [OF assms(1-5)] unfolding M_def by blast

definition demo_bare :: kernel where
  "demo_bare = demo_kernel\<lparr>free_frame := init_frames demo 512, vm_enable := False\<rparr>"

theorem boot_identity_witness:
  "\<exists>s'. VM_setup demo demo_bare = Some s' \<and> used demo (free_frame s') = {0, 1, 2, 3, 4, 5, 14, 15} \<and> kpages demo s' 1 = Some (1, 5) \<and>
    kpages demo s' 5 = Some (5, 3) \<and> kpages demo s' 6 = None \<and> load demo s' 40 = Some 10"
proof -
  have h: "heap_ok demo_bare" by (simp add: heap_ok_def demo_bare_def demo_kernel_def)
  have f: "free_frame demo_bare = init_frames demo 512" by (simp add: demo_bare_def)
  have c: "BASE_FRAME demo \<le> BASE_PAGE_0 demo" "LIM_PAGE_0 demo \<le> BASE_FRAME demo + int (512 div PAGESIZE demo)" by simp_all
  have d: "data_page demo = 2" "brk_page demo demo_bare = 5"
    by (simp_all add: data_page_def brk_page_def demo_bare_def drop_bit_eq_div) (simp add: demo_kernel_def)
  have "boot_pages demo 5 = {0..<6} \<union> {14..<16}" by (auto simp: boot_pages_def d)
  also have "\<dots> = {0, 1, 2, 3, 4, 5, 14, 15}" by auto
  finally have M: "boot_pages demo 5 = {0, 1, 2, 3, 4, 5, 14, 15}" .
  have pm: "pmem demo_bare 2 8 = 10" by (simp add: demo_bare_def demo_kernel_def)
  obtain s' where "VM_setup demo demo_bare = Some s'" "used demo (free_frame s') = {0, 1, 2, 3, 4, 5, 14, 15}"
      "kpages demo s' = (\<lambda>i. if i + BASE_PAGE_0 demo \<in> {0, 1, 2, 3, 4, 5, 14, 15}
        then Some (i + BASE_PAGE_0 demo, boot_prot demo (i + BASE_PAGE_0 demo)) else None)"
      "\<forall>a. int (a div PAGESIZE demo) \<in> {0, 1, 2, 3, 4, 5, 14, 15} \<longrightarrow>
        load demo s' a = Some (pmem demo_bare (int (a div PAGESIZE demo)) (a mod PAGESIZE demo))"
    using boot_identity [OF demo_ok h f c] unfolding d M by blast
  moreover from this(4) [rule_format, of 40] pm have "load demo s' 40 = Some 10" by simp
  ultimately show ?thesis by (simp add: boot_prot_def d)
qed

end
