(* ===== verification/Kernel_Heap.thy ===== *)
theory Kernel_Heap
  imports Boot_Spec
begin

text \<open>
  The heap of the kernel at run time: \<open>SetKernelBrk\<close>, which the library calls when \<open>malloc\<close> needs memory or has some to give back.
\<close>

text \<open>Index in the table of region 0 of the first page at or above an address.\<close>

definition heap_top :: "hw \<Rightarrow> nat \<Rightarrow> int" where
  "heap_top hw a = int (UP_TO_PAGE hw a div PAGESIZE hw) - BASE_PAGE_0 hw"

text \<open>The pages from the end of the data of the kernel up to its break are mapped.\<close>

definition kernel_heap_ok :: "hw \<Rightarrow> 'z mem_scheme \<Rightarrow> bool" where
  "kernel_heap_ok hw s \<longleftrightarrow> k_inv hw s \<and> kernel_data_end hw + PAGESIZE hw \<le> 2 ^ 32 \<and> k_brk (kernel_pt s) + PAGESIZE hw \<le> 2 ^ 32 \<and>
     PAGESIZE hw \<le> UP_TO_PAGE hw (kernel_data_end hw) \<and> 0 \<le> heap_top hw (kernel_data_end hw) \<and>
     UP_TO_PAGE hw (kernel_data_end hw) \<le> UP_TO_PAGE hw (k_brk (kernel_pt s)) \<and>
     (\<forall>i. heap_top hw (kernel_data_end hw) \<le> i \<longrightarrow> i < heap_top hw (k_brk (kernel_pt s)) \<longrightarrow> kpages hw s i \<noteq> None)"

text \<open>The window for the break: from the end of the data to two pages below the kernel stack.\<close>

definition kernel_window :: "hw \<Rightarrow> nat \<Rightarrow> bool" where
  "kernel_window hw a \<longleftrightarrow>
     UP_TO_PAGE hw (kernel_data_end hw) \<le> a \<and> a < usub (DOWN_TO_PAGE hw (KERNEL_STACK_BASE hw)) (PAGESIZE hw)"

lemma kernel_window_pages:
  assumes hw: "hw_ok hw" and w: "kernel_window hw a"
  shows "a + PAGESIZE hw \<le> 2 ^ 32" and "UP_TO_PAGE hw a + PAGESIZE hw \<le> 2 ^ 32" and "heap_top hw a \<le> NUM_PAGES_0 hw"
    and "UP_TO_PAGE hw (kernel_data_end hw) \<le> UP_TO_PAGE hw a"
proof -
  let ?P = "PAGESIZE hw" and ?K = "KERNEL_STACK_BASE hw"
  have P: "0 < ?P" using hw_size(2) [OF hw] .
  have K: "2 * ?P \<le> ?K" "?K < 2 ^ 32" using hw by (auto simp: hw_ok_def)
  have D: "DOWN_TO_PAGE hw ?K = ?K div ?P * ?P" by (rule down_page [OF hw])
  have "2 \<le> ?K div ?P" using K(1) P by (simp add: less_eq_div_iff_mult_less_eq)
  then have "1 * ?P \<le> ?K div ?P * ?P" by (intro mult_le_mono1) simp
  then have "?P \<le> ?K div ?P * ?P" by (simp only: mult_1)
  moreover have le: "?K div ?P * ?P \<le> ?K" by simp
  ultimately have "usub (?K div ?P * ?P) ?P = ?K div ?P * ?P - ?P" using K(2) by (intro usub_exact) linarith+
  with w have a: "a < ?K div ?P * ?P - ?P" by (simp only: kernel_window_def D)
  then show a32: "a + ?P \<le> 2 ^ 32" using le K(2) by linarith
  have "UP_TO_PAGE hw a div ?P * ?P < ?K div ?P * ?P" using up_page_div [OF hw a32] a by linarith
  then have lt: "UP_TO_PAGE hw a div ?P < ?K div ?P" by simp
  then have "(UP_TO_PAGE hw a div ?P + 1) * ?P \<le> ?K div ?P * ?P" by (intro mult_le_mono1) simp
  then show "UP_TO_PAGE hw a + ?P \<le> 2 ^ 32"
    
    using up_page_div(1) [OF hw a32] le K(2) unfolding add_mult_distrib mult_1 by linarith
  show "heap_top hw a \<le> NUM_PAGES_0 hw" using lt region_0 [OF hw] by (simp add: heap_top_def BASE_PAGE_KSTACK_def page_of [OF hw])
  show "UP_TO_PAGE hw (kernel_data_end hw) \<le> UP_TO_PAGE hw a" using w up_page_div(2) [OF hw a32] by (simp add: kernel_window_def)
qed

text \<open>The greatest page in use, as the code computes it.\<close>

lemma heap_last_page:
  assumes hw: "hw_ok hw" and "a + PAGESIZE hw \<le> 2 ^ 32" and "PAGESIZE hw \<le> UP_TO_PAGE hw a"
  defines "v \<equiv> usub (drop_bit (PAGESHIFT hw) (UP_TO_PAGE hw a)) 1"
  shows "int v + 1 = heap_top hw a + BASE_PAGE_0 hw" and "int (uadd v 1) = int v + 1"
proof -
  have "UP_TO_PAGE hw a < 2 ^ 32" using up_page_div(3) [OF hw assms(2)] assms(2) by linarith
  then have "UP_TO_PAGE hw a div PAGESIZE hw < 2 ^ 32" by (meson div_le_dividend le_less_trans)
  moreover have "1 \<le> UP_TO_PAGE hw a div PAGESIZE hw" using assms(3) hw_size(2) [OF hw] by (simp add: less_eq_div_iff_mult_less_eq)
  ultimately have v: "v = UP_TO_PAGE hw a div PAGESIZE hw - 1" "1 \<le> UP_TO_PAGE hw a div PAGESIZE hw" "v + 1 < 2 ^ 32"
    by (simp_all add: v_def page_of [OF hw] usub_exact)
  then show "int v + 1 = heap_top hw a + BASE_PAGE_0 hw" by (simp add: heap_top_def)
  show "int (uadd v 1) = int v + 1" using v(3) by (simp add: uadd_exact)
qed

lemma kpages_brk: "kpages hw (s\<lparr>kernel_pt := (kernel_pt s)\<lparr>k_brk := b\<rparr>\<rparr>) = kpages hw s"
  by (simp add: kpages_def)

text \<open>The break is stored after the loop; the heap is in order again if its pages fit the break.\<close>

lemma kernel_heap_brk:
  assumes hw: "hw_ok hw" and w: "kernel_window hw a" and ok: "kernel_heap_ok hw s" and inv: "k_inv hw s'"
    and pages: "\<And>i. heap_top hw (kernel_data_end hw) \<le> i \<Longrightarrow> i < heap_top hw a \<Longrightarrow> kpages hw s' i \<noteq> None"
  shows "kernel_heap_ok hw (s'\<lparr>kernel_pt := (kernel_pt s')\<lparr>k_brk := UP_TO_PAGE hw a\<rparr>\<rparr>)"
proof -
  note W = kernel_window_pages [OF hw w]
  have u: "UP_TO_PAGE hw (UP_TO_PAGE hw a) = UP_TO_PAGE hw a" by (rule up_page_aligned [OF hw W(1,2)])
  then have "heap_top hw (UP_TO_PAGE hw a) = heap_top hw a" by (simp add: heap_top_def)
  then show ?thesis using ok inv pages W u unfolding kernel_heap_ok_def k_inv_def kpages_brk by simp
qed

text \<open>What \<open>SetKernelBrk\<close> runs, in terms of the two ends of the heap.\<close>

lemma SetKernelBrk_eq:
  assumes hw: "hw_ok hw" and ok: "kernel_heap_ok hw s" and on: "vm_enable s" and w: "kernel_window hw a"
  defines "b \<equiv> heap_top hw (k_brk (kernel_pt s))" and "n \<equiv> heap_top hw a"
  shows "SetKernelBrk hw a s = do {
     s \<leftarrow> (if b < n then for_up b n (map_kpage hw (PROT_RW hw)) s else for_down n b (unmap_kpage hw) s);
     Some (0, s\<lparr>kernel_pt := (kernel_pt s)\<lparr>k_brk := UP_TO_PAGE hw a\<rparr>\<rparr>)
   }"
proof -
  note W = kernel_window_pages [OF hw w]
  have H: "k_brk (kernel_pt s) + PAGESIZE hw \<le> 2 ^ 32" "PAGESIZE hw \<le> UP_TO_PAGE hw (k_brk (kernel_pt s))"
      "PAGESIZE hw \<le> UP_TO_PAGE hw a"
    using ok W(4) by (auto simp: kernel_heap_ok_def)
  define c where "c = usub (drop_bit (PAGESHIFT hw) (UP_TO_PAGE hw (k_brk (kernel_pt s)))) 1"
  define m where "m = usub (drop_bit (PAGESHIFT hw) (UP_TO_PAGE hw a)) 1"
  have c: "int c + 1 = b + BASE_PAGE_0 hw" "int (uadd c 1) = int c + 1"
    using heap_last_page [OF hw H(1,2)] by (simp_all add: c_def b_def)
  have m: "int m + 1 = n + BASE_PAGE_0 hw" using heap_last_page(1) [OF hw W(1) H(3)] by (simp add: m_def n_def)
  have lt: "c < m \<longleftrightarrow> b < n" "m < c \<longleftrightarrow> n < b" using c m by linarith+
  have up: "for_up (int (uadd c 1)) (int m + 1) (\<lambda>v. map_kpage hw (PROT_RW hw) (v - BASE_PAGE_0 hw)) s = for_up b n (map_kpage hw (PROT_RW hw)) s"
    using for_up_shift [of "int (uadd c 1)" "int m + 1" "map_kpage hw (PROT_RW hw)" "BASE_PAGE_0 hw" s] c m by simp
  have down: "for_down (int m + 1) (int c + 1) (\<lambda>v. unmap_kpage hw (v - BASE_PAGE_0 hw)) s = for_down n b (unmap_kpage hw) s"
    using for_down_shift [of "int m + 1" "int c + 1" "unmap_kpage hw" "BASE_PAGE_0 hw" s] c m by simp
  have "for_down n b (unmap_kpage hw) s = Some s" if "b = n" using that by (simp add: for_down_def)
  moreover have "\<not> (usub (DOWN_TO_PAGE hw (KERNEL_STACK_BASE hw)) (PAGESIZE hw) \<le> a \<or> a < UP_TO_PAGE hw (kernel_data_end hw))"
    using w by (simp add: kernel_window_def)
  ultimately show ?thesis using on
    unfolding SetKernelBrk_def Let_def c_def [symmetric] m_def [symmetric] lt up down by (cases "b = n") auto
qed

text \<open>A frame whose only page is mapped to others is in use, and no page leads to it.\<close>

lemma lost:
  assumes "k_inv hw s" and "kpages hw s i = Some (f, p)" and "i \<in> I" and "kpt_keep s s'" and "F ` I \<subseteq> pool hw (free_frame s)"
    and "pool hw (free_frame s') = pool hw (free_frame s) - F ` I"
    and "kpages hw s' = (\<lambda>j. if j \<in> I then Some (F j, r) else kpages hw s j)"
  shows "f \<in> used hw (free_frame s')" and "kpages hw s' j \<noteq> Some (f, q)"
proof -
  have S: "sound hw (free_frame s) (kpages hw s)" using assms(1) by (simp add: k_inv_def)
  then have f: "f \<in> used hw (free_frame s)" using assms(2) by (auto simp: sound_def)
  then have "f \<in> {BASE_FRAME hw..<BASE_FRAME hw + ff_size (free_frame s)}" using used_range [of hw "free_frame s"] by blast
  moreover have "f \<notin> pool hw (free_frame s')" unfolding assms(6) using f by (simp add: pool_def)
  moreover have "ff_size (free_frame s') = ff_size (free_frame s)" using assms(4) by (simp add: kpt_keep_def same_heap_def)
  ultimately show "f \<in> used hw (free_frame s')" by (simp add: pool_def)
  show "kpages hw s' j \<noteq> Some (f, q)" 
  proof (cases "j \<in> I")
    case True
    with assms(5) f show ?thesis by (auto simp: assms(7) pool_def)
  next
    case False
    have "kpages hw s j \<noteq> Some (f, q)"
    proof
      assume "kpages hw s j = Some (f, q)"
      with S assms(2) have "i = j" unfolding sound_def by blast
      with False assms(3) show False by simp
    qed
    with False show ?thesis by (simp add: assms(7))
  qed
qed

text \<open>
  C40: The break of the kernel.  Outside the window between its data and its stack \<open>SetKernelBrk\<close> gives \<open>ERROR\<close> and changes
  nothing.  Before translation is on it only stores the break.  Then, with enough frames, growing maps every page below the new
  break to a frame of its own that was free, and shrinking gives back exactly the frames of the pages above it; no other page
  changes, and the heap is in order again.  But a page that was mapped already when the heap grows over it, as the page of the
  break is after booting, loses its frame: this stays in use, and no page leads to it.
\<close>

theorem kernel_brk:
  fixes a :: nat
  assumes "hw_ok hw" and "kernel_heap_ok hw s"
  defines "b \<equiv> heap_top hw (k_brk (kernel_pt s))" and "n \<equiv> heap_top hw a"
  assumes "vm_enable s \<longrightarrow> n - b \<le> frames_left (free_frame s)"
  shows "if \<not> kernel_window hw a then SetKernelBrk hw a s = Some (ERROR hw, s)
    else \<exists>s'. SetKernelBrk hw a s = Some (0, s') \<and> k_brk (kernel_pt s') = UP_TO_PAGE hw a \<and>
      (if \<not> vm_enable s then s' = s\<lparr>kernel_pt := (kernel_pt s)\<lparr>k_brk := UP_TO_PAGE hw a\<rparr>\<rparr>
       else kernel_heap_ok hw s' \<and> pmem s' = pmem s \<and> upts s' = upts s \<and> kstacks s' = kstacks s \<and>
        (if b < n
         then (\<exists>F. inj_on F {b..<n} \<and> F ` {b..<n} \<subseteq> pool hw (free_frame s) \<and> pool hw (free_frame s') = pool hw (free_frame s) - F ` {b..<n} \<and>
             kpages hw s' = (\<lambda>i. if i \<in> {b..<n} then Some (F i, PROT_RW hw) else kpages hw s i)) \<and>
           (\<forall>i\<in>{b..<n}. \<forall>f p. kpages hw s i = Some (f, p) \<longrightarrow> f \<in> used hw (free_frame s') \<and> (\<forall>j q. kpages hw s' j \<noteq> Some (f, q)))
         else kpages hw s' = (\<lambda>i. if i \<in> {n..<b} then None else kpages hw s i) \<and>
           pool hw (free_frame s') = pool hw (free_frame s) \<union> {f. \<exists>i\<in>{n..<b}. \<exists>p. kpages hw s i = Some (f, p)}))"
proof (cases "kernel_window hw a")
  case False
  then show ?thesis by (auto simp: SetKernelBrk_def kernel_window_def)
next
  case w: True
  note W = kernel_window_pages [OF assms(1) w]
  define mk where "mk s' = s'\<lparr>kernel_pt := (kernel_pt s')\<lparr>k_brk := UP_TO_PAGE hw a\<rparr>\<rparr>" for s' :: "'a mem_scheme"
  have mk: "kpages hw (mk s') = kpages hw s'" "free_frame (mk s') = free_frame s'" "k_brk (kernel_pt (mk s')) = UP_TO_PAGE hw a"
      "pmem (mk s') = pmem s'" "upts (mk s') = upts s'" "kstacks (mk s') = kstacks s'" for s'
    by (simp_all add: mk_def kpages_brk)
  have ki: "k_inv hw s" and frames: "frames_ok hw (free_frame s)" and b: "0 \<le> heap_top hw (kernel_data_end hw)"
      "UP_TO_PAGE hw (kernel_data_end hw) \<le> UP_TO_PAGE hw (k_brk (kernel_pt s))"
      "\<And>i. heap_top hw (kernel_data_end hw) \<le> i \<Longrightarrow> i < b \<Longrightarrow> kpages hw s i \<noteq> None"
    using assms(2) by (simp_all add: kernel_heap_ok_def k_inv_def sound_def b_def)
  have top: "heap_top hw (kernel_data_end hw) \<le> b" "heap_top hw (kernel_data_end hw) \<le> n"
    using b(2) W(4) by (simp_all add: heap_top_def b_def n_def div_le_mono)
  show ?thesis
  proof (cases "vm_enable s")
    case False
    with w show ?thesis by (simp add: SetKernelBrk_def kernel_window_def not_le not_less)
  next
    case on: True
    note run = SetKernelBrk_eq [OF assms(1,2) on w, folded b_def n_def mk_def]
    show ?thesis
    proof (cases "b < n")
      case True
      have "n - b \<le> int (card (pool hw (free_frame s)))" using assms(5) on card_pool [OF frames] by simp
      then obtain s2 where s2: "for_up b n (map_kpage hw (PROT_RW hw)) s = Some s2" "kpt.mapped hw {b..<n} (PROT_RW hw) s s2"
        using kpt.map_range [OF ki, of b n "PROT_RW hw"] True b(1) top W(3) unfolding n_def by (meson order_trans less_imp_le)
      obtain F where F: "k_inv hw s2" "kpt_keep s s2" "inj_on F {b..<n}" "F ` {b..<n} \<subseteq> pool hw (free_frame s)"
          "pool hw (free_frame s2) = pool hw (free_frame s) - F ` {b..<n}"
          "kpages hw s2 = (\<lambda>i. if i \<in> {b..<n} then Some (F i, PROT_RW hw) else kpages hw s i)"
        using s2(2) unfolding kpt.mapped_def fun_eq_iff by blast
      have "kernel_heap_ok hw (mk s2)" unfolding mk_def
        by (rule kernel_heap_brk [OF assms(1) w assms(2) F(1)]) (use F(6) b(3) in \<open>auto simp: n_def\<close>)
      moreover have "\<forall>i\<in>{b..<n}. \<forall>f p. kpages hw s i = Some (f, p) \<longrightarrow> f \<in> used hw (free_frame s2) \<and> (\<forall>j q. kpages hw s2 j \<noteq> Some (f, q))"
        using lost [OF ki _ _ F(2,4-6)] by blast
      moreover have "SetKernelBrk hw a s = Some (0, mk s2)" using s2(1) True by (simp add: run)
      moreover have "pmem s2 = pmem s" "upts s2 = upts s" "kstacks s2 = kstacks s" using F(2) by (simp_all add: kpt_keep_def)
      ultimately show ?thesis using w on True F(3-5) by (simp add: mk F(6)) blast
    next
      case False
      obtain s2 where s2: "for_down n b (unmap_kpage hw) s = Some s2" "kpt.unmapped hw {n..<b} s s2"
        using kpt.unmap_range_down [OF ki, of n b] False b(3) top(2) by (meson not_less order_trans)
      note U = s2(2) [unfolded kpt.unmapped_def]
      have "kernel_heap_ok hw (mk s2)" unfolding mk_def
        by (rule kernel_heap_brk [OF assms(1) w assms(2)]) (use U b(3) False in \<open>auto simp: n_def\<close>)
      moreover have "SetKernelBrk hw a s = Some (0, mk s2)" using s2(1) False by (simp add: run)
      moreover have "pmem s2 = pmem s" "upts s2 = upts s" "kstacks s2 = kstacks s" using U by (simp_all add: kpt_keep_def)
      ultimately show ?thesis using w on False U by (simp add: mk fun_eq_iff)
    qed
  qed
qed

text \<open>After booting the heap of the kernel is in order, and the page of the break is mapped as well.\<close>

lemma boot_heap_ok:
  assumes "hw_ok hw" and "heap_ok s" and "free_frame s = init_frames hw pmem_size"
    and "BASE_FRAME hw \<le> BASE_PAGE_0 hw" and "LIM_PAGE_0 hw \<le> BASE_FRAME hw + int (pmem_size div PAGESIZE hw)"
    and "kernel_window hw (k_brk (kernel_pt s))" and "kernel_data_end hw + PAGESIZE hw \<le> 2 ^ 32"
    and "PAGESIZE hw \<le> UP_TO_PAGE hw (kernel_data_end hw)" and "0 \<le> heap_top hw (kernel_data_end hw)"
  shows "\<exists>s'. VM_setup hw s = Some s' \<and> kernel_heap_ok hw s'"
proof -
  obtain s' where s': "VM_setup hw s = Some s'" "k_inv hw s'" "k_brk (kernel_pt s') = k_brk (kernel_pt s)"
      "kpages hw s' = (\<lambda>i. if i + BASE_PAGE_0 hw \<in> boot_pages hw (brk_page hw s) then Some (i + BASE_PAGE_0 hw, boot_prot hw (i + BASE_PAGE_0 hw)) else None)"
    using VM_setup_ok [OF assms(1-5)] by blast
  let ?b = "k_brk (kernel_pt s)"
  note W = kernel_window_pages [OF assms(1,6)]
  have P: "0 < PAGESIZE hw" using hw_size(2) [OF assms(1)] .
  have "UP_TO_PAGE hw ?b div PAGESIZE hw \<le> ?b div PAGESIZE hw + 1"
  proof -
    have "UP_TO_PAGE hw ?b \<le> ?b + PAGESIZE hw" using up_page_div(3) [OF assms(1) W(1)] by simp
    moreover have "(?b + PAGESIZE hw) div PAGESIZE hw = ?b div PAGESIZE hw + 1" using P by (intro div_add_self2) simp
    ultimately show ?thesis using div_le_mono [of "UP_TO_PAGE hw ?b" "?b + PAGESIZE hw" "PAGESIZE hw"] by simp
  qed
  then have top: "heap_top hw ?b + BASE_PAGE_0 hw \<le> brk_page hw s + 1" by (simp add: heap_top_def brk_page_def page_of [OF assms(1)])
  have "kpages hw s' i \<noteq> None" if "heap_top hw (kernel_data_end hw) \<le> i" "i < heap_top hw ?b" for i
    using that assms(9) W(3) top region_0(1) [OF assms(1)] by (simp add: s'(4) boot_pages_def)
  then show ?thesis using s' assms(7-9) W(1,4) by (auto simp: kernel_heap_ok_def)
qed

lemma demo_kernel_heap: "kernel_heap_ok demo demo_kernel" "kernel_window demo 96" "\<not> kernel_window demo 32"
  "heap_top demo 96 = 6" "heap_top demo (k_brk (kernel_pt demo_kernel)) = 5" "kpages demo demo_kernel 5 = Some (5, 3)"
proof -
  have kp: "kpages demo demo_kernel = (\<lambda>i. if i \<in> {0..5} \<union> {14, 15} then Some (i, 3) else None)"
    by (auto simp: kpages_def entries_def entry_def no_entry_def demo_kernel_def fun_eq_iff)
  have "{0..5} \<union> {14, 15} \<subseteq> used demo demo_ff" unfolding demo_used by auto
  then have k: "k_inv demo demo_kernel" unfolding k_inv_def sound_def kp using demo_ff_ok by (auto split: if_splits)
  have br: "k_brk (kernel_pt demo_kernel) = 80" by (simp add: demo_kernel_def)
  show "heap_top demo 96 = 6" "heap_top demo (k_brk (kernel_pt demo_kernel)) = 5" by (simp_all add: heap_top_def br)
  show "kernel_window demo 96" "\<not> kernel_window demo 32" by (simp_all add: kernel_window_def usub_exact)
  show "kpages demo demo_kernel 5 = Some (5, 3)" by (simp add: kp)
  show "kernel_heap_ok demo demo_kernel" using k by (simp add: kernel_heap_ok_def br heap_top_def kp)
qed

theorem kernel_brk_witness:
  "SetKernelBrk demo 32 demo_kernel = Some (ERROR demo, demo_kernel) \<and>
   (\<exists>s'. SetKernelBrk demo 96 demo_kernel = Some (0, s') \<and> kernel_heap_ok demo s' \<and> 5 \<in> used demo (free_frame s') \<and>
     (\<forall>i p. kpages demo s' i \<noteq> Some (5, p)))"
proof -
  note D = demo_kernel_heap
  have on: "vm_enable demo_kernel" by (simp add: demo_kernel_def)
  have room: "4 \<le> frames_left (free_frame demo_kernel)" by (simp add: demo_kernel_def frames_left_def)
  have low: "heap_top demo 32 \<le> 5" by (simp add: heap_top_def)
  have lt: "(5::int) < 6" by simp
  have "vm_enable demo_kernel \<longrightarrow> 6 - 5 \<le> frames_left (free_frame demo_kernel)" using room by simp
  from kernel_brk [OF demo_ok D(1), of 96, unfolded D(4,5), OF this]
  obtain s' where s': "SetKernelBrk demo 96 demo_kernel = Some (0, s')" "kernel_heap_ok demo s'"
      "\<forall>i\<in>{5..<6}. \<forall>f p. kpages demo demo_kernel i = Some (f, p) \<longrightarrow>
        f \<in> used demo (free_frame s') \<and> (\<forall>j q. kpages demo s' j \<noteq> Some (f, q))"
    unfolding if_not_P [OF not_not [THEN iffD2, OF D(2)]] if_not_P [OF not_not [THEN iffD2, OF on]] if_P [OF lt] by (elim exE conjE) (rule that, assumption+)
  have "SetKernelBrk demo 32 demo_kernel = Some (ERROR demo, demo_kernel)"
    using kernel_brk [OF demo_ok D(1), of 32] D(3,5) room low by simp
  with s'(1,2) s'(3) [rule_format, of 5 5 3] D(6) show ?thesis by simp
qed

end
