(* ===== verification/Channel_Spec.thy ===== *)
theory Channel_Spec
  imports Wait_Spec
begin

text \<open>
  What goes through pipes and terminals: readers of pipes, writers and readers of terminals, with
  the bytes they find in their memory or that reach the device.
\<close>

section \<open>Reading out of a buffer into the memory of a process\<close>

lemma read_into_user:
  fixes s :: kernel
  assumes hw: "hw_ok hw" and b: "live s b" "buf_ok (bufs s b)" and len: "0 \<le> len" and u: "u_inv hw (ptbr1 s) s"
    and own: "\<And>x. dst \<le> x \<Longrightarrow> x < dst + nat len \<Longrightarrow> own hw s x" and top: "dst + nat len < 2 ^ 32"
  defines "c \<equiv> contents (bufs s b)"
  shows "\<exists>b' M. read_into hw b dst len s = Some (int (length (take (nat len) c)), s\<lparr>pmem := M, bufs := (bufs s)(b := b')\<rparr>) \<and>
    written hw {dst..<dst + length (take (nat len) c)} (\<lambda>x. c ! (x - dst)) s (s\<lparr>pmem := M\<rparr>) \<and>
    buf_ok b' \<and> contents b' = drop (nat len) c \<and> b_size b' = b_size (bufs s b)"
proof -
  have "min (b_filled (bufs s b)) len = int (length (take (nat len) c))" using contents_length [OF b(2)] len by (auto simp: c_def)
  then obtain b' where b': "read_buffer (bufs s b) len = Some (int (length (take (nat len) c)), take (nat len) c, b')" "buf_ok b'"
      "contents b' = drop (nat len) c" "b_size b' = b_size (bufs s b)"
    using read_buffer_spec [OF b(2) len] by (auto simp: c_def)
  have "\<forall>x. dst \<le> x \<and> x < dst + length (take (nat len) c) \<longrightarrow> own hw s x" "dst + length (take (nat len) c) < 2 ^ 32"
    using own top by auto
  from store_bytes_ok [OF hw u this] obtain s' where s': "store_bytes hw dst (take (nat len) c) s = Some s'"
      "written hw {dst..<dst + length (take (nat len) c)} (\<lambda>x. take (nat len) c ! (x - dst)) s s'" by blast
  obtain M where M: "s' = s\<lparr>pmem := M\<rparr>" using written_bytes [OF s'(2)] by (auto simp: only_bytes_def)
  have "written hw {dst..<dst + length (take (nat len) c)} (\<lambda>x. c ! (x - dst)) s (s\<lparr>pmem := M\<rparr>)"
    by (rule written_cong [OF s'(2) [unfolded M]]) auto
  moreover have "read_into hw b dst len s = Some (int (length (take (nat len) c)), s\<lparr>pmem := M, bufs := (bufs s)(b := b')\<rparr>)"
    using b b'(1) s'(1) by (simp add: read_into_def M)
  ultimately show ?thesis using b' by blast
qed

section \<open>Pipes\<close>

text \<open>What a process reads: bytes that are there and no more than it asked for.\<close>

lemma read_pipe_takes:
  fixes s :: kernel
  assumes hw: "hw_ok hw" and inv: "sched_inv s Q B" and p: "pipe_ok s B pipe" and len: "0 < len" "contents (pipe_buf s pipe) \<noteq> []"
    and u: "u_inv hw (ptbr1 s) s" and own: "\<And>x. dst \<le> x \<Longrightarrow> x < dst + nat len \<Longrightarrow> own hw s x" and top: "dst + nat len < 2 ^ 32"
  defines "got \<equiv> take (nat len) (contents (pipe_buf s pipe))" and "w \<equiv> p_writeblocked (pipes s pipe)"
  shows "\<exists>s'. read_pipe_loop hw pipe dst len s = Some (Ret (int (length got)), s') \<and>
    sched_inv s' (wakeall (ready_ll (procs s)) w Q) B \<and>
    contents (pipe_buf s' pipe) = drop (nat len) (contents (pipe_buf s pipe)) \<and> buf_ok (pipe_buf s' pipe) \<and>
    p_unfulfilled (pipes s' pipe) = p_unfulfilled (pipes s pipe) + int (length (the (Q w))) \<and>
    (\<forall>x. own hw s x \<longrightarrow> load hw s' x = (if x \<in> {dst..<dst + length got} then Some (got ! (x - dst)) else load hw s x))"
proof -
  let ?b = "p_buffer (pipes s pipe)"
  have P: "live s pipe" "live s ?b" "buf_ok (pipe_buf s pipe)" "w \<in> B" "w \<noteq> ready_ll (procs s)"
    using p by (auto simp: pipe_ok_def w_def)
  obtain b' M where r: "read_into hw ?b dst len s = Some (int (length got), s\<lparr>pmem := M, bufs := (bufs s)(?b := b')\<rparr>)"
      "written hw {dst..<dst + length got} (\<lambda>x. contents (pipe_buf s pipe) ! (x - dst)) s (s\<lparr>pmem := M\<rparr>)"
      "buf_ok b'" "contents b' = drop (nat len) (contents (pipe_buf s pipe))"
    using read_into_user [OF hw P(2,3) less_imp_le [OF len(1)] u own top] unfolding got_def by blast
  let ?s = "s\<lparr>pmem := M, bufs := (bufs s)(?b := b')\<rparr>"
  have pos: "int (length got) \<noteq> 0" using len by (simp add: got_def)
  obtain s' where s': "wake_all pipe w ?s = Some s'" "sched_inv s' (wakeall (ready_ll (procs s)) w Q) B"
      "pipes s' = (pipes s)(pipe := (pipes s pipe)\<lparr>p_unfulfilled := p_unfulfilled (pipes s pipe) + int (length (the (Q w)))\<rparr>)"
      "sched_frame hw ?s (s'\<lparr>pipes := pipes s\<rparr>)" "ptbr1 s' = ptbr1 s"
    using wake_all_ok [of ?s Q B pipe w hw] inv P(1,4,5) by (auto simp: live_def)
  have F: "bufs s' = bufs ?s" "upts s' = upts s" "pmem s' = M" "alive s' = alive s"
    using frame_objects(1) [OF s'(4)] s'(4) by (simp_all add: sched_frame_def)
  have "load hw s' x = (if x \<in> {dst..<dst + length got} then Some (got ! (x - dst)) else load hw s x)" if x: "own hw s x" for x
  proof -
    have lv: "live (s\<lparr>pmem := M\<rparr>) (ptbr1 s)" "live s' (ptbr1 s)" using u F(4) by (simp_all add: u_inv_def live_def)
    have "own hw (s\<lparr>pmem := M\<rparr>) x" using x by (simp add: user_addr_def upages_def)
    with load_same [OF hw, of "s\<lparr>pmem := M\<rparr>" s' x] lv s'(5) F(2,3) have "load hw s' x = load hw (s\<lparr>pmem := M\<rparr>) x" by simp
    also have "\<dots> = (if x \<in> {dst..<dst + length got} then Some (contents (pipe_buf s pipe) ! (x - dst)) else load hw s x)"
      using r(2) x by (simp add: written_def)
    also have "\<dots> = (if x \<in> {dst..<dst + length got} then Some (got ! (x - dst)) else load hw s x)"
      by (auto simp: got_def)
    finally show ?thesis .
  qed
  moreover have "pipe_buf s' pipe = b'" using F(1) by (simp add: s'(3))
  moreover have "read_pipe_loop hw pipe dst len s = Some (Ret (int (length got)), s')"
    using r(1) s'(1) P(1) pos by (simp add: read_pipe_loop_def w_def)
  ultimately show ?thesis using r(3,4) s'(2,3) by (intro exI [of _ s']) simp
qed

text \<open>A reader that gets nothing waits: also one that asks for nothing.\<close>

lemma read_pipe_waits:
  fixes s :: kernel
  assumes hw: "hw_ok hw" and inv: "sched_inv s Q B" and p: "pipe_ok s B pipe" and run: "running (procs s) \<noteq> idle_node s"
    and none: "0 \<le> len" "len = 0 \<or> contents (pipe_buf s pipe) = []"
  defines "Q' \<equiv> Q(p_readblocked (pipes s pipe) \<mapsto> the (Q (p_readblocked (pipes s pipe))) @ [running (procs s)])"
  shows "\<exists>s'. read_pipe_loop hw pipe dst len s = Some (Switched, s') \<and> sched_inv s' (dispatch (ready_ll (procs s)) Q') B \<and>
    running (procs s') = next_up s Q' \<and> pcb_kc (the_pcb s' (running (procs s))) = KC_PipeRead pipe dst len \<and>
    contents (pipe_buf s' pipe) = contents (pipe_buf s pipe) \<and> pmem s' = pmem s"
proof -
  let ?b = "p_buffer (pipes s pipe)"
  have P: "live s pipe" "live s ?b" "buf_ok (pipe_buf s pipe)" "p_readblocked (pipes s pipe) \<in> B"
    using p by (auto simp: pipe_ok_def)
  obtain b' where b': "read_buffer (pipe_buf s pipe) len = Some (0, [], b')" "contents b' = contents (pipe_buf s pipe)"
    using read_buffer_spec [OF P(3) none(1)] none contents_length [OF P(3)] by (auto simp: min_def)
  let ?s = "s\<lparr>bufs := (bufs s)(?b := b')\<rparr>" and ?kc = "KC_PipeRead pipe dst len"
  have r: "read_into hw ?b dst len s = Some (0, ?s)" using P(2) b'(1) by (simp add: read_into_def)
  have nu: "next_up ?s Q' = next_up s Q'" by (simp add: next_up_def split: list.splits)
  obtain s' where s': "block hw ?kc (p_readblocked (pipes s pipe)) ?s = Some s'" "switched hw ?kc ?s s' (next_up s Q')"
      "sched_inv s' (dispatch (ready_ll (procs s)) Q') B"
    using block_ok [OF hw, of ?s Q B "p_readblocked (pipes s pipe)" ?kc] inv P(4) run nu by (auto simp: Q'_def)
  have F: "sched_frame hw ?s s'" using s'(2) by (simp add: switched_def)
  have "pipe_buf s' pipe = b'" using frame_objects(1,2) [OF F] by simp
  moreover have "read_pipe_loop hw pipe dst len s = Some (Switched, s')"
    using r s'(1) P(1) by (simp add: read_pipe_loop_def)
  moreover have "pcb_kc (the_pcb s' (running (procs s))) = ?kc"
    using s'(2) sched_frameD(2) [OF F] by (simp add: switched_def)
  moreover have "pmem s' = pmem s" using F by (simp add: sched_frame_def)
  ultimately show ?thesis using b'(2) s'(2,3) by (auto simp: switched_def)
qed

text \<open>
  C20: Reading from a pipe.  If the pipe holds bytes and the process asks for at least one, it gets the
  oldest ones, as many as it asked for or as there are, at the address it gave and nowhere else; they are gone from the
  pipe, and all writers that wait are woken.  Otherwise the process waits at the end of the readers
  of the pipe and the next one runs: so a process that asks for no bytes at all waits, even if the pipe
  is full, and waits again whenever it is woken.
\<close>

theorem pipe_read:
  fixes s :: kernel
  assumes "hw_ok hw" and "sched_inv s Q B" and "pipe_ok s B pipe" and "running (procs s) \<noteq> idle_node s"
    and "live s pipe_n" and "nd_data (nodes s pipe_n) = pipe" and "0 \<le> len"
    and "u_inv hw (ptbr1 s) s" and "\<And>x. dst \<le> x \<Longrightarrow> x < dst + nat len \<Longrightarrow> own hw s x" and "dst + nat len < 2 ^ 32"
  defines "got \<equiv> take (nat len) (contents (pipe_buf s pipe))" and "l \<equiv> p_readblocked (pipes s pipe)"
  shows "if got \<noteq> []
    then \<exists>s'. read_pipe hw pipe_n dst len s = Some (Ret (int (length got)), s') \<and>
      sched_inv s' (wakeall (ready_ll (procs s)) (p_writeblocked (pipes s pipe)) Q) B \<and>
      contents (pipe_buf s' pipe) = drop (nat len) (contents (pipe_buf s pipe)) \<and>
      (\<forall>x. own hw s x \<longrightarrow> load hw s' x = (if x \<in> {dst..<dst + length got} then Some (got ! (x - dst)) else load hw s x))
    else \<exists>s'. read_pipe hw pipe_n dst len s = Some (Switched, s') \<and>
      sched_inv s' (Q(l \<mapsto> the (Q l) @ [running (procs s)], ready_ll (procs s) \<mapsto> tl (ready_of s Q))) B \<and>
      pcb_kc (the_pcb s' (running (procs s))) = KC_PipeRead pipe dst len \<and>
      contents (pipe_buf s' pipe) = contents (pipe_buf s pipe)"
proof -
  have e: "read_pipe hw pipe_n dst len s = read_pipe_loop hw pipe dst len s" using assms(5,6) by (simp add: read_pipe_def)
  show ?thesis
  proof (cases "got = []")
    case True
    then have "len = 0 \<or> contents (pipe_buf s pipe) = []" using assms(7) by (auto simp: got_def)
    moreover have "l \<noteq> ready_ll (procs s)" using assms(3) by (simp add: pipe_ok_def l_def)
    ultimately show ?thesis
      using read_pipe_waits [OF assms(1-4,7)] True unfolding e l_def by (fastforce simp: dispatch_def)
  next
    case False
    then have "0 < len" "contents (pipe_buf s pipe) \<noteq> []" by (auto simp: got_def)
    with read_pipe_takes [OF assms(1-3) _ _ assms(8-10)] False show ?thesis unfolding e got_def by fastforce
  qed
qed

text \<open>
  C21: What is written to a pipe is read from it.  After a write that fits, whenever a process reads as many bytes
  as were there before and were written, and nothing has happened to the pipe in between, it
  finds in its memory the bytes that were there, followed by the bytes of the writer; the pipe is
  empty then.
\<close>

theorem pipe_passes_bytes:
  fixes s s2 :: kernel
  assumes "hw_ok hw" and "sched_inv s Q B" and "live s pipe_n" and "nd_data (nodes s pipe_n) = pipe" and "pipe_ok s B pipe"
    and "0 < len" and "len \<le> room (pipe_buf s pipe)"
    and "\<And>j. int j < len \<Longrightarrow> load hw s (u32 (int src + int j)) = Some (g j)"
    and "write_pipe hw pipe_n src len s = Some (r, s1)"
    and "sched_inv s2 Q2 B" and "pipe_ok s2 B pipe" and "pipe_buf s2 pipe = pipe_buf s1 pipe" and "live s2 pipe_n"
    and "nd_data (nodes s2 pipe_n) = pipe" and "u_inv hw (ptbr1 s2) s2"
  defines "cs \<equiv> contents (pipe_buf s pipe) @ map g [0..<nat len]"
  assumes "\<And>x. dst \<le> x \<Longrightarrow> x < dst + length cs \<Longrightarrow> own hw s2 x" and "dst + length cs < 2 ^ 32"
  shows "\<exists>s3. read_pipe hw pipe_n dst (int (length cs)) s2 = Some (Ret (int (length cs)), s3) \<and>
    (\<forall>j<length cs. load hw s3 (dst + j) = Some (cs ! j)) \<and> contents (pipe_buf s3 pipe) = []"
proof -
  obtain s' where "write_pipe_loop hw pipe src len len (uninit hw) s = Some (Ret (uninit hw), s')"
      "contents (pipe_buf s' pipe) = cs"
    using write_pipe_loop_fits [OF assms(2,5) _ assms(7) order.refl, of hw src g] assms(6,8) by (auto simp: cs_def)
  then have c1: "contents (pipe_buf s2 pipe) = cs" using assms(3,4,9,12) by (simp add: write_pipe_def)
  have ne: "cs \<noteq> []" using assms(6) by (simp add: cs_def)
  have own: "own hw s2 x" if "dst \<le> x" "x < dst + nat (int (length cs))" for x using assms(17) that by simp
  have len: "0 < int (length cs)" "dst + nat (int (length cs)) < 2 ^ 32" "take (nat (int (length cs))) cs = cs" using ne assms(18) by simp_all
  obtain s3 where s3: "read_pipe_loop hw pipe dst (int (length cs)) s2 = Some (Ret (int (length cs)), s3)"
      "contents (pipe_buf s3 pipe) = drop (nat (int (length cs))) cs"
      "\<And>x. own hw s2 x \<Longrightarrow> load hw s3 x = (if x \<in> {dst..<dst + length cs} then Some (cs ! (x - dst)) else load hw s2 x)"
    using read_pipe_takes [OF assms(1,10,11) len(1) ne [folded c1] assms(15) own len(2)] unfolding c1 len(3) by blast
  have "load hw s3 (dst + j) = Some (cs ! j)" if "j < length cs" for j
    using s3(3) [OF assms(17), of "dst + j"] that by simp
  with s3 assms(13,14) show ?thesis by (simp add: read_pipe_def)
qed

section \<open>Terminals: writing\<close>

definition tty_ok :: "kernel \<Rightarrow> addr set \<Rightarrow> addr \<Rightarrow> bool" where
  "tty_ok s B t \<longleftrightarrow> live s t \<and> live s (t_buffer (ttyios s t)) \<and> buf_ok (bufs s (t_buffer (ttyios s t))) \<and>
     t_blocked (ttyios s t) \<in> B \<and> t_blocked (ttyios s t) \<noteq> ready_ll (procs s)"

abbreviation tty_buf :: "kernel \<Rightarrow> addr \<Rightarrow> buffer" where
  "tty_buf s t \<equiv> bufs s (t_buffer (ttyios s t))"

lemma reset_ok: "buf_ok b \<Longrightarrow> buf_ok (reset_buffer b) \<and> contents (reset_buffer b) = [] \<and> b_size (reset_buffer b) = b_size b \<and>
    b_head (reset_buffer b) = 0 \<and> b_filled (reset_buffer b) = 0"
  by (simp add: reset_buffer_def buf_ok_def contents_def)

lemma write_buffer_head: "write_buffer b src len = Some (w, b') \<Longrightarrow> b_head b' = b_head b \<and> b_filled b' = b_filled b + w"
  by (auto simp: write_buffer_def Let_def bind_Some_iff)

lemma contents_from_start: "buf_ok b \<Longrightarrow> b_head b = 0 \<Longrightarrow> contents b = take (nat (b_filled b)) (b_buffered b)"
  by (auto simp: contents_def view_def buf_ok_def intro!: nth_equalityI)

text \<open>A round of \<open>write_tty\<close> on a terminal that is not transmitting.\<close>

lemma write_tty_round:
  fixes s :: kernel
  assumes hw: "hw_ok hw" and inv: "sched_inv s Q B" and t: "tty_ok s B out" and run: "running (procs s) \<noteq> idle_node s"
    and idle: "t_transmitting (ttyios s out) = 0" and len: "0 < len" "tot < len"
    and src: "\<And>j. int j < min (b_size (tty_buf s out)) len \<Longrightarrow> load hw s (u32 (int src + int j)) = Some (g j)"
  defines "n \<equiv> min (b_size (tty_buf s out)) len"
    and "Q' \<equiv> Q(t_blocked (ttyios s out) \<mapsto> running (procs s) # the (Q (t_blocked (ttyios s out))))"
  shows "\<exists>s'. write_tty_loop hw tty_id out src len tot s = Some (Switched, s') \<and>
    sent s' = sent s @ [(tty_id, map g [0..<nat n])] \<and>
    pcb_kc (the_pcb s' (running (procs s))) = KC_TtyWrite tty_id out (u32 (int src + n)) len (tot + n) \<and>
    t_transmitting (ttyios s' out) = 1 \<and> sched_inv s' (dispatch (ready_ll (procs s)) Q') B \<and> tty_ok s' B out \<and>
    t_blocked (ttyios s' out) = t_blocked (ttyios s out) \<and> procs s' = (procs s)\<lparr>running := next_up s Q'\<rparr>"
proof -
  let ?b = "t_buffer (ttyios s out)" and ?r = "reset_buffer (tty_buf s out)"
  have T: "live s out" "live s ?b" "buf_ok (tty_buf s out)" "t_blocked (ttyios s out) \<in> B"
    using t by (auto simp: tty_ok_def)
  note R = reset_ok [OF T(3)]
  have n0: "0 \<le> n" using T(3) len(1) by (simp add: n_def buf_ok_def)
  let ?s1 = "s\<lparr>bufs := (bufs s)(?b := ?r)\<rparr>"
  have l1: "load hw ?s1 a = load hw s a" for a by (simp add: load_def frame_at_def rd_kpte_def rd_upte_def)
  have m: "min (b_size ?r - b_filled ?r) len = n" using R by (simp add: n_def)
  obtain b' where b': "write_buffer ?r (\<lambda>i. load hw ?s1 (u32 (int src + i))) len = Some (n, b')" "buf_ok b'"
      "contents b' = map g [0..<nat n]" "b_size b' = b_size (tty_buf s out)"
    using write_buffer_spec [of ?r len "\<lambda>i. load hw ?s1 (u32 (int src + i))" g] R len(1) src unfolding m l1 by (auto simp: n_def)
  have bytes: "take (nat n) (b_buffered b') = map g [0..<nat n]"
    using write_buffer_head [OF b'(1)] contents_from_start [OF b'(2)] b'(3) R by simp
  let ?s2 = "s\<lparr>bufs := (bufs s)(?b := b')\<rparr>"
  let ?s3 = "?s2\<lparr>ttyios := (ttyios s)(out := (ttyios s out)\<lparr>t_transmitting := 1\<rparr>),
      sent := sent s @ [(tty_id, map g [0..<nat n])]\<rparr>"
  let ?kc = "KC_TtyWrite tty_id out (u32 (int src + n)) len (tot + n)"
  have nu: "next_up ?s3 Q' = next_up s Q'" by (simp add: next_up_def split: list.splits)
  obtain s' where s': "h_block hw ?kc (t_blocked (ttyios s out)) ?s3 = Some s'" "switched hw ?kc ?s3 s' (next_up s Q')"
      "sched_inv s' (dispatch (ready_ll (procs s)) Q') B"
    using h_block_ok [OF hw, of ?s3 Q B "t_blocked (ttyios s out)" ?kc] inv T(4) run nu by (auto simp: Q'_def)
  have F: "sched_frame hw ?s3 s'" using s'(2) by (simp add: switched_def)
  note O = frame_objects [OF F]
  have "write_tty_loop hw tty_id out src len tot s = Some (Switched, s')"
    using T(1,2) idle len(2) b'(1) s'(1) bytes
    by (simp add: write_tty_loop_def reset_at_def write_from_def TtyTransmit_def)
  moreover have "tty_ok s' B out" using t b'(2) sched_frameD(1,4) [OF F] O(1,5) by (simp add: tty_ok_def)
  moreover have "procs s' = (procs s)\<lparr>running := next_up s Q'\<rparr>"
    using s'(2) sched_frameD(4-7) [OF F] by (simp add: switched_def)
  ultimately show ?thesis
    using s' O sched_frameD(2) [OF F] by (intro exI [of _ s']) (simp add: switched_def)
qed

lemma write_alert_ok:
  fixes s :: kernel
  assumes inv: "sched_inv s Q B" and out: "aread (io_out (io s)) tty_id = Some out" and t: "tty_ok s B out"
  shows "\<exists>s'. write_alert tty_id s = Some s' \<and> t_transmitting (ttyios s' out) = 0 \<and>
    sched_inv s' (wake1 (ready_ll (procs s)) (t_blocked (ttyios s out)) Q) B \<and> tty_ok s' B out \<and> sent s' = sent s"
proof -
  let ?b = "t_buffer (ttyios s out)" and ?l = "t_blocked (ttyios s out)"
  have T: "live s out" "live s ?b" "buf_ok (tty_buf s out)" "?l \<in> B" "?l \<noteq> ready_ll (procs s)" using t by (auto simp: tty_ok_def)
  let ?s = "s\<lparr>bufs := (bufs s)(?b := reset_buffer (tty_buf s out)),
      ttyios := (ttyios s)(out := (ttyios s out)\<lparr>t_transmitting := 0\<rparr>)\<rparr>"
  obtain e s' where s': "is_empty ?l ?s = Some e" "(if e = 0 then unblock_head ?l ?s else Some ?s) = Some s'" "links_only ?s s'"
      "sched_inv s' (wake1 (ready_ll (procs s)) ?l Q) B"
    using wq.wake_head_if_any [of ?s Q B ?l] inv T(4,5) by auto
  note O = links_objects [OF s'(3)] and F = links_sched_frame(1) [OF s'(3)]
  have "write_alert tty_id s = Some s'" unfolding write_alert_def out using T(1,2) s'(1,2) by (cases "e = 0") (simp_all add: reset_at_def)
  moreover have "tty_ok s' B out" using t reset_ok [OF T(3)] O(1,5) sched_frameD(1,4) [OF F] by (simp add: tty_ok_def)
  ultimately show ?thesis using s'(4) O by (intro exI [of _ s']) simp
qed

lemma write_tty_done:
  fixes s :: kernel
  assumes inv: "sched_inv s Q B" and t: "tty_ok s B out" and "len \<le> tot"
  shows "\<exists>s'. write_tty_loop hw tty_id out src len tot s = Some (Ret tot, s') \<and>
    sched_inv s' (wake1 (ready_ll (procs s)) (t_blocked (ttyios s out)) Q) B"
proof -
  let ?l = "t_blocked (ttyios s out)"
  have T: "live s out" "?l \<in> B" "?l \<noteq> ready_ll (procs s)" using t by (auto simp: tty_ok_def)
  from wq.wake_head_if_any [OF inv T(2,3)] show ?thesis using assms(3) T(1) by (auto simp: write_tty_loop_def)
qed

text \<open>
  C22: Writing a line to an idle terminal.  When it fits the buffer of the terminal, exactly the bytes of the process are transmitted, at once;
  the process waits in front of all other writers, the next process runs.  When the terminal has sent the line, the
  process is ready again and the terminal is idle; the call then returns the number of bytes and wakes the next writer.
\<close>

theorem tty_write:
  fixes s :: kernel
  assumes "hw_ok hw" and "sched_inv s Q B" and "tty_ok s B out" and "running (procs s) \<noteq> idle_node s"
    and "aread (io_out (io s)) tty_id = Some out" and "t_transmitting (ttyios s out) = 0"
    and "0 < len" and "len \<le> b_size (tty_buf s out)" and "\<And>j. int j < len \<Longrightarrow> load hw s (u32 (int src + int j)) = Some (g j)"
  defines "me \<equiv> running (procs s)" and "l \<equiv> t_blocked (ttyios s out)" and "kc \<equiv> KC_TtyWrite tty_id out (u32 (int src + len)) len len"
  shows "(\<exists>s1. write_tty hw tty_id src len s = Some (Switched, s1) \<and> sent s1 = sent s @ [(tty_id, map g [0..<nat len])] \<and>
      pcb_kc (the_pcb s1 me) = kc \<and> t_transmitting (ttyios s1 out) = 1 \<and>
      sched_inv s1 (Q(l \<mapsto> me # the (Q l), ready_ll (procs s) \<mapsto> tl (ready_of s Q))) B) \<and>
    (\<forall>s2 Q2 ys. sched_inv s2 (Q2(l \<mapsto> me # ys)) B \<and> tty_ok s2 B out \<and> t_blocked (ttyios s2 out) = l \<and>
        aread (io_out (io s2)) tty_id = Some out \<longrightarrow>
      (\<exists>s3. write_alert tty_id s2 = Some s3 \<and> t_transmitting (ttyios s3 out) = 0 \<and> sent s3 = sent s2 \<and>
        sched_inv s3 (Q2(l \<mapsto> ys, ready_ll (procs s2) \<mapsto> ready_of s2 Q2 @ [me])) B)) \<and>
    (\<forall>s4 Q4. sched_inv s4 Q4 B \<and> tty_ok s4 B out \<longrightarrow>
      (\<exists>s5. write_tty_loop hw tty_id out (u32 (int src + len)) len len s4 = Some (Ret len, s5) \<and>
        sched_inv s5 (wake1 (ready_ll (procs s4)) (t_blocked (ttyios s4 out)) Q4) B))"
proof (intro conjI allI impI; (elim conjE)?)
  have m: "min (b_size (tty_buf s out)) len = len" using assms(8) by simp
  have "l \<noteq> ready_ll (procs s)" using assms(3) by (simp add: tty_ok_def l_def)
  then show "\<exists>s1. write_tty hw tty_id src len s = Some (Switched, s1) \<and> sent s1 = sent s @ [(tty_id, map g [0..<nat len])] \<and>
    pcb_kc (the_pcb s1 me) = kc \<and> t_transmitting (ttyios s1 out) = 1 \<and>
    sched_inv s1 (Q(l \<mapsto> me # the (Q l), ready_ll (procs s) \<mapsto> tl (ready_of s Q))) B"
    using write_tty_round [OF assms(1-4,6,7), of 0 src g tty_id, unfolded m] assms(5,7,9)
    by (fastforce simp: write_tty_def dispatch_def me_def l_def kc_def)
next
  fix s2 Q2 ys
  assume a: "sched_inv s2 (Q2(l \<mapsto> me # ys)) B" "tty_ok s2 B out" "t_blocked (ttyios s2 out) = l" "aread (io_out (io s2)) tty_id = Some out"
  then have "l \<noteq> ready_ll (procs s2)" by (auto simp: tty_ok_def)
  with write_alert_ok [OF a(1,4,2)] a(3) show "\<exists>s3. write_alert tty_id s2 = Some s3 \<and> t_transmitting (ttyios s3 out) = 0 \<and> sent s3 = sent s2 \<and>
        sched_inv s3 (Q2(l \<mapsto> ys, ready_ll (procs s2) \<mapsto> ready_of s2 Q2 @ [me])) B"
    by (auto simp: wake1_def)
next
  fix s4 Q4 assume "sched_inv s4 Q4 B" "tty_ok s4 B out"
  then show "\<exists>s5. write_tty_loop hw tty_id out (u32 (int src + len)) len len s4 = Some (Ret len, s5) \<and>
        sched_inv s5 (wake1 (ready_ll (procs s4)) (t_blocked (ttyios s4 out)) Q4) B"
    by (rule write_tty_done) simp
qed

text \<open>
  C39: A longer line is not written right: every round is offered \<open>len\<close> bytes, not those that are left.  In the second
  round of a write with more bytes than the buffer holds but fewer than twice as many, a whole buffer is transmitted again,
  with bytes from behind those of the process, and the call returns more than the process has asked for.
\<close>

theorem tty_write_overruns:
  fixes s :: kernel
  assumes "hw_ok hw" and "sched_inv s Q B" and "tty_ok s B out" and "running (procs s) \<noteq> idle_node s"
    and "t_transmitting (ttyios s out) = 0" and "n = b_size (tty_buf s out)" and "n < len" and "len < 2 * n"
    and "\<And>j. int j < n \<Longrightarrow> load hw s (u32 (int src + int j)) = Some (g j)"
  shows "(\<exists>s'. write_tty_loop hw tty_id out src len n s = Some (Switched, s') \<and> sent s' = sent s @ [(tty_id, map g [0..<nat n])] \<and>
      pcb_kc (the_pcb s' (running (procs s))) = KC_TtyWrite tty_id out (u32 (int src + n)) len (2 * n)) \<and> len - n < n \<and>
    (\<forall>s2 Q2. sched_inv s2 Q2 B \<and> tty_ok s2 B out \<longrightarrow>
      (\<exists>s3. write_tty_loop hw tty_id out (u32 (int src + n)) len (2 * n) s2 = Some (Ret (2 * n), s3)))"
proof (intro conjI allI impI; (elim conjE)?)
  have m: "min (b_size (tty_buf s out)) len = n" using assms(6,7) by simp
  have l: "0 < len" using assms(7,8) by simp
  show "\<exists>s'. write_tty_loop hw tty_id out src len n s = Some (Switched, s') \<and> sent s' = sent s @ [(tty_id, map g [0..<nat n])] \<and>
    pcb_kc (the_pcb s' (running (procs s))) = KC_TtyWrite tty_id out (u32 (int src + n)) len (2 * n)"
    using write_tty_round [OF assms(1-5) l assms(7), of src g tty_id, unfolded m] assms(9) by fastforce
  show "len - n < n" using assms(8) by simp
next
  fix s2 Q2 assume "sched_inv s2 Q2 B" "tty_ok s2 B out"
  then show "\<exists>s3. write_tty_loop hw tty_id out (u32 (int src + n)) len (2 * n) s2 = Some (Ret (2 * n), s3)"
    using write_tty_done [of s2 Q2 B out len "2 * n" hw tty_id "u32 (int src + n)"] assms(8) by fastforce
qed

section \<open>Terminals: reading\<close>

lemma receive_ok:
  fixes s :: kernel
  assumes inv: "sched_inv s Q B" and inp: "aread (io_in (io s)) tty_id = Some inp" and t: "tty_ok s B inp"
    and line: "line = take (nat (TERMINAL_MAX_LINE hw)) (line_in s tty_id)"
  defines "fits \<equiv> take (nat (room (tty_buf s inp))) line" and "l \<equiv> t_blocked (ttyios s inp)"
  shows "\<exists>s'. receive hw tty_id s = Some s' \<and> contents (tty_buf s' inp) = contents (tty_buf s inp) @ fits \<and> tty_ok s' B inp \<and>
    sched_inv s' (if fits = [] then Q else Q(l \<mapsto> [], ready_ll (procs s) \<mapsto> ready_of s Q @ the (Q l))) B"
proof -
  let ?b = "t_buffer (ttyios s inp)"
  have T: "live s inp" "live s ?b" "buf_ok (tty_buf s inp)" "l \<in> B" "l \<noteq> ready_ll (procs s)" using t by (auto simp: tty_ok_def l_def)
  define L where "L = line @ drop (length line) (landing_buffer (io s))"
  have r0: "0 \<le> room (tty_buf s inp)" using T(3) by (simp add: room_def buf_ok_def)
  have n: "min (b_size (tty_buf s inp) - b_filled (tty_buf s inp)) (int (length line)) = int (length fits)"
    using r0 by (auto simp: fits_def room_def)
  have "aread L (int j) = Some (line ! j)" if "int j < int (length fits)" for j
    using that by (simp add: aread_def L_def fits_def nth_append)
  then obtain b' where b': "write_buffer (tty_buf s inp) (aread L) (int (length line)) = Some (int (length fits), b')" "buf_ok b'"
      "contents b' = contents (tty_buf s inp) @ map (\<lambda>j. line ! j) [0..<nat (int (length fits))]"
    using write_buffer_spec [OF T(3), of "int (length line)" "aread L" "\<lambda>j. line ! j"] unfolding n by auto
  have f: "map (\<lambda>j. line ! j) [0..<nat (int (length fits))] = fits" by (auto simp: fits_def intro: nth_equalityI)
  let ?s = "s\<lparr>io := (io s)\<lparr>landing_buffer := L\<rparr>, bufs := (bufs s)(?b := b')\<rparr>"
  have pre: "receive hw tty_id s = (if int (length fits) > 0 then unblock_all l ?s else Some ?s)"
    using inp T(1,2) b'(1) by (simp add: receive_def TtyReceive_def L_def flip: line) (simp add: l_def)
  show ?thesis
  proof (cases "fits = []")
    case True
    have "tty_ok ?s B inp" using t b'(2) by (simp add: tty_ok_def)
    then show ?thesis using True inv b'(3) unfolding pre f by simp
  next
    case False
    have Ql: "Q l = Some (the (Q l))" using sched_midD(10) [OF sched_invD(1) [OF inv] T(4)] .
    obtain s' where s': "unblock_all l ?s = Some s'" "links_only ?s s'"
        "sched_inv s' (Q(l \<mapsto> [], ready_ll (procs s) \<mapsto> ready_of s Q @ the (Q l))) B"
      using unblock_all_ok [of ?s Q B l, OF _ T(4) _ Ql] inv T(5) by auto
    note O = links_objects [OF s'(2)] and F = links_sched_frame(1) [OF s'(2)]
    have "tty_ok s' B inp" using t b'(2) O(1,5) sched_frameD(1,4) [OF F] by (simp add: tty_ok_def)
    with s' O b'(3) False show ?thesis unfolding pre f by simp
  qed
qed

lemma read_tty_takes:
  fixes s :: kernel
  assumes hw: "hw_ok hw" and inp: "aread (io_in (io s)) tty_id = Some inp" and t: "tty_ok s B inp"
    and len: "0 < len" "contents (tty_buf s inp) \<noteq> []"
    and u: "u_inv hw (ptbr1 s) s" and own: "\<And>x. dst \<le> x \<Longrightarrow> x < dst + nat len \<Longrightarrow> own hw s x" and top: "dst + nat len < 2 ^ 32"
  defines "got \<equiv> take (nat len) (contents (tty_buf s inp))"
  shows "\<exists>s'. read_tty hw tty_id dst len s = Some (Ret (int (length got)), s') \<and>
    contents (tty_buf s' inp) = drop (nat len) (contents (tty_buf s inp)) \<and> procs s' = procs s \<and>
    (\<forall>x. own hw s x \<longrightarrow> load hw s' x = (if x \<in> {dst..<dst + length got} then Some (got ! (x - dst)) else load hw s x))"
proof -
  let ?b = "t_buffer (ttyios s inp)"
  have T: "live s inp" "live s ?b" "buf_ok (tty_buf s inp)" using t by (auto simp: tty_ok_def)
  obtain b' M where r: "read_into hw ?b dst len s = Some (int (length got), s\<lparr>pmem := M, bufs := (bufs s)(?b := b')\<rparr>)"
      "written hw {dst..<dst + length got} (\<lambda>x. contents (tty_buf s inp) ! (x - dst)) s (s\<lparr>pmem := M\<rparr>)"
      "contents b' = drop (nat len) (contents (tty_buf s inp))"
    using read_into_user [OF hw T(2,3) less_imp_le [OF len(1)] u own top] unfolding got_def by blast
  let ?s = "s\<lparr>pmem := M, bufs := (bufs s)(?b := b')\<rparr>"
  have pos: "int (length got) \<noteq> 0" using len by (simp add: got_def)
  have "read_tty hw tty_id dst len s = Some (Ret (int (length got)), ?s)"
    unfolding read_tty_def inp using T(1) r(1) pos by (simp add: read_tty_loop_def)
  moreover have "load hw ?s x = load hw (s\<lparr>pmem := M\<rparr>) x" for x by (simp add: load_def frame_at_def rd_kpte_def rd_upte_def)
  moreover have "x \<in> {dst..<dst + length got} \<Longrightarrow> contents (tty_buf s inp) ! (x - dst) = got ! (x - dst)" for x by (auto simp: got_def)
  ultimately show ?thesis using r(2,3) by (intro exI [of _ ?s]) (simp add: written_def)
qed

text \<open>
  C23: A line that arrives at a terminal reaches a reader.  When it fits what is left of the buffer, it is put behind what is there and all
  processes that wait to read from the terminal are made ready, in their order; then whenever a process reads from the terminal, and nothing
  else has changed its buffer, it gets the oldest bytes, as many as it asks for or as there are.
\<close>

theorem line_reaches_reader:
  fixes s :: kernel
  assumes "hw_ok hw" and "sched_inv s Q B" and "aread (io_in (io s)) tty_id = Some inp" and "tty_ok s B inp"
    and "line_in s tty_id \<noteq> []" and "int (length (line_in s tty_id)) \<le> TERMINAL_MAX_LINE hw"
    and "int (length (line_in s tty_id)) \<le> room (tty_buf s inp)"
  defines "cs \<equiv> contents (tty_buf s inp) @ line_in s tty_id" and "l \<equiv> t_blocked (ttyios s inp)"
  shows "\<exists>s1. receive hw tty_id s = Some s1 \<and> sched_inv s1 (Q(l \<mapsto> [], ready_ll (procs s) \<mapsto> ready_of s Q @ the (Q l))) B \<and>
    contents (tty_buf s1 inp) = cs \<and>
    (\<forall>s2 dst len. tty_ok s2 B inp \<and> aread (io_in (io s2)) tty_id = Some inp \<and> tty_buf s2 inp = tty_buf s1 inp \<and> 0 < len \<and>
        u_inv hw (ptbr1 s2) s2 \<and> (\<forall>x. dst \<le> x \<and> x < dst + nat len \<longrightarrow> own hw s2 x) \<and> dst + nat len < 2 ^ 32 \<longrightarrow>
      (\<exists>s3. read_tty hw tty_id dst len s2 = Some (Ret (int (length (take (nat len) cs))), s3) \<and>
        (\<forall>j < length (take (nat len) cs). load hw s3 (dst + j) = Some (cs ! j)) \<and> contents (tty_buf s3 inp) = drop (nat len) cs))"
proof -
  have line: "line_in s tty_id = take (nat (TERMINAL_MAX_LINE hw)) (line_in s tty_id)" using assms(6) by simp
  have fits: "take (nat (room (tty_buf s inp))) (line_in s tty_id) = line_in s tty_id" using assms(7) by simp
  obtain s1 where s1: "receive hw tty_id s = Some s1" "contents (tty_buf s1 inp) = cs"
      "sched_inv s1 (Q(l \<mapsto> [], ready_ll (procs s) \<mapsto> ready_of s Q @ the (Q l))) B"
    using receive_ok [OF assms(2-4) line] assms(5) unfolding fits by (auto simp: cs_def l_def)
  have "\<exists>s3. read_tty hw tty_id dst len s2 = Some (Ret (int (length (take (nat len) cs))), s3) \<and>
      (\<forall>j < length (take (nat len) cs). load hw s3 (dst + j) = Some (cs ! j)) \<and> contents (tty_buf s3 inp) = drop (nat len) cs"
    if a: "tty_ok s2 B inp" "aread (io_in (io s2)) tty_id = Some inp" "tty_buf s2 inp = tty_buf s1 inp" "0 < len"
      "u_inv hw (ptbr1 s2) s2" "\<forall>x. dst \<le> x \<and> x < dst + nat len \<longrightarrow> own hw s2 x" "dst + nat len < 2 ^ 32" for s2 :: kernel and dst len
  proof -
    have c: "contents (tty_buf s2 inp) = cs" "cs \<noteq> []" using a(3) s1(2) assms(5) by (simp_all add: cs_def)
    have own: "own hw s2 x" if "dst \<le> x" "x < dst + nat len" for x using a(6) that by blast
    obtain s3 where s3: "read_tty hw tty_id dst len s2 = Some (Ret (int (length (take (nat len) cs))), s3)"
        "contents (tty_buf s3 inp) = drop (nat len) cs"
        "\<And>x. own hw s2 x \<Longrightarrow> load hw s3 x = (if x \<in> {dst..<dst + length (take (nat len) cs)} then Some (take (nat len) cs ! (x - dst)) else load hw s2 x)"
      using read_tty_takes [OF assms(1) a(2,1,4) c(2) [folded c(1)] a(5) own a(7)] unfolding c(1) by blast
    have "load hw s3 (dst + j) = Some (cs ! j)" if "j < length (take (nat len) cs)" for j
      using s3(3) [OF own, of "dst + j"] that by simp
    with s3 show ?thesis by blast
  qed
  with s1 show ?thesis by blast
qed

section \<open>The theorems at a concrete state\<close>

lemma demo_own: "256 \<le> a \<Longrightarrow> a < 288 \<Longrightarrow> own demo demo_kernel a"
proof -
  assume a: "256 \<le> a" "a < 288"
  then have "a div 16 = 16 \<or> a div 16 = 17" by auto
  with a show ?thesis by (auto simp: user_addr_def in_region_1_def user_page_def drop_bit_eq_div demo_upages)
qed

lemma demo_loads: "256 \<le> a \<Longrightarrow> a < 272 \<Longrightarrow> load demo demo_kernel a = Some (word_of_int (int a - 240))"
proof -
  assume a: "256 \<le> a" "a < 272"
  then have d: "a div 16 = 16" by auto
  then have "upages demo 30 demo_kernel (user_page demo a) = Some (16, 5)" by (simp add: user_page_def drop_bit_eq_div demo_upages)
  moreover have "a mod 16 = a - 256" using a by presburger
  moreover have "in_region_1 demo a" using a by (simp add: in_region_1_def)
  ultimately have "load demo demo_kernel a = Some (pmem demo_kernel 16 (a - 256))"
    using user_load [OF demo_ok, of demo_kernel 30 a 16 5] by simp
  moreover have "16 + int (a - 256) = int a - 240" using a by simp
  ultimately show ?thesis by (simp add: demo_kernel_def)
qed

lemma demo_parts_ok: "pipe_ok demo_kernel demo_B 62" "tty_ok demo_kernel demo_B 68" "tty_ok demo_kernel demo_B 69"
  by (simp_all add: pipe_ok_def tty_ok_def demo_buffer_ok)

lemma demo_tables: "u_inv demo (ptbr1 demo_kernel) demo_kernel"
  using region_okD(1) [OF demo_region] by simp

lemma demo_line_in [simp]: "line_in demo_kernel t = [104, 105]"
  by (simp add: demo_kernel_def)

theorem pipe_read_witness:
  "\<exists>s'. read_pipe demo 63 272 1 demo_kernel = Some (Ret 1, s') \<and> load demo s' 272 = Some 7 \<and> contents (pipe_buf s' 62) = [8]"
proof -
  have n: "nd_data (nodes demo_kernel 63) = 62" by (simp add: demo_nodes_def)
  have r: "running (procs demo_kernel) \<noteq> idle_node demo_kernel" "live demo_kernel 63" by simp_all
  have own: "own demo demo_kernel x" if "272 \<le> x" "x < 272 + nat 1" for x using demo_own that by simp
  have "take (nat 1) (contents (pipe_buf demo_kernel 62)) = [7]" by (simp add: demo_buffer_ok)
  with pipe_read [where len = 1 and dst = 272, OF demo_ok demo_inv demo_parts_ok(1) r n _ demo_tables own] obtain s' where s':
      "read_pipe demo 63 272 1 demo_kernel = Some (Ret 1, s')" "contents (pipe_buf s' 62) = [8]"
      "\<forall>x. own demo demo_kernel x \<longrightarrow> load demo s' x = (if x \<in> {272..<272 + 1} then Some ([7] ! (x - 272)) else load demo demo_kernel x)"
    by (auto simp: demo_buffer_ok)
  with demo_own [of 272] show ?thesis by auto
qed

theorem pipe_passes_bytes_witness:
  "\<exists>s1 s3. write_pipe demo 63 256 1 demo_kernel = Some (Ret 0, s1) \<and>
    read_pipe demo 63 272 3 (demo_kernel\<lparr>bufs := \<lambda>_. pipe_buf s1 62\<rparr>) = Some (Ret 3, s3) \<and>
    load demo s3 272 = Some 7 \<and> load demo s3 273 = Some 8 \<and> load demo s3 274 = Some 16"
proof -
  have n: "live demo_kernel 63" "nd_data (nodes demo_kernel 63) = 62" by (simp_all add: demo_nodes_def)
  have l: "load demo demo_kernel (u32 (int 256 + int j)) = Some ((\<lambda>_. 16) j)" if "int j < 1" for j
    using that demo_loads [of 256] by (simp add: u32_id)
  have rm: "(1::int) \<le> room (pipe_buf demo_kernel 62)" by (simp add: room_def demo_buffer_def)
  obtain s1 where s1: "write_pipe_loop demo 62 256 1 1 0 demo_kernel = Some (Ret 0, s1)" "buf_ok (pipe_buf s1 62)"
    using write_pipe_loop_fits [OF demo_inv demo_parts_ok(1) _ rm order.refl l] by auto
  then have w: "write_pipe demo 63 256 1 demo_kernel = Some (Ret 0, s1)" using n by (simp add: write_pipe_def)
  define s2 where "s2 = demo_kernel\<lparr>bufs := \<lambda>_. pipe_buf s1 62\<rparr>"
  have p2: "sched_inv s2 demo_Q demo_B" "pipe_ok s2 demo_B 62" "pipe_buf s2 62 = pipe_buf s1 62" "live s2 63" "nd_data (nodes s2 63) = 62"
    using demo_inv demo_parts_ok(1) n s1(2) by (simp_all add: s2_def pipe_ok_def)
  have u2: "u_inv demo (ptbr1 s2) s2" using demo_tables by (simp add: s2_def u_inv_def upages_def)
  have own2: "own demo s2 x" if "272 \<le> x" "x < 272 + length (contents (pipe_buf demo_kernel 62) @ map (\<lambda>_. 16) [0..<nat 1])" for x
    using demo_own [of x] that by (simp add: s2_def user_addr_def upages_def demo_buffer_ok)
  from pipe_passes_bytes [where len = 1 and dst = 272, OF demo_ok demo_inv n demo_parts_ok(1) _ rm l w p2 u2 own2]
  obtain s3 where "read_pipe demo 63 272 3 s2 = Some (Ret 3, s3)" "\<forall>j<3. load demo s3 (272 + j) = Some ([7, 8, 16] ! j)"
    by (auto simp: demo_buffer_ok)
  from this(1) this(2) [rule_format, of 0] this(2) [rule_format, of 1] this(2) [rule_format, of 2] w show ?thesis
    by (simp add: s2_def)
qed

theorem tty_write_witness:
  "\<exists>s1. write_tty demo 0 256 3 demo_kernel = Some (Switched, s1) \<and> sent s1 = [(0, [16, 17, 18])] \<and>
    sched_inv s1 (demo_Q(52 \<mapsto> [10], 1 \<mapsto> [])) demo_B"
proof -
  have r: "running (procs demo_kernel) \<noteq> idle_node demo_kernel" by simp
  have o: "aread (io_out (io demo_kernel)) 0 = Some 69" "t_transmitting (ttyios demo_kernel 69) = 0" by simp_all
  have l: "load demo demo_kernel (u32 (int 256 + int j)) = Some ([16, 17, 18] ! j)" if "int j < 3" for j
  proof -
    have "j \<in> {0, 1, 2}" using that by auto
    then show ?thesis using demo_loads [of "256 + j"] by (auto simp: u32_id)
  qed
  have m: "map ((!) [16, 17, 18 :: byte]) [0..<nat 3] = [16, 17, 18]" by (simp add: upt_conv_Cons)
  have b: "b_size (tty_buf demo_kernel 69) = 3" by (simp add: demo_buffer_def)
  from tty_write [where len = 3 and src = 256, OF demo_ok demo_inv demo_parts_ok(3) r o _ _ l] b show ?thesis
    unfolding m by (auto simp: demo_lists_def)
qed

theorem tty_write_overruns_witness:
  "\<exists>s1. write_tty_loop demo 0 69 259 5 3 demo_kernel = Some (Switched, s1) \<and> sent s1 = [(0, [19, 20, 21])]"
proof -
  have r: "running (procs demo_kernel) \<noteq> idle_node demo_kernel" by simp
  have o: "t_transmitting (ttyios demo_kernel 69) = 0" by simp
  have l: "load demo demo_kernel (u32 (int 259 + int j)) = Some ([19, 20, 21] ! j)" if "int j < 3" for j
  proof -
    have "j \<in> {0, 1, 2}" using that by auto
    then show ?thesis using demo_loads [of "259 + j"] by (auto simp: u32_id)
  qed
  have m: "map ((!) [19, 20, 21 :: byte]) [0..<nat 3] = [19, 20, 21]" by (simp add: upt_conv_Cons)
  have b: "3 = b_size (tty_buf demo_kernel 69)" by (simp add: demo_buffer_def)
  from tty_write_overruns [where len = 5 and n = 3 and src = 259, OF demo_ok demo_inv demo_parts_ok(3) r o b _ _ l, of 0] show ?thesis
    unfolding m by auto
qed

definition demo_line :: kernel where
  "demo_line = demo_kernel\<lparr>line_in := (\<lambda>_. [33])\<rparr>"

theorem line_reaches_reader_witness:
  "\<exists>s1. receive demo 0 demo_line = Some s1 \<and> contents (tty_buf s1 68) = [7, 8, 33] \<and> sched_inv s1 demo_Q demo_B"
proof -
  have i: "sched_inv demo_line demo_Q demo_B" using demo_inv by (subst sched_inv_alike [of _ demo_kernel]) (simp_all add: demo_line_def)
  have t: "tty_ok demo_line demo_B 68" using demo_parts_ok(2) by (simp add: tty_ok_def demo_line_def live_def)
  have f: "aread (io_in (io demo_line)) 0 = Some 68" "line_in demo_line 0 = [33]" "ttyios demo_line = ttyios demo_kernel" "bufs demo_line = bufs demo_kernel"
    by (simp_all add: demo_line_def)
  have b: "tty_buf demo_line 68 = demo_buffer" "room demo_buffer = 1" by (simp_all add: f room_def demo_buffer_def)
  have p: "line_in demo_line 0 \<noteq> []" "int (length (line_in demo_line 0)) \<le> TERMINAL_MAX_LINE demo"
      "int (length (line_in demo_line 0)) \<le> room (tty_buf demo_line 68)" by (simp_all add: f(2) b)
  have q: "demo_Q(t_blocked (ttyios demo_line 68) \<mapsto> [], ready_ll (procs demo_line) \<mapsto>
      ready_of demo_line demo_Q @ the (demo_Q (t_blocked (ttyios demo_line 68)))) = demo_Q"
    by (auto simp: demo_line_def demo_lists_def fun_eq_iff)
  from line_reaches_reader [OF demo_ok i f(1) t p] show ?thesis unfolding q f(2) b by (auto simp: demo_buffer_ok(2))
qed

end
