(* ===== verification/Start_Spec.thy ===== *)
theory Start_Spec
  imports Load_Spec Kernel_Heap Channel_Spec
begin

text \<open>
  \<open>KernelStart\<close> as a whole: the state in which the first process leaves the kernel satisfies every
  invariant that the theorems about the running kernel assume.
\<close>

section \<open>The tables of the kernel\<close>

text \<open>A list header with nothing on it, and what allocation leaves alone.\<close>

definition blank_list :: "'z heap_scheme \<Rightarrow> addr \<Rightarrow> bool" where
  "blank_list s l \<longleftrightarrow> live s l \<and> lls s l = \<lparr>ll_size = 0, ll_head = NULL, ll_tail = NULL\<rparr>"

definition no_queues :: "addr set \<Rightarrow> addr \<rightharpoonup> addr list" where
  "no_queues L = (\<lambda>l. if l \<in> L then Some [] else None)"

lemma no_queues_dom [simp]: "dom (no_queues L) = L" "\<not> queued (no_queues L) n" "l \<in> L \<Longrightarrow> no_queues L l = Some []"
  by (auto simp: no_queues_def queued_def split: if_splits)

lemma blank_lists_ok: "(\<And>l. l \<in> L \<Longrightarrow> blank_list s l) \<Longrightarrow> lists_ok s (no_queues L)"
  by (auto simp: lists_ok_def no_queues_def blank_list_def ll_at_def split: if_splits)

definition grown :: "kernel \<Rightarrow> kernel \<Rightarrow> bool" where
  "grown s s' \<longleftrightarrow> heap_ok s' \<and> brk_next s \<le> brk_next s' \<and>
     (\<forall>a<brk_next s. alive s' a = alive s a \<and> nodes s' a = nodes s a \<and> lls s' a = lls s a \<and> upts s' a = upts s a \<and> pcbs s' a = pcbs s a \<and>
        ttyios s' a = ttyios s a \<and> bufs s' a = bufs s a)"

definition same_memory :: "'z mem_scheme \<Rightarrow> 'z mem_scheme \<Rightarrow> bool" where
  "same_memory s s' \<longleftrightarrow> free_frame s' = free_frame s \<and> kernel_pt s' = kernel_pt s \<and> pmem s' = pmem s \<and>
     vm_enable s' = vm_enable s \<and> ptbr1 s' = ptbr1 s"

lemma same_memory_trans: "same_memory s s' \<Longrightarrow> same_memory s' s'' \<Longrightarrow> same_memory s s''"
  by (simp add: same_memory_def)

lemma grown_trans: "grown s s' \<Longrightarrow> grown s' s'' \<Longrightarrow> grown s s''"
  by (simp add: grown_def)

lemma grown_live: "grown s s' \<Longrightarrow> heap_ok s \<Longrightarrow> live s a \<Longrightarrow> live s' a"
  by (auto simp: grown_def live_def heap_ok_def)

lemma grown_blank: "grown s s' \<Longrightarrow> heap_ok s \<Longrightarrow> blank_list s l \<Longrightarrow> blank_list s' l"
  using grown_live [of s s' l] by (auto simp: blank_list_def grown_def dest: live_below)

text \<open>The three initialisations: the process table, the terminals and the objects.\<close>

abbreviation blank_ll :: ll where
  "blank_ll \<equiv> \<lparr>ll_size = 0, ll_head = NULL, ll_tail = NULL\<rparr>"

lemma proc_table_init_eq:
  fixes s :: kernel
  assumes "heap_ok s"
  defines "k \<equiv> brk_next s"
  shows "proc_table_init s = Some (\<lparr>running = NULL, ready_ll = k + 2, waiting_ll = k + 1, delayed_ll = k + 3, orphans_ll = k + 4\<rparr>,
    s\<lparr>brk_next := k + 5, alive := (alive s)(k := True, k + 1 := True, k + 2 := True, k + 3 := True, k + 4 := True),
      lls := (lls s)(k + 1 := blank_ll, k + 2 := blank_ll, k + 3 := blank_ll, k + 4 := blank_ll)\<rparr>)"
proof -
  have blank: "(h :: ll)\<lparr>ll_head := NULL, ll_tail := NULL, ll_size := 0\<rparr> = blank_ll" for h by simp
  have k: "0 < k" using assms by (simp add: heap_ok_def)
  then show ?thesis
    by (simp add: proc_table_init_def malloc_def new_ll_eq Let_def blank eval_nat_numeral flip: k_def)
qed

lemma pilocvar_init_eq:
  fixes s :: kernel
  assumes "heap_ok s"
  defines "k \<equiv> brk_next s"
  shows "pilocvar_init s = Some (\<lparr>plc_count = 0, plc_pipe = k + 1, plc_lock = k + 2, plc_cvar = k + 3\<rparr>,
    s\<lparr>brk_next := k + 4, alive := (alive s)(k := True, k + 1 := True, k + 2 := True, k + 3 := True),
      lls := (lls s)(k + 1 := blank_ll, k + 2 := blank_ll, k + 3 := blank_ll)\<rparr>)"
proof -
  have blank: "(h :: ll)\<lparr>ll_head := NULL, ll_tail := NULL, ll_size := 0\<rparr> = blank_ll" for h by simp
  have k: "0 < k" using assms by (simp add: heap_ok_def)
  then show ?thesis
    by (simp add: pilocvar_init_def malloc_def new_ll_eq Let_def blank eval_nat_numeral flip: k_def)
qed

lemma new_ttyio_eq:
  fixes s :: kernel
  assumes "heap_ok s"
  defines "k \<equiv> brk_next s"
  shows "new_ttyio hw s = Some (k, s\<lparr>brk_next := k + 3, alive := (alive s)(k := True, k + 1 := True, k + 2 := True),
      lls := (lls s)(k + 1 := blank_ll), bufs := (bufs s)(k + 2 := new_buffer (TERMINAL_MAX_LINE hw)),
      ttyios := (ttyios s)(k := (ttyios s k)\<lparr>t_blocked := k + 1, t_buffer := k + 2, t_transmitting := 0\<rparr>)\<rparr>)"
proof -
  have blank: "(h :: ll)\<lparr>ll_head := NULL, ll_tail := NULL, ll_size := 0\<rparr> = blank_ll" for h by simp
  have k: "0 < k" using assms by (simp add: heap_ok_def)
  then show ?thesis
    by (simp add: new_ttyio_def malloc_def new_ll_eq Let_def blank eval_nat_numeral upd_tty_def alloc_buffer_def wr_buf_def live_def flip: k_def)
qed

definition blank_tty :: "hw \<Rightarrow> kernel \<Rightarrow> addr \<Rightarrow> bool" where
  "blank_tty hw s t \<longleftrightarrow> live s t \<and> live s (t_buffer (ttyios s t)) \<and> t_transmitting (ttyios s t) = 0 \<and>
     bufs s (t_buffer (ttyios s t)) = new_buffer (TERMINAL_MAX_LINE hw) \<and> blank_list s (t_blocked (ttyios s t))"

lemma grown_tty: "grown s s' \<Longrightarrow> heap_ok s \<Longrightarrow> blank_tty hw s t \<Longrightarrow> blank_tty hw s' t"
  using grown_live [of s s' t] grown_live [of s s' "t_buffer (ttyios s t)"] grown_blank [of s s' "t_blocked (ttyios s t)"]
    live_below [of s t] live_below [of s "t_buffer (ttyios s t)"]
  by (simp add: blank_tty_def grown_def)

lemma new_ttyio_ok:
  assumes "heap_ok s"
  shows "\<exists>s'. new_ttyio hw s = Some (brk_next s, s') \<and> grown s s' \<and> blank_tty hw s' (brk_next s) \<and>
    brk_next s \<le> t_blocked (ttyios s' (brk_next s)) \<and> same_memory s s' \<and> procs s' = procs s"
  using assms unfolding new_ttyio_eq [OF assms]
  by (auto simp: grown_def same_memory_def blank_tty_def blank_list_def live_def heap_ok_def less_Suc_eq eval_nat_numeral)

lemma new_ttyios_ok:
  "heap_ok s \<Longrightarrow> \<exists>ins outs s'. new_ttyios hw k s = Some (ins, outs, s') \<and> length ins = k \<and> length outs = k \<and> grown s s' \<and>
    (\<forall>t\<in>set (ins @ outs). blank_tty hw s' t \<and> brk_next s \<le> t_blocked (ttyios s' t)) \<and>
    same_memory s s' \<and> procs s' = procs s"
proof (induction k arbitrary: s)
  case 0
  then show ?case by (simp add: grown_def same_memory_def)
next
  case (Suc k)
  obtain s1 where s1: "new_ttyio hw s = Some (brk_next s, s1)" "grown s s1" "blank_tty hw s1 (brk_next s)"
      "brk_next s \<le> t_blocked (ttyios s1 (brk_next s))" "same_memory s s1" "procs s1 = procs s"
    using new_ttyio_ok [OF Suc.prems] by blast
  have h1: "heap_ok s1" "brk_next s \<le> brk_next s1" using s1(2) by (simp_all add: grown_def)
  obtain s2 where s2: "new_ttyio hw s1 = Some (brk_next s1, s2)" "grown s1 s2" "blank_tty hw s2 (brk_next s1)"
      "brk_next s1 \<le> t_blocked (ttyios s2 (brk_next s1))" "same_memory s1 s2" "procs s2 = procs s1"
    using new_ttyio_ok [OF h1(1)] by blast
  have h2: "heap_ok s2" "brk_next s1 \<le> brk_next s2" using s2(2) by (simp_all add: grown_def)
  obtain ins outs s3 where s3: "new_ttyios hw k s2 = Some (ins, outs, s3)" "length ins = k" "length outs = k" "grown s2 s3"
      "\<forall>t\<in>set (ins @ outs). blank_tty hw s3 t \<and> brk_next s2 \<le> t_blocked (ttyios s3 t)"
      "same_memory s2 s3" "procs s3 = procs s2"
    using Suc.IH [OF h2(1)] by blast
  have g: "grown s1 s3" "grown s s3" using s1(2) s2(2) s3(4) grown_trans by blast+
  have "blank_tty hw s3 (brk_next s)" "blank_tty hw s3 (brk_next s1)"
    using grown_tty [OF g(1) h1(1) s1(3)] grown_tty [OF s3(4) h2(1) s2(3)] .
  moreover have "ttyios s3 (brk_next s) = ttyios s1 (brk_next s)" "ttyios s3 (brk_next s1) = ttyios s2 (brk_next s1)"
    using g(1) s3(4) live_below [OF h1(1)] live_below [OF h2(1)] s1(3) s2(3) by (simp_all add: grown_def blank_tty_def)
  ultimately show ?case using s1 s2 s3 h1 h2 g by (auto intro: order_trans same_memory_trans)
qed


text \<open>All lists of the kernel, and those that hold processes.\<close>

definition tty_set :: "kernel \<Rightarrow> addr set" where
  "tty_set s = set (io_in (io s) @ io_out (io s))"

definition process_lists :: "kernel \<Rightarrow> addr set" where
  "process_lists s = {ready_ll (procs s), waiting_ll (procs s), delayed_ll (procs s), orphans_ll (procs s)} \<union>
     (\<lambda>t. t_blocked (ttyios s t)) ` tty_set s"

definition kernel_lists :: "kernel \<Rightarrow> addr set" where
  "kernel_lists s = process_lists s \<union> {plc_pipe (pilocvar s), plc_lock (pilocvar s), plc_cvar (pilocvar s)}"

definition blank_tables :: "hw \<Rightarrow> kernel \<Rightarrow> bool" where
  "blank_tables hw s \<longleftrightarrow> (\<forall>l\<in>kernel_lists s. blank_list s l) \<and>
     distinct [ready_ll (procs s), waiting_ll (procs s), delayed_ll (procs s), orphans_ll (procs s)] \<and>
     length (io_in (io s)) = nat (NUM_TERMINALS hw) \<and> length (io_out (io s)) = nat (NUM_TERMINALS hw) \<and>
     (\<forall>t\<in>tty_set s. blank_tty hw s t \<and> t_blocked (ttyios s t) \<noteq> ready_ll (procs s)) \<and>
     {plc_pipe (pilocvar s), plc_lock (pilocvar s), plc_cvar (pilocvar s)} \<inter> process_lists s = {} \<and>
     distinct [plc_pipe (pilocvar s), plc_lock (pilocvar s), plc_cvar (pilocvar s)]"

text \<open>What the tables consist of is the same in both states, but for the running process.\<close>

definition same_tables :: "kernel \<Rightarrow> kernel \<Rightarrow> bool" where
  "same_tables s s' \<longleftrightarrow> (procs s')\<lparr>running := NULL\<rparr> = (procs s)\<lparr>running := NULL\<rparr> \<and> io s' = io s \<and> pilocvar s' = pilocvar s"

lemma same_tablesD:
  assumes "same_tables s s'"
  shows "ready_ll (procs s') = ready_ll (procs s)" "waiting_ll (procs s') = waiting_ll (procs s)"
    "delayed_ll (procs s') = delayed_ll (procs s)" "orphans_ll (procs s') = orphans_ll (procs s)"
    "io s' = io s" "pilocvar s' = pilocvar s"
  using assms by (cases "procs s"; cases "procs s'"; simp add: same_tables_def)+

lemma blank_tables_grown:
  assumes b: "blank_tables hw s" and h: "heap_ok s" and g: "grown s s'" and t: "same_tables s s'"
  shows "blank_tables hw s'" "kernel_lists s' = kernel_lists s" "process_lists s' = process_lists s" "tty_set s' = tty_set s"
proof -
  note T = same_tablesD [OF t]
  have ts: "tty_set s' = tty_set s" by (simp add: tty_set_def T)
  have "ttyios s' x = ttyios s x" if "x \<in> tty_set s" for x
    using that b g live_below [OF h] by (auto simp: blank_tables_def blank_tty_def grown_def)
  then show p: "process_lists s' = process_lists s" and k: "kernel_lists s' = kernel_lists s"
    unfolding kernel_lists_def process_lists_def ts T by (simp_all cong: image_cong)
  show "blank_tables hw s'"
    using b grown_blank [OF g h] grown_tty [OF g h] \<open>\<And>x. x \<in> tty_set s \<Longrightarrow> ttyios s' x = ttyios s x\<close>
    unfolding blank_tables_def k p ts T by auto
  show "tty_set s' = tty_set s" by (rule ts)
qed

lemma tables_ok:
  assumes h: "heap_ok s"
  shows "\<exists>t s1 c s2 p s3. proc_table_init s = Some (t, s1) \<and> io_control_init hw (s1\<lparr>procs := t\<rparr>) = Some (c, s2) \<and>
    pilocvar_init (s2\<lparr>io := c\<rparr>) = Some (p, s3) \<and> grown s (s3\<lparr>pilocvar := p\<rparr>) \<and> same_memory s (s3\<lparr>pilocvar := p\<rparr>) \<and> blank_tables hw (s3\<lparr>pilocvar := p\<rparr>)"
proof -
  define k where "k = brk_next s"
  define t where "t = \<lparr>running = NULL, ready_ll = k + 2, waiting_ll = k + 1, delayed_ll = k + 3, orphans_ll = k + 4\<rparr>"
  obtain s1 where s1: "proc_table_init s = Some (t, s1)" "grown s (s1\<lparr>procs := t\<rparr>)" "same_memory s s1" "brk_next s1 = k + 5"
      "\<forall>l\<in>{k + 1, k + 2, k + 3, k + 4}. blank_list (s1\<lparr>procs := t\<rparr>) l"
    using h unfolding proc_table_init_eq [OF h] by (auto simp: grown_def same_memory_def heap_ok_def t_def k_def blank_list_def live_def less_Suc_eq eval_nat_numeral)
  define s1' where "s1' = s1\<lparr>procs := t, brk_next := k + 6, alive := (alive s1)(k + 5 := True)\<rparr>"
  have m: "malloc (s1\<lparr>procs := t\<rparr>) = (k + 5, s1')" by (simp add: malloc_def s1'_def s1(4))
  have h1: "heap_ok (s1\<lparr>procs := t\<rparr>)" using s1(2) by (simp add: grown_def)
  have g1: "grown (s1\<lparr>procs := t\<rparr>) s1'" using h1 s1(4) by (auto simp: grown_def s1'_def heap_ok_def)
  have h1': "heap_ok s1'" using g1 by (simp add: grown_def)
  obtain ins outs s2 where s2: "new_ttyios hw (nat (NUM_TERMINALS hw)) s1' = Some (ins, outs, s2)" "length ins = nat (NUM_TERMINALS hw)"
      "length outs = nat (NUM_TERMINALS hw)" "grown s1' s2" "\<forall>x\<in>set (ins @ outs). blank_tty hw s2 x \<and> k + 6 \<le> t_blocked (ttyios s2 x)"
      "procs s2 = t" "same_memory s1' s2"
    using new_ttyios_ok [OF h1', of hw "nat (NUM_TERMINALS hw)"] by (auto simp: s1'_def)
  define c where "c = \<lparr>io_in = ins, io_out = outs, landing_buffer = replicate (nat (TERMINAL_MAX_LINE hw)) 0\<rparr>"
  have c: "io_control_init hw (s1\<lparr>procs := t\<rparr>) = Some (c, s2)" by (simp add: io_control_init_def m s2(1) c_def)
  have g2: "grown s1' (s2\<lparr>io := c\<rparr>)" using s2(4) by (simp add: grown_def heap_ok_def)
  have h2: "heap_ok (s2\<lparr>io := c\<rparr>)" using g2 by (simp add: grown_def)
  define n where "n = brk_next s2"
  define p where "p = \<lparr>plc_count = 0, plc_pipe = n + 1, plc_lock = n + 2, plc_cvar = n + 3\<rparr>"
  obtain s3 where s3: "pilocvar_init (s2\<lparr>io := c\<rparr>) = Some (p, s3)" "grown (s2\<lparr>io := c\<rparr>) (s3\<lparr>pilocvar := p\<rparr>)"
      "\<forall>l\<in>{n + 1, n + 2, n + 3}. blank_list (s3\<lparr>pilocvar := p\<rparr>) l" "procs s3 = t" "io s3 = c" "ttyios s3 = ttyios s2" "same_memory s2 s3"
    using h2 s2(6) unfolding pilocvar_init_eq [OF h2] by (auto simp: grown_def same_memory_def heap_ok_def p_def n_def blank_list_def live_def less_Suc_eq eval_nat_numeral)
  let ?s = "s3\<lparr>pilocvar := p\<rparr>"
  have tty: "\<forall>x\<in>set (ins @ outs). blank_tty hw ?s x"
  proof
    fix x assume "x \<in> set (ins @ outs)"
    then have "blank_tty hw (s2\<lparr>io := c\<rparr>) x" using s2(5) by (simp add: blank_tty_def blank_list_def live_def)
    then show "blank_tty hw ?s x" by (rule grown_tty [OF s3(2) h2])
  qed
  have bl: "\<forall>l\<in>{k + 1, k + 2, k + 3, k + 4}. blank_list ?s l"
    using s1(5) grown_blank [OF grown_trans [OF grown_trans [OF g1 g2] s3(2)] h1] by blast
  have gr: "grown s ?s" using s1(2) grown_trans [OF grown_trans [OF g1 g2] s3(2)] by (rule grown_trans)
  have "k + 6 \<le> n" using s2(4) by (simp add: grown_def s1'_def n_def)
  moreover have "t_blocked (ttyios s2 x) < n" if "x \<in> set (ins @ outs)" for x
    using s2(5) that live_below [OF h2, of "t_blocked (ttyios s2 x)"] by (auto simp: blank_tty_def blank_list_def live_def n_def)
  ultimately have below: "l < n" if "l \<in> process_lists ?s" for l
    using that by (auto simp: process_lists_def tty_set_def s3(4-6) t_def c_def)
  have "t_blocked (ttyios s2 x) \<noteq> Suc (Suc k)" if "x \<in> set (ins @ outs)" for x using s2(5) that by fastforce
  moreover have "{plc_pipe (pilocvar ?s), plc_lock (pilocvar ?s), plc_cvar (pilocvar ?s)} \<inter> process_lists ?s = {}"
    using below [of "n + 1"] below [of "n + 2"] below [of "n + 3"] by (auto simp: p_def)
  ultimately have "blank_tables hw ?s"
    using bl s3(3) tty s2(2,3)
    by (auto simp: blank_tables_def kernel_lists_def process_lists_def tty_set_def s3(4-6) t_def c_def p_def blank_tty_def)
  moreover have "same_memory s ?s" using s1(3) s2(7) s3(7) by (simp add: same_memory_def s1'_def)
  ultimately show ?thesis using s1(1) c s3(1) gr by blast
qed


section \<open>The first process\<close>

text \<open>The table of the first process's kernel stack is the one the kernel booted on.\<close>

lemma copy_kstack_entries:
  fixes s :: "'z sched_scheme"
  assumes hw: "hw_ok hw" and p: "live s p" "live s (pcb_kstack (pcbs s p))"
  defines "ks \<equiv> pcb_kstack (pcbs s p)"
  shows "\<exists>K. for_up (BASE_PAGE_KSTACK hw) (LIM_PAGE_KSTACK hw) (copy_kstack_entry hw p) s = Some (s\<lparr>kstacks := (kstacks s)(ks := K)\<rparr>) \<and>
    (\<forall>j. 0 \<le> j \<longrightarrow> j < NUM_KSTACK_PAGES hw \<longrightarrow> K j = k_pt (kernel_pt s) (ks_index hw j))"
proof -
  note R = region_0 [OF hw]
  let ?P = "\<lambda>n s'. \<exists>K. s' = s\<lparr>kstacks := (kstacks s)(ks := K)\<rparr> \<and> (\<forall>j. 0 \<le> j \<longrightarrow> j + BASE_PAGE_KSTACK hw < n \<longrightarrow> K j = k_pt (kernel_pt s) (ks_index hw j))"
  have "\<exists>s'. for_up (BASE_PAGE_KSTACK hw) (LIM_PAGE_KSTACK hw) (copy_kstack_entry hw p) s = Some s' \<and> ?P (LIM_PAGE_KSTACK hw) s'"
  proof (rule for_up_rule [where P = ?P])
    fix v s' assume v: "BASE_PAGE_KSTACK hw \<le> v" "v < LIM_PAGE_KSTACK hw" and "?P v s'"
    then obtain K where K: "s' = s\<lparr>kstacks := (kstacks s)(ks := K)\<rparr>"
        "\<forall>j. 0 \<le> j \<longrightarrow> j + BASE_PAGE_KSTACK hw < v \<longrightarrow> K j = k_pt (kernel_pt s) (ks_index hw j)" by blast
    let ?j = "v - BASE_PAGE_KSTACK hw"
    have i: "0 \<le> ?j" "?j < NUM_KSTACK_PAGES hw" "ks_index hw ?j = v - BASE_PAGE_0 hw" using v R by (simp_all add: ks_index_def)
    note x = ks_index [OF hw i(1,2)]
    have "copy_kstack_entry hw p v s' = Some (s\<lparr>kstacks := (kstacks s)(ks := K(?j := k_pt (kernel_pt s) (ks_index hw ?j)))\<rparr>)"
      using p i x by (simp add: copy_kstack_entry_def rd_pcb_def rd_kpte_def upd_kstack_def live_def K(1) ks_def)
    moreover have "\<forall>j. 0 \<le> j \<longrightarrow> j + BASE_PAGE_KSTACK hw < v + 1 \<longrightarrow>
        (K(?j := k_pt (kernel_pt s) (ks_index hw ?j))) j = k_pt (kernel_pt s) (ks_index hw j)"
      using K(2) by auto
    ultimately show "\<exists>s''. copy_kstack_entry hw p v s' = Some s'' \<and> ?P (v + 1) s''" by blast
  qed (use R in \<open>auto intro: exI [of _ "kstacks s ks"]\<close>)
  then obtain K where K: "for_up (BASE_PAGE_KSTACK hw) (LIM_PAGE_KSTACK hw) (copy_kstack_entry hw p) s = Some (s\<lparr>kstacks := (kstacks s)(ks := K)\<rparr>)"
      "\<forall>j. 0 \<le> j \<longrightarrow> j + BASE_PAGE_KSTACK hw < LIM_PAGE_KSTACK hw \<longrightarrow> K j = k_pt (kernel_pt s) (ks_index hw j)" by blast
  have "j + BASE_PAGE_KSTACK hw < LIM_PAGE_KSTACK hw" if "j < NUM_KSTACK_PAGES hw" for j using that R(5) by simp
  with K show ?thesis by blast
qed

text \<open>What the fields above \<open>mem\<close> are when all of them are kept.\<close>

lemma more_kept:
  fixes s s' :: kernel
  assumes "proc_state.more s' = proc_state.more s"
  shows "procs s' = procs s" "idle_node s' = idle_node s" "init_node s' = init_node s" "bufs s' = bufs s" "ttyios s' = ttyios s"
    "pilocvar s' = pilocvar s" "io s' = io s"
  using assms by (cases s; cases s'; simp)+

text \<open>A table without pages hides nothing: what is seen is in region 0.\<close>

lemma sees_region_0:
  assumes "upages hw (ptbr1 s) s = (\<lambda>_. None)" and "kernel_pt s' = kernel_pt s" and "pmem s' = pmem s"
  shows "sees hw s s'"
proof -
  have "frame_at hw s' v = Some f" if f: "frame_at hw s v = Some f" for v f
  proof -
    have "v < BASE_PAGE_1 hw"
    proof (rule ccontr)
      assume "\<not> v < BASE_PAGE_1 hw"
      with f have "upages hw (ptbr1 s) s (v - BASE_PAGE_1 hw) \<noteq> None"
        by (auto simp: frame_at_def rd_upte_def upages_def entries_def bind_Some_iff split: if_splits)
      with assms(1) show False by simp
    qed
    with f assms(2) show ?thesis by (simp add: frame_at_def rd_kpte_def split: if_splits)
  qed
  with assms(3) show ?thesis by (auto simp: sees_def load_def bind_Some_iff)
qed


lemma program_at_sees: "program_at hw f li as s \<Longrightarrow> sees hw s s' \<Longrightarrow> program_at hw f li as s'"
  using c_args_same [of hw s "argv_start hw as + 4" as s'] load32_same [of hw s "argv_start hw as" "length as" s']
  by (auto simp: program_at_def segments_at_def sees_def)

text \<open>\<open>init_load\<close>: the process and its program.\<close>

text \<open>The running process has its own table of region 1 in the hardware and its own kernel stack in region 0.\<close>

definition on_own_tables :: "hw \<Rightarrow> 'z sched_scheme \<Rightarrow> bool" where
  "on_own_tables hw s \<longleftrightarrow> ptbr1 s = pcb_userpt (the_pcb s (running (procs s))) \<and>
     (\<forall>i. 0 \<le> i \<longrightarrow> i < NUM_KSTACK_PAGES hw \<longrightarrow> k_pt (kernel_pt s) (i + BASE_PAGE_KSTACK hw - BASE_PAGE_0 hw) =
        kstacks s (pcb_kstack (the_pcb s (running (procs s)))) i)"

text \<open>A process has a kernel stack: its pages are there and on frames in use, and no other process has pages or a stack on these frames.\<close>

definition own_stack :: "hw \<Rightarrow> 'z sched_scheme \<Rightarrow> addr \<Rightarrow> bool" where
  "own_stack hw s n \<longleftrightarrow> (\<forall>j. 0 \<le> j \<longrightarrow> j < NUM_KSTACK_PAGES hw \<longrightarrow> pte_valid (kstacks s (pcb_kstack (the_pcb s n)) j) \<noteq> 0) \<and>
     stack_frames hw s n \<subseteq> used hw (free_frame s)"

lemma stack_frames_valid:
  assumes "\<forall>j. 0 \<le> j \<longrightarrow> j < NUM_KSTACK_PAGES hw \<longrightarrow> pte_valid (kstacks s (pcb_kstack (the_pcb s n)) j) \<noteq> 0"
  shows "stack_frames hw s n = (\<lambda>j. pte_pfn (kstacks s (pcb_kstack (the_pcb s n)) j)) ` {0..<NUM_KSTACK_PAGES hw}"
  using assms by (auto simp: stack_frames_def kspages_def entries_def image_def)

definition stacks_ok :: "hw \<Rightarrow> addr set \<Rightarrow> 'z sched_scheme \<Rightarrow> bool" where
  "stacks_ok hw P s \<longleftrightarrow> (\<forall>n\<in>insert (idle_node s) P. own_stack hw s n \<and> (\<forall>m\<in>insert (idle_node s) P.
     stack_frames hw s n \<inter> frames_of hw (pcb_userpt (the_pcb s m)) s = {} \<and> (m \<noteq> n \<longrightarrow> stack_frames hw s n \<inter> stack_frames hw s m = {})))"

definition started :: "hw \<Rightarrow> exec_file \<Rightarrow> load_info \<Rightarrow> byte list list \<Rightarrow> user_context \<Rightarrow> kernel \<Rightarrow> bool" where
  "started hw f li as uctxt s \<longleftrightarrow> (let p = the_pcb s (init_node s) in
     running (procs s) = init_node s \<and> proc_ok s (init_node s) \<and> ptbr1 s = pcb_userpt p \<and> pcb_parent p = NULL \<and>
     pcb_uc p = uctxt\<lparr>uc_sp := initial_sp hw as, uc_pc := li_entry li\<rparr> \<and>
     on_own_tables hw s \<and> live s (pcb_kstack p) \<and> region_ok hw (ptbr1 s) s \<and> program_at hw f li as s)"

lemma init_load_ok:
  fixes s :: kernel
  assumes hw: "hw_ok hw" and h: "heap_ok s" and k: "k_inv hw s" and none: "upages hw (ptbr1 s) s = (\<lambda>_. None)"
    and name: "c_string hw s name = Some path" and f: "files hw path = Some f" "ef_info f = Some li" and args: "c_args hw s args = Some as"
    and ok: "program_ok hw li f" and fit: "args_fit hw as"
    and entry: "VMEM_1_BASE hw \<le> li_entry li" and room: "stack_npg hw as + data_pg1 hw li + data_npg li < MAX_PT_LEN hw"
    and enough: "li_t_npg li + data_npg li + stack_npg hw as \<le> frames_left (free_frame s)"
  shows "\<exists>s'. init_load hw name args uctxt s = Some (True, s') \<and> grown s s' \<and> same_tables s s' \<and> init_node s' = brk_next s + 5 \<and>
    started hw f li as uctxt s' \<and> kernel_pt s' = kernel_pt s \<and> vm_enable s' = vm_enable s \<and>
    blank_list s' (brk_next s + 1) \<and> pcb_a_children (the_pcb s' (brk_next s + 5)) = brk_next s + 1 \<and>
    frames_of hw (ptbr1 s') s' \<subseteq> pool hw (free_frame s) \<and> pool hw (free_frame s') \<subseteq> pool hw (free_frame s) \<and> ff_size (free_frame s') = ff_size (free_frame s) \<and>
    frames_left (free_frame s) \<le> frames_left (free_frame s') + li_t_npg li + data_npg li + stack_npg hw as"
proof -
  define n where "n = brk_next s"
  have al: "alive s a \<Longrightarrow> a < n" for a using h by (simp add: heap_ok_def n_def)
  obtain N L U P where I: "process_init hw s = Some (n + 5, s\<lparr>brk_next := n + 6, alive := (\<lambda>a. alive s a \<or> n \<le> a \<and> a < n + 6),
        nodes := N, lls := L, upts := U, pcbs := P, pids := helper_new_pid hw (pids s) (n + 3) # pids s\<rparr>)"
      "\<forall>a<n. N a = nodes s a \<and> L a = lls s a \<and> U a = upts s a \<and> P a = pcbs s a" "nd_data (N (n + 5)) = n"
      "entries (NUM_PAGES_1 hw) (u_pt (U (n + 3))) = (\<lambda>_. None)" "pcb_parent (P n) = NULL" "pcb_userpt (P n) = n + 3" "pcb_kstack (P n) = n + 4"
      "L (n + 1) = blank_ll" "pcb_a_children (P n) = n + 1"
    using process_init_spec [OF hw h] unfolding n_def by blast
  define s1 where "s1 = s\<lparr>brk_next := n + 6, alive := (\<lambda>a. alive s a \<or> n \<le> a \<and> a < n + 6), nodes := N, lls := L, upts := U,
    pcbs := P(n := (P n)\<lparr>pcb_uc := uctxt\<rparr>), pids := helper_new_pid hw (pids s) (n + 3) # pids s, init_node := n + 5\<rparr>"
  have n0: "0 < n" using h by (simp add: heap_ok_def n_def)
  have l1: "live s1 n" "live s1 (n + 3)" "live s1 (n + 4)" "live s1 (n + 5)" using n0 by (simp_all add: s1_def live_def)
  obtain K where K: "for_up (BASE_PAGE_KSTACK hw) (LIM_PAGE_KSTACK hw) (copy_kstack_entry hw n) s1 = Some (s1\<lparr>kstacks := (kstacks s1)(n + 4 := K)\<rparr>)"
      "\<forall>j. 0 \<le> j \<longrightarrow> j < NUM_KSTACK_PAGES hw \<longrightarrow> K j = k_pt (kernel_pt s) (ks_index hw j)"
    using copy_kstack_entries [OF hw l1(1)] l1(3) I(7) by (auto simp: s1_def)
  define s2 where "s2 = s1\<lparr>kstacks := (kstacks s1)(n + 4 := K), ptbr1 := n + 3\<rparr>"
  have e2: "kernel_pt s2 = kernel_pt s" "pmem s2 = pmem s" "free_frame s2 = free_frame s" "ptbr1 s2 = n + 3" "brk_next s2 = n + 6"
    by (simp_all add: s2_def s1_def)
  have h2: "heap_ok s2" using h al n0 by (auto simp: heap_ok_def s2_def s1_def dest!: al)
  have pg: "upages hw (n + 3) s2 = (\<lambda>_. None)" using I(4) by (simp add: upages_def s2_def s1_def)
  have u2: "u_inv hw (ptbr1 s2) s2" using k l1(2) by (simp add: e2 u_inv_def pg sound_def k_inv_def) (simp add: s2_def live_def)
  have p2: "live s2 n" "pcb_userpt (pcbs s2 n) = ptbr1 s2" using l1(1) I(6) by (simp_all add: s2_def s1_def live_def)
  have see: "sees hw s s2" by (rule sees_region_0 [OF none e2(1,2)])
  have hand: "at_hand hw (n + 3) s2 = pool hw (free_frame s)" by (simp add: at_hand_def e2 pg)
  have fr: "frames_ok hw (free_frame s)" using k by (simp add: k_inv_def sound_def)
  have many: "li_t_npg li + data_npg li + stack_npg hw as \<le> int (card (at_hand hw (ptbr1 s2) s2))"
    using enough card_pool [OF fr] by (simp add: hand e2(4))
  obtain s3 where s3: "LoadProgram hw name args n s2 = Some (SUCCESS hw, s3)" "program_at hw f li as s3" "region_ok hw (n + 3) s3"
      "pcbs s3 = (pcbs s2)(n := (pcbs s2 n)\<lparr>pcb_uc := (pcb_uc (pcbs s2 n))\<lparr>uc_sp := initial_sp hw as, uc_pc := li_entry li\<rparr>\<rparr>)"
      "\<forall>a. a \<noteq> n + 3 \<longrightarrow> upts s3 a = upts s2 a" "alive s3 = alive s2" "load_keep (s2\<lparr>brk_next := Suc (n + 6)\<rparr>) s3"
      "pool hw (free_frame s3) \<subseteq> pool hw (free_frame s)"
      "int (card (pool hw (free_frame s))) \<le> frames_left (free_frame s3) + li_t_npg li + data_npg li + stack_npg hw as"
      "program_mapped hw li as (n + 3) (pool hw (free_frame s)) s3"
    using LoadProgram_success [OF hw h2 u2 p2 c_string_same [OF name, rule_format, OF see] f c_args_same [OF args, rule_format, OF see] ok fit entry room many]
    unfolding e2(4,5) hand by blast
  have keep: "nodes s3 = N" "lls s3 = L" "kernel_pt s3 = kernel_pt s" "vm_enable s3 = vm_enable s" "ptbr1 s3 = n + 3" "brk_next s3 = n + 7"
      "ff_size (free_frame s3) = ff_size (free_frame s)"
    using s3(7) by (simp_all add: load_keep_def s2_def s1_def)
  have more: "proc_state.more s3 = proc_state.more s1"
    using s3(7) by (cases s) (simp add: load_keep_def s2_def s1_def)
  note M = more_kept [OF more]
  have M': "procs s3 = procs s" "init_node s3 = n + 5" "bufs s3 = bufs s" "ttyios s3 = ttyios s" "pilocvar s3 = pilocvar s" "io s3 = io s"
    using M by (simp_all add: s1_def)
  define s4 where "s4 = s3\<lparr>procs := (procs s3)\<lparr>running := n + 5\<rparr>\<rparr>"
  define sA where "sA = s\<lparr>brk_next := n + 6, alive := (\<lambda>a. alive s a \<or> n \<le> a \<and> a < n + 6),
        nodes := N, lls := L, upts := U, pcbs := P, pids := helper_new_pid hw (pids s) (n + 3) # pids s\<rparr>"
  have A: "rd_node (sA\<lparr>init_node := n + 5\<rparr>) (n + 5) = Some (N (n + 5))"
      "upd_pcb n (\<lambda>p. p\<lparr>pcb_uc := uctxt\<rparr>) (sA\<lparr>init_node := n + 5\<rparr>) = Some s1"
    using n0 by (simp_all add: rd_node_def upd_pcb_def live_def sA_def s1_def)
  have B: "rd_pcb (s1\<lparr>kstacks := (kstacks s1)(n + 4 := K)\<rparr>) n = Some (pcbs s1 n)" "pcb_userpt (pcbs s1 n) = n + 3"
    using l1(1) I(6) by (simp_all add: rd_pcb_def live_def) (simp add: s1_def)
  have run: "init_load hw name args uctxt s = Some (True, s4)"
    unfolding init_load_def I(1) [folded sA_def] bind.simps prod.case Let_def A I(3) K(1) B s2_def [symmetric] s3(1) s4_def by simp
  have pcb: "pcbs s4 n = (P n)\<lparr>pcb_uc := uctxt\<lparr>uc_sp := initial_sp hw as, uc_pc := li_entry li\<rparr>\<rparr>"
    by (simp add: s4_def s3(4) s2_def s1_def)
  have al4: "alive s4 a \<longleftrightarrow> alive s a \<or> n \<le> a \<and> a < n + 6" for a by (simp add: s4_def s3(6) s2_def s1_def)
  have f4: "nodes s4 = N" "lls s4 = L" "brk_next s4 = n + 7" "bufs s4 = bufs s" "ttyios s4 = ttyios s"
      "a < n \<Longrightarrow> upts s4 a = U a" "a < n \<Longrightarrow> pcbs s4 a = P a" for a
    using s3(5) by (simp_all add: s4_def keep M' s3(4)) (simp_all add: s2_def s1_def)
  have "heap_ok s4" using al by (auto simp: heap_ok_def al4 f4(3) intro: trans_less_add1)
  moreover have "alive s4 a = alive s a" if "a < n" for a using that by (simp add: al4)
  ultimately have g: "grown s s4" using I(2) f4 by (simp add: grown_def flip: n_def)
  have x4: "init_node s4 = n + 5" "running (procs s4) = n + 5" "ptbr1 s4 = n + 3" by (simp_all add: s4_def M' keep)
  have st: "started hw f li as uctxt s4"
  proof -
    have "load hw s4 = load hw s3" by (simp add: fun_eq_iff s4_def load_def frame_at_def rd_kpte_def rd_upte_def)
    then have "program_at hw f li as s4" using program_at_sees [OF s3(2)] sees_same by blast
    moreover have "region_ok hw (n + 3) s4" using s3(3) by (simp add: s4_def region_ok_def u_inv_def upages_def)
    moreover have "kstacks s4 (n + 4) = K" "kernel_pt s4 = kernel_pt s"
      using s3(7) by (simp_all add: s4_def load_keep_def s2_def s1_def)
    ultimately show ?thesis
      using I(3,5-7) n0 x4 K(2) by (simp add: started_def on_own_tables_def ks_index_def proc_ok_def pcb Let_def live_def al4 f4(1))
  qed
  have "blank_list s4 (n + 1)" using I(8) n0 by (simp add: blank_list_def live_def al4 f4(2))
  moreover have "frames_of hw (ptbr1 s4) s4 \<subseteq> pool hw (free_frame s)"
  proof -
    have "upages hw (ptbr1 s4) s4 = upages hw (n + 3) s3" unfolding x4(3) by (simp add: upages_def s4_def)
    with s3(10) show ?thesis by (auto simp: program_mapped_def frames_of_def program_pages_def image_subset_iff split: if_splits)
  qed
  moreover have "pcb_a_children (the_pcb s4 (n + 5)) = n + 1" using I(3,9) by (simp add: f4(1) pcb)
  moreover have "same_tables s s4" by (simp add: same_tables_def s4_def M')
  moreover have "frames_left (free_frame s) \<le> frames_left (free_frame s4) + li_t_npg li + data_npg li + stack_npg hw as"
    using s3(9) card_pool [OF fr] by (simp add: s4_def)
  ultimately show ?thesis
    using run g st s3(8) by (intro exI [of _ s4]) (simp add: s4_def M' keep n_def)
qed


section \<open>The idle process\<close>

lemma frame_in_use:
  assumes "k_inv hw s" and "u_inv hw (ptbr1 s) s" and "frame_at hw s v = Some f"
  shows "f \<in> used hw (free_frame s)"
proof (cases "v < BASE_PAGE_1 hw")
  case True
  with assms(3) have "kpages hw s (v - BASE_PAGE_0 hw) = Some (f, pte_prot (k_pt (kernel_pt s) (v - BASE_PAGE_0 hw)))"
    by (auto simp: frame_at_def rd_kpte_def kpages_def entries_def bind_Some_iff split: if_splits)
  then show ?thesis using assms(1) by (auto simp: k_inv_def sound_def)
next
  case False
  with assms(3) have "upages hw (ptbr1 s) s (v - BASE_PAGE_1 hw) = Some (f, pte_prot (u_pt (upts s (ptbr1 s)) (v - BASE_PAGE_1 hw)))"
    by (auto simp: frame_at_def rd_upte_def upages_def entries_def bind_Some_iff split: if_splits)
  then show ?thesis using assms(2) by (auto simp: u_inv_def sound_def)
qed

lemma upt_keep_update: "upt_keep up s s' \<Longrightarrow> s' = s\<lparr>free_frame := free_frame s', upts := upts s'\<rparr>"
  by (cases s; cases s') (simp add: upt_keep_def same_heap_def)

definition idles :: "hw \<Rightarrow> user_context \<Rightarrow> kernel \<Rightarrow> bool" where
  "idles hw uctxt s \<longleftrightarrow> (let p = the_pcb s (idle_node s) in
     proc_ok s (idle_node s) \<and> pcb_uc p = uctxt\<lparr>uc_pc := DoIdle hw, uc_sp := usub (VMEM_1_LIMIT hw) 4\<rparr> \<and> pcb_kc p = KC_Start \<and>
     (\<exists>g. upages hw (pcb_userpt p) s = [NUM_PAGES_1 hw - 1 \<mapsto> (g, PROT_RW hw)]))"

lemma idle_setup_ok:
  fixes s :: kernel
  assumes hw: "hw_ok hw" and h: "heap_ok s" and k: "k_inv hw s" and u: "u_inv hw (ptbr1 s) s" and st: "stack_mapped hw s"
    and dummy: "pte_valid (k_pt (kernel_pt s) (dummy_index hw)) = 0" and enough: "1 + NUM_KSTACK_PAGES hw \<le> frames_left (free_frame s)"
  shows "\<exists>s'. idle_setup hw uctxt s = Some s' \<and> grown s s' \<and> procs s' = procs s \<and> io s' = io s \<and> pilocvar s' = pilocvar s \<and>
    init_node s' = init_node s \<and> ptbr1 s' = ptbr1 s \<and> idle_node s' = brk_next s + 5 \<and> idles hw uctxt s' \<and> sees hw s s' \<and>
    k_inv hw s' \<and> u_inv hw (ptbr1 s) s' \<and> stack_mapped hw s' \<and> vm_enable s' = vm_enable s \<and>
    u_inv hw (brk_next s + 3) s' \<and> pcb_userpt (the_pcb s' (idle_node s')) = brk_next s + 3 \<and> ff_size (free_frame s') = ff_size (free_frame s) \<and>
    frames_of hw (brk_next s + 3) s' \<inter> used hw (free_frame s) = {} \<and> own_stack hw s' (idle_node s') \<and>
    stack_frames hw s' (idle_node s') \<inter> (used hw (free_frame s) \<union> frames_of hw (brk_next s + 3) s') = {} \<and>
    (\<forall>a. live s a \<longrightarrow> kstacks s' a = kstacks s a) \<and> (\<forall>j. 0 \<le> j \<longrightarrow> j < NUM_KSTACK_PAGES hw \<longrightarrow> k_pt (kernel_pt s') (ks_index hw j) = k_pt (kernel_pt s) (ks_index hw j))"
proof -
  define n where "n = brk_next s"
  have al: "alive s a \<Longrightarrow> a < n" for a using h by (simp add: heap_ok_def n_def)
  have n0: "0 < n" using h by (simp add: heap_ok_def n_def)
  obtain N L U P where I: "process_init hw s = Some (n + 5, s\<lparr>brk_next := n + 6, alive := (\<lambda>a. alive s a \<or> n \<le> a \<and> a < n + 6),
        nodes := N, lls := L, upts := U, pcbs := P, pids := helper_new_pid hw (pids s) (n + 3) # pids s\<rparr>)"
      "\<forall>a<n. N a = nodes s a \<and> L a = lls s a \<and> U a = upts s a \<and> P a = pcbs s a" "nd_data (N (n + 5)) = n"
      "entries (NUM_PAGES_1 hw) (u_pt (U (n + 3))) = (\<lambda>_. None)" "pcb_userpt (P n) = n + 3" "pcb_kstack (P n) = n + 4"
    using process_init_spec [OF hw h] unfolding n_def by blast
  define sA where "sA = s\<lparr>brk_next := n + 6, alive := (\<lambda>a. alive s a \<or> n \<le> a \<and> a < n + 6),
        nodes := N, lls := L, upts := U, pcbs := P, pids := helper_new_pid hw (pids s) (n + 3) # pids s\<rparr>"
  define s1 where "s1 = s\<lparr>brk_next := n + 6, alive := (\<lambda>a. alive s a \<or> n \<le> a \<and> a < n + 6), nodes := N, lls := L, upts := U,
    pcbs := P(n := (P n)\<lparr>pcb_uc := uctxt\<rparr>), pids := helper_new_pid hw (pids s) (n + 3) # pids s, idle_node := n + 5\<rparr>"
  have l1: "live s1 n" "live s1 (n + 3)" "live s1 (n + 4)" "live s1 (n + 5)" using n0 by (simp_all add: s1_def live_def)
  have A: "rd_node (sA\<lparr>idle_node := n + 5\<rparr>) (n + 5) = Some (N (n + 5))"
      "upd_pcb n (\<lambda>p. p\<lparr>pcb_uc := uctxt\<rparr>) (sA\<lparr>idle_node := n + 5\<rparr>) = Some s1"
    using n0 by (simp_all add: rd_node_def upd_pcb_def live_def sA_def s1_def)
  have B: "rd_pcb s1 n = Some (pcbs s1 n)" "pcb_userpt (pcbs s1 n) = n + 3"
    using l1(1) I(5) by (simp_all add: rd_pcb_def live_def) (simp add: s1_def)
  have pg1: "upages hw (n + 3) s1 = (\<lambda>_. None)" using I(4) by (simp add: upages_def s1_def)
  have fr: "frames_ok hw (free_frame s)" using k by (simp add: k_inv_def sound_def)
  have u1: "u_inv hw (n + 3) s1" using l1(2) fr by (simp add: u_inv_def sound_def pg1) (simp add: s1_def)
  have "0 < card (pool hw (free_frame s1))" using card_pool [OF fr] enough region_0(6) [OF hw] by (simp add: s1_def)
  then have p1: "pool hw (free_frame s1) \<noteq> {}" by (metis card.empty less_irrefl)
  let ?top = "NUM_PAGES_1 hw - 1"
  have top: "0 \<le> ?top" "?top < NUM_PAGES_1 hw" "LIM_PAGE_1 hw - 1 - BASE_PAGE_1 hw = ?top" using region_1 [OF hw] by simp_all
  obtain s2 g where s2: "map_upage hw (n + 3) (PROT_RW hw) ?top s1 = Some s2" "u_inv hw (n + 3) s2" "upt_keep (n + 3) s1 s2"
      "g \<in> pool hw (free_frame s1)" "upages hw (n + 3) s2 = (upages hw (n + 3) s1)(?top \<mapsto> (g, PROT_RW hw))"
      "pool hw (free_frame s2) = pool hw (free_frame s1) - {g}"
    using upt.map_law [OF u1 p1 top(1,2), of "PROT_RW hw"] pg1 by auto
  obtain f2 U2 where e2: "s2 = s1\<lparr>free_frame := f2, upts := U2\<rparr>" using upt_keep_update [OF s2(3)] by blast
  have U2: "a \<noteq> n + 3 \<Longrightarrow> U2 a = U a" for a using s2(3) by (simp add: upt_keep_def e2 s1_def)
  define u' where "u' = uctxt\<lparr>uc_pc := DoIdle hw, uc_sp := usub (VMEM_1_LIMIT hw) 4\<rparr>"
  define s3 where "s3 = s2\<lparr>pcbs := P(n := (P n)\<lparr>pcb_uc := u'\<rparr>)\<rparr>"
  have C: "upd_pcb n (\<lambda>p. p\<lparr>pcb_uc := (pcb_uc p)\<lparr>uc_pc := DoIdle hw\<rparr>\<rparr>) s2 =
        Some (s2\<lparr>pcbs := P(n := (P n)\<lparr>pcb_uc := uctxt\<lparr>uc_pc := DoIdle hw\<rparr>\<rparr>)\<rparr>)"
      "upd_pcb n (\<lambda>p. p\<lparr>pcb_uc := (pcb_uc p)\<lparr>uc_sp := usub (VMEM_1_LIMIT hw) 4\<rparr>\<rparr>)
        (s2\<lparr>pcbs := P(n := (P n)\<lparr>pcb_uc := uctxt\<lparr>uc_pc := DoIdle hw\<rparr>\<rparr>)\<rparr>) = Some s3"
    using n0 by (simp_all add: upd_pcb_def e2 s1_def live_def s3_def u'_def)
  have e3: "free_frame s3 = f2" "kernel_pt s3 = kernel_pt s" "pmem s3 = pmem s" "upts s3 = U2" "nodes s3 = N" "ptbr1 s3 = ptbr1 s"
      "pcbs s3 n = (P n)\<lparr>pcb_uc := u'\<rparr>"
    by (simp_all add: s3_def e2 s1_def)
  have l3: "live s3 a \<longleftrightarrow> live s a \<or> n \<le> a \<and> a < n + 6" for a using n0 by (auto simp: s3_def e2 s1_def live_def)
  have fr2: "frames_ok hw f2" using u_inv_frames [OF s2(2)] by (simp add: e2)
  have p2: "pool hw f2 = pool hw (free_frame s) - {g}" "g \<in> pool hw (free_frame s)" using s2(4,6) by (simp_all add: e2 s1_def)
  have us: "used hw (free_frame s) \<subseteq> used hw f2"
    by (rule used_pool) (use s2(3) p2 in \<open>auto simp: upt_keep_def same_heap_def e2 s1_def\<close>)
  have "card (pool hw f2) = card (pool hw (free_frame s)) - 1" unfolding p2(1) by (rule card_Diff_singleton [OF p2(2)])
  moreover have "0 < card (pool hw (free_frame s))" using p2(2) finite_pool by (auto simp: card_gt_0_iff)
  ultimately have left: "frames_left f2 = frames_left (free_frame s) - 1" using card_pool [OF fr] card_pool [OF fr2] by linarith
  have st3: "stack_mapped hw s3" using st us by (auto simp: stack_mapped_def stack_frame_def e3)
  define V where "V = {0..<NUM_KSTACK_PAGES hw}"
  obtain ff K M Ks F where c: "KCCopy hw KC_Start n s3 = Some (s3\<lparr>pcbs := (pcbs s3)(n := (pcbs s3 n)\<lparr>pcb_kc := KC_Start\<rparr>), free_frame := ff,
        kernel_pt := (kernel_pt s3)\<lparr>k_pt := (k_pt (kernel_pt s3))(dummy_index hw := K)\<rparr>, pmem := M,
        kstacks := (kstacks s3)(n + 4 := Ks)\<rparr>)" "frames_ok hw ff" "pte_valid K = 0" "F ` V \<subseteq> pool hw f2" "pool hw ff = pool hw f2 - F ` V"
      "ff_size ff = ff_size f2"
      "\<forall>f. f \<notin> F ` V \<longrightarrow> M f = pmem s3 f" "entries (NUM_KSTACK_PAGES hw) Ks = (\<lambda>j. if j \<in> V then Some (F j, PROT_RW hw) else None)"
    using KCCopy_spec [OF hw _ _ _ st3, of n KC_Start] fr2 left enough l3 I(6) unfolding V_def e3 by auto
  define s4 where "s4 = s3\<lparr>pcbs := (pcbs s3)(n := (pcbs s3 n)\<lparr>pcb_kc := KC_Start\<rparr>), free_frame := ff,
        kernel_pt := (kernel_pt s3)\<lparr>k_pt := (k_pt (kernel_pt s3))(dummy_index hw := K)\<rparr>, pmem := M, kstacks := (kstacks s3)(n + 4 := Ks)\<rparr>"
  have D: "rd_node s3 (n + 5) = Some (N (n + 5))" using l3 n0 e3(5) by (simp add: rd_node_def)
  have run: "idle_setup hw uctxt s = Some s4"
    unfolding idle_setup_def I(1) [folded sA_def] bind.simps prod.case Let_def A I(3) B top(3) s2(1) C copy_kernel_def D c(1) s4_def ..
  have e4: "free_frame s4 = ff" "kernel_pt s4 = (kernel_pt s)\<lparr>k_pt := (k_pt (kernel_pt s))(dummy_index hw := K)\<rparr>" "pmem s4 = M"
      "upts s4 = U2" "nodes s4 = N" "lls s4 = L" "ptbr1 s4 = ptbr1 s" "brk_next s4 = n + 6"
      "pcbs s4 n = (P n)\<lparr>pcb_uc := u', pcb_kc := KC_Start\<rparr>" "a \<noteq> n \<Longrightarrow> pcbs s4 a = P a" for a
    by (simp_all add: s4_def e3) (simp_all add: s3_def e2 s1_def)
  have o4: "procs s4 = procs s" "io s4 = io s" "pilocvar s4 = pilocvar s" "init_node s4 = init_node s" "idle_node s4 = n + 5"
      "vm_enable s4 = vm_enable s" "bufs s4 = bufs s" "ttyios s4 = ttyios s"
    by (simp_all add: s4_def s3_def e2 s1_def)
  have l4: "live s4 a \<longleftrightarrow> live s a \<or> n \<le> a \<and> a < n + 6" and al4: "alive s4 a \<longleftrightarrow> alive s a \<or> n \<le> a \<and> a < n + 6" for a
    using l3 by (simp_all add: s4_def live_def) (simp add: s3_def e2 s1_def)
  have "heap_ok s4" using al by (auto simp: heap_ok_def al4 e4(8) intro: trans_less_add1)
  moreover have "alive s4 a = alive s a" if "a < n" for a using that by (simp add: al4)
  ultimately have g: "grown s s4" using I(2) e4 o4 U2 by (simp add: grown_def flip: n_def)
  have us_ff: "used hw f2 \<subseteq> used hw ff" using used_pool [OF c(6), of hw] c(5) by blast
  with us have us4: "used hw (free_frame s) \<subseteq> used hw ff" by blast
  have un: "ptbr1 s < n" using u al by (auto simp: u_inv_def live_def)
  have pu: "upages hw (ptbr1 s) s4 = upages hw (ptbr1 s) s" using U2 I(2) un by (simp add: upages_def e4)
  have u4: "u_inv hw (ptbr1 s) s4" using u us4 c(2) by (auto simp: u_inv_def sound_def pu l4 e4)
  have kp: "kpages hw s4 = kpages hw s" using dummy c(3) by (simp add: kpages_def entries_def e4 fun_eq_iff)
  have k4: "k_inv hw s4" using k us4 c(2) by (auto simp: k_inv_def sound_def kp e4)
  have sm: "stack_mapped hw s4" using st us4 ks_index(3) [OF hw] by (auto simp: stack_mapped_def stack_frame_def e4)
  have see: "sees hw s s4"
  proof -
    have "frame_at hw s4 v = Some x \<and> M x = pmem s x" if x: "frame_at hw s v = Some x" for v x
    proof
      have "x \<notin> F ` V" using frame_in_use [OF k u x] c(4) p2(1) by (auto simp: pool_def)
      then show "M x = pmem s x" using c(7) by (simp add: e3)
      show "frame_at hw s4 v = Some x"
        using x dummy U2 I(2) un by (auto simp: frame_at_def rd_kpte_def rd_upte_def e4 l4 bind_Some_iff split: if_splits)
    qed
    then show ?thesis by (fastforce simp: sees_def load_def bind_Some_iff e4)
  qed
  have pi: "upages hw (n + 3) s4 = [?top \<mapsto> (g, PROT_RW hw)]" using s2(5) pg1 by (simp add: upages_def e4 e2)
  then have "idles hw uctxt s4" using I(3,5,6) n0 l4 by (auto simp: idles_def Let_def o4 e4 proc_ok_def u'_def)
  moreover have "upages hw (n + 3) s2 ?top = Some (g, PROT_RW hw)" using s2(5) by simp
  with s2(2) have "g \<in> used hw (free_frame s2)" unfolding u_inv_def sound_def by blast
  then have "g \<in> used hw f2" by (simp add: e2)
  then have "u_inv hw (n + 3) s4" using us_ff c(2) l4 n0 by (auto simp: u_inv_def sound_def pi e4 split: if_splits)
  moreover have "own_stack hw s4 (idle_node s4)" "stack_frames hw s4 (idle_node s4) \<inter> (used hw (free_frame s) \<union> frames_of hw (n + 3) s4) = {}"
  proof -
    have k: "kstacks s4 (pcb_kstack (the_pcb s4 (idle_node s4))) = Ks" using I(3,6) by (simp add: o4 e4(5,9)) (simp add: s4_def)
    have v: "pte_valid (Ks j) \<noteq> 0 \<and> pte_pfn (Ks j) = F j" if "j \<in> V" for j
      using fun_cong [OF c(8), of j] that by (auto simp: entries_def V_def split: if_splits)
    have "\<forall>j. 0 \<le> j \<longrightarrow> j < NUM_KSTACK_PAGES hw \<longrightarrow> pte_valid (kstacks s4 (pcb_kstack (the_pcb s4 (idle_node s4))) j) \<noteq> 0"
      using v unfolding k by (simp add: V_def)
    note sf = stack_frames_valid [OF this]
    then have sf: "stack_frames hw s4 (idle_node s4) = F ` V" unfolding k using v by (simp add: V_def)
    have "F ` V \<subseteq> {BASE_FRAME hw..<BASE_FRAME hw + ff_size ff}" using c(4,6) by (auto simp: pool_def)
    then have "F ` V \<subseteq> used hw ff" using c(5) by (auto simp: pool_def)
    then show "own_stack hw s4 (idle_node s4)" using v sf unfolding own_stack_def k by (simp add: V_def e4)
    have "frames_of hw (n + 3) s4 \<subseteq> {g}" by (auto simp: frames_of_def pi split: if_splits)
    then show "stack_frames hw s4 (idle_node s4) \<inter> (used hw (free_frame s) \<union> frames_of hw (n + 3) s4) = {}"
      using c(4) p2(1) unfolding sf by (auto simp: pool_def)
  qed
  moreover have "frames_of hw (n + 3) s4 \<inter> used hw (free_frame s) = {}" using p2(2) by (auto simp: frames_of_def pi pool_def split: if_splits)
  moreover have "pcb_userpt (the_pcb s4 (idle_node s4)) = n + 3" using I(3,5) by (simp add: o4 e4)
  moreover have "ff_size (free_frame s4) = ff_size (free_frame s)" using c(6) s2(3) by (simp add: e4 upt_keep_def same_heap_def e2 s1_def)
  moreover have "kstacks s4 a = kstacks s a" if "live s a" for a
    using al that by (fastforce simp: s4_def s3_def e2 s1_def live_def)
  moreover have "k_pt (kernel_pt s4) (ks_index hw j) = k_pt (kernel_pt s) (ks_index hw j)" if "0 \<le> j" "j < NUM_KSTACK_PAGES hw" for j
    using ks_index(3) [OF hw that] by (simp add: e4)
  ultimately show ?thesis using run g o4 e4(7) see k4 u4 sm by (intro exI [of _ s4]) (simp add: n_def)
qed


section \<open>KernelStart\<close>

text \<open>The state in which \<open>KernelStart\<close> calls \<open>VM_setup\<close>, after the allocation of the bit vector.\<close>

definition boot_state :: "hw \<Rightarrow> nat \<Rightarrow> kernel \<Rightarrow> kernel" where
  "boot_state hw pmem_size s =
     s\<lparr>kernel_pt := (kernel_pt s)\<lparr>k_brk := kernel_orig_brk hw\<rparr>, brk_next := Suc (brk_next s), alive := (alive s)(brk_next s := True),
       free_frame := init_frames hw pmem_size\<rparr>"

lemma boot_state_ok: "heap_ok s \<Longrightarrow> heap_ok (boot_state hw pmem_size s)"
  by (auto simp: heap_ok_def boot_state_def less_Suc_eq)

lemma KernelStart_eq:
  "KernelStart hw cmd_args pmem_size uctxt s = do {
     s \<leftarrow> VM_setup hw (boot_state hw pmem_size s);
     (t, s) \<leftarrow> proc_table_init s;
     (c, s) \<leftarrow> io_control_init hw (s\<lparr>procs := t\<rparr>);
     (p, s) \<leftarrow> pilocvar_init (s\<lparr>io := c\<rparr>);
     name \<leftarrow> load32 hw (s\<lparr>pilocvar := p\<rparr>) cmd_args;
     (ok, s) \<leftarrow> init_load hw name cmd_args uctxt (s\<lparr>pilocvar := p\<rparr>);
     if \<not> ok then Some (Halted, s) else do { s \<leftarrow> idle_setup hw uctxt s; leave s }
   }"
  by (simp add: KernelStart_def boot_state_def malloc_def Let_def)

text \<open>The first process is as it was when the idle process has been made.\<close>

lemma started_kept:
  assumes s: "started hw f li as uctxt s" and h: "heap_ok s" and g: "grown s s'" and see: "sees hw s s'"
    and same: "procs s' = procs s" "init_node s' = init_node s" "ptbr1 s' = ptbr1 s" and u: "u_inv hw (ptbr1 s) s'"
    and ks: "\<forall>a. live s a \<longrightarrow> kstacks s' a = kstacks s a"
    and kp: "\<forall>j. 0 \<le> j \<longrightarrow> j < NUM_KSTACK_PAGES hw \<longrightarrow> k_pt (kernel_pt s') (ks_index hw j) = k_pt (kernel_pt s) (ks_index hw j)"
  shows "started hw f li as uctxt s'"
proof -
  note S = s [unfolded started_def Let_def] and G = grown_live [OF g h]
  let ?n = "init_node s"
  have ok: "proc_ok s ?n" "region_ok hw (ptbr1 s) s" and pt: "ptbr1 s = pcb_userpt (the_pcb s ?n)" using S by blast+
  note l = ok(1) [unfolded proc_ok_def]
  have below: "?n < brk_next s" "nd_data (nodes s ?n) < brk_next s" "ptbr1 s < brk_next s"
    using l live_below [OF h] by (simp_all add: pt)
  then have e: "nodes s' ?n = nodes s ?n" "pcbs s' (nd_data (nodes s ?n)) = the_pcb s ?n" "upts s' (ptbr1 s) = upts s (ptbr1 s)"
    using g by (simp_all add: grown_def)
  have "proc_ok s' ?n" using l G by (simp add: proc_ok_def e)
  moreover have "region_ok hw (ptbr1 s) s'" using ok(2) u by (simp add: region_ok_def upages_def e Let_def)
  moreover have "program_at hw f li as s'" using S program_at_sees see by blast
  moreover have "on_own_tables hw s'" "live s' (pcb_kstack (the_pcb s' ?n))"
    using S ks kp G by (simp_all add: on_own_tables_def same e ks_index_def)
  ultimately show ?thesis using S by (simp add: started_def same e)
qed

text \<open>The invariants hold, with nobody on any list.\<close>

lemma first_invariant:
  assumes b: "blank_tables hw s" and p: "proc_ok s (running (procs s))" "proc_ok s (idle_node s)"
  shows "sched_inv s (no_queues (kernel_lists s)) (process_lists s)"
proof -
  have "lists_ok s (no_queues (kernel_lists s))" using b by (intro blank_lists_ok) (simp add: blank_tables_def)
  moreover have "the (no_queues (kernel_lists s) l) = []" if "l \<in> process_lists s" for l
    using that by (simp add: kernel_lists_def)
  ultimately show ?thesis
    using b p by (auto simp: sched_inv_def sched_mid_def blank_tables_def kernel_lists_def process_lists_def)
qed

lemma blank_tty_ok: "hw_ok hw \<Longrightarrow> blank_tables hw s \<Longrightarrow> t \<in> tty_set s \<Longrightarrow> tty_ok s (process_lists s) t"
  using new_buffer_ok [of "TERMINAL_MAX_LINE hw"] by (auto simp: tty_ok_def blank_tables_def blank_tty_def process_lists_def hw_ok_def)


text \<open>\<open>KernelStart\<close> as a whole, with what the invariant of the running machine needs.\<close>

lemma KernelStart_ok:
  assumes hw: "hw_ok hw" and h: "heap_ok s"
    and mem: "BASE_FRAME hw \<le> BASE_PAGE_0 hw" "LIM_PAGE_0 hw \<le> BASE_FRAME hw + int (pmem_size div PAGESIZE hw)"
    and brk: "kernel_data_start hw \<le> kernel_orig_brk hw" "int (drop_bit (PAGESHIFT hw) (kernel_orig_brk hw)) < BASE_PAGE_KSTACK hw - 1"
    and vm: "VM_setup hw (boot_state hw pmem_size s) = Some v"
    and args: "load32 hw v cmd_args = Some name" "c_string hw v name = Some path" "c_args hw v cmd_args = Some as"
    and prog: "files hw path = Some f" "ef_info f = Some li" "program_ok hw li f" "args_fit hw as" "VMEM_1_BASE hw \<le> li_entry li"
    and room: "stack_npg hw as + data_pg1 hw li + data_npg li < MAX_PT_LEN hw"
    and enough: "li_t_npg li + data_npg li + stack_npg hw as + 1 + NUM_KSTACK_PAGES hw \<le> frames_left (free_frame v)"
  shows "\<exists>s'. KernelStart hw cmd_args pmem_size uctxt s = Some (Ret (uctxt\<lparr>uc_sp := initial_sp hw as, uc_pc := li_entry li\<rparr>), s') \<and>
    sched_inv s' (no_queues (kernel_lists s')) (process_lists s') \<and> heap_ok s' \<and> k_inv hw s' \<and> stack_mapped hw s' \<and> vm_enable s' \<and>
    started hw f li as uctxt s' \<and> idles hw uctxt s' \<and> init_node s' \<noteq> idle_node s' \<and>
    length (io_in (io s')) = nat (NUM_TERMINALS hw) \<and> length (io_out (io s')) = nat (NUM_TERMINALS hw) \<and>
    (\<forall>t\<in>tty_set s'. tty_ok s' (process_lists s') t) \<and>
    blank_tables hw s' \<and> u_inv hw (pcb_userpt (the_pcb s' (idle_node s'))) s' \<and> ff_size (free_frame s') = ff_size (free_frame v) \<and>
    pcb_userpt (the_pcb s' (idle_node s')) \<noteq> ptbr1 s' \<and> frames_of hw (pcb_userpt (the_pcb s' (idle_node s'))) s' \<inter> frames_of hw (ptbr1 s') s' = {} \<and>
    stacks_ok hw {init_node s'} s' \<and> blank_list s' (pcb_a_children (the_pcb s' (init_node s'))) \<and>
    pcb_a_children (the_pcb s' (init_node s')) \<notin> kernel_lists s'"
proof -
  let ?b = "boot_state hw pmem_size s"
  have ff: "free_frame ?b = init_frames hw pmem_size" by (simp add: boot_state_def)
  define M where "M = boot_pages hw (brk_page hw ?b)"
  obtain v': "vm_enable v" "k_inv hw v" "used hw (free_frame v) = M" "upages hw (ptbr1 v) v = (\<lambda>_. None)" "heap_ok v" "live v (ptbr1 v)"
    and kp: "kpages hw v = (\<lambda>i. if i + BASE_PAGE_0 hw \<in> M then Some (i + BASE_PAGE_0 hw, boot_prot hw (i + BASE_PAGE_0 hw)) else None)"
    using VM_setup_ok [OF hw boot_state_ok [OF h] ff mem] vm unfolding M_def by auto
  note R = region_0 [OF hw]
  have st: "stack_mapped hw v"
    unfolding stack_mapped_def
  proof (intro allI impI)
    fix j assume j: "0 \<le> j" "j < NUM_KSTACK_PAGES hw"
    note I = ks_index [OF hw j]
    have "ks_index hw j + BASE_PAGE_0 hw \<in> M" using j R by (simp add: M_def boot_pages_def ks_index_def)
    with kp have "kpages hw v (ks_index hw j) = Some (ks_index hw j + BASE_PAGE_0 hw, boot_prot hw (ks_index hw j + BASE_PAGE_0 hw))" by simp
    then show "pte_valid (k_pt (kernel_pt v) (ks_index hw j)) \<noteq> 0 \<and> stack_frame hw v j \<in> used hw (free_frame v)"
      using \<open>ks_index hw j + BASE_PAGE_0 hw \<in> M\<close> by (auto simp: v'(3) kpages_def entries_def stack_frame_def split: if_splits)
  qed
  have dummy: "pte_valid (k_pt (kernel_pt v) (dummy_index hw)) = 0"
  proof -
    have "brk_page hw ?b < BASE_PAGE_KSTACK hw - 1" using brk(2) by (simp add: brk_page_def boot_state_def)
    moreover have "data_page hw \<le> brk_page hw ?b"
      using brk(1) by (simp add: data_page_def brk_page_def boot_state_def page_of [OF hw] div_le_mono)
    ultimately have "dummy_index hw + BASE_PAGE_0 hw \<notin> M" by (simp add: M_def boot_pages_def dummy_index_def)
    then have "kpages hw v (dummy_index hw) = None" by (simp add: kp)
    then show ?thesis using dummy_index [OF hw] by (simp add: kpages_def entries_def split: if_splits)
  qed
  obtain t s1 c s2 p s3 where T: "proc_table_init v = Some (t, s1)" "io_control_init hw (s1\<lparr>procs := t\<rparr>) = Some (c, s2)"
      "pilocvar_init (s2\<lparr>io := c\<rparr>) = Some (p, s3)" "grown v (s3\<lparr>pilocvar := p\<rparr>)" "same_memory v (s3\<lparr>pilocvar := p\<rparr>)"
      "blank_tables hw (s3\<lparr>pilocvar := p\<rparr>)"
    using tables_ok [OF v'(5)] by blast
  define w where "w = s3\<lparr>pilocvar := p\<rparr>"
  note w = T(4-6) [folded w_def]
  have hw': "heap_ok w" using w(1) by (simp add: grown_def)
  have sm: "free_frame w = free_frame v" "kernel_pt w = kernel_pt v" "pmem w = pmem v" "vm_enable w = vm_enable v" "ptbr1 w = ptbr1 v"
    using w(2) by (simp_all add: same_memory_def)
  have see: "sees hw v w" by (rule sees_region_0 [OF v'(4) sm(2,3)])
  have "upts w (ptbr1 v) = upts v (ptbr1 v)" using w(1) live_below [OF v'(5,6)] by (simp add: grown_def)
  then have none: "upages hw (ptbr1 w) w = (\<lambda>_. None)" using v'(4) by (simp add: upages_def sm)
  have kw: "k_inv hw w" using v'(2) by (simp add: k_inv_def kpages_def sm)
  have few: "li_t_npg li + data_npg li + stack_npg hw as \<le> frames_left (free_frame w)" using enough R(6) by (simp add: sm)
  obtain x where x: "init_load hw name cmd_args uctxt w = Some (True, x)" "grown w x" "same_tables w x" "init_node x = brk_next w + 5"
      "started hw f li as uctxt x" "kernel_pt x = kernel_pt v" "vm_enable x = vm_enable v"
      "pool hw (free_frame x) \<subseteq> pool hw (free_frame v)" "ff_size (free_frame x) = ff_size (free_frame v)"
      "frames_left (free_frame v) \<le> frames_left (free_frame x) + li_t_npg li + data_npg li + stack_npg hw as"
      "blank_list x (brk_next w + 1)" "pcb_a_children (the_pcb x (brk_next w + 5)) = brk_next w + 1" "frames_of hw (ptbr1 x) x \<subseteq> pool hw (free_frame v)"
    using init_load_ok [OF hw hw' kw none c_string_same [OF args(2), rule_format, OF see] prog(1,2)
        c_args_same [OF args(3), rule_format, OF see] prog(3-5) room few, of uctxt] unfolding sm by blast
  have hx: "heap_ok x" using x(2) by (simp add: grown_def)
  have us: "used hw (free_frame v) \<subseteq> used hw (free_frame x)" using used_pool [OF x(9,8)] .
  have ux: "u_inv hw (ptbr1 x) x" using x(5) region_okD(1) by (auto simp: started_def Let_def)
  have kx: "k_inv hw x" using v'(2) us u_inv_frames [OF ux] by (auto simp: k_inv_def sound_def kpages_def x(6))
  have sx: "stack_mapped hw x" using st us by (auto simp: stack_mapped_def stack_frame_def x(6))
  have dx: "pte_valid (k_pt (kernel_pt x) (dummy_index hw)) = 0" using dummy by (simp add: x(6))
  have fx: "1 + NUM_KSTACK_PAGES hw \<le> frames_left (free_frame x)" using enough x(10) by simp
  obtain y where y: "idle_setup hw uctxt x = Some y" "grown x y" "procs y = procs x" "io y = io x" "pilocvar y = pilocvar x"
      "init_node y = init_node x" "ptbr1 y = ptbr1 x" "idle_node y = brk_next x + 5" "idles hw uctxt y" "sees hw x y"
      "k_inv hw y" "u_inv hw (ptbr1 x) y" "stack_mapped hw y" "vm_enable y = vm_enable x"
      "u_inv hw (brk_next x + 3) y" "pcb_userpt (the_pcb y (idle_node y)) = brk_next x + 3" "ff_size (free_frame y) = ff_size (free_frame x)"
      "frames_of hw (brk_next x + 3) y \<inter> used hw (free_frame x) = {}" "\<forall>a. live x a \<longrightarrow> kstacks y a = kstacks x a"
      "\<forall>j. 0 \<le> j \<longrightarrow> j < NUM_KSTACK_PAGES hw \<longrightarrow> k_pt (kernel_pt y) (ks_index hw j) = k_pt (kernel_pt x) (ks_index hw j)"
      "own_stack hw y (idle_node y)" "stack_frames hw y (idle_node y) \<inter> (used hw (free_frame x) \<union> frames_of hw (brk_next x + 3) y) = {}"
    using idle_setup_ok [OF hw hx kx ux sx dx fx, of uctxt] by blast
  have sy: "started hw f li as uctxt y" by (rule started_kept [OF x(5) hx y(2,10,3,6,7,12,19,20)])
  have lx: "live x (ptbr1 x)" using ux by (simp add: u_inv_def)
  then have px: "ptbr1 x < brk_next x" by (rule live_below [OF hx])
  have "upages hw (ptbr1 x) y = upages hw (ptbr1 x) x" using y(2) px by (simp add: grown_def upages_def)
  then have fy: "frames_of hw (ptbr1 x) y = frames_of hw (ptbr1 x) x" by (simp add: frames_of_def)
  then have fx': "frames_of hw (ptbr1 x) y \<subseteq> used hw (free_frame x)" using ux by (auto simp: frames_of_def u_inv_def sound_def)
  with y(18) have apart: "frames_of hw (brk_next x + 3) y \<inter> frames_of hw (ptbr1 x) y = {}" by blast
  have "same_tables w y" using x(3) y(3-5) by (simp add: same_tables_def)
  note bl = blank_tables_grown [OF w(3) hw' grown_trans [OF x(2) y(2)] this]
  note S = sy [unfolded started_def Let_def]
  have inv: "sched_inv y (no_queues (kernel_lists y)) (process_lists y)"
    using S y(9) by (intro first_invariant [OF bl(1)]) (auto simp: idles_def Let_def)
  have leave: "leave y = Some (Ret (uctxt\<lparr>uc_sp := initial_sp hw as, uc_pc := li_entry li\<rparr>), y)"
    using S by (auto simp: leave_def restore_uc_def pcb_of_def proc_ok_def rd_pcb_def)
  have run: "KernelStart hw cmd_args pmem_size uctxt s = Some (Ret (uctxt\<lparr>uc_sp := initial_sp hw as, uc_pc := li_entry li\<rparr>), y)"
    using load32_same [OF args(1) see] by (simp add: KernelStart_eq vm T(1-3) x(1) y(1) leave flip: w_def)
  have stacks: "stacks_ok hw {init_node y} y"
  proof -
    let ?I = "(\<lambda>j. pte_pfn (k_pt (kernel_pt v) (ks_index hw j))) ` {0..<NUM_KSTACK_PAGES hw}"
    have k: "kstacks y (pcb_kstack (the_pcb y (init_node y))) j = k_pt (kernel_pt v) (ks_index hw j)" if "0 \<le> j" "j < NUM_KSTACK_PAGES hw" for j
      using S y(20) that by (auto simp: on_own_tables_def ks_index_def x(6))
    have "\<forall>j. 0 \<le> j \<longrightarrow> j < NUM_KSTACK_PAGES hw \<longrightarrow> pte_valid (kstacks y (pcb_kstack (the_pcb y (init_node y))) j) \<noteq> 0"
      using st k by (simp add: stack_mapped_def)
    from stack_frames_valid [OF this] have sf: "stack_frames hw y (init_node y) = ?I" by (rule trans) (rule image_cong, simp_all add: k)
    have I: "?I \<subseteq> used hw (free_frame v)" using st by (auto simp: stack_mapped_def stack_frame_def)
    have "?I \<subseteq> used hw (free_frame y)" using y(13,20) by (auto simp: stack_mapped_def stack_frame_def x(6))
    then have "own_stack hw y (init_node y)" using st k unfolding own_stack_def sf by (auto simp: stack_mapped_def)
    moreover have "?I \<inter> frames_of hw (ptbr1 y) y = {}" using I x(13) unfolding y(7) fy by (auto simp: pool_def)
    moreover have "?I \<inter> frames_of hw (brk_next x + 3) y = {}" using I us y(18) by blast
    moreover have "stack_frames hw y (idle_node y) \<inter> frames_of hw (ptbr1 y) y = {}" using y(22) fx' unfolding y(7) by blast
    moreover have "stack_frames hw y (idle_node y) \<inter> frames_of hw (brk_next x + 3) y = {}" "stack_frames hw y (idle_node y) \<inter> ?I = {}"
      using y(22) I us by blast+
    ultimately show ?thesis using y(16,21) S sf unfolding stacks_ok_def by (auto simp: Int_commute)
  qed
  have child: "blank_list y (pcb_a_children (the_pcb y (init_node y)))" "pcb_a_children (the_pcb y (init_node y)) \<notin> kernel_lists y"
  proof -
    have "proc_ok x (init_node x)" using x(5) by (simp add: started_def Let_def)
    then have "init_node x < brk_next x" "nd_data (nodes x (init_node x)) < brk_next x" using live_below [OF hx] by (simp_all add: proc_ok_def)
    then have c: "pcb_a_children (the_pcb y (init_node y)) = brk_next w + 1" using y(2,6) x(4,12) by (simp add: grown_def)
    show "blank_list y (pcb_a_children (the_pcb y (init_node y)))" unfolding c by (rule grown_blank [OF y(2) hx x(11)])
    have "l < brk_next w" if "l \<in> kernel_lists w" for l
      using w(3) that live_below [OF hw'] by (auto simp: blank_tables_def blank_list_def)
    then show "pcb_a_children (the_pcb y (init_node y)) \<notin> kernel_lists y" unfolding c bl(2) by fastforce
  qed
  have "live x (init_node x)" using x(5) by (simp add: started_def Let_def proc_ok_def)
  then have "init_node y < idle_node y" using live_below [OF hx] y(6,8) by fastforce
  then show ?thesis
    using run inv sy y(2,7,9,11,13-17) x(7,9) v'(1) blank_tty_ok [OF hw bl(1)] bl(1) apart px stacks child
    by (intro exI [of _ y] conjI) (simp_all add: grown_def blank_tables_def)
qed

text \<open>
  C12: Booting as a whole.  On a machine with enough memory whose command line names a program that fits, \<open>KernelStart\<close> returns to user
  mode at the entry point of the program, on the stack with its arguments, and with the program in memory.  In this state all
  invariants hold that the theorems about the running kernel assume: the scheduler's lists are sound and empty, the initial process runs
  on its own table, the idle process is another one with a stack page, a copy of the kernel's stack and \<open>DoIdle\<close> to run,
  the tables of the kernel are sound, and every terminal has its two buffers and queues.
\<close>

theorem kernel_starts:
  assumes hw: "hw_ok hw" and h: "heap_ok s"
    and mem: "BASE_FRAME hw \<le> BASE_PAGE_0 hw" "LIM_PAGE_0 hw \<le> BASE_FRAME hw + int (pmem_size div PAGESIZE hw)"
    and brk: "kernel_data_start hw \<le> kernel_orig_brk hw" "int (drop_bit (PAGESHIFT hw) (kernel_orig_brk hw)) < BASE_PAGE_KSTACK hw - 1"
    and vm: "VM_setup hw (boot_state hw pmem_size s) = Some v"
    and args: "load32 hw v cmd_args = Some name" "c_string hw v name = Some path" "c_args hw v cmd_args = Some as"
    and prog: "files hw path = Some f" "ef_info f = Some li" "program_ok hw li f" "args_fit hw as" "VMEM_1_BASE hw \<le> li_entry li"
    and room: "stack_npg hw as + data_pg1 hw li + data_npg li < MAX_PT_LEN hw"
    and enough: "li_t_npg li + data_npg li + stack_npg hw as + 1 + NUM_KSTACK_PAGES hw \<le> frames_left (free_frame v)"
  shows "\<exists>s'. KernelStart hw cmd_args pmem_size uctxt s = Some (Ret (uctxt\<lparr>uc_sp := initial_sp hw as, uc_pc := li_entry li\<rparr>), s') \<and>
    sched_inv s' (no_queues (kernel_lists s')) (process_lists s') \<and> heap_ok s' \<and> k_inv hw s' \<and> stack_mapped hw s' \<and> vm_enable s' \<and>
    started hw f li as uctxt s' \<and> idles hw uctxt s' \<and> init_node s' \<noteq> idle_node s' \<and>
    length (io_in (io s')) = nat (NUM_TERMINALS hw) \<and> length (io_out (io s')) = nat (NUM_TERMINALS hw) \<and>
    (\<forall>t\<in>tty_set s'. tty_ok s' (process_lists s') t)"
  using KernelStart_ok [OF assms] by blast


text \<open>The machine before booting: the vector of the arguments is at 64, the string \<open>p\<close> at 80.\<close>

definition demo_off :: kernel where
  "demo_off = demo_kernel\<lparr>vm_enable := False, pmem := (\<lambda>f k. if f = 4 \<and> k = 0 then 80 else if f = 5 \<and> k = 0 then 112 else 0)\<rparr>"

lemma demo_disk_more [simp]:
  "kernel_data_start demo_disk = 32" "kernel_orig_brk demo_disk = 80" "BASE_FRAME demo_disk = 0" "BASE_PAGE_0 demo_disk = 0"
  "LIM_PAGE_0 demo_disk = 16" "BASE_PAGE_KSTACK demo_disk = 14" "NUM_KSTACK_PAGES demo_disk = 2" "NUM_TERMINALS demo_disk = 4"
  by (simp_all add: demo_disk_def BASE_FRAME_def BASE_PAGE_0_def LIM_PAGE_0_def BASE_PAGE_KSTACK_def NUM_KSTACK_PAGES_def drop_bit_eq_div)

lemma demo_off_boots:
  "\<exists>v. VM_setup demo_disk (boot_state demo_disk 512 demo_off) = Some v \<and> load32 demo_disk v 64 = Some 80 \<and>
    c_string demo_disk v 80 = Some [112] \<and> c_args demo_disk v 64 = Some [[112]] \<and> frames_left (free_frame v) = 24"
proof -
  let ?b = "boot_state demo_disk 512 demo_off"
  have h: "heap_ok ?b" by (rule boot_state_ok) (simp add: heap_ok_def demo_off_def demo_kernel_def)
  have f: "free_frame ?b = init_frames demo_disk 512" by (simp add: boot_state_def)
  have d: "data_page demo_disk = 2" "brk_page demo_disk ?b = 5"
    by (simp_all add: data_page_def brk_page_def boot_state_def drop_bit_eq_div)
  have "boot_pages demo_disk 5 = {0..<6} \<union> {14..<16}" by (auto simp: boot_pages_def d)
  also have "\<dots> = {0, 1, 2, 3, 4, 5, 14, 15}" by auto
  finally have M: "boot_pages demo_disk 5 = {0, 1, 2, 3, 4, 5, 14, 15}" .
  obtain v where v: "VM_setup demo_disk ?b = Some v" "k_inv demo_disk v" "used demo_disk (free_frame v) = {0, 1, 2, 3, 4, 5, 14, 15}"
      "\<forall>a. int (a div PAGESIZE demo_disk) \<in> {0, 1, 2, 3, 4, 5, 14, 15} \<longrightarrow>
        load demo_disk v a = Some (pmem ?b (int (a div PAGESIZE demo_disk)) (a mod PAGESIZE demo_disk))"
      "ff_size (free_frame v) = int (512 div PAGESIZE demo_disk)"
    using VM_setup_ok [OF demo_disk_ok h f] unfolding d M by auto
  have l: "load demo_disk v a = Some (if a = 64 then 80 else if a = 80 then 112 else 0)" if "64 \<le> a" "a < 96" for a
  proof -
    have "a div 16 = 4 \<or> a div 16 = 5" using that by auto
    moreover have "a = 64 \<longleftrightarrow> a div 16 = 4 \<and> a mod 16 = 0" "a = 80 \<longleftrightarrow> a div 16 = 5 \<and> a mod 16 = 0" by presburger+
    ultimately show ?thesis using v(4) [rule_format, of a] by (auto simp: boot_state_def demo_off_def)
  qed
  have u: "uadd 80 1 = 81" "uadd 64 4 = 68" by (simp_all add: uadd_exact)
  have w: "load32 demo_disk v 64 = Some 80" "load32 demo_disk v 68 = Some 0" by (simp_all add: load32_def uadd_exact l)
  have c: "c_string demo_disk v 80 = Some [112]"
    by (simp add: c_string.simps [of _ _ 80] c_string.simps [of _ _ 81] l u [simplified])
  then have "c_args demo_disk v 64 = Some [[112]]" by (simp add: c_args.simps [of _ _ 64] c_args.simps [of _ _ 68] w u)
  moreover have "frames_left (free_frame v) = 24"
    using v(2,3,5) by (simp add: k_inv_def sound_def frames_ok_def frames_left_def)
  ultimately show ?thesis using v(1) w(1) c by blast
qed

theorem kernel_starts_witness:
  "\<exists>s'. KernelStart demo_disk 64 512 demo_uc demo_off = Some (Ret (demo_uc\<lparr>uc_sp := 480, uc_pc := 256\<rparr>), s') \<and>
    sched_inv s' (no_queues (kernel_lists s')) (process_lists s') \<and> length (io_in (io s')) = 4 \<and> load demo_disk s' 256 = Some 1"
proof -
  obtain v where v: "VM_setup demo_disk (boot_state demo_disk 512 demo_off) = Some v" "load32 demo_disk v 64 = Some 80"
      "c_string demo_disk v 80 = Some [112]" "c_args demo_disk v 64 = Some [[112]]" "frames_left (free_frame v) = 24"
    using demo_off_boots by blast
  note L = demo_layout(1-4) [of 112] demo_layout(5-10)
  have h: "heap_ok demo_off" by (simp add: heap_ok_def demo_off_def demo_kernel_def)
  have f: "files demo_disk [112] = Some demo_file" by simp
  obtain s' where s': "KernelStart demo_disk 64 512 demo_uc demo_off = Some (Ret (demo_uc\<lparr>uc_sp := 480, uc_pc := 256\<rparr>), s')"
      "sched_inv s' (no_queues (kernel_lists s')) (process_lists s')" "length (io_in (io s')) = 4" "started demo_disk demo_file demo_info [[112]] demo_uc s'"
    using kernel_starts [OF demo_disk_ok h _ _ _ _ v(1-4) f L(10,7,4), of demo_uc] L v(5) by (auto simp: drop_bit_eq_div)
  have "\<forall>k<16. load demo_disk s' (256 + k) = Some (ef_bytes demo_file ! k)"
    using s'(4) by (simp add: started_def Let_def program_at_def segments_at_def L(9)) (simp add: demo_info_def)
  from this [rule_format, of 0] have "load demo_disk s' 256 = Some 1" by (simp add: demo_file_def nth_append)
  with s'(1-3) show ?thesis by blast
qed

end
