(* ===== verification/Monitor_Spec.thy ===== *)
theory Monitor_Spec
  imports Start_Spec
begin

text \<open>
  Condition variables, and the life of a lock from its creation to its reclamation.  The
  objects are found in their tables by number (\<open>named\<close>), a process that waits on a condition
  variable releases the lock and takes it again before it goes on, and a lock can be reclaimed
  only when nobody owns it, waits for it or will come back to it.
\<close>

section \<open>Objects in their tables\<close>

text \<open>The first node with a code on one of the lists of objects; \<open>NULL\<close> when there is none.\<close>

definition named :: "kernel \<Rightarrow> (addr \<rightharpoonup> addr list) \<Rightarrow> addr \<Rightarrow> int \<Rightarrow> addr" where
  "named s Q l ident = (case List.find (\<lambda>n. nd_code (nodes s n) = ident) (the (Q l)) of Some n \<Rightarrow> n | None \<Rightarrow> NULL)"

lemma find_named: "lists_ok s Q \<Longrightarrow> Q l \<noteq> None \<Longrightarrow> find_ll l ident s = Some (named s Q l ident)"
  using find_spec lists_okD by (fastforce simp: named_def)

lemma named_live: "lists_ok s Q \<Longrightarrow> Q l \<noteq> None \<Longrightarrow> named s Q l ident \<noteq> NULL \<Longrightarrow> live s (named s Q l ident)"
  using lists_okD ll_at_live find_Some_split by (fastforce simp: named_def split: option.splits)

text \<open>A lock and a condition variable that are in place.\<close>

definition lock_ok :: "kernel \<Rightarrow> addr set \<Rightarrow> addr \<Rightarrow> bool" where
  "lock_ok s B lock \<longleftrightarrow> live s lock \<and> l_blocked (locks s lock) \<in> B \<and> l_blocked (locks s lock) \<noteq> ready_ll (procs s)"

definition cvar_ok :: "kernel \<Rightarrow> addr set \<Rightarrow> addr \<Rightarrow> bool" where
  "cvar_ok s B cvar \<longleftrightarrow> live s cvar \<and> c_blocked (cvars s cvar) \<in> B \<and> c_blocked (cvars s cvar) \<noteq> ready_ll (procs s)"


lemma demo_tabs:
  "demo_Q (plc_lock (pilocvar demo_kernel)) = Some [61]" "demo_Q (plc_cvar (pilocvar demo_kernel)) = Some [66]"
  "demo_Q (plc_pipe (pilocvar demo_kernel)) = Some [63]"
  by (simp_all add: demo_lists_def) (simp_all add: demo_kernel_def)

lemma demo_named:
  "named demo_kernel demo_Q (plc_lock (pilocvar demo_kernel)) 0 = 61" "named demo_kernel demo_Q (plc_cvar (pilocvar demo_kernel)) 2 = 66"
  by (simp_all add: named_def demo_tabs demo_nodes_def)

section \<open>Waiting on a condition variable\<close>

text \<open>What a call of \<open>release\<close> does to the queues, also when it is refused.\<close>

definition released :: "kernel \<Rightarrow> (addr \<rightharpoonup> addr list) \<Rightarrow> addr \<Rightarrow> (addr \<rightharpoonup> addr list)" where
  "released s Q lock = (if l_owner (locks s lock) = running (procs s) then wake1 (ready_ll (procs s)) (l_blocked (locks s lock)) Q else Q)"

lemma release_any:
  assumes inv: "sched_inv s Q B" and n: "live s lock_n" and l: "lock_ok s B (nd_data (nodes s lock_n))"
  defines "lock \<equiv> nd_data (nodes s lock_n)"
  shows "\<exists>r s'. release hw lock_n s = Some (r, s') \<and> links_only (s\<lparr>locks := locks s'\<rparr>) s' \<and> sched_inv s' (released s Q lock) B \<and>
    (\<forall>a. a \<noteq> lock \<longrightarrow> locks s' a = locks s a) \<and> l_cvar (locks s' lock) = l_cvar (locks s lock) \<and>
    l_blocked (locks s' lock) = l_blocked (locks s lock) \<and> l_owner (locks s' lock) = (if l_owner (locks s lock) = running (procs s) then NULL else l_owner (locks s lock))"
proof (cases "l_owner (locks s lock) = running (procs s)")
  case True
  have "live s lock" "l_blocked (locks s lock) \<in> B" "l_blocked (locks s lock) \<noteq> ready_ll (procs s)"
    using l by (simp_all add: lock_ok_def lock_def)
  from release_ok [OF inv n lock_def [symmetric, THEN meta_eq_to_obj_eq] this True] True show ?thesis
    by (fastforce simp: released_def)
next
  case False
  then have "release hw lock_n s = Some (ERROR hw, s)" using release_other [OF n] l by (simp add: lock_ok_def lock_def)
  with False inv show ?thesis by (simp add: released_def)
qed

text \<open>
  C30: Waiting on a condition variable.  An unknown lock or condition variable is an error that
  changes nothing.  Otherwise the process gives up the lock, if it has it, to which its first
  waiter becomes ready; it is counted in the lock, so that this is not reclaimed; it waits at
  the end of the queue of the condition variable, with the place where it goes on in its
  kernel context; and the next ready process runs.  Nothing checks that the process had the
  lock.
\<close>

theorem cvar_wait:
  fixes s :: kernel and lock_id cvar_id :: int
  assumes hw: "hw_ok hw" and inv: "sched_inv s Q B" and run: "running (procs s) \<noteq> idle_node s"
    and tabs: "Q (plc_lock (pilocvar s)) \<noteq> None" "Q (plc_cvar (pilocvar s)) \<noteq> None"
  defines "lock_n \<equiv> named s Q (plc_lock (pilocvar s)) lock_id" and "cvar_n \<equiv> named s Q (plc_cvar (pilocvar s)) cvar_id"
  defines "lock \<equiv> nd_data (nodes s lock_n)" and "cvar \<equiv> nd_data (nodes s cvar_n)"
  assumes objs: "lock_n \<noteq> NULL \<Longrightarrow> lock_ok s B lock" "cvar_n \<noteq> NULL \<Longrightarrow> cvar_ok s B cvar"
  defines "wq \<equiv> c_blocked (cvars s cvar)"
  defines "Q' \<equiv> (released s Q lock)(wq \<mapsto> the (released s Q lock wq) @ [running (procs s)])"
  shows "if lock_n = NULL \<or> cvar_n = NULL then KernelCvarWait hw cvar_id lock_id s = Some (Ret (ERROR hw), s)
    else \<exists>s'. KernelCvarWait hw cvar_id lock_id s = Some (Switched, s') \<and>
      sched_inv s' (dispatch (ready_ll (procs s)) Q') B \<and> running (procs s') = next_up s Q' \<and>
      pcb_kc (the_pcb s' (running (procs s))) = KC_CvarWait lock_n lock \<and>
      l_owner (locks s' lock) = (if l_owner (locks s lock) = running (procs s) then NULL else l_owner (locks s lock)) \<and>
      l_cvar (locks s' lock) = l_cvar (locks s lock) + 1 \<and> (\<forall>a. a \<noteq> lock \<longrightarrow> locks s' a = locks s a)"
proof -
  note lists = sched_invD(3) [OF inv]
  have fl: "find_lock lock_id s = Some lock_n" "find_cvar cvar_id s = Some cvar_n"
    using find_named [OF lists tabs(1)] find_named [OF lists tabs(2)] by (simp_all add: find_lock_def find_cvar_def lock_n_def cvar_n_def)
  show ?thesis
  proof (cases "lock_n = NULL \<or> cvar_n = NULL")
    case True
    then show ?thesis using fl by (auto simp: KernelCvarWait_def)
  next
    case False
    have ln: "live s lock_n" "live s cvar_n"
      using False named_live [OF lists tabs(1)] named_live [OF lists tabs(2)] by (simp_all add: lock_n_def cvar_n_def)
    have lk: "lock_ok s B (nd_data (nodes s lock_n))" and cv: "cvar_ok s B cvar" using objs False by (simp_all add: lock_def)
    obtain r s1 where s1: "release hw lock_n s = Some (r, s1)" "links_only (s\<lparr>locks := locks s1\<rparr>) s1" "sched_inv s1 (released s Q lock) B"
        "\<forall>a. a \<noteq> lock \<longrightarrow> locks s1 a = locks s a" "l_cvar (locks s1 lock) = l_cvar (locks s lock)"
        "l_owner (locks s1 lock) = (if l_owner (locks s lock) = running (procs s) then NULL else l_owner (locks s lock))"
      using release_any [OF inv ln(1) lk, of hw] unfolding lock_def by blast
    note F = links_sched_frame [OF s1(2)] and O = frame_objects [OF links_sched_frame(1) [OF s1(2)]]
    define s2 where "s2 = s1\<lparr>locks := (locks s1)(lock := (locks s1 lock)\<lparr>l_cvar := l_cvar (locks s1 lock) + 1\<rparr>)\<rparr>"
    have live: "live s1 a = live s a" for a using links_onlyD(1) [OF s1(2)] by (simp add: live_def)
    have d: "nd_data (nodes s1 m) = nd_data (nodes s m)" for m using links_onlyD(4) [OF s1(2), of m] by simp
    have more: "procs s1 = procs s" "pcbs s1 = pcbs s" "idle_node s1 = idle_node s" "cvars s1 = cvars s"
      using F(2) O(4) links_onlyD(6) [OF s1(2)] by (cases s; cases s1; simp)+
    have inv2: "sched_inv s2 (released s Q lock) B" using s1(3) by (simp add: s2_def)
    have e2: "procs s2 = procs s" "pcbs s2 = pcbs s" "idle_node s2 = idle_node s" "cvars s2 = cvars s" "nodes s2 = nodes s1" by (simp_all add: s2_def more)
    have wB: "c_blocked (cvars s2 cvar) \<in> B" "running (procs s2) \<noteq> idle_node s2" using cv run by (simp_all add: cvar_ok_def e2)
    have nu: "next_up s2 Q' = next_up s Q'" by (simp add: next_up_def e2 split: list.splits)
    obtain s' where s': "block hw (KC_CvarWait lock_n lock) wq s2 = Some s'" "switched hw (KC_CvarWait lock_n lock) s2 s' (next_up s Q')"
        "sched_inv s' (dispatch (ready_ll (procs s)) Q') B"
      using block_ok [OF hw inv2 wB, of "KC_CvarWait lock_n lock"] nu unfolding wq_def Q'_def e2 by auto
    have F': "sched_frame hw s2 s'" using s'(2) by (simp add: switched_def)
    have "KernelCvarWait hw cvar_id lock_id s = Some (Switched, s')"
      using False fl ln s1(1) s'(1) lk cv
      by (simp add: KernelCvarWait_def wait_cvar_def Let_def rd_node_def upd_lock_def rd_cvar_def live lock_ok_def cvar_ok_def
          more(4) s2_def wq_def flip: lock_def cvar_def)
    moreover have "locks s' = locks s2" using frame_objects(3) [OF F'] .
    moreover have "pcb_kc (the_pcb s' (running (procs s))) = KC_CvarWait lock_n lock"
      using s'(2) sched_frameD(2) [OF F'] by (simp add: switched_def e2)
    moreover have "running (procs s') = next_up s Q'" using s'(2) by (simp add: switched_def)
    ultimately show ?thesis using False s'(3) s1(4-6) by (auto simp: s2_def)
  qed
qed


theorem cvar_wait_witness:
  "\<exists>s'. KernelCvarWait demo 2 0 demo_kernel = Some (Switched, s') \<and> running (procs s') = 11 \<and> l_owner (locks s' 60) = NULL \<and>
    l_cvar (locks s' 60) = 1 \<and> sched_inv s' (demo_Q(8 \<mapsto> [], 51 \<mapsto> [10], 1 \<mapsto> [15])) demo_B"
proof -
  have n: "named demo_kernel demo_Q (plc_lock (pilocvar demo_kernel)) 0 = 61" "named demo_kernel demo_Q (plc_cvar (pilocvar demo_kernel)) 2 = 66"
    using demo_named by simp_all
  have r: "released demo_kernel demo_Q 60 = demo_Q(8 \<mapsto> [], 1 \<mapsto> [11, 15])" by (simp add: released_def wake1_def demo_lists_def)
  have q: "next_up demo_kernel (demo_Q(8 \<mapsto> [], 1 \<mapsto> [11, 15], 51 \<mapsto> [10])) = 11"
      "dispatch 1 (demo_Q(8 \<mapsto> [], 1 \<mapsto> [11, 15], 51 \<mapsto> [10])) = demo_Q(8 \<mapsto> [], 51 \<mapsto> [10], 1 \<mapsto> [15])"
    by (simp_all add: next_up_def dispatch_def fun_upd_twist)
  have d: "nd_data (demo_nodes 61) = 60" "nd_data (demo_nodes 66) = 65" by (simp_all add: demo_nodes_def)
  have w: "the (demo_Q 51) = []" by (simp add: demo_lists_def)
  show ?thesis
    using cvar_wait [OF demo_ok demo_inv, of 0 2] unfolding n
    by (auto simp: demo_tabs lock_ok_def cvar_ok_def d r w q [simplified])
qed

section \<open>Waking and resuming\<close>

text \<open>
  Signal readies the first process that waits on the condition variable, broadcast all of
  them in their order; with nobody waiting neither changes anything.
\<close>

lemma cvar_wakes:
  fixes s :: kernel and cvar_id :: int
  assumes inv: "sched_inv s Q B" and tab: "Q (plc_cvar (pilocvar s)) \<noteq> None"
  defines "cvar_n \<equiv> named s Q (plc_cvar (pilocvar s)) cvar_id"
  defines "cvar \<equiv> nd_data (nodes s cvar_n)"
  assumes obj: "cvar_n \<noteq> NULL \<Longrightarrow> cvar_ok s B cvar"
  defines "wq \<equiv> c_blocked (cvars s cvar)"
  shows "if cvar_n = NULL then KernelCvarSignal hw cvar_id s = Some (ERROR hw, s) \<and> KernelCvarBroadcast hw cvar_id s = Some (ERROR hw, s)
    else (\<exists>s'. KernelCvarSignal hw cvar_id s = Some (0, s') \<and> links_only s s' \<and> sched_inv s' (wake1 (ready_ll (procs s)) wq Q) B) \<and>
      (\<exists>s'. KernelCvarBroadcast hw cvar_id s = Some (0, s') \<and> links_only s s' \<and> sched_inv s' (wakeall (ready_ll (procs s)) wq Q) B)"
proof -
  note lists = sched_invD(3) [OF inv]
  have f: "find_cvar cvar_id s = Some cvar_n" using find_named [OF lists tab] by (simp add: find_cvar_def cvar_n_def)
  show ?thesis
  proof (cases "cvar_n = NULL")
    case True
    then show ?thesis using f by (simp add: KernelCvarSignal_def KernelCvarBroadcast_def)
  next
    case False
    have n: "live s cvar_n" using named_live [OF lists tab] False by (simp add: cvar_n_def)
    have c: "live s cvar" "wq \<in> B" "wq \<noteq> ready_ll (procs s)" using obj [OF False] by (simp_all add: cvar_ok_def wq_def)
    from wq.wake_head_if_any [OF inv c(2,3)] wq.wake_each_if_any [OF inv c(2,3)] False f n c(1) show ?thesis
      by (fastforce simp: KernelCvarSignal_def KernelCvarBroadcast_def signal_cvar_def broadcast_def cvar_def wq_def)
  qed
qed

text \<open>Leaving the kernel with a result touches the user context of the running process only.\<close>

lemma leave_with_ok:
  fixes s :: kernel
  assumes inv: "sched_inv s Q B"
  shows "\<exists>s'. leave_with r s = Some (Ret (set_reg0 r (pcb_uc (the_pcb s (running (procs s))))), s') \<and> sched_inv s' Q B \<and>
    procs s' = procs s \<and> locks s' = locks s \<and> cvars s' = cvars s"
proof -
  let ?p = "nd_data (nodes s (running (procs s)))"
  define s' where "s' = s\<lparr>pcbs := (pcbs s)(?p := (pcbs s ?p)\<lparr>pcb_uc := set_reg0 r (pcb_uc (pcbs s ?p))\<rparr>)\<rparr>"
  have "proc_ok s (running (procs s))" using sched_invD(4) [OF inv] .
  then have "leave_with r s = Some (Ret (set_reg0 r (pcb_uc (pcbs s ?p))), s')"
    by (simp add: leave_with_def leave_def add_return_val_def restore_uc_def pcb_of_def rd_node_def rd_pcb_def upd_pcb_def proc_ok_def s'_def live_def)
  moreover have "extends s s'" by (simp add: extends_def s'_def live_def)
  with inv have "sched_inv s' Q B" by (rule sched_inv_extends)
  ultimately show ?thesis by (auto simp: s'_def)
qed

text \<open>The waiting process from the loop of \<open>acquire\<close> on.\<close>

lemma cvar_reacquire:
  fixes s :: kernel
  assumes hw: "hw_ok hw" and inv: "sched_inv s Q B" and run: "running (procs s) \<noteq> idle_node s" and l: "lock_ok s B lock"
  defines "me \<equiv> running (procs s)" and "lq \<equiv> l_blocked (locks s lock)"
  shows "if l_owner (locks s lock) \<in> {NULL, me}
    then \<exists>s'. (do { (res, s) \<leftarrow> wait_cvar_acquire hw lock lock s; after_call res s }) = Some (Ret (set_reg0 0 (pcb_uc (the_pcb s me))), s') \<and>
      locks s' = (locks s)(lock := (locks s lock)\<lparr>l_owner := me, l_cvar := l_cvar (locks s lock) - 1\<rparr>) \<and> sched_inv s' Q B \<and> procs s' = procs s
    else \<exists>s'. (do { (res, s) \<leftarrow> wait_cvar_acquire hw lock lock s; after_call res s }) = Some (Switched, s') \<and> locks s' = locks s \<and>
      pcb_kc (the_pcb s' me) = KC_CvarAcquire lock lock \<and>
      sched_inv s' (dispatch (ready_ll (procs s)) (Q(lq \<mapsto> the (Q lq) @ [me]))) B"
proof (cases "l_owner (locks s lock) \<in> {NULL, me}")
  case True
  have live: "live s lock" using l by (simp add: lock_ok_def)
  define s1 where "s1 = s\<lparr>locks := (locks s)(lock := (locks s lock)\<lparr>l_owner := me, l_cvar := l_cvar (locks s lock) - 1\<rparr>)\<rparr>"
  have "acquire_loop hw (KC_CvarAcquire lock lock) lock s = Some (Ret 0, s\<lparr>locks := (locks s)(lock := (locks s lock)\<lparr>l_owner := me\<rparr>)\<rparr>)"
    using acquire_loop_free [OF live, of hw "KC_CvarAcquire lock lock"] True by (auto simp: me_def)
  with live have w: "wait_cvar_acquire hw lock lock s = Some (Ret 0, s1)"
    by (simp add: wait_cvar_acquire_def upd_lock_def live_def s1_def)
  have "sched_inv s1 Q B" using inv by (simp add: s1_def)
  from leave_with_ok [OF this, of 0] w True show ?thesis by (auto simp: after_call_def s1_def me_def)
next
  case False
  obtain s' where s': "acquire_loop hw (KC_CvarAcquire lock lock) lock s = Some (Switched, s')"
      "switched hw (KC_CvarAcquire lock lock) s s' (next_up s (Q(lq \<mapsto> the (Q lq) @ [me])))"
      "sched_inv s' (dispatch (ready_ll (procs s)) (Q(lq \<mapsto> the (Q lq) @ [me]))) B" "locks s' = locks s"
    using acquire_loop_taken [OF hw inv, of lock "KC_CvarAcquire lock lock"] l run False by (auto simp: lock_ok_def lq_def me_def)
  have "pcb_kc (the_pcb s' me) = KC_CvarAcquire lock lock"
    using s'(2) sched_frameD(2) [of hw s s'] by (simp add: switched_def me_def)
  with s' False show ?thesis by (auto simp: wait_cvar_acquire_def after_call_def)
qed

text \<open>
  C31: A process that was waiting on a condition variable, when it runs again, goes on with
  \<open>acquire\<close>.  If the lock is free or its own it returns 0 to the process, which is the owner
  and is no longer counted; otherwise it waits at the end of the queue of the lock, and does
  so again whenever it finds the lock taken (\<open>again\<close>).
\<close>

theorem cvar_waiter_resumes:
  fixes s :: kernel
  assumes hw: "hw_ok hw" and inv: "sched_inv s Q B" and run: "running (procs s) \<noteq> idle_node s" and l: "lock_ok s B lock"
    and n: "live s lock_n" "nd_data (nodes s lock_n) = lock"
    and kc: "pcb_kc (the_pcb s (running (procs s))) = (if again then KC_CvarAcquire lock lock else KC_CvarWait lock_n lock)"
  defines "me \<equiv> running (procs s)" and "lq \<equiv> l_blocked (locks s lock)"
    and "u \<equiv> l_unfulfilled (locks s lock) - (if again then 1 else 0)"
  shows "if l_owner (locks s lock) \<in> {NULL, me}
    then \<exists>s'. resume hw s = Some (Ret (set_reg0 0 (pcb_uc (the_pcb s me))), s') \<and>
      locks s' = (locks s)(lock := (locks s lock)\<lparr>l_unfulfilled := u, l_owner := me, l_cvar := l_cvar (locks s lock) - 1\<rparr>) \<and>
      sched_inv s' Q B \<and> procs s' = procs s
    else \<exists>s'. resume hw s = Some (Switched, s') \<and> locks s' = (locks s)(lock := (locks s lock)\<lparr>l_unfulfilled := u\<rparr>) \<and>
      pcb_kc (the_pcb s' me) = KC_CvarAcquire lock lock \<and>
      sched_inv s' (Q(lq \<mapsto> the (Q lq) @ [me], ready_ll (procs s) \<mapsto> tl (ready_of s Q))) B"
proof -
  define s1 where "s1 = s\<lparr>locks := (locks s)(lock := (locks s lock)\<lparr>l_unfulfilled := u\<rparr>)\<rparr>"
  have p: "proc_ok s (running (procs s))" using sched_invD(4) [OF inv] .
  have same: "s\<lparr>locks := (locks s)(lock := (locks s lock)\<lparr>l_unfulfilled := l_unfulfilled (locks s lock)\<rparr>)\<rparr> = s" by simp
  have res: "resume hw s = (do { (res, s) \<leftarrow> wait_cvar_acquire hw lock lock s1; after_call res s })"
    using p n l kc same by (auto simp: resume_def curr_pcb_def proc_ok_def pcb_of_def rd_node_def rd_pcb_def upd_lock_def lock_ok_def s1_def u_def)
  have l1: "lock_ok s1 B lock" "sched_inv s1 Q B" "running (procs s1) \<noteq> idle_node s1" using l inv run by (simp_all add: lock_ok_def s1_def)
  have ne: "lq \<noteq> ready_ll (procs s)" using l by (simp add: lock_ok_def lq_def)
  from cvar_reacquire [OF hw l1(2,3,1)] ne show ?thesis
    unfolding res by (auto simp: s1_def me_def lq_def dispatch_def)
qed


text \<open>The process that waits on the condition variable comes back, and the lock is free.\<close>

definition demo_waiter :: kernel where
  "demo_waiter = demo_kernel\<lparr>pcbs := demo_pcbs(20 := (demo_pcbs 20)\<lparr>pcb_kc := KC_CvarWait 61 60\<rparr>),
     locks := (\<lambda>_. \<lparr>l_owner = NULL, l_blocked = 8, l_unfulfilled = 0, l_cvar = 1\<rparr>)\<rparr>"

theorem cvar_waiter_resumes_witness:
  "\<exists>s'. resume demo demo_waiter = Some (Ret (set_reg0 0 demo_uc), s') \<and> l_owner (locks s' 60) = 10 \<and> l_cvar (locks s' 60) = 0"
proof -
  have "extends demo_kernel demo_waiter" by (simp add: extends_def demo_waiter_def live_def)
  with demo_inv have inv: "sched_inv demo_waiter demo_Q demo_B" by (rule sched_inv_extends)
  have e: "procs demo_waiter = procs demo_kernel" "nodes demo_waiter = demo_nodes" "idle_node demo_waiter = 12" "live demo_waiter a \<longleftrightarrow> 0 < a \<and> a < 100"
      "pcbs demo_waiter 20 = (demo_pcbs 20)\<lparr>pcb_kc := KC_CvarWait 61 60\<rparr>"
      "locks demo_waiter = (\<lambda>_. \<lparr>l_owner = NULL, l_blocked = 8, l_unfulfilled = 0, l_cvar = 1\<rparr>)" for a
    by (simp_all add: demo_waiter_def)
  have d: "nd_data (demo_nodes 61) = 60" "nd_data (demo_nodes 10) = 20" "pcb_uc (demo_pcbs 20) = demo_uc" by (simp_all add: demo_nodes_def demo_pcbs_def)
  show ?thesis
    using cvar_waiter_resumes [OF demo_ok inv, of 60 61 False] by (auto simp: e d lock_ok_def)
qed


section \<open>The blocks the scheduler uses\<close>

definition sched_blocks :: "'z sched_scheme \<Rightarrow> (addr \<rightharpoonup> addr list) \<Rightarrow> addr set \<Rightarrow> addr set" where
  "sched_blocks s Q B = dom Q \<union> {n. queued Q n} \<union>
     (\<Union>n\<in>insert (running (procs s)) (insert (idle_node s) (members Q B)).
        {n, nd_data (nodes s n), pcb_kstack (the_pcb s n), pcb_userpt (the_pcb s n)})"

lemma sched_inv_keep:
  assumes inv: "sched_inv s Q B" and rest: "procs s' = procs s" "idle_node s' = idle_node s"
    and keep: "\<And>a. a \<in> sched_blocks s Q B \<Longrightarrow> live s' a \<and> nodes s' a = nodes s a \<and> lls s' a = lls s a \<and>
      pcb_kstack (pcbs s' a) = pcb_kstack (pcbs s a) \<and> pcb_userpt (pcbs s' a) = pcb_userpt (pcbs s a)"
  shows "sched_inv s' Q B"
proof -
  note I = sched_invD [OF inv] and M = sched_midD [OF sched_invD(1) [OF inv]]
  have "lists_ok s' Q"
    by (rule lists_ok_cong [OF M(1)]) (use keep in \<open>auto simp: sched_blocks_def\<close>)
  moreover have ok: "proc_ok s' n" if "n \<in> insert (running (procs s)) (insert (idle_node s) (members Q B))" for n
    using keep [of n] keep [of "nd_data (nodes s n)"] keep [of "pcb_kstack (the_pcb s n)"] keep [of "pcb_userpt (the_pcb s n)"] that
    by (fastforce simp: sched_blocks_def proc_ok_def)
  moreover have "n \<in> members Q B" if "l \<in> B" "n \<in> set (the (Q l))" for l n
    using M(10) [OF that(1)] that by (auto simp: members_def)
  ultimately show ?thesis
    using inv unfolding sched_inv_def sched_mid_def rest by blast
qed

text \<open>Forgetting a list: it is no longer one of the lists of the kernel.\<close>

lemma sched_inv_forget:
  assumes "sched_inv s Q B" and "l \<notin> {ready_ll (procs s), waiting_ll (procs s), delayed_ll (procs s), orphans_ll (procs s)}"
  shows "sched_inv s (Q(l := None)) (B - {l})"
proof -
  have "queued (Q(l := None)) n \<Longrightarrow> queued Q n" for n by (rule queued_sub)
  with assms show ?thesis by (auto simp: sched_inv_def sched_mid_def intro: lists_ok_del)
qed


lemma sched_blocks_live:
  assumes inv: "sched_inv s Q B" and a: "a \<in> sched_blocks s Q B"
  shows "live s a"
  using a lists_ok_hdr [OF sched_invD(3) [OF inv]] lists_ok_live [OF sched_invD(3) [OF inv]]
    sched_invD(4,5) [OF inv] sched_midD(11) [OF sched_invD(1) [OF inv]]
  by (fastforce simp: sched_blocks_def proc_ok_def members_def)

section \<open>Reclaiming a lock\<close>

lemma typed_blocks:
  assumes "heap_typed T s Q B" and "a \<in> sched_blocks s Q B"
  shows "T a = B_ll \<Longrightarrow> a \<in> dom Q"
    and "T a = B_node \<Longrightarrow> queued Q a \<or> a \<in> insert (running (procs s)) (insert (idle_node s) (members Q B))"
proof -
  show "T a = B_ll \<Longrightarrow> a \<in> dom Q" using assms by (auto simp: heap_typed_def sched_blocks_def)
  assume t: "T a = B_node"
  with assms(1) have "a \<notin> dom Q" by (auto simp: heap_typed_def dest: bspec)
  with assms t show "queued Q a \<or> a \<in> insert (running (procs s)) (insert (idle_node s) (members Q B))"
    by (auto simp: heap_typed_def sched_blocks_def)
qed

lemma fewer_blocks:
  assumes "dom Q' \<subseteq> dom Q" and "\<And>n. queued Q' n \<Longrightarrow> queued Q n" and "members Q' B' \<subseteq> members Q B"
  shows "heap_typed T s Q B \<Longrightarrow> heap_typed T s Q' B'" and "sched_blocks s Q' B' \<subseteq> sched_blocks s Q B"
proof -
  show "sched_blocks s Q' B' \<subseteq> sched_blocks s Q B" unfolding sched_blocks_def using assms by (intro Un_mono UN_mono) auto
  have "insert (running (procs s)) (insert (idle_node s) (members Q' B')) \<subseteq> insert (running (procs s)) (insert (idle_node s) (members Q B))"
    using assms(3) by blast
  moreover assume "heap_typed T s Q B"
  ultimately show "heap_typed T s Q' B'" unfolding heap_typed_def using assms(1,2) by (simp only: subset_eq) blast
qed

lemma destroy_node_eq:
  fixes s :: kernel
  assumes "live s n" and "live s (nd_data (nodes s n))" and "nd_data (nodes s n) \<noteq> n"
  shows "destroy_node n s = Some (s\<lparr>nodes := (nodes s)(n := (nodes s n)\<lparr>nd_data := NULL, nd_next := NULL, nd_prev := NULL, nd_code := - 1\<rparr>),
    alive := (alive s)(nd_data (nodes s n) := False, n := False)\<rparr>)"
  using assms by (simp add: destroy_node_def free_def live_def rd_node_def upd_node_def)

text \<open>Removing the node and freeing it with its object.\<close>

lemma object_destroyed:
  fixes s :: kernel
  assumes inv: "sched_inv s Q B" and ty: "heap_typed T s Q B" and tab: "Q tab = Some (xs @ n # ys)" "tab \<notin> B"
    and obj: "live s obj" "nd_data (nodes s n) = obj" "obj \<notin> sched_blocks s Q B"
  shows "\<exists>s1 s'. remove_ll tab n s = Some (n, s1) \<and> destroy_node n s1 = Some s' \<and> alive s' = (\<lambda>a. alive s a \<and> a \<notin> {obj, n}) \<and>
    sched_inv s' (Q(tab \<mapsto> xs @ ys)) B \<and> pilocvar s' = pilocvar s \<and> procs s' = procs s \<and> (\<forall>m. m \<noteq> n \<longrightarrow> nd_code (nodes s' m) = nd_code (nodes s m))"
proof -
  let ?Q = "Q(tab \<mapsto> xs @ ys)"
  note I = sched_invD [OF inv] and M = sched_midD [OF sched_invD(1) [OF inv]]
  obtain s1 where s1: "remove_ll tab n s = Some (n, s1)" "lists_ok s1 ?Q" "links_only s s1" using remove_ok [OF I(3) tab(1)] by blast
  have qn: "queued Q n" using queuedI [of Q tab "xs @ n # ys" n] tab(1) by simp
  have n: "live s n" "n \<noteq> running (procs s)" "n \<noteq> idle_node s" "obj \<noteq> n"
    using lists_ok_live [OF I(3) qn] qn I(2) M(4) obj(3) by (auto simp: sched_blocks_def)
  have nq: "\<not> queued ?Q n" using nodeq.taken_out [OF I(3) tab(1)] .
  have inv1: "sched_inv s1 ?Q B"
    by (rule sched_inv_other_list [OF inv s1(2,3) tab(2), of n]) (use tab n in auto)
  note F = links_onlyD [OF s1(3)]
  have rest: "procs s1 = procs s" "idle_node s1 = idle_node s" "pcbs s1 = pcbs s" "pilocvar s1 = pilocvar s"
    using F(6) by (cases s; cases s1; simp)+
  have l1: "live s1 n" "live s1 (nd_data (nodes s1 n))" "nd_data (nodes s1 n) = obj" "nd_data (nodes s1 n) \<noteq> n"
    using n obj F(1,4) by simp_all
  define s2 where "s2 = s1\<lparr>nodes := (nodes s1)(n := (nodes s1 n)\<lparr>nd_data := NULL, nd_next := NULL, nd_prev := NULL, nd_code := - 1\<rparr>),
    alive := (alive s1)(obj := False, n := False)\<rparr>"
  have d: "destroy_node n s1 = Some s2" using destroy_node_eq [OF l1(1,2,4)] by (simp add: s2_def l1(3))
  have mem: "members ?Q B \<subseteq> members Q B" using tab by (force simp: members_def split: if_splits)
  have q: "queued ?Q m \<Longrightarrow> queued Q m" for m using queuedI [of Q tab "xs @ n # ys" m] tab(1) by (auto simp: queued_def split: if_splits)
  have "dom ?Q \<subseteq> dom Q" using tab(1) by auto
  from fewer_blocks [OF this q mem] ty have ty0: "heap_typed T s ?Q B" and "sched_blocks s ?Q B \<subseteq> sched_blocks s Q B" by blast+
  then have sub: "sched_blocks s1 ?Q B \<subseteq> sched_blocks s Q B" by (simp add: sched_blocks_def rest F(4))
  have mq: "m \<in> members ?Q B \<Longrightarrow> queued ?Q m" for m
    using sched_midD(10) [OF sched_invD(1) [OF inv1]] queuedI [of ?Q] unfolding members_def by blast
  have ty1: "heap_typed T s1 ?Q B"
    using ty0 by (simp add: heap_typed_def rest F(4))
  have own: "a \<noteq> obj" "a \<noteq> n" if a: "a \<in> sched_blocks s1 ?Q B" for a
  proof -
    show "a \<noteq> obj" using a sub obj(3) by blast
    show "a \<noteq> n"
    proof
      assume e: "a = n"
      have "T n = B_node" using ty qn by (simp add: heap_typed_def)
      with typed_blocks(2) [OF ty1 a] e nq mq [of n] n(2,3) show False by (auto simp: rest)
    qed
  qed
  have "sched_inv s2 ?Q B"
  proof (rule sched_inv_keep [OF inv1])
    fix a assume a: "a \<in> sched_blocks s1 ?Q B"
    with own [OF a] sched_blocks_live [OF inv1 a] show "live s2 a \<and> nodes s2 a = nodes s1 a \<and> lls s2 a = lls s1 a \<and>
      pcb_kstack (pcbs s2 a) = pcb_kstack (pcbs s1 a) \<and> pcb_userpt (pcbs s2 a) = pcb_userpt (pcbs s1 a)"
      by (simp add: s2_def live_def)
  qed (simp_all add: s2_def)
  moreover have "alive s2 = (\<lambda>a. alive s a \<and> a \<notin> {obj, n})" using F(2) by (auto simp: s2_def fun_eq_iff)
  moreover have "pilocvar s2 = pilocvar s" "procs s2 = procs s" using rest by (simp_all add: s2_def)
  moreover have "\<forall>m. m \<noteq> n \<longrightarrow> nd_code (nodes s2 m) = nd_code (nodes s m)" using F(5) by (simp add: s2_def)
  ultimately show ?thesis using s1(1) d by blast
qed


text \<open>A list without processes is freed with the lock it belongs to.\<close>

lemma wait_list_freed:
  fixes s :: kernel
  assumes inv: "sched_inv s Q B" and ty: "heap_typed T s Q B" and q: "Q lq \<noteq> None"
    and other: "lq \<notin> {ready_ll (procs s), waiting_ll (procs s), delayed_ll (procs s), orphans_ll (procs s)}"
  shows "sched_inv (s\<lparr>alive := (alive s)(lq := False), locks := L\<rparr>) (Q(lq := None)) (B - {lq})"
    and "heap_typed T (s\<lparr>alive := (alive s)(lq := False), locks := L\<rparr>) (Q(lq := None)) (B - {lq})"
    and "sched_blocks (s\<lparr>alive := (alive s)(lq := False), locks := L\<rparr>) (Q(lq := None)) (B - {lq}) \<subseteq> sched_blocks s Q B"
proof -
  let ?Q = "Q(lq := None)" and ?B = "B - {lq}" and ?s = "s\<lparr>alive := (alive s)(lq := False), locks := L\<rparr>"
  have inv1: "sched_inv s ?Q ?B" by (rule sched_inv_forget [OF inv other])
  have mem: "members ?Q ?B \<subseteq> members Q B" by (auto simp: members_def)
  have fewer: "heap_typed T s ?Q ?B" "sched_blocks s ?Q ?B \<subseteq> sched_blocks s Q B"
    using fewer_blocks [of ?Q Q ?B B] ty mem queued_sub [of Q lq] by auto
  then show "heap_typed T ?s ?Q ?B" "sched_blocks ?s ?Q ?B \<subseteq> sched_blocks s Q B" by (simp_all add: heap_typed_def sched_blocks_def)
  have "T lq = B_ll" using ty q by (auto simp: heap_typed_def)
  with typed_blocks(1) [OF fewer(1)] have "lq \<notin> sched_blocks s ?Q ?B" by fastforce
  then show "sched_inv ?s ?Q ?B"
    by (intro sched_inv_keep [OF inv1]) (auto simp: live_def dest: sched_blocks_live [OF inv1])
qed


text \<open>A lock that may be reclaimed: its list is freed and its fields are cleared, then its node goes.\<close>

lemma destroy_lock_steps:
  fixes s :: kernel and n :: addr
  defines "lock \<equiv> nd_data (nodes s n)"
  defines "lq \<equiv> l_blocked (locks s lock)"
  assumes live: "live s n" "live s lock" "live s lq" "lock \<noteq> lq" and e: "is_empty lq s = Some 1"
    and unused: "l_owner (locks s lock) = NULL" "\<not> l_unfulfilled (locks s lock) > 0" "\<not> l_cvar (locks s lock) > 0"
  defines "s2 \<equiv> s\<lparr>alive := (alive s)(lq := False),
    locks := (locks s)(lock := \<lparr>l_owner = NULL, l_blocked = NULL, l_unfulfilled = 0, l_cvar = 0\<rparr>)\<rparr>"
  shows "destroy_lock hw n s = (do { (_, s) \<leftarrow> remove_ll (plc_lock (pilocvar s2)) n s2; s \<leftarrow> destroy_node n s; Some (0, s) })"
proof -
  have blank: "x\<lparr>l_owner := NULL, l_blocked := NULL, l_unfulfilled := 0, l_cvar := 0\<rparr> =
      \<lparr>l_owner = NULL, l_blocked = NULL, l_unfulfilled = 0, l_cvar = 0\<rparr>" for x :: lock by simp
  have rd: "rd_node s n = Some (nodes s n)" "rd_lock s lock = Some (locks s lock)" using live(1,2) by (simp_all add: rd_node_def rd_lock_def)
  have "free lq s = Some (s\<lparr>alive := (alive s)(lq := False)\<rparr>)" using live(3) by (simp add: free_def live_def)
  moreover have "upd_lock lock (\<lambda>x. x\<lparr>l_owner := NULL, l_blocked := NULL, l_unfulfilled := 0, l_cvar := 0\<rparr>) (s\<lparr>alive := (alive s)(lq := False)\<rparr>) = Some s2"
    using live(2,4) unfolding upd_lock_def blank by (simp add: s2_def live_def)
  ultimately show ?thesis using unused e rd by (simp add: destroy_lock_def Let_def flip: lock_def lq_def)
qed

lemma find_without:
  "distinct (map f (xs @ n # ys)) \<Longrightarrow>
   List.find (\<lambda>m. f m = i) (xs @ ys) = (if i = f n then None else List.find (\<lambda>m. f m = i) (xs @ n # ys))"
proof (induction xs)
  case Nil
  then show ?case by (auto simp: find_None_iff image_iff)
next
  case (Cons x xs)
  then show ?case by auto
qed

text \<open>The names of a table after one of its nodes is taken out.\<close>

lemma named_split:
  assumes "Q tab = Some zs" and "named s Q tab ident \<noteq> NULL" and "distinct (map (\<lambda>m. nd_code (nodes s m)) zs)"
  shows "\<exists>xs ys. zs = xs @ named s Q tab ident # ys \<and> (\<forall>s'. (\<forall>m\<in>set (xs @ ys). nd_code (nodes s' m) = nd_code (nodes s m)) \<longrightarrow>
    (\<forall>i. named s' (Q(tab \<mapsto> xs @ ys)) tab i = (if i = ident then NULL else named s Q tab i)))"
proof -
  obtain n where n: "List.find (\<lambda>m. nd_code (nodes s m) = ident) zs = Some n" "n = named s Q tab ident"
    using assms(1,2) by (auto simp: named_def split: option.splits)
  then obtain xs ys where z: "zs = xs @ n # ys" "nd_code (nodes s n) = ident" using find_Some_split [OF n(1)] by blast
  have "named s' (Q(tab \<mapsto> xs @ ys)) tab i = (if i = ident then NULL else named s Q tab i)"
    if "\<forall>m\<in>set (xs @ ys). nd_code (nodes s' m) = nd_code (nodes s m)" for s' i
  proof -
    have "List.find (\<lambda>m. nd_code (nodes s' m) = i) (xs @ ys) = List.find (\<lambda>m. nd_code (nodes s m) = i) (xs @ ys)"
      using that by (intro find_cong) (auto simp: z)
    moreover note find_without [of "\<lambda>m. nd_code (nodes s m)" xs n ys i]
    ultimately show ?thesis using assms(1,3) z by (simp add: named_def)
  qed
  with z n(2) show ?thesis by blast
qed


text \<open>
  C33: Reclaiming a lock.  While it has an owner, a waiter, a process that was woken and has not
  yet taken it, or one that waits on a condition variable with it, the call is an error and
  changes nothing.  Otherwise exactly the blocks of the lock, of its node and of its queue are
  freed, its number is unknown from then on, all other locks keep theirs, and the scheduler's
  invariant holds for the lists that are left.
\<close>

theorem lock_reclaimed:
  fixes s :: kernel and ident :: int
  assumes inv: "sched_inv s Q B" and ty: "heap_typed T s Q B"
    and tabs: "Q (plc_lock (pilocvar s)) = Some zs" "plc_lock (pilocvar s) \<notin> B" "Q (plc_cvar (pilocvar s)) \<noteq> None" "Q (plc_pipe (pilocvar s)) \<noteq> None"
    and ids: "distinct (map (\<lambda>m. nd_code (nodes s m)) zs)"
  defines "n \<equiv> named s Q (plc_lock (pilocvar s)) ident"
  defines "lock \<equiv> nd_data (nodes s n)"
  defines "lq \<equiv> l_blocked (locks s lock)"
  assumes found: "n \<noteq> NULL" "named s Q (plc_cvar (pilocvar s)) ident = NULL" "named s Q (plc_pipe (pilocvar s)) ident = NULL"
    and lock: "lock_ok s B lock" "lock \<notin> sched_blocks s Q B"
    and lq: "lq \<notin> {ready_ll (procs s), waiting_ll (procs s), delayed_ll (procs s), orphans_ll (procs s)}"
  shows "if l_owner (locks s lock) \<noteq> NULL \<or> the (Q lq) \<noteq> [] \<or> l_unfulfilled (locks s lock) > 0 \<or> l_cvar (locks s lock) > 0
    then KernelReclaim hw ident s = Some (ERROR hw, s)
    else \<exists>s' xs ys. zs = xs @ n # ys \<and> KernelReclaim hw ident s = Some (0, s') \<and> alive s' = (\<lambda>a. alive s a \<and> a \<notin> {lock, n, lq}) \<and>
      sched_inv s' (Q(lq := None, plc_lock (pilocvar s) \<mapsto> xs @ ys)) (B - {lq}) \<and> procs s' = procs s \<and>
      (\<forall>i. find_lock i s' = Some (if i = ident then NULL else named s Q (plc_lock (pilocvar s)) i))"
proof -
  let ?tab = "plc_lock (pilocvar s)"
  note lists = sched_invD(3) [OF inv]
  have qb: "lq \<in> B" "Q lq = Some (the (Q lq))" "live s lock" "lq \<noteq> ?tab"
    using lock(1) tabs(2) sched_midD(10) [OF sched_invD(1) [OF inv]] by (auto simp: lock_ok_def lq_def)
  have ln: "live s n" using named_live [OF lists, of ?tab ident] tabs(1) found(1) by (simp add: n_def)
  have f: "KernelReclaim hw ident s = destroy_lock hw n s"
    using find_named [OF lists, of ?tab ident] find_named [OF lists tabs(3), of ident] find_named [OF lists tabs(4), of ident] tabs(1) found
    by (simp add: KernelReclaim_def find_lock_def find_cvar_def find_pipe_def flip: n_def)
  note e = is_empty_eq [OF lists qb(2)]
  show ?thesis
  proof (cases "l_owner (locks s lock) \<noteq> NULL \<or> the (Q lq) \<noteq> [] \<or> l_unfulfilled (locks s lock) > 0 \<or> l_cvar (locks s lock) > 0")
    case True
    then show ?thesis using f e ln qb(3) by (auto simp: destroy_lock_def rd_node_def rd_lock_def lq_def simp flip: lock_def)
  next
    case False
    define s2 where "s2 = s\<lparr>alive := (alive s)(lq := False),
      locks := (locks s)(lock := \<lparr>l_owner = NULL, l_blocked = NULL, l_unfulfilled = 0, l_cvar = 0\<rparr>)\<rparr>"
    have "lq \<in> dom Q" using qb(2) by (rule domI)
    then have "Q lq \<noteq> None" by blast
    note s2 = wait_list_freed [OF inv ty \<open>Q lq \<noteq> None\<close> lq, of "(locks s)(lock := \<lparr>l_owner = NULL, l_blocked = NULL, l_unfulfilled = 0, l_cvar = 0\<rparr>)", folded s2_def]
    have lqa: "lq \<in> sched_blocks s Q B" using \<open>lq \<in> dom Q\<close> by (simp add: sched_blocks_def)
    then have lqb: "live s lq" "lock \<noteq> lq" using sched_blocks_live [OF inv] lock(2) by auto
    obtain xs ys where z: "zs = xs @ n # ys" and names: "\<And>s'. \<forall>m\<in>set (xs @ ys). nd_code (nodes s' m) = nd_code (nodes s m) \<Longrightarrow>
        \<forall>i. named s' (Q(?tab \<mapsto> xs @ ys)) ?tab i = (if i = ident then NULL else named s Q ?tab i)"
      using named_split [OF tabs(1) found(1) [unfolded n_def] ids] unfolding n_def by blast
    let ?Q = "Q(lq := None)" and ?B = "B - {lq}"
    have t2: "?Q ?tab = Some (xs @ n # ys)" "?tab \<notin> ?B" "live s2 lock" "nd_data (nodes s2 n) = lock" "lock \<notin> sched_blocks s2 ?Q ?B"
      using tabs(1,2) z qb(3,4) lock(2) s2(3) lqb(2) by (auto simp: s2_def live_def lock_def)
    obtain s3 s' where s': "remove_ll ?tab n s2 = Some (n, s3)" "destroy_node n s3 = Some s'" "alive s' = (\<lambda>a. alive s2 a \<and> a \<notin> {lock, n})"
        "sched_inv s' (?Q(?tab \<mapsto> xs @ ys)) ?B" "pilocvar s' = pilocvar s2" "procs s' = procs s2" "\<forall>m. m \<noteq> n \<longrightarrow> nd_code (nodes s' m) = nd_code (nodes s2 m)"
      using object_destroyed [OF s2(1,2) t2] by blast
    have code: "n \<notin> set xs" "n \<notin> set ys" using ids by (auto simp: z)
    have "destroy_lock hw n s = (do { (_, s) \<leftarrow> remove_ll (plc_lock (pilocvar s2)) n s2; s \<leftarrow> destroy_node n s; Some (0, s) })"
      using destroy_lock_steps [of s n hw] ln qb(3) lqb False e unfolding s2_def by (simp flip: lock_def lq_def)
    then have "KernelReclaim hw ident s = Some (0, s')" using f s'(1,2) by (simp add: s2_def)
    moreover have "find_lock i s' = Some (if i = ident then NULL else named s Q ?tab i)" for i
    proof -
      have "\<forall>m\<in>set (xs @ ys). nd_code (nodes s' m) = nd_code (nodes s m)" using s'(7) code by (auto simp: s2_def)
      then have "named s' (Q(?tab \<mapsto> xs @ ys)) ?tab i = (if i = ident then NULL else named s Q ?tab i)" using names by blast
      moreover have "find_lock i s' = Some (named s' (?Q(?tab \<mapsto> xs @ ys)) ?tab i)"
        unfolding find_lock_def using find_named [OF sched_invD(3) [OF s'(4)], of ?tab i] s'(5) by (simp add: s2_def)
      ultimately show ?thesis by (simp add: named_def)
    qed
    moreover have "alive s' = (\<lambda>a. alive s a \<and> a \<notin> {lock, n, lq})" "procs s' = procs s" using s'(3,6) by (auto simp: s2_def fun_eq_iff)
    ultimately show ?thesis using False s'(4) z by (simp only: if_False) blast
  qed
qed


lemma sched_inv_new_wait:
  assumes inv: "sched_inv s Q B" and l: "ll_at s l []" "l \<notin> dom Q"
  shows "sched_inv s (Q(l \<mapsto> [])) (insert l B)"
proof -
  have "l \<notin> B" using l(2) sched_midD(10) [OF sched_invD(1) [OF inv]] by blast
  with inv l(1) have "sched_inv s (Q(l \<mapsto> [])) B" by (rule sched_inv_new_list)
  with \<open>l \<notin> B\<close> show ?thesis unfolding sched_inv_def sched_mid_def by auto
qed

text \<open>The demo kernel with a lock nobody holds and whose own wait list is list 53.\<close>

definition demo_unlocked :: kernel where
  "demo_unlocked = demo_kernel\<lparr>locks := (\<lambda>_. \<lparr>l_owner = NULL, l_blocked = 53, l_unfulfilled = 0, l_cvar = 0\<rparr>)\<rparr>"

definition demo_block :: "addr \<Rightarrow> block" where
  "demo_block a = (if a < 10 \<or> 50 \<le> a \<and> a < 60 then B_ll else if a < 20 \<or> 60 \<le> a then B_node
     else if a < 30 then B_pcb else if a < 40 then B_userpt else B_kstack)"

theorem lock_reclaimed_witness:
  "\<exists>s'. KernelReclaim demo 0 demo_unlocked = Some (0, s') \<and> alive s' = (\<lambda>a. a < 100 \<and> a \<notin> {60, 61, 53}) \<and> find_lock 0 s' = Some NULL"
proof -
  let ?Q = "demo_Q(53 \<mapsto> [])" and ?B = "insert 53 demo_B"
  have e: "procs demo_unlocked = procs demo_kernel" "nodes demo_unlocked = demo_nodes" "idle_node demo_unlocked = 12" "pcbs demo_unlocked = demo_pcbs"
      "locks demo_unlocked = (\<lambda>_. \<lparr>l_owner = NULL, l_blocked = 53, l_unfulfilled = 0, l_cvar = 0\<rparr>)" "pilocvar demo_unlocked = pilocvar demo_kernel"
      "live demo_unlocked a \<longleftrightarrow> 0 < a \<and> a < 100" "alive demo_unlocked = (\<lambda>a. a < 100)" "lls demo_unlocked = demo_lls" for a
    by (simp_all add: demo_unlocked_def) (simp add: demo_kernel_def)
  have t: "plc_lock (pilocvar demo_kernel) = 6" "plc_cvar (pilocvar demo_kernel) = 7" "plc_pipe (pilocvar demo_kernel) = 5" by (simp_all add: demo_kernel_def)
  have "sched_inv demo_unlocked demo_Q demo_B" using demo_inv by (simp add: demo_unlocked_def)
  then have inv: "sched_inv demo_unlocked ?Q ?B"
    by (rule sched_inv_new_wait) (simp_all add: ll_at_def e demo_lls_def demo_lists_def)
  have q: "queued ?Q n \<Longrightarrow> n \<in> {11, 13, 14, 63, 61, 66, 15, 16}" for n
    by (auto simp: queued_def split: if_splits dest!: demo_queued [unfolded queued_def, OF exI, OF exI, OF conjI])
  have m: "members ?Q ?B = {11, 13, 14, 15, 16}" by (auto simp: members_def demo_lists_def)
  have dom: "dom ?Q = {53, 1, 2, 3, 4, 5, 6, 7, 8, 9, 50, 51, 52}" by (auto simp: demo_lists_def)
  have d: "nd_data (demo_nodes 61) = 60" and d': "n \<in> {10, 11, 12, 13, 14, 15, 16} \<Longrightarrow> nd_data (demo_nodes n) = n + 10" for n
    by (auto simp: demo_nodes_def)
  have q': "\<forall>n. queued ?Q n \<longrightarrow> demo_block n = B_node" using q by (auto simp: demo_block_def dest!: q)
  have ty: "heap_typed demo_block demo_unlocked ?Q ?B"
    unfolding heap_typed_def m dom by (intro conjI q') (simp_all add: e d' demo_block_def)
  have nm: "named demo_unlocked ?Q 6 0 = 61" "named demo_unlocked ?Q 7 0 = NULL" "named demo_unlocked ?Q 5 0 = NULL"
    by (simp_all add: named_def e demo_nodes_def demo_lists_def)
  have "\<not> queued ?Q 60" using q [of 60] by auto
  then have "60 \<notin> sched_blocks demo_unlocked ?Q ?B" unfolding sched_blocks_def m dom by (simp add: e d')
  note R = this
  show ?thesis
    using lock_reclaimed [OF inv ty, of "[61]" 0 demo] R unfolding e(6) t nm e(2) d
    by (auto simp: e nm lock_ok_def demo_lists_def)
qed

section \<open>Creating objects\<close>

text \<open>A new node with a list of its own is put at the end of a table.\<close>

lemma object_enlisted:
  fixes s t :: "'z sched_scheme"
  assumes inv: "sched_inv s Q B" and heap: "heap_ok s" and e: "extends s t" and tab: "Q tab = Some zs" "tab \<notin> B"
    and new: "ll_at t (brk_next s + 1) []" "live t (brk_next s + 2)"
  defines "Q' \<equiv> Q(brk_next s + 1 \<mapsto> [], tab \<mapsto> zs @ [brk_next s + 2])"
  shows "\<exists>t'. enqueue tab (brk_next s + 2) t = Some t' \<and> links_only t t' \<and> sched_inv t' Q' (insert (brk_next s + 1) B)"
proof -
  let ?k = "brk_next s"
  have dQ: "l < ?k" if "l \<in> dom Q \<or> queued Q l" for l using lists_ok_below [OF heap sched_invD(3) [OF inv] that] .
  have k1: "?k + 1 \<notin> dom Q" "?k + 1 \<noteq> tab" using dQ [of "?k + 1"] dQ [OF disjI1, OF domI, OF tab(1)] by auto
  have inv1: "sched_inv t (Q(?k + 1 \<mapsto> [])) (insert (?k + 1) B)"
    using sched_inv_new_wait [OF sched_inv_extends [OF inv e] new(1) k1(1)] .
  have nq: "\<not> queued (Q(?k + 1 \<mapsto> [])) (?k + 2)" using dQ [of "?k + 2"] by (auto simp: queued_upd dest!: queued_sub)
  have e': "procs t = procs s" "idle_node t = idle_node s" using e by (simp_all add: extends_def)
  have "running (procs s) < ?k" "idle_node s < ?k" using sched_invD(4,5) [OF inv] live_below [OF heap] by (auto simp: proc_ok_def)
  moreover obtain t' where t': "enqueue tab (?k + 2) t = Some t'" "lists_ok t' Q'" "links_only t t'"
    using enqueue_ok [OF sched_invD(3) [OF inv1] _ new(2) nq, of tab zs] tab(1) k1 by (auto simp: Q'_def)
  ultimately show ?thesis
    using sched_inv_other_list [OF inv1 _ t'(3), of tab "zs @ [?k + 2]" "?k + 2"] tab k1 e' by (auto simp: Q'_def)
qed

lemma find_snoc: "List.find P (xs @ [n]) = (if List.find P xs = None \<and> P n then Some n else List.find P xs)"
  by (induction xs) auto

lemma named_new:
  assumes "Q tab = Some zs" and "Q' tab = Some (zs @ [n])" and "nd_code (nodes s' n) = ident"
    and "\<And>m. m \<in> set zs \<Longrightarrow> nd_code (nodes s' m) = nd_code (nodes s m) \<and> nd_code (nodes s m) < ident"
  shows "named s' Q' tab i = (if i = ident then n else named s Q tab i)"
proof -
  have "List.find (\<lambda>m. nd_code (nodes s' m) = i) zs = List.find (\<lambda>m. nd_code (nodes s m) = i) zs"
    using assms(4) by (intro find_cong) auto
  with assms show ?thesis by (fastforce simp: named_def find_snoc find_None_iff)
qed

text \<open>The body of the three \<open>Init\<close> calls around the constructor.\<close>

lemma init_object_ok:
  fixes s t :: kernel
  assumes hw: "hw_ok hw" and p: "proc_ok s (running (procs s))" "pcb_userpt (the_pcb s (running (procs s))) = ptbr1 s"
    and u: "u_inv hw (ptbr1 s) s" and idp: "own hw s idp \<Longrightarrow> \<forall>b. idp \<le> b \<and> b < idp + 4 \<longrightarrow> own hw s b"
    and new: "new_object ident (s\<lparr>pilocvar := (pilocvar s)\<lparr>plc_count := ident + 1\<rparr>\<rparr>) = Some (n, t)" "ident = plc_count (pilocvar s)"
      "live t n" "nd_code (nodes t n) = ident"
    and rest: "live t (ptbr1 s)" "ptbr1 t = ptbr1 s" "upts t = upts s" "pmem t = pmem s" "free_frame t = free_frame s"
  shows "if no_kernel_memory hw 1 s \<noteq> 0 \<or> \<not> own hw s idp then init_object hw new_object idp s = Some (ERROR hw, s)
    else \<exists>M. init_object hw new_object idp s = Some (0, t\<lparr>pmem := M\<rparr>) \<and>
      (\<forall>f. (\<forall>i p. upages hw (ptbr1 s) s i \<noteq> Some (f, p)) \<longrightarrow> M f = pmem s f) \<and> (\<forall>b. own hw s b \<longrightarrow>
      load hw (t\<lparr>pmem := M\<rparr>) b = (if idp \<le> b \<and> b < idp + 4 then Some (word_byte ident (b - idp)) else load hw s b))"
proof -
  have curr: "curr_pcb s = Some (the_pcb s (running (procs s)))"
    using p(1) by (simp add: curr_pcb_def pcb_of_def rd_node_def rd_pcb_def proc_ok_def)
  have live: "live s (ptbr1 s)" using u by (simp add: u_inv_def)
  note c = check_addr_eq [OF hw live, of idp "PROT_WRITE hw"]
  show ?thesis
  proof (cases "no_kernel_memory hw 1 s \<noteq> 0 \<or> \<not> own hw s idp")
    case True
    then show ?thesis using curr p(2) c by (auto simp: init_object_def)
  next
    case False
    have u': "u_inv hw (ptbr1 t) t" using u rest by (simp add: u_inv_def upages_def)
    have own: "own hw t b = own hw s b" for b by (simp add: user_addr_def upages_def rest)
    have load: "load hw t b = load hw s b" if "own hw s b" for b by (rule load_same [OF hw live rest(1-4) that])
    obtain t' where t': "(if idp \<noteq> NULL then store32 hw idp ident t else Some t) = Some t'"
        "written hw (if idp = NULL then {} else {idp..<idp + 4}) (\<lambda>b. word_byte ident (b - idp)) t t'"
      using status_store [OF hw u', of idp ident] idp False own by auto
    then obtain M where M: "t' = t\<lparr>pmem := M\<rparr>" by (auto simp: written_def only_bytes_def)
    have "idp \<noteq> NULL" using False hw by (auto simp: user_addr_def in_region_1_def hw_ok_def)
    with t' have "init_object hw new_object idp s = Some (0, t')"
      using False curr p(2) c new by (simp add: init_object_def new_id_def rd_node_def)
    moreover have "load hw t' b = (if idp \<le> b \<and> b < idp + 4 then Some (word_byte ident (b - idp)) else load hw s b)" if "own hw s b" for b
      using t'(2) own load that \<open>idp \<noteq> NULL\<close> by (simp add: written_def)
    moreover have "M f = pmem s f" if "\<forall>i p. upages hw (ptbr1 s) s i \<noteq> Some (f, p)" for f
    proof -
      have "upages hw (ptbr1 t) t = upages hw (ptbr1 s) s" using rest by (simp add: upages_def)
      with t'(2) that have "pmem t' f = pmem t f" by (simp add: written_def)
      then show ?thesis by (simp add: M rest)
    qed
    ultimately show ?thesis using False unfolding M by auto
  qed
qed

section \<open>New locks and condition variables\<close>

lemma blank_objects:
  "(h :: ll)\<lparr>ll_head := NULL, ll_tail := NULL, ll_size := 0\<rparr> = \<lparr>ll_size = 0, ll_head = NULL, ll_tail = NULL\<rparr>"
  "(l :: lock)\<lparr>l_owner := NULL, l_blocked := b, l_unfulfilled := 0, l_cvar := 0\<rparr> = \<lparr>l_owner = NULL, l_blocked = b, l_unfulfilled = 0, l_cvar = 0\<rparr>"
  "(x :: node)\<lparr>nd_data := d, nd_next := NULL, nd_prev := NULL, nd_code := c\<rparr> = \<lparr>nd_data = d, nd_code = c, nd_next = NULL, nd_prev = NULL\<rparr>"
  "(v :: cvar)\<lparr>c_blocked := b\<rparr> = \<lparr>c_blocked = b\<rparr>"
  by simp_all

text \<open>Apart from the new blocks nothing has changed but bytes of the running process.\<close>

lemma enlarged_object:
  fixes s t t' :: kernel
  assumes e: "extends s t" and same: "pcbs t = pcbs s" "upts t = upts s" "kstacks t = kstacks s" "kernel_pt t = kernel_pt s"
      "free_frame t = free_frame s" "ptbr1 t = ptbr1 s"
    and l: "links_only t t'" and h: "heap_ok t'" and u: "u_inv hw (ptbr1 s) s"
    and M: "\<forall>f. (\<forall>i p. upages hw (ptbr1 s) s i \<noteq> Some (f, p)) \<longrightarrow> M f = pmem s f"
  shows "enlarged hw s (t'\<lparr>pmem := M\<rparr>)"
proof -
  obtain N H where "t' = t\<lparr>nodes := N, lls := H\<rparr>" using l by (auto simp: links_only_def)
  moreover have "nd_data (nodes t' a) = nd_data (nodes t a)" "live t' a = live t a" for a using links_onlyD(1,4) [OF l] by simp_all
  ultimately show ?thesis
    using e same h M u_inv_frames [OF u] by (simp add: enlarged_def extends_def heap_ok_def live_def)
qed

text \<open>A node for an object, a list for those who wait for it, and the object itself.\<close>

definition with_blocks :: "int \<Rightarrow> kernel \<Rightarrow> kernel" where
  "with_blocks ident s = s\<lparr>lls := (lls s)(brk_next s + 1 := \<lparr>ll_size = 0, ll_head = NULL, ll_tail = NULL\<rparr>),
     brk_next := brk_next s + 3, alive := (alive s)(brk_next s := True, brk_next s + 1 := True, brk_next s + 2 := True),
     nodes := (nodes s)(brk_next s + 2 := \<lparr>nd_data = brk_next s, nd_code = ident, nd_next = NULL, nd_prev = NULL\<rparr>)\<rparr>"

lemma new_lock_steps:
  assumes "heap_ok s"
  shows "new_lock ident s = (do { t \<leftarrow> enqueue (plc_lock (pilocvar s)) (brk_next s + 2) ((with_blocks ident s)\<lparr>locks :=
    (locks s)(brk_next s := \<lparr>l_owner = NULL, l_blocked = brk_next s + 1, l_unfulfilled = 0, l_cvar = 0\<rparr>)\<rparr>); Some (brk_next s + 2, t) })"
  using assms by (cases s) (simp add: heap_ok_def new_lock_def malloc_def new_ll_eq new_node_eq Let_def upd_lock_def upd_node_def live_def
      blank_objects with_blocks_def eval_nat_numeral)

lemma new_cvar_steps:
  assumes "heap_ok s"
  shows "new_cvar ident s = (do { t \<leftarrow> enqueue (plc_cvar (pilocvar s)) (brk_next s + 2) ((with_blocks ident s)\<lparr>cvars :=
    (cvars s)(brk_next s := \<lparr>c_blocked = brk_next s + 1\<rparr>)\<rparr>); Some (brk_next s + 2, t) })"
  using assms by (cases s) (simp add: heap_ok_def new_cvar_def malloc_def new_ll_eq new_node_eq Let_def upd_cvar_def upd_node_def live_def
      blank_objects with_blocks_def eval_nat_numeral)

text \<open>What both constructors have in common; the object is in \<open>locks t\<close> or in \<open>cvars t\<close>.\<close>

lemma created_ok:
  fixes s t :: kernel
  assumes inv: "sched_inv s Q B" and heap: "heap_ok s" and tab: "Q tab = Some zs" "tab \<notin> B"
    and t: "t = (with_blocks ident (s\<lparr>pilocvar := pv\<rparr>))\<lparr>locks := L, cvars := C\<rparr>"
  defines "k \<equiv> brk_next s"
  shows "\<exists>t'. enqueue tab (k + 2) t = Some t' \<and> links_only t t' \<and> heap_ok t' \<and> live t' (k + 2) \<and> nd_code (nodes t' (k + 2)) = ident \<and>
    nd_data (nodes t' (k + 2)) = k \<and> (\<forall>a. live s a \<longrightarrow> live t' a) \<and> sched_inv t' (Q(k + 1 \<mapsto> [], tab \<mapsto> zs @ [k + 2])) (insert (k + 1) B) \<and>
    extends s t \<and> ((\<forall>m\<in>set zs. nd_code (nodes s m) < ident) \<longrightarrow>
      (\<forall>i. named t' (Q(k + 1 \<mapsto> [], tab \<mapsto> zs @ [k + 2])) tab i = (if i = ident then k + 2 else named s Q tab i)))"
proof -
  have below: "a < k" if "live s a" for a using live_below [OF heap that] by (simp add: k_def)
  then have e: "extends s t" by (fastforce simp: extends_def t with_blocks_def live_def k_def)
  have "ll_at t (brk_next s + 1) []" "live t (brk_next s + 2)" by (simp_all add: ll_at_def t with_blocks_def live_def)
  from object_enlisted [OF inv heap e tab this] obtain t' where t': "enqueue tab (k + 2) t = Some t'" "links_only t t'"
      "sched_inv t' (Q(k + 1 \<mapsto> [], tab \<mapsto> zs @ [k + 2])) (insert (k + 1) B)" unfolding k_def by blast
  note F = links_onlyD [OF t'(2)]
  have "heap_ok t" using heap by (fastforce simp: heap_ok_def t with_blocks_def)
  then have h: "heap_ok t'" by (rule heap_ok_links [OF t'(2)])
  have l: "live t' a" if "live s a \<or> a = k + 2" for a using that unfolding F(1) by (auto simp: t with_blocks_def live_def k_def)
  have c: "nd_code (nodes t' (k + 2)) = ident" "nd_data (nodes t' (k + 2)) = k" using F(4,5) by (simp_all add: t with_blocks_def k_def)
  have n: "nd_code (nodes t' m) = nd_code (nodes s m)" if "m \<in> set zs" for m
    using below [OF lists_ok_live [OF sched_invD(3) [OF inv], of m]] queuedI [of Q tab zs m, OF tab(1) that] F(5) that by (simp add: t with_blocks_def k_def)
  have "named t' (Q(k + 1 \<mapsto> [], tab \<mapsto> zs @ [k + 2])) tab i = (if i = ident then k + 2 else named s Q tab i)"
    if "\<forall>m\<in>set zs. nd_code (nodes s m) < ident" for i
    using named_new [of Q tab zs "Q(k + 1 \<mapsto> [], tab \<mapsto> zs @ [k + 2])" "k + 2" t' ident s i, OF tab(1) _ c(1)] n that by simp
  with t' h l c e show ?thesis by auto
qed

text \<open>A whole \<open>Init\<close> call for a constructor of this shape.\<close>

lemma object_created:
  fixes s :: kernel and idp :: nat
  assumes hw: "hw_ok hw" and inv: "sched_inv s Q B" and heap: "heap_ok s" and u: "u_inv hw (ptbr1 s) s"
    and mine: "pcb_userpt (the_pcb s (running (procs s))) = ptbr1 s" and tab: "Q tab = Some zs" "tab \<notin> B"
    and idp: "own hw s idp \<Longrightarrow> \<forall>b. idp \<le> b \<and> b < idp + 4 \<longrightarrow> own hw s b"
  defines "k \<equiv> brk_next s" and "ident \<equiv> plc_count (pilocvar s)"
  defines "pv \<equiv> (pilocvar s)\<lparr>plc_count := ident + 1\<rparr>"
  assumes steps: "new_object ident (s\<lparr>pilocvar := pv\<rparr>) =
    (do { t \<leftarrow> enqueue tab (k + 2) ((with_blocks ident (s\<lparr>pilocvar := pv\<rparr>))\<lparr>locks := L, cvars := C\<rparr>); Some (k + 2, t) })"
  shows "if no_kernel_memory hw 1 s \<noteq> 0 \<or> \<not> own hw s idp then init_object hw new_object idp s = Some (ERROR hw, s)
    else \<exists>s'. init_object hw new_object idp s = Some (0, s') \<and> heap_ok s' \<and>
      sched_inv s' (Q(k + 1 \<mapsto> [], tab \<mapsto> zs @ [k + 2])) (insert (k + 1) B) \<and>
      locks s' = L \<and> cvars s' = C \<and> pilocvar s' = pv \<and> nd_data (nodes s' (k + 2)) = k \<and>
      enlarged hw s s' \<and> live s' k \<and> ((\<forall>m\<in>set zs. nd_code (nodes s m) < ident) \<longrightarrow>
        (\<forall>i. find_ll tab i s' = Some (if i = ident then k + 2 else named s Q tab i))) \<and>
      (\<forall>b. own hw s b \<longrightarrow> load hw s' b = (if idp \<le> b \<and> b < idp + 4 then Some (word_byte ident (b - idp)) else load hw s b))"
proof -
  define t where "t = (with_blocks ident (s\<lparr>pilocvar := pv\<rparr>))\<lparr>locks := L, cvars := C\<rparr>"
  obtain t' where t': "enqueue tab (k + 2) t = Some t'" "links_only t t'" "heap_ok t'" "live t' (k + 2)" "nd_code (nodes t' (k + 2)) = ident"
      "nd_data (nodes t' (k + 2)) = k" "\<forall>a. live s a \<longrightarrow> live t' a" "sched_inv t' (Q(k + 1 \<mapsto> [], tab \<mapsto> zs @ [k + 2])) (insert (k + 1) B)"
      "extends s t" "(\<forall>m\<in>set zs. nd_code (nodes s m) < ident) \<longrightarrow>
      (\<forall>i. named t' (Q(k + 1 \<mapsto> [], tab \<mapsto> zs @ [k + 2])) tab i = (if i = ident then k + 2 else named s Q tab i))"
    using created_ok [OF inv heap tab t_def] unfolding k_def by blast
  obtain N H where "t' = t\<lparr>nodes := N, lls := H\<rparr>" using t'(2) by (auto simp: links_only_def)
  then have e: "ptbr1 t' = ptbr1 s" "upts t' = upts s" "pmem t' = pmem s" "free_frame t' = free_frame s" "locks t' = L" "cvars t' = C"
      "pilocvar t' = pv" by (simp_all add: t_def with_blocks_def)
  have new: "new_object ident (s\<lparr>pilocvar := (pilocvar s)\<lparr>plc_count := ident + 1\<rparr>\<rparr>) = Some (k + 2, t')"
    using steps t'(1) by (simp add: t_def pv_def)
  have inv': "sched_inv (t'\<lparr>pmem := M\<rparr>) (Q(k + 1 \<mapsto> [], tab \<mapsto> zs @ [k + 2])) (insert (k + 1) B)" for M using t'(8) by simp
  have nm: "named (t'\<lparr>pmem := M\<rparr>) Q' l i = named t' Q' l i" for M Q' l i by (simp add: named_def)
  have f: "find_ll tab i (t'\<lparr>pmem := M\<rparr>) = Some (if i = ident then k + 2 else named s Q tab i)" if "\<forall>m\<in>set zs. nd_code (nodes s m) < ident" for i M
    using find_named [OF sched_invD(3) [OF inv'], of tab i M] t'(10) that by (simp add: nm)
  have same: "pcbs t = pcbs s" "upts t = upts s" "kstacks t = kstacks s" "kernel_pt t = kernel_pt s" "free_frame t = free_frame s" "ptbr1 t = ptbr1 s"
    by (simp_all add: t_def with_blocks_def)
  note g = enlarged_object [OF t'(9) same t'(2,3) u]
  have "live t k" by (simp add: t_def with_blocks_def live_def) (use heap in \<open>simp add: heap_ok_def k_def\<close>)
  then have "live t' k" using links_onlyD(1) [OF t'(2)] by blast
  then have lk: "live (t'\<lparr>pmem := M\<rparr>) k" for M by (simp add: live_def)
  have "live t' (ptbr1 s)" using t'(7) u by (simp add: u_inv_def)
  from init_object_ok [of hw s idp new_object ident "k + 2" t', OF hw sched_invD(4) [OF inv] mine u idp new
      ident_def [THEN meta_eq_to_obj_eq] t'(4,5) this e(1-4)] t'(3,6) inv' f e(5-7) g lk
  show ?thesis by (fastforce simp: heap_ok_def split: if_split_asm)
qed

text \<open>The two calls, with what they leave alone.\<close>

lemma KernelLockInit_ok:
  fixes s :: kernel and idp :: nat
  assumes hw: "hw_ok hw" and inv: "sched_inv s Q B" and heap: "heap_ok s" and u: "u_inv hw (ptbr1 s) s"
    and mine: "pcb_userpt (the_pcb s (running (procs s))) = ptbr1 s"
    and tab: "Q (plc_lock (pilocvar s)) = Some zs" "plc_lock (pilocvar s) \<notin> B"
    and idp: "own hw s idp \<Longrightarrow> \<forall>b. idp \<le> b \<and> b < idp + 4 \<longrightarrow> own hw s b"
  defines "k \<equiv> brk_next s" and "ident \<equiv> plc_count (pilocvar s)"
  shows "if no_kernel_memory hw 1 s \<noteq> 0 \<or> \<not> own hw s idp then KernelLockInit hw idp s = Some (ERROR hw, s)
    else \<exists>s'. KernelLockInit hw idp s = Some (0, s') \<and> heap_ok s' \<and>
      sched_inv s' (Q(k + 1 \<mapsto> [], plc_lock (pilocvar s) \<mapsto> zs @ [k + 2])) (insert (k + 1) B) \<and>
      locks s' = (locks s)(k := \<lparr>l_owner = NULL, l_blocked = k + 1, l_unfulfilled = 0, l_cvar = 0\<rparr>) \<and> cvars s' = cvars s \<and>
      pilocvar s' = (pilocvar s)\<lparr>plc_count := ident + 1\<rparr> \<and> nd_data (nodes s' (k + 2)) = k \<and>
      enlarged hw s s' \<and> live s' k \<and> ((\<forall>m\<in>set zs. nd_code (nodes s m) < ident) \<longrightarrow>
        (\<forall>i. find_ll (plc_lock (pilocvar s)) i s' = Some (if i = ident then k + 2 else named s Q (plc_lock (pilocvar s)) i))) \<and>
      (\<forall>b. own hw s b \<longrightarrow> load hw s' b = (if idp \<le> b \<and> b < idp + 4 then Some (word_byte ident (b - idp)) else load hw s b))"
proof -
  let ?L = "(locks s)(k := \<lparr>l_owner = NULL, l_blocked = k + 1, l_unfulfilled = 0, l_cvar = 0\<rparr>)"
  have "heap_ok (s\<lparr>pilocvar := (pilocvar s)\<lparr>plc_count := ident + 1\<rparr>\<rparr>)" using heap by (simp add: heap_ok_def)
  then have "new_lock ident (s\<lparr>pilocvar := (pilocvar s)\<lparr>plc_count := ident + 1\<rparr>\<rparr>) = (do { t \<leftarrow> enqueue (plc_lock (pilocvar s)) (k + 2)
      ((with_blocks ident (s\<lparr>pilocvar := (pilocvar s)\<lparr>plc_count := ident + 1\<rparr>\<rparr>))\<lparr>locks := ?L, cvars := cvars s\<rparr>); Some (k + 2, t) })"
    using new_lock_steps [of "s\<lparr>pilocvar := (pilocvar s)\<lparr>plc_count := ident + 1\<rparr>\<rparr>" ident] by (simp add: k_def with_blocks_def)
  from object_created [OF hw inv heap u mine tab idp, where new_object = new_lock, OF _ this [unfolded k_def ident_def]] show ?thesis
    unfolding KernelLockInit_def k_def ident_def .
qed

lemma KernelCvarInit_ok:
  fixes s :: kernel and idp :: nat
  assumes hw: "hw_ok hw" and inv: "sched_inv s Q B" and heap: "heap_ok s" and u: "u_inv hw (ptbr1 s) s"
    and mine: "pcb_userpt (the_pcb s (running (procs s))) = ptbr1 s"
    and tab: "Q (plc_cvar (pilocvar s)) = Some zs" "plc_cvar (pilocvar s) \<notin> B"
    and idp: "own hw s idp \<Longrightarrow> \<forall>b. idp \<le> b \<and> b < idp + 4 \<longrightarrow> own hw s b"
  defines "k \<equiv> brk_next s" and "ident \<equiv> plc_count (pilocvar s)"
  shows "if no_kernel_memory hw 1 s \<noteq> 0 \<or> \<not> own hw s idp then KernelCvarInit hw idp s = Some (ERROR hw, s)
    else \<exists>s'. KernelCvarInit hw idp s = Some (0, s') \<and> heap_ok s' \<and>
      sched_inv s' (Q(k + 1 \<mapsto> [], plc_cvar (pilocvar s) \<mapsto> zs @ [k + 2])) (insert (k + 1) B) \<and>
      locks s' = locks s \<and> cvars s' = (cvars s)(k := \<lparr>c_blocked = k + 1\<rparr>) \<and>
      pilocvar s' = (pilocvar s)\<lparr>plc_count := ident + 1\<rparr> \<and> nd_data (nodes s' (k + 2)) = k \<and>
      enlarged hw s s' \<and> live s' k \<and> ((\<forall>m\<in>set zs. nd_code (nodes s m) < ident) \<longrightarrow>
        (\<forall>i. find_ll (plc_cvar (pilocvar s)) i s' = Some (if i = ident then k + 2 else named s Q (plc_cvar (pilocvar s)) i))) \<and>
      (\<forall>b. own hw s b \<longrightarrow> load hw s' b = (if idp \<le> b \<and> b < idp + 4 then Some (word_byte ident (b - idp)) else load hw s b))"
proof -
  let ?C = "(cvars s)(k := \<lparr>c_blocked = k + 1\<rparr>)"
  have "heap_ok (s\<lparr>pilocvar := (pilocvar s)\<lparr>plc_count := ident + 1\<rparr>\<rparr>)" using heap by (simp add: heap_ok_def)
  then have "new_cvar ident (s\<lparr>pilocvar := (pilocvar s)\<lparr>plc_count := ident + 1\<rparr>\<rparr>) = (do { t \<leftarrow> enqueue (plc_cvar (pilocvar s)) (k + 2)
      ((with_blocks ident (s\<lparr>pilocvar := (pilocvar s)\<lparr>plc_count := ident + 1\<rparr>\<rparr>))\<lparr>locks := locks s, cvars := ?C\<rparr>); Some (k + 2, t) })"
    using new_cvar_steps [of "s\<lparr>pilocvar := (pilocvar s)\<lparr>plc_count := ident + 1\<rparr>\<rparr>" ident] by (simp add: k_def with_blocks_def)
  from object_created [OF hw inv heap u mine tab idp, where new_object = new_cvar, OF _ this [unfolded k_def ident_def]] show ?thesis
    unfolding KernelCvarInit_def k_def ident_def .
qed



text \<open>Condition variables are created in the same way, in their own table, under a number no lock has.\<close>

lemma cvar_created:
  fixes s :: kernel and idp :: nat
  assumes hw: "hw_ok hw" and inv: "sched_inv s Q B" and heap: "heap_ok s" and u: "u_inv hw (ptbr1 s) s"
    and mine: "pcb_userpt (the_pcb s (running (procs s))) = ptbr1 s"
    and tab: "Q (plc_cvar (pilocvar s)) = Some zs" "plc_cvar (pilocvar s) \<notin> B"
    and ids: "\<forall>m\<in>set zs. nd_code (nodes s m) < plc_count (pilocvar s)"
    and idp: "own hw s idp \<Longrightarrow> \<forall>b. idp \<le> b \<and> b < idp + 4 \<longrightarrow> own hw s b"
  defines "k \<equiv> brk_next s" and "ident \<equiv> plc_count (pilocvar s)"
  shows "if no_kernel_memory hw 1 s \<noteq> 0 \<or> \<not> own hw s idp then KernelCvarInit hw idp s = Some (ERROR hw, s)
    else \<exists>s'. KernelCvarInit hw idp s = Some (0, s') \<and> heap_ok s' \<and>
      sched_inv s' (Q(k + 1 \<mapsto> [], plc_cvar (pilocvar s) \<mapsto> zs @ [k + 2])) (insert (k + 1) B) \<and>
      cvars s' = (cvars s)(k := \<lparr>c_blocked = k + 1\<rparr>) \<and> locks s' = locks s \<and>
      plc_count (pilocvar s') = ident + 1 \<and> nd_data (nodes s' (k + 2)) = k \<and>
      (\<forall>i. find_cvar i s' = Some (if i = ident then k + 2 else named s Q (plc_cvar (pilocvar s)) i)) \<and>
      (\<forall>b. own hw s b \<longrightarrow> load hw s' b = (if idp \<le> b \<and> b < idp + 4 then Some (word_byte ident (b - idp)) else load hw s b))"
  using KernelCvarInit_ok [OF hw inv heap u mine tab idp] ids
  unfolding find_cvar_def k_def ident_def by (fastforce split: if_split_asm)

end
