(* ===== verification/Pipe_Spec.thy ===== *)
theory Pipe_Spec
  imports Monitor_Spec
begin

text \<open>
  The life of a pipe, from its creation to its reclamation.  A new pipe has five blocks: the
  pipe, its buffer, the queues of its readers and its writers, and its node in the table.
\<close>

section \<open>Creating a pipe\<close>

definition with_pipe :: "hw \<Rightarrow> int \<Rightarrow> kernel \<Rightarrow> kernel" where
  "with_pipe hw ident s = (let k = brk_next s; blank = \<lparr>ll_size = 0, ll_head = NULL, ll_tail = NULL\<rparr> in
     s\<lparr>lls := (lls s)(k + 2 := blank, k + 3 := blank), brk_next := k + 5,
       alive := (alive s)(k := True, k + 1 := True, k + 2 := True, k + 3 := True, k + 4 := True),
       bufs := (bufs s)(k + 1 := new_buffer (PIPE_BUFFER_LEN hw)),
       pipes := (pipes s)(k := \<lparr>p_buffer = k + 1, p_readblocked = k + 2, p_writeblocked = k + 3, p_unfulfilled = 0\<rparr>),
       nodes := (nodes s)(k + 4 := \<lparr>nd_data = k, nd_code = ident, nd_next = NULL, nd_prev = NULL\<rparr>)\<rparr>)"

lemma blank_pipe: "(x :: pipe)\<lparr>p_buffer := b, p_readblocked := r, p_writeblocked := w, p_unfulfilled := 0\<rparr> =
    \<lparr>p_buffer = b, p_readblocked = r, p_writeblocked = w, p_unfulfilled = 0\<rparr>"
  by simp

lemma new_pipe_steps:
  assumes "heap_ok s"
  shows "new_pipe hw ident s =
    (do { t \<leftarrow> enqueue (plc_pipe (pilocvar s)) (brk_next s + 4) (with_pipe hw ident s); Some (brk_next s + 4, t) })"
  using assms by (cases s) (simp add: heap_ok_def new_pipe_def alloc_buffer_def wr_buf_def malloc_def new_ll_eq new_node_eq Let_def upd_pipe_def
      upd_node_def live_def blank_objects blank_pipe with_pipe_def eval_nat_numeral)

lemma pipe_enlisted:
  fixes s :: kernel and hw :: hw and ident :: int
  assumes inv: "sched_inv s Q B" and heap: "heap_ok s" and tab: "Q tab = Some zs" "tab \<notin> B"
  defines "k \<equiv> brk_next s" and "t \<equiv> with_pipe hw ident s"
  defines "Q' \<equiv> Q(k + 2 \<mapsto> [], k + 3 \<mapsto> [], tab \<mapsto> zs @ [k + 4])" and "B' \<equiv> insert (k + 3) (insert (k + 2) B)"
  shows "\<exists>t'. enqueue tab (k + 4) t = Some t' \<and> links_only t t' \<and> sched_inv t' Q' B' \<and> heap_ok t' \<and> live t' (k + 4) \<and>
    nd_code (nodes t' (k + 4)) = ident \<and> nd_data (nodes t' (k + 4)) = k \<and> (\<forall>a. live s a \<or> k \<le> a \<and> a < k + 5 \<longrightarrow> live t' a) \<and>
    extends s t \<and> ((\<forall>m\<in>set zs. nd_code (nodes s m) < ident) \<longrightarrow> (\<forall>i. named t' Q' tab i = (if i = ident then k + 4 else named s Q tab i)))"
proof -
  have dQ: "l < k" if "l \<in> dom Q \<or> queued Q l" for l using lists_ok_below [OF heap sched_invD(3) [OF inv] that] by (simp add: k_def)
  have below: "a < k" if "live s a" for a using live_below [OF heap that] by (simp add: k_def)
  have t_simps: "live t a \<longleftrightarrow> live s a \<or> k \<le> a \<and> a < k + 5" for a
    using heap by (auto simp: t_def with_pipe_def Let_def live_def k_def heap_ok_def)
  have old: "nodes t a = nodes s a \<and> lls t a = lls s a" if "a < k" for a using that by (simp add: t_def with_pipe_def Let_def k_def)
  have "pcbs t = pcbs s" "procs t = procs s" "idle_node t = idle_node s" by (simp_all add: t_def with_pipe_def Let_def)
  with below old t_simps have e: "extends s t" by (simp add: extends_def)
  have out: "k + 2 \<notin> dom Q" "k + 3 \<notin> dom (Q(k + 2 \<mapsto> []))" "tab < k" using dQ [of "k + 2"] dQ [of "k + 3"] dQ [OF disjI1, OF domI, OF tab(1)] by auto
  have blank: "ll_at t (k + 2) []" "ll_at t (k + 3) []"
    by (simp_all add: ll_at_def t_simps) (simp_all add: t_def with_pipe_def Let_def k_def)
  have inv1: "sched_inv t (Q(k + 2 \<mapsto> [], k + 3 \<mapsto> [])) B'"
    unfolding B'_def by (rule sched_inv_new_wait [OF sched_inv_new_wait [OF sched_inv_extends [OF inv e] blank(1) out(1)] blank(2) out(2)])
  have nq: "\<not> queued (Q(k + 2 \<mapsto> [], k + 3 \<mapsto> [])) (k + 4)" using dQ [of "k + 4"] by (auto simp: queued_def split: if_splits)
  have "running (procs s) < k" "idle_node s < k" using sched_invD(4,5) [OF inv] below by (auto simp: proc_ok_def)
  moreover obtain t' where t': "enqueue tab (k + 4) t = Some t'" "lists_ok t' Q'" "links_only t t'"
    using enqueue_ok [OF sched_invD(3) [OF inv1] _ _ nq, of tab zs] tab(1) out(3) t_simps [of "k + 4"] by (auto simp: Q'_def)
  ultimately have inv': "sched_inv t' Q' B'"
    using sched_inv_other_list [OF inv1 _ t'(3), of tab "zs @ [k + 4]" "k + 4"] tab out(3) e by (auto simp: Q'_def B'_def extends_def)
  note F = links_onlyD [OF t'(3)]
  have "heap_ok t" using heap by (fastforce simp: heap_ok_def t_def with_pipe_def Let_def)
  then have h: "heap_ok t'" by (rule heap_ok_links [OF t'(3)])
  have c: "nd_code (nodes t' (k + 4)) = ident" "nd_data (nodes t' (k + 4)) = k"
    using F(4,5) by (simp_all add: t_def with_pipe_def Let_def k_def)
  have n: "nd_code (nodes t' m) = nd_code (nodes s m)" if "m \<in> set zs" for m
    using dQ [of m] queuedI [of Q tab zs m, OF tab(1) that] F(5) that by (simp add: t_def with_pipe_def Let_def k_def)
  have "named t' Q' tab i = (if i = ident then k + 4 else named s Q tab i)" if "\<forall>m\<in>set zs. nd_code (nodes s m) < ident" for i
    using named_new [of Q tab zs Q' "k + 4" t' ident s i, OF tab(1) _ c(1)] n that by (simp add: Q'_def)
  with t'(1,3) inv' h c e show ?thesis by (auto simp: F(1) t_simps)
qed

text \<open>
  A new pipe is empty and nobody waits on either side; it stands under the next number in the
  table of pipes, and the number is stored for the user.
\<close>

lemma KernelPipeInit_ok:
  fixes s :: kernel and idp :: nat
  assumes hw: "hw_ok hw" and inv: "sched_inv s Q B" and heap: "heap_ok s" and u: "u_inv hw (ptbr1 s) s"
    and mine: "pcb_userpt (the_pcb s (running (procs s))) = ptbr1 s"
    and tab: "Q (plc_pipe (pilocvar s)) = Some zs" "plc_pipe (pilocvar s) \<notin> B"
    and idp: "own hw s idp \<Longrightarrow> \<forall>b. idp \<le> b \<and> b < idp + 4 \<longrightarrow> own hw s b"
  defines "k \<equiv> brk_next s" and "ident \<equiv> plc_count (pilocvar s)"
  defines "Q' \<equiv> Q(k + 2 \<mapsto> [], k + 3 \<mapsto> [], plc_pipe (pilocvar s) \<mapsto> zs @ [k + 4])" and "B' \<equiv> insert (k + 3) (insert (k + 2) B)"
  shows "if no_kernel_memory hw 1 s \<noteq> 0 \<or> \<not> own hw s idp then KernelPipeInit hw idp s = Some (ERROR hw, s)
    else \<exists>s'. KernelPipeInit hw idp s = Some (0, s') \<and> heap_ok s' \<and> sched_inv s' Q' B' \<and>
      pipes s' = (pipes s)(k := \<lparr>p_buffer = k + 1, p_readblocked = k + 2, p_writeblocked = k + 3, p_unfulfilled = 0\<rparr>) \<and>
      pipe_ok s' B' k \<and> contents (pipe_buf s' k) = [] \<and> room (pipe_buf s' k) = PIPE_BUFFER_LEN hw \<and>
      pilocvar s' = (pilocvar s)\<lparr>plc_count := ident + 1\<rparr> \<and> nd_data (nodes s' (k + 4)) = k \<and>
      enlarged hw s s' \<and> locks s' = locks s \<and> cvars s' = cvars s \<and> ((\<forall>m\<in>set zs. nd_code (nodes s m) < ident) \<longrightarrow>
        (\<forall>i. find_pipe i s' = Some (if i = ident then k + 4 else named s Q (plc_pipe (pilocvar s)) i))) \<and>
      (\<forall>b. own hw s b \<longrightarrow> load hw s' b = (if idp \<le> b \<and> b < idp + 4 then Some (word_byte ident (b - idp)) else load hw s b))"
proof -
  define s1 where "s1 = s\<lparr>pilocvar := (pilocvar s)\<lparr>plc_count := ident + 1\<rparr>\<rparr>"
  let ?tab = "plc_pipe (pilocvar s)"
  have s1: "sched_inv s1 Q B" "heap_ok s1" "brk_next s1 = k" "nodes s1 = nodes s" "plc_pipe (pilocvar s1) = ?tab"
    using sched_inv_alike [of s s1 Q B] inv heap by (simp_all add: s1_def heap_ok_def k_def)
  have nm1: "named s1 Q l i = named s Q l i" for l i by (simp add: named_def s1_def)
  define t where "t = with_pipe hw ident s1"
  obtain t' where t': "enqueue ?tab (k + 4) t = Some t'" "links_only t t'" "sched_inv t' Q' B'" "heap_ok t'" "live t' (k + 4)"
      "nd_code (nodes t' (k + 4)) = ident" "nd_data (nodes t' (k + 4)) = k" "\<forall>a. live s1 a \<or> k \<le> a \<and> a < k + 5 \<longrightarrow> live t' a"
      "extends s1 t" "(\<forall>m\<in>set zs. nd_code (nodes s m) < ident) \<longrightarrow> (\<forall>i. named t' Q' ?tab i = (if i = ident then k + 4 else named s Q ?tab i))"
    using pipe_enlisted [OF s1(1,2) tab, of hw ident] unfolding s1(3,4) nm1 t_def [symmetric] Q'_def [symmetric] B'_def [symmetric] by blast
  obtain N H where "t' = t\<lparr>nodes := N, lls := H\<rparr>" using t'(2) by (auto simp: links_only_def)
  then have e: "ptbr1 t' = ptbr1 s" "upts t' = upts s" "pmem t' = pmem s" "free_frame t' = free_frame s" "pipes t' = pipes t" "bufs t' = bufs t"
      "pilocvar t' = pilocvar s1" "procs t' = procs s" by (simp_all add: t_def with_pipe_def Let_def s1_def)
  have new: "new_pipe hw ident (s\<lparr>pilocvar := (pilocvar s)\<lparr>plc_count := ident + 1\<rparr>\<rparr>) = Some (k + 4, t')"
    using new_pipe_steps [OF s1(2), of hw ident] t'(1) s1(3,5) by (simp add: t_def s1_def)
  have inv': "sched_inv (t'\<lparr>pmem := M\<rparr>) Q' B'" for M using t'(3) by simp
  have nm: "named (t'\<lparr>pmem := M\<rparr>) P l i = named t' P l i" for M P l i by (simp add: named_def)
  have f: "find_pipe i (t'\<lparr>pmem := M\<rparr>) = Some (if i = ident then k + 4 else named s Q ?tab i)" if "\<forall>m\<in>set zs. nd_code (nodes s m) < ident" for i M
    using find_named [OF sched_invD(3) [OF inv'], of ?tab i M] t'(10) that e(7) s1(5) by (simp add: nm find_pipe_def Q'_def)
  have "extends s t" using t'(9) by (simp add: extends_def s1_def live_def)
  moreover have "pcbs t = pcbs s" "upts t = upts s" "kstacks t = kstacks s" "kernel_pt t = kernel_pt s" "free_frame t = free_frame s" "ptbr1 t = ptbr1 s"
    by (simp_all add: t_def with_pipe_def Let_def s1_def)
  ultimately have g: "enlarged hw s (t'\<lparr>pmem := M\<rparr>)" if "\<forall>f. (\<forall>i p. upages hw (ptbr1 s) s i \<noteq> Some (f, p)) \<longrightarrow> M f = pmem s f" for M
    using enlarged_object [OF _ _ _ _ _ _ _ t'(2,4) u that] by blast
  have lc: "locks t' = locks s" "cvars t' = cvars s" using \<open>t' = t\<lparr>nodes := N, lls := H\<rparr>\<close> by (simp_all add: t_def with_pipe_def Let_def s1_def)
  have "live s1 (ptbr1 s)" using u by (simp add: u_inv_def s1_def)
  then have lp: "live t' (ptbr1 s)" using t'(8) by blast
  have pipes: "pipes t' k = \<lparr>p_buffer = k + 1, p_readblocked = k + 2, p_writeblocked = k + 3, p_unfulfilled = 0\<rparr>"
      "pipes t' = (pipes s)(k := \<lparr>p_buffer = k + 1, p_readblocked = k + 2, p_writeblocked = k + 3, p_unfulfilled = 0\<rparr>)"
      "bufs t' (k + 1) = new_buffer (PIPE_BUFFER_LEN hw)"
    using e(5,6) s1(3) by (simp_all add: t_def with_pipe_def Let_def) (simp add: s1_def)
  have "0 < PIPE_BUFFER_LEN hw" using hw by (simp add: hw_ok_def)
  note nb = new_buffer_ok [OF this]
  have "ready_ll (procs s) < k"
    using lists_ok_below [OF heap sched_invD(3) [OF inv], of "ready_ll (procs s)"] sched_midD(9) [OF sched_invD(1) [OF inv]] by (auto simp: k_def)
  then have ok: "pipe_ok (t'\<lparr>pmem := M\<rparr>) B' k" for M
    using t'(8) nb pipes(1,3) e(8) by (auto simp: pipe_ok_def B'_def)
  have r: "room (pipe_buf (t'\<lparr>pmem := M\<rparr>) k) = PIPE_BUFFER_LEN hw" "contents (pipe_buf (t'\<lparr>pmem := M\<rparr>) k) = []" for M
    using pipes(1,3) nb by (simp_all add: room_def new_buffer_def)
  note io = init_object_ok [of hw s idp "new_pipe hw" ident "k + 4" t', OF hw sched_invD(4) [OF inv] mine u idp new
      ident_def [THEN meta_eq_to_obj_eq] t'(5,6) lp e(1-4)]
  show ?thesis
  proof (cases "no_kernel_memory hw 1 s \<noteq> 0 \<or> \<not> own hw s idp")
    case True
    with io show ?thesis by (simp add: KernelPipeInit_def)
  next
    case False
    with io obtain M where M: "init_object hw (new_pipe hw) idp s = Some (0, t'\<lparr>pmem := M\<rparr>)"
        "\<forall>f. (\<forall>i p. upages hw (ptbr1 s) s i \<noteq> Some (f, p)) \<longrightarrow> M f = pmem s f"
        "\<forall>b. own hw s b \<longrightarrow> load hw (t'\<lparr>pmem := M\<rparr>) b = (if idp \<le> b \<and> b < idp + 4 then Some (word_byte ident (b - idp)) else load hw s b)"
      by (simp only: if_False) blast
    have h: "heap_ok (t'\<lparr>pmem := M\<rparr>)" using t'(4) by (simp add: heap_ok_def)
    have "pilocvar (t'\<lparr>pmem := M\<rparr>) = (pilocvar s)\<lparr>plc_count := ident + 1\<rparr>" "nd_data (nodes (t'\<lparr>pmem := M\<rparr>) (k + 4)) = k"
      using e(7) t'(7) by (simp_all add: s1_def)
    with M h inv' [of M] ok [of M] r [of M] g [OF M(2)] f [of _ M] pipes(2) lc False show ?thesis
      unfolding KernelPipeInit_def by (simp only: if_False) (intro exI [of _ "t'\<lparr>pmem := M\<rparr>"] conjI, simp_all)
  qed
qed

lemma pipe_created:
  fixes s :: kernel and idp :: nat
  assumes hw: "hw_ok hw" and inv: "sched_inv s Q B" and heap: "heap_ok s" and u: "u_inv hw (ptbr1 s) s"
    and mine: "pcb_userpt (the_pcb s (running (procs s))) = ptbr1 s"
    and tab: "Q (plc_pipe (pilocvar s)) = Some zs" "plc_pipe (pilocvar s) \<notin> B"
    and ids: "\<forall>m\<in>set zs. nd_code (nodes s m) < plc_count (pilocvar s)"
    and idp: "own hw s idp \<Longrightarrow> \<forall>b. idp \<le> b \<and> b < idp + 4 \<longrightarrow> own hw s b"
  defines "k \<equiv> brk_next s" and "ident \<equiv> plc_count (pilocvar s)"
  shows "if no_kernel_memory hw 1 s \<noteq> 0 \<or> \<not> own hw s idp then KernelPipeInit hw idp s = Some (ERROR hw, s)
    else \<exists>s' B'. KernelPipeInit hw idp s = Some (0, s') \<and> heap_ok s' \<and> pipe_ok s' B' k \<and> B \<subseteq> B' \<and>
      (\<exists>Q'. sched_inv s' Q' B' \<and> Q' (p_readblocked (pipes s' k)) = Some [] \<and> Q' (p_writeblocked (pipes s' k)) = Some []) \<and>
      contents (pipe_buf s' k) = [] \<and> room (pipe_buf s' k) = PIPE_BUFFER_LEN hw \<and> nd_data (nodes s' (k + 4)) = k \<and>
      (\<forall>i. find_pipe i s' = Some (if i = ident then k + 4 else named s Q (plc_pipe (pilocvar s)) i)) \<and>
      (\<forall>b. own hw s b \<longrightarrow> load hw s' b = (if idp \<le> b \<and> b < idp + 4 then Some (word_byte ident (b - idp)) else load hw s b))"
proof -
  have "plc_pipe (pilocvar s) < k" using lists_ok_below [OF heap sched_invD(3) [OF inv] disjI1 [OF domI], OF tab(1)] by (simp add: k_def)
  note io = KernelPipeInit_ok [OF hw inv heap u mine tab, folded k_def ident_def]
  show ?thesis
  proof (cases "no_kernel_memory hw 1 s \<noteq> 0 \<or> \<not> own hw s idp")
    case True
    with io [of idp] idp show ?thesis by simp
  next
    case False
    then have "\<forall>b. idp \<le> b \<and> b < idp + 4 \<longrightarrow> own hw s b" using idp by blast
    from io [OF this] False obtain s' where s': "KernelPipeInit hw idp s = Some (0, s')" "heap_ok s'"
        "sched_inv s' (Q(k + 2 \<mapsto> [], k + 3 \<mapsto> [], plc_pipe (pilocvar s) \<mapsto> zs @ [k + 4])) (insert (k + 3) (insert (k + 2) B))"
        "pipes s' = (pipes s)(k := \<lparr>p_buffer = k + 1, p_readblocked = k + 2, p_writeblocked = k + 3, p_unfulfilled = 0\<rparr>)"
        "pipe_ok s' (insert (k + 3) (insert (k + 2) B)) k" "contents (pipe_buf s' k) = []" "room (pipe_buf s' k) = PIPE_BUFFER_LEN hw"
        "nd_data (nodes s' (k + 4)) = k"
        "(\<forall>m\<in>set zs. nd_code (nodes s m) < ident) \<longrightarrow> (\<forall>i. find_pipe i s' = Some (if i = ident then k + 4 else named s Q (plc_pipe (pilocvar s)) i))"
        "\<forall>b. own hw s b \<longrightarrow> load hw s' b = (if idp \<le> b \<and> b < idp + 4 then Some (word_byte ident (b - idp)) else load hw s b)"
      by (simp only: if_False) (elim exE conjE, rule that, assumption+)
    have "(Q(k + 2 \<mapsto> [], k + 3 \<mapsto> [], plc_pipe (pilocvar s) \<mapsto> zs @ [k + 4])) (p_readblocked (pipes s' k)) = Some []"
      "(Q(k + 2 \<mapsto> [], k + 3 \<mapsto> [], plc_pipe (pilocvar s) \<mapsto> zs @ [k + 4])) (p_writeblocked (pipes s' k)) = Some []"
      "B \<subseteq> insert (k + 3) (insert (k + 2) B)"
      using \<open>plc_pipe (pilocvar s) < k\<close> by (auto simp: s'(4))
    then show ?thesis unfolding if_not_P [OF False]
      using s'(1-3,5-8,10) s'(9) [rule_format, OF ids [rule_format, folded ident_def]] by blast
  qed
qed

section \<open>Reclaiming a pipe\<close>

text \<open>Freeing a block the scheduler does not use, whatever becomes of the objects.\<close>

lemma block_freed:
  fixes s :: kernel
  assumes inv: "sched_inv s Q B" and b: "b \<notin> sched_blocks s Q B"
  shows "sched_inv (s\<lparr>alive := (alive s)(b := False), bufs := F, pipes := P\<rparr>) Q B"
    and "heap_typed T s Q B \<Longrightarrow> heap_typed T (s\<lparr>alive := (alive s)(b := False), bufs := F, pipes := P\<rparr>) Q B"
    and "sched_blocks (s\<lparr>alive := (alive s)(b := False), bufs := F, pipes := P\<rparr>) Q B = sched_blocks s Q B"
proof -
  show "sched_inv (s\<lparr>alive := (alive s)(b := False), bufs := F, pipes := P\<rparr>) Q B"
    by (rule sched_inv_keep [OF inv]) (use b in \<open>auto simp: live_def dest: sched_blocks_live [OF inv]\<close>)
qed (simp_all add: heap_typed_def sched_blocks_def)

lemma destroy_pipe_steps:
  fixes s :: kernel and n :: addr
  defines "pipe \<equiv> nd_data (nodes s n)"
  defines "b \<equiv> p_buffer (pipes s pipe)" and "r \<equiv> p_readblocked (pipes s pipe)" and "w \<equiv> p_writeblocked (pipes s pipe)"
  assumes live: "live s n" "live s pipe" "live s b" "live s r" "live s w" and other: "distinct [pipe, b, r, w]"
    and e: "is_empty r s = Some 1" "is_empty w s = Some 1" and unused: "\<not> p_unfulfilled (pipes s pipe) > 0"
  defines "s2 \<equiv> s\<lparr>alive := (alive s)(r := False, w := False, b := False), bufs := (bufs s)(b := destroy_buffer (bufs s b)),
    pipes := (pipes s)(pipe := \<lparr>p_buffer = b, p_readblocked = NULL, p_writeblocked = NULL, p_unfulfilled = 0\<rparr>)\<rparr>"
  shows "destroy_pipe hw n s = (do { (_, s) \<leftarrow> remove_ll (plc_pipe (pilocvar s2)) n s2; s \<leftarrow> destroy_node n s; Some (0, s) })"
proof -
  have blank: "(pipes s pipe)\<lparr>p_readblocked := NULL, p_writeblocked := NULL, p_unfulfilled := 0\<rparr> =
      \<lparr>p_buffer = b, p_readblocked = NULL, p_writeblocked = NULL, p_unfulfilled = 0\<rparr>" by (simp add: b_def)
  have rd: "rd_node s n = Some (nodes s n)" "rd_pipe s pipe = Some (pipes s pipe)" using live(1,2) by (simp_all add: rd_node_def rd_pipe_def)
  have al: "(alive s)(b := False, r := False, w := False) = (alive s)(r := False, w := False, b := False)" using other by (auto simp: fun_eq_iff)
  have "free_buffer b s = Some (s\<lparr>alive := (alive s)(b := False), bufs := (bufs s)(b := destroy_buffer (bufs s b))\<rparr>)"
    using live(3) by (simp add: free_buffer_def rd_buf_def wr_buf_def free_def live_def)
  moreover have "free r (s\<lparr>alive := (alive s)(b := False), bufs := F\<rparr>) = Some (s\<lparr>alive := (alive s)(b := False, r := False), bufs := F\<rparr>)" for F
    using live(4) other by (simp add: free_def live_def)
  moreover have "free w (s\<lparr>alive := (alive s)(b := False, r := False), bufs := F\<rparr>) =
      Some (s\<lparr>alive := (alive s)(r := False, w := False, b := False), bufs := F\<rparr>)" for F
    using live(5) other by (simp add: free_def live_def flip: al)
  moreover have "upd_pipe pipe (\<lambda>x. x\<lparr>p_readblocked := NULL, p_writeblocked := NULL, p_unfulfilled := 0\<rparr>)
      (s\<lparr>alive := (alive s)(r := False, w := False, b := False), bufs := (bufs s)(b := destroy_buffer (bufs s b))\<rparr>) = Some s2"
    using live(2) other by (simp add: upd_pipe_def s2_def live_def blank)
  ultimately show ?thesis using unused e rd by (simp add: destroy_pipe_def Let_def flip: pipe_def b_def r_def w_def)
qed

text \<open>
  While somebody waits on either side, or was woken and has not yet run, a pipe is not reclaimed.
  Otherwise exactly its five blocks are freed, its number is unknown from then on, and all other
  pipes keep theirs.
\<close>

lemma pipe_reclaimed:
  fixes s :: kernel and ident :: int
  assumes inv: "sched_inv s Q B" and ty: "heap_typed T s Q B"
    and tabs: "Q (plc_pipe (pilocvar s)) = Some zs" "plc_pipe (pilocvar s) \<notin> B" "Q (plc_cvar (pilocvar s)) \<noteq> None" "Q (plc_lock (pilocvar s)) \<noteq> None"
    and ids: "distinct (map (\<lambda>m. nd_code (nodes s m)) zs)"
  defines "n \<equiv> named s Q (plc_pipe (pilocvar s)) ident"
  defines "pipe \<equiv> nd_data (nodes s n)"
  defines "b \<equiv> p_buffer (pipes s pipe)" and "r \<equiv> p_readblocked (pipes s pipe)" and "w \<equiv> p_writeblocked (pipes s pipe)"
  assumes found: "n \<noteq> NULL"
    and pipe: "pipe_ok s B pipe" "pipe \<notin> sched_blocks s Q B" "b \<notin> sched_blocks s Q B" "pipe \<noteq> b" "r \<noteq> w"
    and rw: "{r, w} \<inter> {ready_ll (procs s), waiting_ll (procs s), delayed_ll (procs s), orphans_ll (procs s)} = {}"
  shows "if the (Q r) \<noteq> [] \<or> the (Q w) \<noteq> [] \<or> p_unfulfilled (pipes s pipe) > 0
    then KernelReclaim hw ident s = Some (ERROR hw, s)
    else \<exists>s' xs ys. zs = xs @ n # ys \<and> KernelReclaim hw ident s = Some (0, s') \<and> alive s' = (\<lambda>a. alive s a \<and> a \<notin> {pipe, b, r, w, n}) \<and>
      sched_inv s' (Q(r := None, w := None, plc_pipe (pilocvar s) \<mapsto> xs @ ys)) (B - {r} - {w}) \<and> procs s' = procs s \<and>
      (\<forall>i. find_pipe i s' = Some (if i = ident then NULL else named s Q (plc_pipe (pilocvar s)) i))"
proof -
  let ?tab = "plc_pipe (pilocvar s)"
  note lists = sched_invD(3) [OF inv]
  have qb: "r \<in> B" "w \<in> B" "Q r = Some (the (Q r))" "Q w = Some (the (Q w))" "live s pipe" "live s b" "r \<noteq> ?tab" "w \<noteq> ?tab"
    using pipe(1) tabs(2) sched_midD(10) [OF sched_invD(1) [OF inv]] by (auto simp: pipe_ok_def b_def r_def w_def)
  have ln: "live s n" using named_live [OF lists, of ?tab ident] tabs(1) found by (simp add: n_def)
  have f: "KernelReclaim hw ident s = destroy_pipe hw n s"
    using find_named [OF lists, of ?tab ident] find_named [OF lists tabs(3), of ident] find_named [OF lists tabs(4), of ident] tabs(1) found
    by (simp add: KernelReclaim_def find_lock_def find_cvar_def find_pipe_def flip: n_def)
  note e = is_empty_eq [OF lists qb(3)] is_empty_eq [OF lists qb(4)]
  show ?thesis
  proof (cases "the (Q r) \<noteq> [] \<or> the (Q w) \<noteq> [] \<or> p_unfulfilled (pipes s pipe) > 0")
    case True
    then show ?thesis using f e ln qb(5) by (auto simp: destroy_pipe_def rd_node_def rd_pipe_def simp flip: pipe_def r_def w_def)
  next
    case False
    let ?Q = "Q(r := None, w := None)" and ?B = "B - {r} - {w}"
    have "r \<in> dom Q" "w \<in> dom Q" using qb(3,4) by (auto intro: domI)
    then have some: "Q r \<noteq> None" "(Q(r := None)) w \<noteq> None" and blocks: "r \<in> sched_blocks s Q B" "w \<in> sched_blocks s Q B"
      using pipe(5) by (auto simp: sched_blocks_def)
    have live_rw: "live s r" "live s w" and dist: "distinct [pipe, b, r, w]"
      using sched_blocks_live [OF inv] blocks pipe(2-5) by auto
    define sa where "sa = s\<lparr>alive := (alive s)(r := False), locks := locks s\<rparr>"
    have nr: "r \<notin> {ready_ll (procs s), waiting_ll (procs s), delayed_ll (procs s), orphans_ll (procs s)}"
      and nw: "w \<notin> {ready_ll (procs sa), waiting_ll (procs sa), delayed_ll (procs sa), orphans_ll (procs sa)}"
      using rw by (auto simp: sa_def)
    note sa = wait_list_freed [OF inv ty some(1) nr, of "locks s", folded sa_def]
    define sb where "sb = sa\<lparr>alive := (alive sa)(w := False), locks := locks sa\<rparr>"
    note sb = wait_list_freed [OF sa(1,2) some(2) nw, of "locks sa", folded sb_def]
    have sub: "sched_blocks sb ?Q ?B \<subseteq> sched_blocks s Q B" using sb(3) sa(3) by (rule subset_trans)
    define s2 where "s2 = s\<lparr>alive := (alive s)(r := False, w := False, b := False), bufs := (bufs s)(b := destroy_buffer (bufs s b)),
      pipes := (pipes s)(pipe := \<lparr>p_buffer = b, p_readblocked = NULL, p_writeblocked = NULL, p_unfulfilled = 0\<rparr>)\<rparr>"
    have s2_eq: "s2 = sb\<lparr>alive := (alive sb)(b := False), bufs := (bufs s)(b := destroy_buffer (bufs s b)),
      pipes := (pipes s)(pipe := \<lparr>p_buffer = b, p_readblocked = NULL, p_writeblocked = NULL, p_unfulfilled = 0\<rparr>)\<rparr>"
      by (simp add: s2_def sb_def sa_def)
    have "b \<notin> sched_blocks sb ?Q ?B" using sub pipe(3) by blast
    note s2 = block_freed [OF sb(1) this]
    have inv2: "sched_inv s2 ?Q ?B" unfolding s2_eq by (rule s2(1))
    have ty2: "heap_typed T s2 ?Q ?B" unfolding s2_eq by (rule s2(2) [OF sb(2)])
    have sub2: "sched_blocks s2 ?Q ?B \<subseteq> sched_blocks s Q B" using sub unfolding s2_eq s2(3) .
    obtain xs ys where z: "zs = xs @ n # ys" and names: "\<And>s'. \<forall>m\<in>set (xs @ ys). nd_code (nodes s' m) = nd_code (nodes s m) \<Longrightarrow>
        \<forall>i. named s' (Q(?tab \<mapsto> xs @ ys)) ?tab i = (if i = ident then NULL else named s Q ?tab i)"
      using named_split [OF tabs(1) found [unfolded n_def] ids] unfolding n_def by blast
    have same: "nodes s2 = nodes s" "procs s2 = procs s" "pilocvar s2 = pilocvar s" by (simp_all add: s2_def)
    have t2: "?Q ?tab = Some (xs @ n # ys)" "?tab \<notin> ?B" "live s2 pipe" "nd_data (nodes s2 n) = pipe" "pipe \<notin> sched_blocks s2 ?Q ?B"
    proof -
      show "pipe \<notin> sched_blocks s2 ?Q ?B" using sub2 pipe(2) by blast
      show "live s2 pipe" using qb(5) dist by (simp add: s2_def live_def)
    qed (use tabs(1,2) z qb(7,8) in \<open>auto simp: same pipe_def\<close>)
    obtain s3 s' where s': "remove_ll ?tab n s2 = Some (n, s3)" "destroy_node n s3 = Some s'" "alive s' = (\<lambda>a. alive s2 a \<and> a \<notin> {pipe, n})"
        "sched_inv s' (?Q(?tab \<mapsto> xs @ ys)) ?B" "pilocvar s' = pilocvar s2" "procs s' = procs s2" "\<forall>m. m \<noteq> n \<longrightarrow> nd_code (nodes s' m) = nd_code (nodes s2 m)"
      using object_destroyed [OF inv2 ty2 t2] by blast
    have code: "n \<notin> set xs" "n \<notin> set ys" using ids by (auto simp: z)
    have "destroy_pipe hw n s = (do { (_, s) \<leftarrow> remove_ll (plc_pipe (pilocvar s2)) n s2; s \<leftarrow> destroy_node n s; Some (0, s) })"
      using destroy_pipe_steps [of s n hw] ln qb(5,6) live_rw dist False e unfolding s2_def by (simp flip: pipe_def b_def r_def w_def)
    then have reclaimed: "KernelReclaim hw ident s = Some (0, s')" using f s'(1,2) same by simp
    have "find_pipe i s' = Some (if i = ident then NULL else named s Q ?tab i)" for i
    proof -
      have "\<forall>m\<in>set (xs @ ys). nd_code (nodes s' m) = nd_code (nodes s m)" using s'(7) code by (auto simp: same)
      then have "named s' (Q(?tab \<mapsto> xs @ ys)) ?tab i = (if i = ident then NULL else named s Q ?tab i)" using names by blast
      moreover have "find_pipe i s' = Some (named s' (?Q(?tab \<mapsto> xs @ ys)) ?tab i)"
        unfolding find_pipe_def using find_named [OF sched_invD(3) [OF s'(4)], of ?tab i] s'(5) by (simp add: same)
      ultimately show ?thesis by (simp add: named_def)
    qed
    moreover have "alive s' = (\<lambda>a. alive s a \<and> a \<notin> {pipe, b, r, w, n})" using s'(3) by (auto simp: s2_def fun_eq_iff)
    ultimately show ?thesis using False reclaimed s'(4,6) z same(2) by (simp only: if_False) blast
  qed
qed

end
