(* ===== verification/Calm_Spec.thy ===== *)
theory Calm_Spec
  imports Pipe_Spec
begin

text \<open>
  What the handlers for computing, sleeping, locks, condition variables and memory leave alone: the processes and objects, the
  owners of locks, the memory of other processes, and where every other process waits in the kernel.
\<close>

section \<open>What a handler leaves alone\<close>

text \<open>No object is created or destroyed, and none gets another list of waiting processes, and no process another list of children.\<close>

definition keeps_objects :: "kernel \<Rightarrow> kernel \<Rightarrow> bool" where
  "keeps_objects s s' \<longleftrightarrow> (\<forall>a. live s' a = live s a) \<and> (\<forall>a. nd_data (nodes s' a) = nd_data (nodes s a)) \<and>
     (\<forall>a. l_blocked (locks s' a) = l_blocked (locks s a)) \<and> cvars s' = cvars s \<and> pilocvar s' = pilocvar s \<and>
     ready_ll (procs s') = ready_ll (procs s) \<and> brk_next s' = brk_next s \<and> kstacks s' = kstacks s \<and>
     (\<forall>a. pcb_a_children (pcbs s' a) = pcb_a_children (pcbs s a))"

text \<open>The places in the kernel where a process of this machine waits, with what they need to go on.\<close>

fun waits_at :: "kernel \<Rightarrow> addr set \<Rightarrow> kernel_context \<Rightarrow> bool" where
  "waits_at s B KC_Clock = True"
| "waits_at s B KC_Delay = True"
| "waits_at s B (KC_Acquire lock) = lock_ok s B lock"
| "waits_at s B (KC_CvarWait lock_n lock) = (live s lock_n \<and> nd_data (nodes s lock_n) = lock \<and> lock_ok s B lock)"
| "waits_at s B (KC_CvarAcquire acq lock) = (acq = lock \<and> lock_ok s B lock)"
| "waits_at s B _ = False"

lemma objects_kept:
  assumes "keeps_objects s s'"
  shows "lock_ok s' B lock = lock_ok s B lock" and "cvar_ok s' B cvar = cvar_ok s B cvar" and "waits_at s' B kc = waits_at s B kc"
proof -
  show l: "lock_ok s' B l = lock_ok s B l" for l using assms by (simp add: keeps_objects_def lock_ok_def)
  show "cvar_ok s' B cvar = cvar_ok s B cvar" using assms by (simp add: keeps_objects_def cvar_ok_def)
  show "waits_at s' B kc = waits_at s B kc" using assms l by (cases kc) (simp_all add: keeps_objects_def)
qed

definition keeps :: "hw \<Rightarrow> addr set \<Rightarrow> (addr \<rightharpoonup> addr list) \<Rightarrow> kernel \<Rightarrow> kernel \<Rightarrow> bool" where
  "keeps hw B Q s s' \<longleftrightarrow> conserves B Q s s' \<and> keeps_objects s s' \<and> (on_own_tables hw s \<longrightarrow> on_own_tables hw s')"

text \<open>A lock changes hands only between nobody and the running process.\<close>

definition owners_kept :: "kernel \<Rightarrow> kernel \<Rightarrow> bool" where
  "owners_kept s s' \<longleftrightarrow> (\<forall>a. l_owner (locks s' a) = l_owner (locks s a) \<or>
     {l_owner (locks s a), l_owner (locks s' a)} \<subseteq> {NULL, running (procs s)})"

lemma owners_kept_same: "locks s' = locks s \<Longrightarrow> owners_kept s s'"
  by (simp add: owners_kept_def)

lemma owners_kept_trans: "owners_kept s s' \<Longrightarrow> owners_kept s' s'' \<Longrightarrow> procs s' = procs s \<Longrightarrow> owners_kept s s''"
  unfolding owners_kept_def by (metis insert_subset)

text \<open>
  The running process changes only its own table and frames that are its own or free, and its memory stays well formed.
\<close>

definition table_of :: "kernel \<Rightarrow> addr \<Rightarrow> addr" where
  "table_of s n = pcb_userpt (the_pcb s n)"

definition own_memory :: "hw \<Rightarrow> kernel \<Rightarrow> kernel \<Rightarrow> bool" where
  "own_memory hw s s' \<longleftrightarrow> (let up = table_of s (running (procs s)) in
     (\<forall>x. x \<noteq> up \<longrightarrow> upts s' x = upts s x) \<and> ff_size (free_frame s') = ff_size (free_frame s) \<and>
     reach hw up s' \<subseteq> reach hw up s \<and> (\<forall>f. f \<notin> reach hw up s \<longrightarrow> pmem s' f = pmem s f) \<and>
     (u_inv hw up s \<longrightarrow> u_inv hw up s') \<and> (region_ok hw up s \<longrightarrow> region_ok hw up s'))"

lemma own_memory_same:
  assumes "upts s' = upts s" "free_frame s' = free_frame s" "pmem s' = pmem s" "\<And>a. live s' a = live s a"
  shows "own_memory hw s s'"
  using assms by (simp add: own_memory_def reach_def frames_of_def upages_def u_inv_def region_ok_def)

lemma own_memory_trans:
  assumes "own_memory hw s s'" and "own_memory hw s' s''" and "table_of s' (running (procs s')) = table_of s (running (procs s))"
  shows "own_memory hw s s''"
  using assms unfolding own_memory_def Let_def by (auto dest: subsetD)

lemma keeps_table: "keeps hw B Q s s' \<Longrightarrow> procs s' = procs s \<Longrightarrow> table_of s' (running (procs s')) = table_of s (running (procs s))"
  by (auto simp: keeps_def conserves_def same_procs_def table_of_def)

text \<open>The process goes on running; or it has put itself away at a place in the kernel and another one runs.\<close>

definition quiet :: "hw \<Rightarrow> addr set \<Rightarrow> (addr \<rightharpoonup> addr list) \<Rightarrow> kernel \<Rightarrow> kernel \<Rightarrow> bool" where
  "quiet hw B Q s s' \<longleftrightarrow> keeps hw B Q s s' \<and> procs s' = procs s \<and> owners_kept s s' \<and> own_memory hw s s' \<and>
     (\<forall>a. pcb_kc (pcbs s' a) = pcb_kc (pcbs s a))"

definition handed :: "hw \<Rightarrow> addr set \<Rightarrow> (addr \<rightharpoonup> addr list) \<Rightarrow> kernel \<Rightarrow> kernel \<Rightarrow> bool" where
  "handed hw B Q s s' \<longleftrightarrow> keeps hw B Q s s' \<and> owners_kept s s' \<and> own_memory hw s s' \<and> waits_at s B (pcb_kc (the_pcb s' (running (procs s)))) \<and>
     (running (procs s) = idle_node s \<longrightarrow> pcb_kc (the_pcb s' (running (procs s))) = KC_Clock) \<and>
     (\<forall>a. a \<noteq> nd_data (nodes s (running (procs s))) \<longrightarrow> pcb_kc (pcbs s' a) = pcb_kc (pcbs s a))"

definition calm :: "hw \<Rightarrow> addr set \<Rightarrow> (addr \<rightharpoonup> addr list) \<Rightarrow> kernel \<Rightarrow> ('a outcome \<times> kernel) option \<Rightarrow> bool" where
  "calm hw B Q s m \<longleftrightarrow> (\<exists>r s'. m = Some (Ret r, s') \<and> quiet hw B Q s s') \<or> (\<exists>s'. m = Some (Switched, s') \<and> handed hw B Q s s')"

lemma keeps_refl: "sched_inv s Q B \<Longrightarrow> keeps hw B Q s s"
  by (simp add: keeps_def conserves_refl keeps_objects_def)

lemma keeps_trans:
  assumes "keeps hw B Q s s'" and "\<And>Q'. sched_inv s' Q' B \<Longrightarrow> keeps hw B Q' s' s''"
  shows "keeps hw B Q s s''"
proof -
  obtain Q' where Q': "sched_inv s' Q' B" using assms(1) by (auto simp: keeps_def conserves_def)
  have "conserves B Q s s''" by (rule conserves_trans [of B Q s s']) (use assms in \<open>simp_all add: keeps_def\<close>)
  with assms(1) assms(2) [OF Q'] show ?thesis by (simp add: keeps_def keeps_objects_def)
qed

lemma quiet_refl: "sched_inv s Q B \<Longrightarrow> quiet hw B Q s s"
  by (simp add: quiet_def keeps_refl owners_kept_same own_memory_same)

lemma quiet_trans:
  assumes "quiet hw B Q s s'" and "\<And>Q'. sched_inv s' Q' B \<Longrightarrow> quiet hw B Q' s' s''"
  shows "quiet hw B Q s s''"
proof -
  obtain Q' where Q': "sched_inv s' Q' B" using assms(1) by (auto simp: quiet_def keeps_def conserves_def)
  have "keeps hw B Q s s''" by (rule keeps_trans [of hw B Q s s']) (use assms in \<open>simp_all add: quiet_def\<close>)
  with assms(1) assms(2) [OF Q'] show ?thesis using owners_kept_trans [of s s' s''] own_memory_trans [of hw s s' s''] keeps_table [of hw B Q s s'] by (simp add: quiet_def)
qed

lemma keeps_same:
  assumes "quiet hw B Q s s'" and "keeps hw B Q s' s''"
  shows "keeps hw B Q s s''"
proof -
  have c: "conserves B Q s s'" "conserves B Q s' s''" "procs s' = procs s" using assms by (simp_all add: quiet_def keeps_def)
  then have i: "same_procs s s'" by (auto simp: conserves_def)
  with c(3) have "processes s' Q B = processes s Q B" by (simp add: processes_def same_procs_def)
  moreover obtain Q' where Q': "sched_inv s'' Q' B" "processes s'' Q' B = processes s' Q B" "\<forall>l. l \<notin> B \<longrightarrow> Q' l = Q l" "same_procs s' s''"
    using c(2) by (auto simp: conserves_def)
  ultimately have "conserves B Q s s''"
    unfolding conserves_def using same_procs_trans [OF i Q'(4)] by (intro exI [of _ Q']) simp
  with assms show ?thesis by (simp add: quiet_def keeps_def keeps_objects_def)
qed

lemma quiet_same: "quiet hw B Q s s' \<Longrightarrow> quiet hw B Q s' s'' \<Longrightarrow> quiet hw B Q s s''"
  using keeps_same [of hw B Q s s' s''] owners_kept_trans [of s s' s''] own_memory_trans [of hw s s' s''] keeps_table [of hw B Q s s']
  by (simp add: quiet_def)

lemma handed_before:
  assumes q: "quiet hw B Q s s'" and h: "handed hw B Q' s' s''" and "keeps hw B Q s s''"
  shows "handed hw B Q s s''"
proof -
  have i: "idle_node s' = idle_node s" using q by (auto simp: quiet_def keeps_def conserves_def same_procs_def)
  have o: "keeps_objects s s'" using q by (simp add: quiet_def keeps_def)
  have "nd_data (nodes s' a) = nd_data (nodes s a)" "nd_data (nodes s'' a) = nd_data (nodes s' a)" for a
    using o h by (simp_all add: keeps_objects_def handed_def keeps_def)
  with assms i objects_kept(3) [OF o] owners_kept_trans [of s s' s''] own_memory_trans [of hw s s' s''] keeps_table [of hw B Q s s']
  show ?thesis by (simp add: handed_def quiet_def)
qed

lemma handed_same: "quiet hw B Q s s' \<Longrightarrow> handed hw B Q s' s'' \<Longrightarrow> handed hw B Q s s''"
  by (rule handed_before) (auto simp: handed_def intro: keeps_same)

lemma handed_after:
  assumes "quiet hw B Q s s'" and "\<And>Q'. sched_inv s' Q' B \<Longrightarrow> handed hw B Q' s' s''"
  shows "handed hw B Q s s''"
proof -
  obtain Q' where Q': "sched_inv s' Q' B" using assms(1) by (auto simp: quiet_def keeps_def conserves_def)
  have "keeps hw B Q s s''" by (rule keeps_trans [of hw B Q s s']) (use assms in \<open>simp_all add: quiet_def handed_def\<close>)
  with assms(2) [OF Q'] show ?thesis by (rule handed_before [OF assms(1)])
qed

lemma calm_after:
  assumes "quiet hw B Q s s'" and "\<And>Q'. sched_inv s' Q' B \<Longrightarrow> calm hw B Q' s' m"
  shows "calm hw B Q s m"
proof -
  obtain Q' where "sched_inv s' Q' B" using assms(1) by (auto simp: quiet_def keeps_def conserves_def)
  from assms(2) [OF this] consider r s'' where "m = Some (Ret r, s'')" | s'' where "m = Some (Switched, s'')"
    by (auto simp: calm_def)
  then show ?thesis
  proof cases
    case 1
    with assms(2) have "\<And>Q'. sched_inv s' Q' B \<Longrightarrow> quiet hw B Q' s' s''" by (auto simp: calm_def)
    with quiet_trans [OF assms(1)] 1 show ?thesis by (auto simp: calm_def)
  next
    case 2
    with assms(2) have "\<And>Q'. sched_inv s' Q' B \<Longrightarrow> handed hw B Q' s' s''" by (auto simp: calm_def)
    with handed_after [OF assms(1)] 2 show ?thesis by (auto simp: calm_def)
  qed
qed

lemma calm_same: "quiet hw B Q s s' \<Longrightarrow> calm hw B Q s' m \<Longrightarrow> calm hw B Q s m"
  using quiet_same handed_same by (fastforce simp: calm_def)

lemma calm_ret: "quiet hw B Q s s' \<Longrightarrow> calm hw B Q s (Some (Ret r, s'))"
  by (auto simp: calm_def)

text \<open>Changes of user contexts, of counters and owners of locks, of bytes in memory.\<close>

lemma quiet_memory:
  fixes s s' :: kernel
  assumes "own_memory hw s s'" and "sched_inv s Q B" and "sched_inv s' Q B" and "procs s' = procs s" "idle_node s' = idle_node s" "ptbr1 s' = ptbr1 s"
    and "kernel_pt s' = kernel_pt s" "kstacks s' = kstacks s" and "\<And>a. live s' a = live s a"
    and "\<And>a. nd_data (nodes s' a) = nd_data (nodes s a)" and "\<And>a. l_blocked (locks s' a) = l_blocked (locks s a)"
    and "cvars s' = cvars s" "pilocvar s' = pilocvar s" "brk_next s' = brk_next s" "\<And>a. pcb_a_children (pcbs s' a) = pcb_a_children (pcbs s a)"
    and "owners_kept s s'" and "\<And>a. pcb_kc (pcbs s' a) = pcb_kc (pcbs s a) \<and> pcb_kstack (pcbs s' a) = pcb_kstack (pcbs s a) \<and> pcb_userpt (pcbs s' a) = pcb_userpt (pcbs s a)"
  shows "quiet hw B Q s s'"
  unfolding quiet_def keeps_def
  using assms by (auto simp: conserves_def same_procs_def processes_def keeps_objects_def on_own_tables_def intro!: exI [of _ Q])

lemma quietI:
  fixes s s' :: kernel
  assumes "sched_inv s Q B" and "sched_inv s' Q B" and "procs s' = procs s" "idle_node s' = idle_node s" "ptbr1 s' = ptbr1 s"
    and "kernel_pt s' = kernel_pt s" "kstacks s' = kstacks s" and "\<And>a. live s' a = live s a"
    and "\<And>a. nd_data (nodes s' a) = nd_data (nodes s a)" and "\<And>a. l_blocked (locks s' a) = l_blocked (locks s a)"
    and "cvars s' = cvars s" "pilocvar s' = pilocvar s" "brk_next s' = brk_next s" "\<And>a. pcb_a_children (pcbs s' a) = pcb_a_children (pcbs s a)"
    and "owners_kept s s'" and "\<And>a. pcb_kc (pcbs s' a) = pcb_kc (pcbs s a) \<and> pcb_kstack (pcbs s' a) = pcb_kstack (pcbs s a) \<and> pcb_userpt (pcbs s' a) = pcb_userpt (pcbs s a)"
    and "upts s' = upts s" "free_frame s' = free_frame s" "pmem s' = pmem s"
  shows "quiet hw B Q s s'"
  by (rule quiet_memory [OF own_memory_same]) (use assms in simp_all)

lemma quiet_links:
  fixes s s' :: kernel
  assumes "links_only s s'" and "conserves B Q s s'"
  shows "quiet hw B Q s s'"
proof -
  note F = links_sched_frame [OF assms(1)] and L = links_onlyD [OF assms(1)] and O = frame_objects [OF links_sched_frame(1) [OF assms(1)]]
  obtain N H where "s' = s\<lparr>nodes := N, lls := H\<rparr>" using assms(1) by (auto simp: links_only_def)
  then have "pcbs s' = pcbs s" "ptbr1 s' = ptbr1 s" "kernel_pt s' = kernel_pt s" "kstacks s' = kstacks s"
      "upts s' = upts s" "free_frame s' = free_frame s" "pmem s' = pmem s" "brk_next s' = brk_next s" by simp_all
  with assms(2) F(2) L(1,4) O own_memory_same [of s' s] show ?thesis by (simp add: quiet_def keeps_def keeps_objects_def on_own_tables_def owners_kept_def)
qed

lemma handed_switched:
  fixes s s' :: kernel
  assumes sw: "switched hw kc s s' n" and c: "conserves B Q s s'" and kc: "waits_at s B kc"
    and idle: "running (procs s) = idle_node s \<Longrightarrow> kc = KC_Clock"
  shows "handed hw B Q s s'"
proof -
  have f: "sched_frame hw s s'" "running (procs s') = n" using sw by (simp_all add: switched_def)
  note F = sched_frameD [OF f(1)] and O = frame_objects [OF f(1)] and P = sched_frame_pcb [OF f(1)]
  have e: "kstacks s' = kstacks s" "brk_next s' = brk_next s" using f(1) by (simp_all add: sched_frame_def)
  have "pcb_a_children (pcbs s' a) = pcb_a_children (pcbs s a)" for a using sw by (simp add: switched_def)
  then have "keeps_objects s s'" using F O e by (simp add: keeps_objects_def)
  moreover have "on_own_tables hw s'" using sw F(2) P f(2) e by (simp add: on_own_tables_def switched_def)
  moreover have k: "pcb_kc (the_pcb s' (running (procs s))) = kc" using sw F(2) by (simp add: switched_def)
  moreover have "\<forall>a. a \<noteq> nd_data (nodes s (running (procs s))) \<longrightarrow> pcb_kc (pcbs s' a) = pcb_kc (pcbs s a)" using sw by (simp add: switched_def)
  moreover have "owners_kept s s'" using O by (simp add: owners_kept_same)
  moreover have "own_memory hw s s'" using f(1) F(1) by (intro own_memory_same) (simp_all add: sched_frame_def live_def)
  ultimately show ?thesis using c kc idle unfolding handed_def keeps_def k by blast
qed

lemma block_handed:
  fixes s :: kernel
  assumes hw: "hw_ok hw" and inv: "sched_inv s Q B" and l: "l \<in> B" and run: "running (procs s) \<noteq> idle_node s" and kc: "waits_at s B kc"
  shows "\<exists>s'. block hw kc l s = Some s' \<and> handed hw B Q s s'"
proof -
  obtain s' where s': "block hw kc l s = Some s'" "switched hw kc s s' (next_up s (Q(l \<mapsto> the (Q l) @ [running (procs s)])))"
      "sched_inv s' (dispatch (ready_ll (procs s)) (Q(l \<mapsto> the (Q l) @ [running (procs s)]))) B"
    using block_ok [OF hw inv l run] by blast
  have "conserves B Q s s'" by (rule put_conserves [OF inv l run _ s'(2,3)]) simp
  from handed_switched [OF s'(2) this kc] run s'(1) show ?thesis by blast
qed

section \<open>Handlers\<close>

lemma quiet_upd_uc:
  fixes s :: kernel
  assumes "sched_inv s Q B"
  shows "quiet hw B Q s (s\<lparr>pcbs := (pcbs s)(a := (pcbs s a)\<lparr>pcb_uc := u\<rparr>)\<rparr>)"
proof (rule quietI [OF assms])
  have "extends s (s\<lparr>pcbs := (pcbs s)(a := (pcbs s a)\<lparr>pcb_uc := u\<rparr>)\<rparr>)" by (simp add: extends_def live_def)
  then show "sched_inv (s\<lparr>pcbs := (pcbs s)(a := (pcbs s a)\<lparr>pcb_uc := u\<rparr>)\<rparr>) Q B" by (rule sched_inv_extends [OF assms])
qed (simp_all add: live_def owners_kept_same)

lemma quiet_locks:
  fixes s :: kernel
  assumes "sched_inv s Q B" and "\<And>a. l_blocked (L a) = l_blocked (locks s a)" and "owners_kept s (s\<lparr>locks := L\<rparr>)"
  shows "quiet hw B Q s (s\<lparr>locks := L\<rparr>)"
  by (rule quietI [OF assms(1)]) (use assms in \<open>simp_all add: live_def\<close>)

lemma calm_leave:
  fixes s :: kernel
  assumes "sched_inv s Q B"
  shows "calm hw B Q s (leave s)"
  using sched_invD(4) [OF assms] quiet_refl [OF assms] by (auto simp: leave_def restore_uc_def pcb_of_def proc_ok_def calm_def)

lemma calm_leave_with:
  fixes s :: kernel
  assumes inv: "sched_inv s Q B"
  shows "calm hw B Q s (leave_with r s)"
proof -
  let ?p = "nd_data (nodes s (running (procs s)))"
  let ?s = "s\<lparr>pcbs := (pcbs s)(?p := (pcbs s ?p)\<lparr>pcb_uc := set_reg0 r (pcb_uc (pcbs s ?p))\<rparr>)\<rparr>"
  have "add_return_val r s = Some ?s" using sched_invD(4) [OF inv] by (simp add: add_return_val_def proc_ok_def)
  then have e: "leave_with r s = leave ?s" by (simp add: leave_with_def)
  show ?thesis unfolding e by (rule calm_after [OF quiet_upd_uc [OF inv]]) (rule calm_leave)
qed

lemma calm_after_call:
  assumes "calm hw B Q s m"
  shows "calm hw B Q s (do { (res, s) \<leftarrow> m; after_call res s })"
proof -
  consider r s' where "m = Some (Ret r, s')" "quiet hw B Q s s'" | s' where "m = Some (Switched, s')" "handed hw B Q s s'"
    using assms by (auto simp: calm_def)
  then show ?thesis
  proof cases
    case 1
    then show ?thesis using calm_after [OF 1(2), of "leave_with r s'"] calm_leave_with by (simp add: after_call_def)
  next
    case 2
    then show ?thesis by (simp add: calm_def after_call_def)
  qed
qed

text \<open>The loop of \<open>acquire\<close>, also on the way back from a condition variable.\<close>

lemma acquire_loop_calm:
  fixes s :: kernel
  assumes hw: "hw_ok hw" and inv: "sched_inv s Q B" and l: "lock_ok s B lock" and run: "running (procs s) \<noteq> idle_node s" and kc: "waits_at s B kc"
  shows "calm hw B Q s (acquire_loop hw kc lock s)"
proof (cases "l_owner (locks s lock) = NULL \<or> l_owner (locks s lock) = running (procs s)")
  case True
  then have "acquire_loop hw kc lock s = Some (Ret 0, s\<lparr>locks := (locks s)(lock := (locks s lock)\<lparr>l_owner := running (procs s)\<rparr>)\<rparr>)"
    using l by (intro acquire_loop_free) (simp_all add: lock_ok_def)
  then show ?thesis using True by (auto intro!: calm_ret quiet_locks [OF inv] simp: owners_kept_def)
next
  case False
  obtain s' where "block hw kc (l_blocked (locks s lock)) s = Some s'" "handed hw B Q s s'"
    using block_handed [OF hw inv _ run kc, of "l_blocked (locks s lock)"] l by (auto simp: lock_ok_def)
  with False l show ?thesis by (auto simp: acquire_loop_def lock_ok_def calm_def)
qed

lemma wait_cvar_acquire_calm:
  fixes s :: kernel
  assumes hw: "hw_ok hw" and inv: "sched_inv s Q B" and l: "lock_ok s B lock" and run: "running (procs s) \<noteq> idle_node s"
  shows "calm hw B Q s (wait_cvar_acquire hw lock lock s)"
proof -
  have "calm hw B Q s (acquire_loop hw (KC_CvarAcquire lock lock) lock s)"
    using acquire_loop_calm [OF hw inv l run] l by simp
  then consider r s' where "acquire_loop hw (KC_CvarAcquire lock lock) lock s = Some (Ret r, s')" "quiet hw B Q s s'"
    | s' where "acquire_loop hw (KC_CvarAcquire lock lock) lock s = Some (Switched, s')" "handed hw B Q s s'" by (auto simp: calm_def)
  then show ?thesis
  proof cases
    case 1
    have "live s' lock" using 1(2) l by (simp add: quiet_def keeps_def keeps_objects_def lock_ok_def)
    then have "wait_cvar_acquire hw lock lock s = Some (Ret 0, s'\<lparr>locks := (locks s')(lock := (locks s' lock)\<lparr>l_cvar := l_cvar (locks s' lock) - 1\<rparr>)\<rparr>)"
      using 1(1) by (simp add: wait_cvar_acquire_def)
    then show ?thesis by (auto intro!: calm_ret quiet_trans [OF 1(2)] quiet_locks simp: owners_kept_def)
  next
    case 2
    then show ?thesis by (simp add: wait_cvar_acquire_def calm_def)
  qed
qed

lemma members_wake1:
  assumes "sched_inv s Q B" and "l \<in> B" and "l \<noteq> ready_ll (procs s)"
  shows "members (wake1 (ready_ll (procs s)) l Q) B = members Q B" and "m \<notin> B \<Longrightarrow> wake1 (ready_ll (procs s)) l Q m = Q m"
proof -
  note M = sched_midD [OF sched_invD(1) [OF assms(1)]]
  show "m \<notin> B \<Longrightarrow> wake1 (ready_ll (procs s)) l Q m = Q m"
    using assms(2) M(5) by (auto simp: wake1_def split: option.splits list.splits)
  have Ql: "Q l = Some (the (Q l))" by (rule M(10) [OF assms(2)])
  show "members (wake1 (ready_ll (procs s)) l Q) B = members Q B"
  proof (cases "the (Q l)")
    case Nil
    with Ql have "Q l = Some []" by simp
    then show ?thesis by (simp add: wake1_def)
  next
    case (Cons n ys)
    with Ql have q: "Q l = Some (n # ys)" by simp
    have "members (Q(l \<mapsto> ys, ready_ll (procs s) \<mapsto> ready_of s Q @ [n])) B = members Q B"
      by (rule members_move [OF assms(2) M(5) assms(3), where ys = "[n]"]) (simp_all add: q)
    then show ?thesis by (simp add: wake1_def q)
  qed
qed

lemma release_quiet:
  fixes s :: kernel
  assumes inv: "sched_inv s Q B" and n: "live s lock_n" and l: "lock_ok s B (nd_data (nodes s lock_n))"
  shows "\<exists>r s'. release hw lock_n s = Some (r, s') \<and> quiet hw B Q s s'"
proof -
  define lock where "lock = nd_data (nodes s lock_n)"
  obtain r s' where s': "release hw lock_n s = Some (r, s')" "links_only (s\<lparr>locks := locks s'\<rparr>) s'" "sched_inv s' (released s Q lock) B"
      "\<forall>a. a \<noteq> lock \<longrightarrow> locks s' a = locks s a" "l_blocked (locks s' lock) = l_blocked (locks s lock)"
      "l_owner (locks s' lock) = (if l_owner (locks s lock) = running (procs s) then NULL else l_owner (locks s lock))"
    using release_any [OF inv n l, of hw] unfolding lock_def by blast
  have lb: "l_blocked (locks s' a) = l_blocked (locks s a)" for a using s'(4,5) by (cases "a = lock") simp_all
  let ?s = "s\<lparr>locks := locks s'\<rparr>"
  have "l_owner (locks s' a) = l_owner (locks s a) \<or> l_owner (locks s' a) = NULL \<and> l_owner (locks s a) = running (procs s)" for a
    using s'(4,6) by (cases "a = lock") auto
  then have q1: "quiet hw B Q s ?s" by (intro quiet_locks [OF inv lb]) (auto simp: owners_kept_def)
  have m: "members (released s Q lock) B = members Q B" "a \<notin> B \<Longrightarrow> released s Q lock a = Q a" for a
    using members_wake1 [OF inv, of "l_blocked (locks s lock)"] l by (auto simp: released_def lock_ok_def lock_def)
  have "conserves B Q ?s s'" by (rule conserves_links [OF s'(2,3) m])
  from quiet_same [OF q1 quiet_links [OF s'(2) this]] s'(1) show ?thesis by blast
qed

section \<open>System calls\<close>

text \<open>Every node in the tables of locks and condition variables leads to one.\<close>

definition tables_ok :: "kernel \<Rightarrow> (addr \<rightharpoonup> addr list) \<Rightarrow> addr set \<Rightarrow> bool" where
  "tables_ok s Q B \<longleftrightarrow>
     (\<exists>ls. Q (plc_lock (pilocvar s)) = Some ls \<and> (\<forall>n\<in>set ls. lock_ok s B (nd_data (nodes s n)))) \<and> plc_lock (pilocvar s) \<notin> B \<and>
     (\<exists>cs. Q (plc_cvar (pilocvar s)) = Some cs \<and> (\<forall>n\<in>set cs. cvar_ok s B (nd_data (nodes s n)))) \<and> plc_cvar (pilocvar s) \<notin> B \<and>
     Q (plc_pipe (pilocvar s)) \<noteq> None \<and> plc_pipe (pilocvar s) \<notin> B \<and> distinct [plc_pipe (pilocvar s), plc_lock (pilocvar s), plc_cvar (pilocvar s)]"

lemma tables_kept:
  assumes "tables_ok s Q B" and "keeps_objects s s'" and "\<And>l. l \<notin> B \<Longrightarrow> Q' l = Q l"
  shows "tables_ok s' Q' B"
  using assms by (simp add: tables_ok_def objects_kept [OF assms(2)]) (simp add: keeps_objects_def)

lemma named_mem: "Q tab = Some xs \<Longrightarrow> named s Q tab i \<noteq> NULL \<Longrightarrow> named s Q tab i \<in> set xs"
  by (auto simp: named_def dest!: find_Some_split split: option.splits)

lemma find_object:
  assumes inv: "sched_inv s Q B" and tabs: "tables_ok s Q B"
  shows "\<exists>n. find_lock i s = Some n \<and> (n \<noteq> NULL \<longrightarrow> live s n \<and> lock_ok s B (nd_data (nodes s n)))"
    and "\<exists>n. find_cvar i s = Some n \<and> (n \<noteq> NULL \<longrightarrow> live s n \<and> cvar_ok s B (nd_data (nodes s n)))"
proof -
  note L = sched_invD(3) [OF inv]
  obtain ls cs where t: "Q (plc_lock (pilocvar s)) = Some ls" "\<forall>n\<in>set ls. lock_ok s B (nd_data (nodes s n))"
      "Q (plc_cvar (pilocvar s)) = Some cs" "\<forall>n\<in>set cs. cvar_ok s B (nd_data (nodes s n))" using tabs by (auto simp: tables_ok_def)
  have q: "Q (plc_lock (pilocvar s)) \<noteq> None" "Q (plc_cvar (pilocvar s)) \<noteq> None" using t by simp_all
  show "\<exists>n. find_lock i s = Some n \<and> (n \<noteq> NULL \<longrightarrow> live s n \<and> lock_ok s B (nd_data (nodes s n)))"
    using find_named [OF L q(1), of i] named_mem [of Q "plc_lock (pilocvar s)" ls s i, OF t(1)] named_live [OF L q(1)] t(2) by (auto simp: find_lock_def)
  show "\<exists>n. find_cvar i s = Some n \<and> (n \<noteq> NULL \<longrightarrow> live s n \<and> cvar_ok s B (nd_data (nodes s n)))"
    using find_named [OF L q(2), of i] named_mem [of Q "plc_cvar (pilocvar s)" cs s i, OF t(3)] named_live [OF L q(2)] t(4) by (auto simp: find_cvar_def)
qed

lemma lock_calls_calm:
  fixes s :: kernel
  assumes hw: "hw_ok hw" and inv: "sched_inv s Q B" and tabs: "tables_ok s Q B" and run: "running (procs s) \<noteq> idle_node s"
  shows "calm hw B Q s (KernelAcquire hw i s)" and "calm hw B Q s (returns (KernelRelease hw i s))"
proof -
  obtain n where n: "find_lock i s = Some n" "n \<noteq> NULL \<longrightarrow> live s n \<and> lock_ok s B (nd_data (nodes s n))" using find_object(1) [OF inv tabs] by blast
  have r: "calm hw B Q s (Some (Ret r, s))" for r :: int by (rule calm_ret [OF quiet_refl [OF inv]])
  show "calm hw B Q s (KernelAcquire hw i s)"
  proof (cases "n = NULL")
    case False
    with n have l: "live s n" "lock_ok s B (nd_data (nodes s n))" by simp_all
    then show ?thesis using acquire_loop_calm [OF hw inv l(2) run, of "KC_Acquire (nd_data (nodes s n))"] n(1) False
      by (simp add: KernelAcquire_def acquire_def rd_node_def)
  qed (use n r in \<open>simp add: KernelAcquire_def\<close>)
  show "calm hw B Q s (returns (KernelRelease hw i s))"
  proof (cases "n = NULL")
    case False
    with n obtain r s' where "release hw n s = Some (r, s')" "quiet hw B Q s s'" using release_quiet [OF inv] by blast
    with n False show ?thesis by (auto simp: KernelRelease_def returns_def intro: calm_ret)
  qed (use n r in \<open>simp add: KernelRelease_def returns_def\<close>)
qed

lemma wakes_calm:
  fixes s :: kernel
  assumes inv: "sched_inv s Q B" and tabs: "tables_ok s Q B"
  shows "calm hw B Q s (returns (KernelCvarSignal hw i s))" and "calm hw B Q s (returns (KernelCvarBroadcast hw i s))"
proof -
  obtain n where n: "find_cvar i s = Some n" "n \<noteq> NULL \<longrightarrow> live s n \<and> cvar_ok s B (nd_data (nodes s n))" using find_object(2) [OF inv tabs] by blast
  have r: "calm hw B Q s (Some (Ret r, s))" for r :: int by (rule calm_ret [OF quiet_refl [OF inv]])
  define wq where "wq = c_blocked (cvars s (nd_data (nodes s n)))"
  show "calm hw B Q s (returns (KernelCvarSignal hw i s))"
  proof (cases "n = NULL")
    case False
    with n have c: "live s n" "live s (nd_data (nodes s n))" "wq \<in> B" "wq \<noteq> ready_ll (procs s)" by (simp_all add: cvar_ok_def wq_def)
    obtain e s' where s': "is_empty wq s = Some e" "(if e = 0 then unblock_head wq s else Some s) = Some s'" "links_only s s'"
        "sched_inv s' (wake1 (ready_ll (procs s)) wq Q) B"
      using wq.wake_head_if_any [OF inv c(3,4)] by blast
    have "quiet hw B Q s s'" by (rule quiet_links [OF s'(3)]) (rule conserves_links [OF s'(3,4) members_wake1 [OF inv c(3,4)]])
    with s' n False c(1,2) show ?thesis
      by (auto simp: KernelCvarSignal_def signal_cvar_def returns_def wq_def intro: calm_ret)
  qed (use n r in \<open>simp add: KernelCvarSignal_def returns_def\<close>)
  show "calm hw B Q s (returns (KernelCvarBroadcast hw i s))"
  proof (cases "n = NULL")
    case False
    with n have c: "live s n" "live s (nd_data (nodes s n))" "wq \<in> B" "wq \<noteq> ready_ll (procs s)" by (simp_all add: cvar_ok_def wq_def)
    obtain e where e: "is_empty wq s = Some e" using wq.wake_each_if_any [OF inv c(3,4)] by blast
    obtain s' where s': "unblock_all wq s = Some s'" "conserves B Q s s'" "links_only s s'"
      using wake_conserves(2) [OF inv c(3,4)] unblock_all_ok [OF inv c(3,4) sched_midD(10) [OF sched_invD(1) [OF inv] c(3)]] by auto
    then have "quiet hw B Q s s'" by (intro quiet_links)
    with e s' n False c(1,2) quiet_refl [OF inv, of hw] show ?thesis
      by (auto simp: KernelCvarBroadcast_def broadcast_def returns_def wq_def intro!: calm_ret)
  qed (use n r in \<open>simp add: KernelCvarBroadcast_def returns_def\<close>)
qed

lemma cvar_wait_calm:
  fixes s :: kernel
  assumes hw: "hw_ok hw" and inv: "sched_inv s Q B" and tabs: "tables_ok s Q B" and run: "running (procs s) \<noteq> idle_node s"
  shows "calm hw B Q s (KernelCvarWait hw c i s)"
proof -
  obtain ln cn where n: "find_lock i s = Some ln" "ln \<noteq> NULL \<longrightarrow> live s ln \<and> lock_ok s B (nd_data (nodes s ln))"
      "find_cvar c s = Some cn" "cn \<noteq> NULL \<longrightarrow> live s cn \<and> cvar_ok s B (nd_data (nodes s cn))" using find_object [OF inv tabs] by meson
  show ?thesis
  proof (cases "ln = NULL \<or> cn = NULL")
    case True
    with n have "KernelCvarWait hw c i s = Some (Ret (ERROR hw), s)" by (auto simp: KernelCvarWait_def)
    then show ?thesis using calm_ret [OF quiet_refl [OF inv]] by simp
  next
    case False
    define lock where "lock = nd_data (nodes s ln)"
    define wq where "wq = c_blocked (cvars s (nd_data (nodes s cn)))"
    have l: "live s ln" "lock_ok s B lock" "live s cn" "cvar_ok s B (nd_data (nodes s cn))" using n False by (simp_all add: lock_def)
    obtain r s1 where s1: "release hw ln s = Some (r, s1)" "quiet hw B Q s s1" using release_quiet [OF inv l(1)] l(2) unfolding lock_def by blast
    let ?s2 = "s1\<lparr>locks := (locks s1)(lock := (locks s1 lock)\<lparr>l_cvar := l_cvar (locks s1 lock) + 1\<rparr>)\<rparr>"
    have q2: "quiet hw B Q s ?s2" by (rule quiet_trans [OF s1(2)]) (rule quiet_locks, simp_all add: owners_kept_def)
    have o: "keeps_objects s s1" "keeps_objects s ?s2" using s1(2) q2 by (simp_all add: quiet_def keeps_def)
    have w: "wq \<in> B" "live s1 lock" "live ?s2 (nd_data (nodes s cn))" "cvars ?s2 = cvars s" using l o by (simp_all add: cvar_ok_def wq_def lock_ok_def keeps_objects_def)
    have k: "waits_at ?s2 B (KC_CvarWait ln lock)" using l objects_kept(3) [OF o(2), of B "KC_CvarWait ln lock"] by (simp add: lock_def)
    have idle: "running (procs ?s2) \<noteq> idle_node ?s2" using run q2 by (auto simp: quiet_def keeps_def conserves_def same_procs_def)
    have c: "calm hw B Q' ?s2 (do { t \<leftarrow> block hw (KC_CvarWait ln lock) wq ?s2; Some (Switched, t) })" if "sched_inv ?s2 Q' B" for Q'
      using block_handed [OF hw that w(1) idle k] by (auto simp: calm_def)
    have e: "KernelCvarWait hw c i s = (do { t \<leftarrow> block hw (KC_CvarWait ln lock) wq ?s2; Some (Switched, t) })"
      using n False l s1(1) w by (simp add: KernelCvarWait_def wait_cvar_def Let_def wq_def flip: lock_def)
    show ?thesis unfolding e by (rule calm_after [OF q2]) (rule c)
  qed
qed

lemma delay_calm:
  fixes s :: kernel
  assumes hw: "hw_ok hw" and inv: "sched_inv s Q B" and run: "running (procs s) \<noteq> idle_node s"
  shows "calm hw B Q s (KernelDelay hw t s)"
proof (cases "t > 0")
  case True
  let ?s = "relabel ((code_in s)(running (procs s) := t)) s"
  note M = sched_midD [OF sched_invD(1) [OF inv]]
  have e: "block_delay hw KC_Delay t s = block hw KC_Delay (delayed_ll (procs s)) ?s"
    using proc_okD(1) [OF M(2)] by (simp add: block_delay_def upd_code)
  have "sched_inv ?s Q B" using inv by simp
  then have q: "quiet hw B Q s ?s" by (rule quietI [OF inv]) (simp_all add: relabel_def live_def owners_kept_def)
  have "calm hw B Q' ?s (do { s \<leftarrow> block hw KC_Delay (delayed_ll (procs s)) ?s; Some (Switched, s) })" if "sched_inv ?s Q' B" for Q'
    using block_handed [OF hw that, of "delayed_ll (procs s)" KC_Delay] M(7) run by (auto simp: calm_def)
  from calm_after [OF q this] True show ?thesis by (simp add: KernelDelay_def e)
next
  case False
  then show ?thesis by (auto simp: KernelDelay_def intro: calm_ret quiet_refl [OF inv])
qed

text \<open>An operation on the table of the running process alone.\<close>

lemma quiet_table_only:
  fixes s s' :: kernel
  assumes inv: "sched_inv s Q B" and t: "table_only hw (table_of s (running (procs s))) s s'" and r: "region_ok hw (table_of s (running (procs s))) s'"
  shows "quiet hw B Q s s'"
proof -
  note T = table_onlyD [OF t]
  obtain U ff where s': "s' = s\<lparr>upts := U, free_frame := ff\<rparr>" using T(1) by blast
  have "own_memory hw s s'" using T(2-4) r region_okD(1) [OF r] by (simp add: own_memory_def Let_def) (simp add: s')
  moreover have "sched_inv s' Q B" using inv sched_inv_alike [of s' s Q B] by (simp add: s')
  ultimately show ?thesis by (intro quiet_memory [OF _ inv]) (simp_all add: s' live_def owners_kept_def)
qed

lemma brk_calm:
  fixes s :: kernel
  assumes hw: "hw_ok hw" and inv: "sched_inv s Q B" and ok: "region_ok hw (table_of s (running (procs s))) s" and int32: "ff_size (free_frame s) < 2 ^ 31"
  shows "calm hw B Q s (returns (KernelUserBrk hw a s))"
proof -
  let ?up = "table_of s (running (procs s))"
  note p = sched_invD(4) [OF inv] and up = table_of_def [symmetric, of s "running (procs s)"]
  have "\<exists>r s'. KernelUserBrk hw a s = Some (r, s') \<and> (s' = s \<or> table_only hw ?up s s' \<and> region_ok hw ?up s')"
  proof (cases "brk_window hw (upts s ?up) a")
    case w: True
    consider "frames_left (free_frame s) < page_index hw (UP_TO_PAGE hw a) - heap_end hw (upts s ?up)"
      | "heap_end hw (upts s ?up) < page_index hw (UP_TO_PAGE hw a)"
        "page_index hw (UP_TO_PAGE hw a) - heap_end hw (upts s ?up) \<le> frames_left (free_frame s)"
      | "page_index hw (UP_TO_PAGE hw a) \<le> heap_end hw (upts s ?up)" by linarith
    then show ?thesis
    proof cases
      case 1
      then show ?thesis using user_brk_no_frames [OF hw p up ok w int32] by blast
    next
      case 2
      then show ?thesis using user_brk_grow [OF hw p up ok w _ _ int32] by blast
    next
      case 3
      then show ?thesis using user_brk_shrink [OF hw p up ok w] by blast
    qed
  next
    case False
    have "live s ?up" using region_okD(1) [OF ok] by (simp add: u_inv_def)
    then show ?thesis using user_brk_refused [OF p up _ False] by blast
  qed
  then show ?thesis using quiet_table_only [OF inv] quiet_refl [OF inv, of hw] by (fastforce simp: returns_def intro: calm_ret)
qed

section \<open>Traps\<close>

text \<open>The system calls of this machine.\<close>

definition calm_calls :: "syscall set" where
  "calm_calls = {YALNIX_GETPID, YALNIX_DELAY, YALNIX_LOCK_ACQUIRE, YALNIX_LOCK_RELEASE, YALNIX_CVAR_SIGNAL,
     YALNIX_CVAR_BROADCAST, YALNIX_CVAR_WAIT, YALNIX_BRK}"

lemma code_of_eq: "hw_ok hw \<Longrightarrow> code_of hw c = code_of hw d \<longleftrightarrow> c = d"
  by (auto simp: hw_ok_def dest: injD)

lemma syscall_switch_calm:
  fixes s :: kernel
  assumes hw: "hw_ok hw" and inv: "sched_inv s Q B" and tabs: "tables_ok s Q B" and run: "running (procs s) \<noteq> idle_node s"
    and mem: "region_ok hw (table_of s (running (procs s))) s" "ff_size (free_frame s) < 2 ^ 31"
    and c: "uc_code uc = code_of hw c" "c \<in> calm_calls"
  shows "calm hw B Q s (syscall_switch hw uc s)"
proof -
  have p: "KernelGetPid s = Some (pcb_pid (the_pcb s (running (procs s))))"
    using sched_invD(4) [OF inv] by (simp add: KernelGetPid_def get_pid_def pcb_of_def proc_ok_def)
  have g: "calm hw B Q s (do { r \<leftarrow> KernelGetPid s; Some (Ret r, s) })" by (simp add: p calm_ret [OF quiet_refl [OF inv]])
  from c(2) show ?thesis
    unfolding calm_calls_def
    using g lock_calls_calm [OF hw inv tabs run] wakes_calm [OF inv tabs] cvar_wait_calm [OF hw inv tabs run] delay_calm [OF hw inv run]
      brk_calm [OF hw inv mem]
    by (auto simp: syscall_switch_def Let_def c(1) code_of_eq [OF hw])
qed

lemma save_uc_eq:
  assumes "proc_ok s (running (procs s))"
  defines "p \<equiv> nd_data (nodes s (running (procs s)))"
  shows "save_uc uc s = Some (s\<lparr>pcbs := (pcbs s)(p := (pcbs s p)\<lparr>pcb_uc := uc\<rparr>)\<rparr>)"
  using assms by (simp add: save_uc_def proc_ok_def)

lemma trap_kernel_calm:
  fixes s :: kernel
  assumes hw: "hw_ok hw" and inv: "sched_inv s Q B" and tabs: "tables_ok s Q B" and run: "running (procs s) \<noteq> idle_node s"
    and mem: "region_ok hw (table_of s (running (procs s))) s" "ff_size (free_frame s) < 2 ^ 31"
    and c: "uc_code uc = code_of hw c" "c \<in> calm_calls"
  shows "calm hw B Q s (TrapKernel hw uc s)"
proof -
  let ?p = "nd_data (nodes s (running (procs s)))"
  define t where "t = s\<lparr>pcbs := (pcbs s)(?p := (pcbs s ?p)\<lparr>pcb_uc := uc\<rparr>)\<rparr>"
  have q: "quiet hw B Q s t" unfolding t_def by (rule quiet_upd_uc [OF inv])
  have t: "running (procs t) \<noteq> idle_node t" "keeps_objects s t" using run q by (simp_all add: t_def quiet_def keeps_def)
  have i: "sched_inv t Q B" by (rule sched_inv_extends [OF inv]) (simp add: t_def extends_def live_def)
  have "c \<noteq> YALNIX_EXEC" using c(2) by (auto simp: calm_calls_def)
  then have e: "TrapKernel hw uc s = (do { (res, s) \<leftarrow> syscall_switch hw uc t; after_call res s })"
    using save_uc_eq [OF sched_invD(4) [OF inv], of uc] by (simp add: TrapKernel_def c(1) code_of_eq [OF hw] t_def)
  have tt: "tables_ok t Q B" by (rule tables_kept [OF tabs t(2)]) simp
  have m: "region_ok hw (table_of t (running (procs t))) t" "ff_size (free_frame t) < 2 ^ 31"
    using mem region_ok_alike [of t s hw] by (simp_all add: t_def table_of_def)
  have "calm hw B Q t (TrapKernel hw uc s)"
    unfolding e by (rule calm_after_call) (rule syscall_switch_calm [OF hw i tt t(1) m c])
  then show ?thesis by (rule calm_same [OF q])
qed

lemma trap_clock_calm:
  fixes s :: kernel
  assumes hw: "hw_ok hw" and inv: "sched_inv s Q B"
  shows "calm hw B Q s (TrapClock hw uc s)"
proof -
  let ?p = "nd_data (nodes s (running (procs s)))"
  define t where "t = s\<lparr>pcbs := (pcbs s)(?p := (pcbs s ?p)\<lparr>pcb_uc := uc\<rparr>)\<rparr>"
  have q: "quiet hw B Q s t" unfolding t_def by (rule quiet_upd_uc [OF inv])
  have i: "sched_inv t Q B" by (rule sched_inv_extends [OF inv]) (simp add: t_def extends_def live_def)
  obtain f t' Q' where t': "check_delay t = Some t'" "links_only (relabel f t) t'" "sched_inv t' Q' B" "members Q' B = members Q B"
      "\<forall>l. l \<notin> B \<longrightarrow> Q' l = Q l"
    using check_delay_woken [OF i] by blast
  have i': "sched_inv (relabel f t) Q B" using i by simp
  have "quiet hw B Q t (relabel f t)" by (rule quietI [OF i i']) (simp_all add: relabel_def live_def owners_kept_def)
  moreover have "quiet hw B Q (relabel f t) t'" by (rule quiet_links [OF t'(2)]) (rule conserves_links [OF t'(2,3)], use t'(4,5) in simp_all)
  ultimately have q': "quiet hw B Q s t'" by (rule quiet_same [OF q quiet_same])
  have "calm hw B R t' (do { (res, s) \<leftarrow> rr_preempt hw KC_Clock t'; case res of Ret _ \<Rightarrow> leave s | _ \<Rightarrow> Some (Switched, s) })"
    if R: "sched_inv t' R B" for R
  proof (cases "ready_of t' R")
    case Nil
    then show ?thesis using rr_preempt_ok(1) [OF hw R] calm_leave [OF R] by simp
  next
    case (Cons n ns)
    obtain s' where s': "rr_preempt hw KC_Clock t' = Some (Switched, s')" "switched hw KC_Clock t' s' n"
      using rr_preempt_ok(2) [OF hw R Cons] by blast
    moreover have "conserves B R t' s'" using preempt_conserves [OF hw R, of KC_Clock] s'(1) by simp
    ultimately show ?thesis using handed_switched by (auto simp: calm_def)
  qed
  from calm_after [OF q' this] show ?thesis
    using save_uc_eq [OF sched_invD(4) [OF inv], of uc] t'(1) by (simp add: TrapClock_def t_def)
qed

text \<open>A fault that the kernel handles by growing the stack: between heap and stack, with enough frames left.\<close>

definition stack_fault :: "hw \<Rightarrow> kernel \<Rightarrow> user_context \<Rightarrow> bool" where
  "stack_fault hw s uc \<longleftrightarrow> (let u = upts s (ptbr1 s) in stack_window hw u (uc_addr uc) \<and>
     stack_start hw u - page_index hw (uc_addr uc) \<le> frames_left (free_frame s))"

lemma trap_memory_calm:
  fixes s :: kernel
  assumes hw: "hw_ok hw" and inv: "sched_inv s Q B" and own: "on_own_tables hw s" and ok: "region_ok hw (table_of s (running (procs s))) s"
    and w: "stack_fault hw s uc"
  shows "\<exists>s'. TrapMemory hw uc s = Some (Ret uc, s') \<and> quiet hw B Q s s'"
proof -
  let ?p = "nd_data (nodes s (running (procs s)))" and ?up = "table_of s (running (procs s))"
  define t where "t = s\<lparr>pcbs := (pcbs s)(?p := (pcbs s ?p)\<lparr>pcb_uc := uc\<rparr>)\<rparr>"
  note p = sched_invD(4) [OF inv] and up = table_of_def [symmetric, of s "running (procs s)"]
  have q: "quiet hw B Q s t" unfolding t_def by (rule quiet_upd_uc [OF inv])
  have i: "sched_inv t Q B" by (rule sched_inv_extends [OF inv]) (simp add: t_def extends_def live_def)
  have "ptbr1 s = ?up" using own by (simp add: on_own_tables_def table_of_def)
  then have w': "stack_window hw (upts s ?up) (uc_addr uc)"
      "stack_start hw (upts s ?up) - page_index hw (uc_addr uc) \<le> frames_left (free_frame s)"
    using w by (simp_all add: stack_fault_def Let_def)
  have tt: "table_of t (running (procs t)) = ?up" by (simp add: t_def table_of_def)
  obtain s' where s': "TrapMemory hw uc s = Some (Ret uc, s')" "table_only hw ?up t s'" "region_ok hw ?up s'"
    using trap_memory_grow [OF hw p up ok w'] unfolding t_def by blast
  then have "quiet hw B Q t s'" using quiet_table_only [OF i, unfolded tt] by blast
  with s'(1) quiet_same [OF q] show ?thesis by blast
qed

lemma resume_calm:
  fixes s :: kernel
  assumes hw: "hw_ok hw" and inv: "sched_inv s Q B" and idle: "running (procs s) = idle_node s \<Longrightarrow> to_user (running (procs s)) (pcb_kc (the_pcb s (running (procs s))))"
    and kc: "to_user (running (procs s)) (pcb_kc (the_pcb s (running (procs s)))) \<or> waits_at s B (pcb_kc (the_pcb s (running (procs s))))"
  shows "calm hw B Q s (resume hw s)"
proof (cases "to_user (running (procs s)) (pcb_kc (the_pcb s (running (procs s))))")
  case True
  with resume_to_user [OF sched_invD(4) [OF inv] this, of hw] show ?thesis by (auto intro!: calm_ret quiet_upd_uc [OF inv])
next
  case False
  then have run: "running (procs s) \<noteq> idle_node s" using idle by blast
  have curr: "curr_pcb s = Some (the_pcb s (running (procs s)))"
    using sched_invD(4) [OF inv] by (simp add: curr_pcb_def pcb_of_def proc_ok_def)
  have woken: "quiet hw B Q s (s\<lparr>locks := (locks s)(lock := (locks s lock)\<lparr>l_unfulfilled := u\<rparr>)\<rparr>)" for lock u
    by (rule quiet_locks [OF inv]) (simp_all add: owners_kept_def)
  have l: "lock_ok (s\<lparr>locks := (locks s)(lock := (locks s lock)\<lparr>l_unfulfilled := u\<rparr>)\<rparr>) B a = lock_ok s B a" for lock u a
    by (simp add: lock_ok_def)
  from kc False show ?thesis
  proof (cases "pcb_kc (the_pcb s (running (procs s)))")
    case (KC_Acquire lock)
    with kc have ok: "lock_ok s B lock" by simp
    have r: "resume hw s = (do { (res, s) \<leftarrow> acquire_loop hw (KC_Acquire lock) lock
        (s\<lparr>locks := (locks s)(lock := (locks s lock)\<lparr>l_unfulfilled := l_unfulfilled (locks s lock) - 1\<rparr>)\<rparr>); after_call res s })"
      using ok KC_Acquire curr by (simp add: resume_def lock_ok_def)
    show ?thesis unfolding r
      by (rule calm_after [OF woken], rule calm_after_call, rule acquire_loop_calm [OF hw]) (use ok l run in simp_all)
  next
    case (KC_CvarWait lock_n lock)
    with kc have ok: "live s lock_n" "nd_data (nodes s lock_n) = lock" "lock_ok s B lock" by simp_all
    have r: "resume hw s = (do { (res, s) \<leftarrow> wait_cvar_acquire hw lock lock s; after_call res s })"
      using ok KC_CvarWait curr by (simp add: resume_def)
    show ?thesis unfolding r by (rule calm_after_call) (rule wait_cvar_acquire_calm [OF hw inv ok(3) run])
  next
    case (KC_CvarAcquire acq lock)
    with kc have ok: "acq = lock" "lock_ok s B lock" by simp_all
    have r: "resume hw s = (do { (res, s) \<leftarrow> wait_cvar_acquire hw lock lock
        (s\<lparr>locks := (locks s)(lock := (locks s lock)\<lparr>l_unfulfilled := l_unfulfilled (locks s lock) - 1\<rparr>)\<rparr>); after_call res s })"
      using ok KC_CvarAcquire curr by (simp add: resume_def lock_ok_def)
    show ?thesis unfolding r
      by (rule calm_after [OF woken], rule calm_after_call, rule wait_cvar_acquire_calm [OF hw]) (use ok l run in simp_all)
  qed simp_all
qed

end
