(* ===== verification/Machine_Inv.thy ===== *)
theory Machine_Inv
  imports Calm_Spec
begin

text \<open>
  The invariant of the running machine: every process has its own memory, its own kernel stack and its list of children, every table
  entry leads to an object, and every process waits where it can go on.  It is kept by a handler that creates nothing, and by one
  that creates a process or an object.
\<close>

section \<open>The memory of the processes\<close>

text \<open>Every process has its memory: a table of its own, and frames that are in no other table.\<close>

definition spaces_ok :: "hw \<Rightarrow> addr set \<Rightarrow> kernel \<Rightarrow> bool" where
  "spaces_ok hw P s \<longleftrightarrow> ff_size (free_frame s) < 2 ^ 31 \<and> (\<forall>n\<in>P. region_ok hw (table_of s n) s) \<and>
     (\<forall>n\<in>insert (idle_node s) P. u_inv hw (table_of s n) s \<and> (\<forall>m\<in>insert (idle_node s) P. m \<noteq> n \<longrightarrow>
        table_of s m \<noteq> table_of s n \<and> frames_of hw (table_of s m) s \<inter> frames_of hw (table_of s n) s = {}))"

lemma region_ok_moved: "region_ok hw up s \<Longrightarrow> u_inv hw up s' \<Longrightarrow> upts s' up = upts s up \<Longrightarrow> region_ok hw up s'"
  unfolding region_ok_def Let_def by (simp add: upages_def)

lemma frames_of_used: "u_inv hw up s \<Longrightarrow> f \<in> frames_of hw up s \<Longrightarrow> f \<in> used hw (free_frame s)"
  by (auto simp: u_inv_def sound_def frames_of_def)

text \<open>What another process has in memory is beyond the reach of the one that runs.\<close>

lemma others_out_of_reach:
  assumes ok: "spaces_ok hw P s" and n: "n \<in> insert (idle_node s) P" "r \<in> insert (idle_node s) P" "n \<noteq> r" and f: "f \<in> frames_of hw (table_of s n) s"
  shows "f \<notin> reach hw (table_of s r) s"
proof -
  have "u_inv hw (table_of s n) s" using ok n(1) unfolding spaces_ok_def by blast
  then have "f \<in> used hw (free_frame s)" using f by (rule frames_of_used)
  moreover have "f \<notin> frames_of hw (table_of s r) s" using ok n f unfolding spaces_ok_def by blast
  ultimately show ?thesis by (simp add: reach_def pool_def)
qed

lemma others_kept:
  assumes ok: "spaces_ok hw P s" and m: "own_memory hw s s'" and r: "running (procs s) \<in> insert (idle_node s) P"
    and live: "\<And>a. live s' a = live s a" and n: "n \<in> insert (idle_node s) P" "n \<noteq> running (procs s)"
  shows "upages hw (table_of s n) s' = upages hw (table_of s n) s" "upts s' (table_of s n) = upts s (table_of s n)"
    "frames_of hw (table_of s n) s \<inter> reach hw (table_of s (running (procs s))) s' = {}" "u_inv hw (table_of s n) s'"
proof -
  let ?r = "running (procs s)"
  have S: "u_inv hw (table_of s n) s" "u_inv hw (table_of s ?r) s" "table_of s n \<noteq> table_of s ?r" using ok r n unfolding spaces_ok_def by blast+
  have M: "\<And>x. x \<noteq> table_of s ?r \<Longrightarrow> upts s' x = upts s x" "ff_size (free_frame s') = ff_size (free_frame s)"
      "reach hw (table_of s ?r) s' \<subseteq> reach hw (table_of s ?r) s" "u_inv hw (table_of s ?r) s \<Longrightarrow> u_inv hw (table_of s ?r) s'"
    using m by (auto simp: own_memory_def Let_def)
  show up: "upages hw (table_of s n) s' = upages hw (table_of s n) s" "upts s' (table_of s n) = upts s (table_of s n)"
    using M(1) S(3) by (simp_all add: upages_def)
  show out: "frames_of hw (table_of s n) s \<inter> reach hw (table_of s ?r) s' = {}" using others_out_of_reach [OF ok n(1) r n(2)] M(3) by blast
  have "g \<in> used hw (free_frame s')" if g: "g \<in> frames_of hw (table_of s n) s" for g
  proof -
    have "g \<in> {BASE_FRAME hw..<BASE_FRAME hw + ff_size (free_frame s')}"
      using frames_of_used [OF S(1) g] used_range [of hw "free_frame s"] M(2) by auto
    with out g show ?thesis by (auto simp: reach_def pool_def)
  qed
  then show "u_inv hw (table_of s n) s'" using S M(4) live by (auto simp: u_inv_def sound_def up(1) frames_of_def)
qed

lemma spaces_kept:
  assumes ok: "spaces_ok hw P s" and m: "own_memory hw s s'" and r: "running (procs s) \<in> insert (idle_node s) P"
    and same: "same_procs s s'" "\<And>a. live s' a = live s a"
  shows "spaces_ok hw P s'"
proof -
  let ?r = "running (procs s)" and ?I = "insert (idle_node s) P"
  have e: "idle_node s' = idle_node s" "table_of s' n = table_of s n" for n using same(1) by (simp_all add: same_procs_def table_of_def)
  have M: "ff_size (free_frame s') = ff_size (free_frame s)" "u_inv hw (table_of s ?r) s \<Longrightarrow> u_inv hw (table_of s ?r) s'"
      "region_ok hw (table_of s ?r) s \<Longrightarrow> region_ok hw (table_of s ?r) s'" using m by (auto simp: own_memory_def Let_def)
  note O = others_kept [OF ok m r same(2)]
  have "u_inv hw (table_of s ?r) s" using ok r unfolding spaces_ok_def by blast
  then have u: "u_inv hw (table_of s n) s'" if "n \<in> ?I" for n using O(4) [OF that] M(2) by (cases "n = ?r") simp_all
  have reg: "region_ok hw (table_of s n) s'" if n: "n \<in> P" for n
  proof (cases "n = ?r")
    case True
    with M(3) ok n show ?thesis by (simp add: spaces_ok_def)
  next
    case False
    have "region_ok hw (table_of s n) s" using ok n by (simp add: spaces_ok_def)
    moreover have "n \<in> ?I" using n by blast
    ultimately show ?thesis by (rule region_ok_moved [OF _ u O(2)]) (use n False in auto)
  qed
  have fr: "frames_of hw (table_of s n) s' = frames_of hw (table_of s n) s" if "n \<in> ?I" "n \<noteq> ?r" for n
    using O(1) [OF that] by (simp add: frames_of_def)
  have own: "frames_of hw (table_of s n) s' \<inter> frames_of hw (table_of s ?r) s' = {}" if "n \<in> ?I" "n \<noteq> ?r" for n
    using O(3) [OF that] fr [OF that] by (auto simp: reach_def)
  have apart: "frames_of hw (table_of s a) s' \<inter> frames_of hw (table_of s b) s' = {}" if ab: "a \<in> ?I" "b \<in> ?I" "a \<noteq> b" for a b
  proof -
    consider "a = ?r" "b \<noteq> ?r" | "b = ?r" "a \<noteq> ?r" | "a \<noteq> ?r" "b \<noteq> ?r" using ab(3) by blast
    then show ?thesis
    proof cases
      case 1
      with own [OF ab(2)] show ?thesis by (simp add: Int_commute)
    next
      case 2
      with own [OF ab(1)] show ?thesis by simp
    next
      case 3
      have "frames_of hw (table_of s a) s \<inter> frames_of hw (table_of s b) s = {}" using ok ab unfolding spaces_ok_def by blast
      with fr [OF ab(1) 3(1)] fr [OF ab(2) 3(2)] show ?thesis by simp
    qed
  qed
  show ?thesis using ok u reg apart M(1) unfolding spaces_ok_def e by auto
qed

section \<open>Kernel stacks and families\<close>

text \<open>The frames of a kernel stack are beyond the reach of every process, so they stay what they are.\<close>

lemma stacks_kept:
  assumes ok: "stacks_ok hw P s" and m: "own_memory hw s s'" and r: "running (procs s) \<in> insert (idle_node s) P"
    and same: "same_procs s s'" "kstacks s' = kstacks s" and others: "\<And>n. n \<in> insert (idle_node s) P \<Longrightarrow> n \<noteq> running (procs s) \<Longrightarrow>
      frames_of hw (table_of s n) s' = frames_of hw (table_of s n) s"
  shows "stacks_ok hw P s'"
proof -
  let ?r = "running (procs s)" and ?I = "insert (idle_node s) P"
  have e: "idle_node s' = idle_node s" "stack_frames hw s' n = stack_frames hw s n" "table_of s' n = table_of s n"
      "pcb_kstack (the_pcb s' n) = pcb_kstack (the_pcb s n)" for n
    using same by (simp_all add: same_procs_def stack_frames_def kspages_def table_of_def)
  have S: "stack_frames hw s n \<subseteq> used hw (free_frame s)" "stack_frames hw s n \<inter> frames_of hw (table_of s a) s = {}" if "n \<in> ?I" "a \<in> ?I" for n a
    using ok that unfolding stacks_ok_def own_stack_def table_of_def by blast+
  have M: "ff_size (free_frame s') = ff_size (free_frame s)" "reach hw (table_of s ?r) s' \<subseteq> reach hw (table_of s ?r) s"
    using m by (auto simp: own_memory_def Let_def)
  have out: "stack_frames hw s n \<inter> reach hw (table_of s ?r) s' = {}" if "n \<in> ?I" for n
    using S [OF that r] M(2) by (auto simp: reach_def pool_def)
  have used: "stack_frames hw s n \<subseteq> used hw (free_frame s')" if n: "n \<in> ?I" for n
  proof
    fix f assume f: "f \<in> stack_frames hw s n"
    then have "f \<in> {BASE_FRAME hw..<BASE_FRAME hw + ff_size (free_frame s')}" using S(1) [OF n n] used_range [of hw "free_frame s"] M(1) by auto
    with out [OF n] f show "f \<in> used hw (free_frame s')" by (auto simp: reach_def pool_def)
  qed
  have "stack_frames hw s n \<inter> frames_of hw (table_of s a) s' = {}" if n: "n \<in> ?I" "a \<in> ?I" for n a
  proof (cases "a = ?r")
    case True
    then show ?thesis using out [OF n(1)] by (auto simp: reach_def)
  next
    case False
    then show ?thesis using S(2) [OF n] others [OF n(2)] by simp
  qed
  then show ?thesis using ok used unfolding stacks_ok_def own_stack_def e same(2) by (auto simp: e(3) table_of_def [symmetric])
qed

text \<open>Every process has a list for its children.\<close>

definition families_ok :: "kernel \<Rightarrow> (addr \<rightharpoonup> addr list) \<Rightarrow> addr set \<Rightarrow> addr set \<Rightarrow> bool" where
  "families_ok s Q B P \<longleftrightarrow> (\<forall>n\<in>P. Q (pcb_a_children (the_pcb s n)) \<noteq> None \<and> pcb_a_children (the_pcb s n) \<notin> B \<and>
     pcb_a_children (the_pcb s n) \<notin> {plc_pipe (pilocvar s), plc_lock (pilocvar s), plc_cvar (pilocvar s)})"

section \<open>The invariant\<close>

text \<open>
  That of the scheduler, for the processes \<open>P\<close>; the tables of objects and the families are in place; every process has memory and a
  kernel stack of its own; the hardware has the tables of the running process; and every process but the one in user mode
  waits at a place from which it can go on.
\<close>

definition machine_ok :: "hw \<Rightarrow> addr set \<Rightarrow> addr set \<Rightarrow> mode \<times> kernel \<Rightarrow> bool" where
  "machine_ok hw B P = (\<lambda>(m, s). m \<noteq> Stopped \<and> heap_ok s \<and>
     (\<exists>Q. sched_inv s Q B \<and> processes s Q B = P \<and> tables_ok s Q B \<and> families_ok s Q B P) \<and>
     on_own_tables hw s \<and> spaces_ok hw P s \<and> stacks_ok hw P s \<and>
     (\<forall>n\<in>P. nd_data (nodes s n) \<noteq> nd_data (nodes s (idle_node s))) \<and>
     (\<forall>n\<in>insert (idle_node s) P. m = Kernel \<or> n \<noteq> running (procs s) \<longrightarrow>
        to_user n (pcb_kc (the_pcb s n)) \<or> n \<noteq> idle_node s \<and> waits_at s B (pcb_kc (the_pcb s n))))"

lemma running_in: "running (procs s) \<in> insert (idle_node s) (processes s Q B)"
  by (auto simp: processes_def)

lemma idle_not_in:
  assumes "sched_inv s Q B"
  shows "idle_node s \<notin> processes s Q B"
  using sched_midD(4,10) [OF sched_invD(1) [OF assms]] not_queuedD by (fastforce simp: processes_def members_def)

text \<open>What a process finds in its part of the memory depends on its table and the frames there only.\<close>

lemma load_through_table:
  fixes s s' :: kernel
  assumes hw: "hw_ok hw" and u: "upts s' up = upts s up" and out: "\<And>f. f \<in> frames_of hw up s \<Longrightarrow> pmem s' f = pmem s f"
    and live: "live s' up = live s up" and a: "VMEM_1_BASE hw \<le> a"
  shows "load hw (s'\<lparr>ptbr1 := up\<rparr>) a = load hw (s\<lparr>ptbr1 := up\<rparr>) a"
proof -
  let ?v = "int (drop_bit (PAGESHIFT hw) a)"
  have "BASE_PAGE_1 hw \<le> ?v" using a unfolding BASE_PAGE_1_def by (simp add: page_of [OF hw] div_le_mono flip: of_nat_drop_bit)
  then have fr: "frame_at hw (s'\<lparr>ptbr1 := up\<rparr>) ?v = frame_at hw (s\<lparr>ptbr1 := up\<rparr>) ?v"
    using u live by (simp add: frame_at_def rd_upte_def)
  show ?thesis
  proof (cases "frame_at hw (s\<lparr>ptbr1 := up\<rparr>) ?v")
    case (Some f)
    then have "f \<in> frames_of hw up s" using frame_in_table [OF hw a Some] by (auto simp: frames_of_def upages_def)
    then show ?thesis using out by (simp add: load_def fr Some)
  qed (simp add: load_def fr)
qed

text \<open>
  What every step keeps: who owns the locks, unless it is the running process that takes or gives back a lock, and the tables and
  memory of the processes that do not run.
\<close>

definition step_keeps :: "hw \<Rightarrow> addr set \<Rightarrow> kernel \<Rightarrow> kernel \<Rightarrow> bool" where
  "step_keeps hw P s s' \<longleftrightarrow> idle_node s' = idle_node s \<and> (\<forall>a. live s a \<longrightarrow> live s' a \<and> (l_owner (locks s' a) = l_owner (locks s a) \<or>
       {l_owner (locks s a), l_owner (locks s' a)} \<subseteq> {NULL, running (procs s)})) \<and>
     (\<forall>n\<in>P. n \<noteq> running (procs s) \<longrightarrow> table_of s' n = table_of s n \<and> upts s' (table_of s n) = upts s (table_of s n) \<and>
       (\<forall>f\<in>frames_of hw (table_of s n) s. pmem s' f = pmem s f))"

lemma step_keeps_refl: "step_keeps hw P s s"
  by (simp add: step_keeps_def)

lemma step_keeps_trans:
  assumes a: "step_keeps hw P s s'" and b: "step_keeps hw P' s' s''" and P: "P \<subseteq> P'" and r: "procs s' = procs s"
  shows "step_keeps hw P s s''"
proof -
  have "l_owner (locks s'' a) = l_owner (locks s a) \<or> {l_owner (locks s a), l_owner (locks s'' a)} \<subseteq> {NULL, running (procs s)}" if l: "live s a" for a
  proof -
    have "live s' a" and 1: "l_owner (locks s' a) = l_owner (locks s a) \<or> {l_owner (locks s a), l_owner (locks s' a)} \<subseteq> {NULL, running (procs s)}"
      using a l by (auto simp: step_keeps_def)
    then have "l_owner (locks s'' a) = l_owner (locks s' a) \<or> {l_owner (locks s' a), l_owner (locks s'' a)} \<subseteq> {NULL, running (procs s)}"
      using b r by (simp add: step_keeps_def)
    with 1 show ?thesis by auto
  qed
  moreover have "table_of s'' n = table_of s n \<and> upts s'' (table_of s n) = upts s (table_of s n) \<and> (\<forall>f\<in>frames_of hw (table_of s n) s. pmem s'' f = pmem s f)"
    if n: "n \<in> P" "n \<noteq> running (procs s)" for n
  proof -
    have 1: "table_of s' n = table_of s n" "upts s' (table_of s n) = upts s (table_of s n)" "\<forall>f\<in>frames_of hw (table_of s n) s. pmem s' f = pmem s f"
      using a n by (simp_all add: step_keeps_def)
    have "frames_of hw (table_of s n) s' = frames_of hw (table_of s n) s" using 1(2) by (simp add: frames_of_def upages_def)
    moreover have "table_of s'' n = table_of s' n" "upts s'' (table_of s' n) = upts s' (table_of s' n)" "\<forall>f\<in>frames_of hw (table_of s' n) s'. pmem s'' f = pmem s' f"
      using b n P r by (auto simp: step_keeps_def)
    ultimately show ?thesis using 1 by simp
  qed
  ultimately show ?thesis using a b by (simp add: step_keeps_def)
qed

lemma heap_ok_same: "heap_ok s \<Longrightarrow> (\<And>a. live s' a = live s a) \<Longrightarrow> brk_next s' = brk_next s \<Longrightarrow> heap_ok s'"
  unfolding heap_ok_def live_def by (metis neq0_conv)

text \<open>What a handler leaves is again in order.\<close>

lemma machine_ok_calm:
  assumes ok: "machine_ok hw B P (m, s)" and c: "\<And>Q. sched_inv s Q B \<Longrightarrow> processes s Q B = P \<Longrightarrow> tables_ok s Q B \<Longrightarrow> calm hw B Q s h"
    and m: "h = Some (res, s')"
  shows "machine_ok hw B P (mode_after res, s') \<and> step_keeps hw P s s'"
proof -
  obtain Q where Q: "sched_inv s Q B" "processes s Q B = P" "tables_ok s Q B" "families_ok s Q B P" using ok by (auto simp: machine_ok_def)
  have k: "keeps hw B Q s s'" and cases: "(\<exists>r. res = Ret r \<and> quiet hw B Q s s') \<or> res = Switched \<and> handed hw B Q s s'"
    using c [OF Q(1-3)] m by (auto simp: calm_def quiet_def handed_def)
  obtain Q' where Q': "sched_inv s' Q' B" "processes s' Q' B = P" "\<forall>l. l \<notin> B \<longrightarrow> Q' l = Q l" "same_procs s s'"
    using k Q(2) by (auto simp: keeps_def conserves_def)
  have o: "keeps_objects s s'" using k by (simp add: keeps_def)
  have i: "idle_node s' = idle_node s" and d: "nd_data (nodes s' a) = nd_data (nodes s a)" for a using Q'(4) by (simp_all add: same_procs_def)
  have t: "tables_ok s' Q' B" by (rule tables_kept [OF Q(3) o]) (use Q'(3) in simp)
  have own: "on_own_tables hw s'" using k ok by (simp add: keeps_def machine_ok_def)
  have apart: "\<forall>n\<in>P. nd_data (nodes s n) \<noteq> nd_data (nodes s (idle_node s))" using ok by (simp add: machine_ok_def)
  have old: "to_user n (pcb_kc (the_pcb s n)) \<or> n \<noteq> idle_node s \<and> waits_at s B (pcb_kc (the_pcb s n))"
    if "n \<in> insert (idle_node s) P" "n \<noteq> running (procs s)" for n using ok that by (auto simp: machine_ok_def)
  have waits: "to_user n (pcb_kc (the_pcb s' n)) \<or> n \<noteq> idle_node s \<and> waits_at s B (pcb_kc (the_pcb s' n))"
    if n: "n \<in> insert (idle_node s) P" "mode_after res = Kernel \<or> n \<noteq> running (procs s')" for n
    using cases
  proof
    assume "\<exists>r. res = Ret r \<and> quiet hw B Q s s'"
    then have "n \<noteq> running (procs s)" "pcb_kc (the_pcb s' n) = pcb_kc (the_pcb s n)" using n(2) by (auto simp: mode_after_def quiet_def d)
    with old [OF n(1)] show ?thesis by simp
  next
    assume "res = Switched \<and> handed hw B Q s s'"
    then have h: "handed hw B Q s s'" by simp
    let ?me = "running (procs s)"
    show ?thesis
    proof (cases "nd_data (nodes s n) = nd_data (nodes s ?me)")
      case True
      then have K: "the_pcb s' n = the_pcb s' ?me" by (simp add: d)
      show ?thesis
      proof (cases "n = idle_node s")
        case True
        with \<open>nd_data (nodes s n) = nd_data (nodes s ?me)\<close> apart have "?me \<notin> P" by auto
        then have "?me = idle_node s" using running_in [of s Q B] Q(2) by simp
        with h have "pcb_kc (the_pcb s' ?me) = KC_Clock" by (simp add: handed_def)
        then show ?thesis by (simp only: K) simp
      next
        case False
        with h K show ?thesis by (simp add: handed_def)
      qed
    next
      case False
      then have "n \<noteq> ?me" "pcb_kc (the_pcb s' n) = pcb_kc (the_pcb s n)" using h by (auto simp: handed_def d)
      with old [OF n(1)] show ?thesis by simp
    qed
  qed
  have m: "owners_kept s s'" "own_memory hw s s'" using cases by (auto simp: quiet_def handed_def)
  have sp: "spaces_ok hw P s" "running (procs s) \<in> insert (idle_node s) P" using ok running_in [of s Q B] Q(2) by (auto simp: machine_ok_def)
  have l: "live s' a = live s a" for a using o by (simp add: keeps_objects_def)
  note rest = others_kept [OF sp(1) m(2) sp(2) l]
  have "stacks_ok hw P s'"
  proof (rule stacks_kept [OF _ m(2) sp(2) Q'(4)])
    show "frames_of hw (table_of s n) s' = frames_of hw (table_of s n) s" if "n \<in> insert (idle_node s) P" "n \<noteq> running (procs s)" for n
      using rest(1) [OF that] by (simp add: frames_of_def)
  qed (use ok o in \<open>simp_all add: machine_ok_def keeps_objects_def\<close>)
  moreover have "heap_ok s'" using heap_ok_same [OF _ l] ok o by (simp add: machine_ok_def keeps_objects_def)
  moreover have "families_ok s' Q' B P" using Q(4) o Q'(3) d by (simp add: families_ok_def keeps_objects_def)
  with Q' t have "\<exists>Q. sched_inv s' Q B \<and> processes s' Q B = P \<and> tables_ok s' Q B \<and> families_ok s' Q B P" by blast
  moreover have "mode_after res \<noteq> Stopped" using cases by (auto simp: mode_after_def)
  moreover have "\<forall>n\<in>P. nd_data (nodes s' n) \<noteq> nd_data (nodes s' (idle_node s'))" using apart by (simp add: i d)
  moreover have "\<forall>n\<in>insert (idle_node s') P. mode_after res = Kernel \<or> n \<noteq> running (procs s') \<longrightarrow>
      to_user n (pcb_kc (the_pcb s' n)) \<or> n \<noteq> idle_node s' \<and> waits_at s' B (pcb_kc (the_pcb s' n))"
    using waits unfolding i objects_kept(3) [OF o] by blast
  ultimately have "machine_ok hw B P (mode_after res, s')"
    using own spaces_kept [OF sp(1) m(2) sp(2) Q'(4) l] unfolding machine_ok_def prod.case by (intro conjI)
  moreover have "step_keeps hw P s s'"
  proof -
    have "table_of s' n = table_of s n" for n using Q'(4) by (simp add: same_procs_def table_of_def)
    moreover have "pmem s' f = pmem s f" if "n \<in> P" "n \<noteq> running (procs s)" "f \<in> frames_of hw (table_of s n) s" for n f
    proof -
      have "f \<notin> reach hw (table_of s (running (procs s))) s" by (rule others_out_of_reach [OF sp(1) _ sp(2) that(2,3)]) (use that(1) in simp)
      with m(2) show ?thesis by (simp add: own_memory_def Let_def)
    qed
    moreover have "upts s' (table_of s n) = upts s (table_of s n)" if "n \<in> P" "n \<noteq> running (procs s)" for n
      by (rule rest(2)) (use that in simp_all)
    moreover have "\<forall>a. live s a \<longrightarrow> live s' a \<and> (l_owner (locks s' a) = l_owner (locks s a) \<or>
        {l_owner (locks s a), l_owner (locks s' a)} \<subseteq> {NULL, running (procs s)})" using m(1) l unfolding owners_kept_def by simp
    ultimately show ?thesis using i by (simp add: step_keeps_def)
  qed
  ultimately show ?thesis ..
qed

lemma machine_ok_same:
  fixes s s' :: kernel
  assumes ok: "machine_ok hw B P (User u, s)" and q: "\<And>Q. sched_inv s Q B \<Longrightarrow> quiet hw B Q s s'"
  shows "machine_ok hw B P (User u', s') \<and> step_keeps hw P s s'"
proof -
  have "machine_ok hw B P (mode_after (Ret u'), s') \<and> step_keeps hw P s s'" by (rule machine_ok_calm [OF ok]) (use calm_ret [OF q] in auto)
  then show ?thesis by (simp add: mode_after_def)
qed

section \<open>A machine that grows\<close>

text \<open>A process that did not exist before: what it has is new, on frames that were free, and it goes on in user mode.\<close>

definition new_process :: "hw \<Rightarrow> kernel \<Rightarrow> addr \<Rightarrow> kernel \<Rightarrow> bool" where
  "new_process hw s c s' \<longleftrightarrow> c \<noteq> idle_node s \<and> to_user c (pcb_kc (the_pcb s' c)) \<and> region_ok hw (table_of s' c) s' \<and> own_stack hw s' c \<and>
     \<not> live s (nd_data (nodes s' c)) \<and> \<not> live s (table_of s' c) \<and>
     frames_of hw (table_of s' c) s' \<subseteq> pool hw (free_frame s) \<and> stack_frames hw s' c \<subseteq> pool hw (free_frame s) \<and>
     stack_frames hw s' c \<inter> frames_of hw (table_of s' c) s' = {}"

lemma enlarged_old:
  assumes e: "enlarged hw s s'" and p: "proc_ok s n"
  shows "the_pcb s' n = the_pcb s n" "nd_data (nodes s' n) = nd_data (nodes s n)" "table_of s' n = table_of s n"
    "upts s' (table_of s n) = upts s (table_of s n)" "frames_of hw (table_of s n) s' = frames_of hw (table_of s n) s"
    "stack_frames hw s' n = stack_frames hw s n" "own_stack hw s n \<Longrightarrow> own_stack hw s' n" "live s (table_of s n)"
proof -
  have E: "live s a \<Longrightarrow> nd_data (nodes s' a) = nd_data (nodes s a) \<and> pcbs s' a = pcbs s a \<and> upts s' a = upts s a \<and> kstacks s' a = kstacks s a" for a
    using e by (simp add: enlarged_def)
  show d: "nd_data (nodes s' n) = nd_data (nodes s n)" using E p by (simp add: proc_ok_def)
  show t: "the_pcb s' n = the_pcb s n" using E p by (simp add: d proc_ok_def)
  show "table_of s' n = table_of s n" by (simp add: table_of_def t)
  show l: "live s (table_of s n)" using p by (simp add: proc_ok_def table_of_def)
  show u: "upts s' (table_of s n) = upts s (table_of s n)" using E l by blast
  show "frames_of hw (table_of s n) s' = frames_of hw (table_of s n) s" by (simp add: frames_of_def upages_def u)
  have k: "kstacks s' (pcb_kstack (the_pcb s n)) = kstacks s (pcb_kstack (the_pcb s n))" using E p by (simp add: proc_ok_def)
  show sf: "stack_frames hw s' n = stack_frames hw s n" by (simp only: stack_frames_def kspages_def t k)
  have "used hw (free_frame s) \<subseteq> used hw (free_frame s')" using e by (intro used_pool) (simp_all add: enlarged_def)
  then show "own_stack hw s n \<Longrightarrow> own_stack hw s' n" unfolding own_stack_def t k sf by blast
qed

lemma waits_at_more:
  assumes "enlarged hw s s'" and "\<And>a. live s a \<Longrightarrow> l_blocked (locks s' a) = l_blocked (locks s a)" and "B \<subseteq> B'" and "waits_at s B kc"
  shows "waits_at s' B' kc"
proof -
  have "lock_ok s' B' l" if "lock_ok s B l" for l using assms(1-3) that by (auto simp: enlarged_def lock_ok_def)
  with assms(1,4) show ?thesis by (cases kc) (auto simp: enlarged_def)
qed

lemma spaces_enlarged:
  assumes ok: "spaces_ok hw P s" and e: "enlarged hw s s'" and old: "\<And>n. n \<in> insert (idle_node s) P \<Longrightarrow> proc_ok s n"
    and new: "\<And>c. c \<in> N \<Longrightarrow> new_process hw s c s'" and one: "\<And>c d. c \<in> N \<Longrightarrow> d \<in> N \<Longrightarrow> c = d"
  shows "spaces_ok hw (P \<union> N) s'"
proof -
  let ?I = "insert (idle_node s) P"
  note O = enlarged_old [OF e old]
  have E: "idle_node s' = idle_node s" "ff_size (free_frame s') = ff_size (free_frame s)" "frames_ok hw (free_frame s')" 
      "used hw (free_frame s) \<subseteq> used hw (free_frame s')" "live s a \<Longrightarrow> live s' a" for a
    using e used_pool by (auto simp: enlarged_def)
  have S: "u_inv hw (table_of s n) s" if "n \<in> ?I" for n using ok that unfolding spaces_ok_def by blast
  have u: "u_inv hw (table_of s n) s'" if n: "n \<in> ?I" for n
  proof -
    have "upages hw (table_of s n) s' = upages hw (table_of s n) s" by (simp add: upages_def O(4) [OF n])
    with S [OF n] E(3-5) show ?thesis unfolding u_inv_def sound_def by (metis subsetD)
  qed
  have reg: "region_ok hw (table_of s n) s'" if n: "n \<in> P" for n
    by (rule region_ok_moved [OF _ u O(4)]) (use n ok in \<open>simp_all add: spaces_ok_def\<close>)
  have apart: "table_of s' m \<noteq> table_of s' n \<and> frames_of hw (table_of s' m) s' \<inter> frames_of hw (table_of s' n) s' = {}"
    if mn: "m \<in> ?I" "n \<in> ?I" "m \<noteq> n" for m n
  proof -
    have "table_of s m \<noteq> table_of s n \<and> frames_of hw (table_of s m) s \<inter> frames_of hw (table_of s n) s = {}" using ok mn unfolding spaces_ok_def by blast
    then show ?thesis by (simp add: O(3,5) [OF mn(1)] O(3,5) [OF mn(2)])
  qed
  have mixed: "table_of s' m \<noteq> table_of s' c \<and> frames_of hw (table_of s' m) s' \<inter> frames_of hw (table_of s' c) s' = {}"
    if m: "m \<in> ?I" and c: "c \<in> N" for m c
  proof -
    have "frames_of hw (table_of s m) s \<subseteq> used hw (free_frame s)" using frames_of_used [OF S [OF m]] by blast
    moreover have "frames_of hw (table_of s' c) s' \<subseteq> pool hw (free_frame s)" "\<not> live s (table_of s' c)" using new [OF c] by (simp_all add: new_process_def)
    ultimately show ?thesis using O(3,5,8) [OF m] by (auto simp: pool_def)
  qed
  have "region_ok hw (table_of s' c) s'" "u_inv hw (table_of s' c) s'" if "c \<in> N" for c
    using new [OF that] region_okD(1) [of hw "table_of s' c" s'] by (simp_all add: new_process_def)
  note new_ok = this
  have sep: "table_of s' m \<noteq> table_of s' n \<and> frames_of hw (table_of s' m) s' \<inter> frames_of hw (table_of s' n) s' = {}"
    if mn: "n \<in> insert (idle_node s) (P \<union> N)" "m \<in> insert (idle_node s) (P \<union> N)" "m \<noteq> n" for m n
  proof -
    consider "n \<in> ?I" "m \<in> ?I" | "n \<in> ?I" "m \<in> N" | "n \<in> N" "m \<in> ?I" | "n \<in> N" "m \<in> N" using mn(1,2) by blast
    then show ?thesis
    proof cases
      case 1
      with apart [of m n] mn(3) show ?thesis by blast
    next
      case 2
      with mixed [of n m] show ?thesis by auto
    next
      case 3
      with mixed [of m n] show ?thesis by blast
    next
      case 4
      with one mn(3) show ?thesis by blast
    qed
  qed
  have u': "u_inv hw (table_of s' n) s'" if "n \<in> insert (idle_node s) (P \<union> N)" for n
    using that u new_ok(2) O(3) by (cases "n \<in> N") auto
  have r': "region_ok hw (table_of s' n) s'" if "n \<in> P \<union> N" for n using that reg new_ok(1) O(3) by (cases "n \<in> N") auto
  show ?thesis using ok u' r' sep E(2) unfolding spaces_ok_def E(1) by simp
qed


lemma stacks_enlarged:
  assumes ok: "stacks_ok hw P s" and sp: "spaces_ok hw P s" and e: "enlarged hw s s'" and old: "\<And>n. n \<in> insert (idle_node s) P \<Longrightarrow> proc_ok s n"
    and new: "\<And>c. c \<in> N \<Longrightarrow> new_process hw s c s'" and one: "\<And>c d. c \<in> N \<Longrightarrow> d \<in> N \<Longrightarrow> c = d"
  shows "stacks_ok hw (P \<union> N) s'"
proof -
  let ?I = "insert (idle_node s) P"
  note O = enlarged_old [OF e old]
  have i: "idle_node s' = idle_node s" using e by (simp add: enlarged_def)
  have S: "own_stack hw s n" "stack_frames hw s n \<inter> frames_of hw (table_of s m) s = {}" "m \<noteq> n \<longrightarrow> stack_frames hw s n \<inter> stack_frames hw s m = {}"
      "stack_frames hw s n \<subseteq> used hw (free_frame s)" "frames_of hw (table_of s n) s \<subseteq> used hw (free_frame s)" if "n \<in> ?I" "m \<in> ?I" for n m
  proof -
    have a: "\<forall>n\<in>?I. own_stack hw s n \<and> (\<forall>m\<in>?I. stack_frames hw s n \<inter> frames_of hw (table_of s m) s = {} \<and>
        (m \<noteq> n \<longrightarrow> stack_frames hw s n \<inter> stack_frames hw s m = {}))" using ok unfolding stacks_ok_def table_of_def .
    then show "own_stack hw s n" "stack_frames hw s n \<inter> frames_of hw (table_of s m) s = {}" "m \<noteq> n \<longrightarrow> stack_frames hw s n \<inter> stack_frames hw s m = {}"
      using that by blast+
    then show "stack_frames hw s n \<subseteq> used hw (free_frame s)" by (simp add: own_stack_def)
    have "u_inv hw (table_of s n) s" using sp that(1) unfolding spaces_ok_def by blast
    then show "frames_of hw (table_of s n) s \<subseteq> used hw (free_frame s)" using frames_of_used by blast
  qed
  have C: "own_stack hw s' c" "frames_of hw (table_of s' c) s' \<subseteq> pool hw (free_frame s)" "stack_frames hw s' c \<subseteq> pool hw (free_frame s)"
      "stack_frames hw s' c \<inter> frames_of hw (table_of s' c) s' = {}" if "c \<in> N" for c using new [OF that] by (simp_all add: new_process_def)
  have PU: "pool hw (free_frame s) \<inter> used hw (free_frame s) = {}" by (auto simp: pool_def)
  have A: "own_stack hw s' n \<and> (\<forall>m\<in>?I. stack_frames hw s' n \<inter> frames_of hw (table_of s' m) s' = {} \<and>
      (m \<noteq> n \<longrightarrow> stack_frames hw s' n \<inter> stack_frames hw s' m = {}))" if n: "n \<in> ?I" for n
    using S(1-3) [OF n] O(3,5,6,7) n by simp
  have M: "stack_frames hw s' n \<inter> frames_of hw (table_of s' c) s' = {} \<and> stack_frames hw s' c \<inter> frames_of hw (table_of s' n) s' = {} \<and>
      stack_frames hw s' n \<inter> stack_frames hw s' c = {}" if n: "n \<in> ?I" and c: "c \<in> N" for n c
    using S(4,5) [OF n n] C(2,3) [OF c] PU O(3,5,6) [OF n] by (simp add: disjoint_iff) blast
  show ?thesis unfolding stacks_ok_def i table_of_def [symmetric]
  proof (intro ballI)
    fix n assume "n \<in> insert (idle_node s) (P \<union> N)"
    then consider "n \<in> ?I" | "n \<in> N" by blast
    then show "own_stack hw s' n \<and> (\<forall>m\<in>insert (idle_node s) (P \<union> N). stack_frames hw s' n \<inter> frames_of hw (table_of s' m) s' = {} \<and>
        (m \<noteq> n \<longrightarrow> stack_frames hw s' n \<inter> stack_frames hw s' m = {}))"
    proof cases
      case 1
      with A [OF 1] M [OF 1] show ?thesis by blast
    next
      case 2
      with M [OF _ 2] C(1,4) [OF 2] one show ?thesis by (auto simp: Int_commute)
    qed
  qed
qed

text \<open>The invariant holds for the larger machine, and no other process notices.\<close>

lemma machine_ok_enlarged:
  fixes s s' :: kernel
  assumes ok: "machine_ok hw B P (User u, s)" and hw: "hw_ok hw" and e: "enlarged hw s s'" and B: "B \<subseteq> B'"
    and locks: "\<And>a. live s a \<Longrightarrow> l_blocked (locks s' a) = l_blocked (locks s a) \<and> l_owner (locks s' a) = l_owner (locks s a)"
    and Q: "sched_inv s' Q B'" "processes s' Q B' = P \<union> N" "tables_ok s' Q B'" "families_ok s' Q B' (P \<union> N)"
    and new: "\<And>c. c \<in> N \<Longrightarrow> new_process hw s c s'" and one: "\<And>c d. c \<in> N \<Longrightarrow> d \<in> N \<Longrightarrow> c = d"
  shows "machine_ok hw B' (P \<union> N) (User u', s') \<and> step_keeps hw P s s'"
proof -
  obtain Q0 where Q0: "sched_inv s Q0 B" "processes s Q0 B = P" using ok by (auto simp: machine_ok_def)
  let ?I = "insert (idle_node s) P" and ?r = "running (procs s)"
  have old: "proc_ok s n" if "n \<in> ?I" for n
    using that sched_invD(4,5) [OF Q0(1)] sched_midD(10) [OF sched_invD(1) [OF Q0(1)]] sched_invD(1) [OF Q0(1)] Q0(2)
    by (auto simp: processes_def members_def sched_mid_def)
  note O = enlarged_old [OF e old]
  have E: "idle_node s' = idle_node s" "procs s' = procs s" "ptbr1 s' = ptbr1 s" "heap_ok s'" using e by (auto simp: enlarged_def)
  have r: "?r \<in> ?I" using running_in [of s Q0 B] Q0(2) by simp
  have sp: "spaces_ok hw P s" and st: "stacks_ok hw P s" and own: "on_own_tables hw s" using ok by (simp_all add: machine_ok_def)
  have "on_own_tables hw s'"
  proof -
    have "kstacks s' (pcb_kstack (the_pcb s ?r)) = kstacks s (pcb_kstack (the_pcb s ?r))" using e old [OF r] by (simp add: enlarged_def proc_ok_def)
    moreover have "k_pt (kernel_pt s') (i + BASE_PAGE_KSTACK hw - BASE_PAGE_0 hw) = k_pt (kernel_pt s) (i + BASE_PAGE_KSTACK hw - BASE_PAGE_0 hw)"
      if "0 \<le> i" "i < NUM_KSTACK_PAGES hw" for i using e that by (simp add: enlarged_def ks_index_def)
    ultimately show ?thesis using own O(1) [OF r] by (simp add: on_own_tables_def E)
  qed
  moreover have "nd_data (nodes s' n) \<noteq> nd_data (nodes s' (idle_node s))" if n: "n \<in> P \<union> N" for n
  proof (cases "n \<in> P")
    case True
    then show ?thesis using ok O(2) by (simp add: machine_ok_def)
  next
    case False
    then have "\<not> live s (nd_data (nodes s' n))" using new n by (auto simp: new_process_def)
    then show ?thesis using old [of "idle_node s"] O(2) by (auto simp: proc_ok_def)
  qed
  moreover have "to_user n (pcb_kc (the_pcb s' n)) \<or> n \<noteq> idle_node s \<and> waits_at s' B' (pcb_kc (the_pcb s' n))"
    if n: "n \<in> insert (idle_node s) (P \<union> N)" "n \<noteq> ?r" for n
  proof (cases "n \<in> ?I")
    case True
    with ok n(2) have "to_user n (pcb_kc (the_pcb s n)) \<or> n \<noteq> idle_node s \<and> waits_at s B (pcb_kc (the_pcb s n))" by (auto simp: machine_ok_def)
    then show ?thesis unfolding O(1) [OF True] using waits_at_more [OF e _ B] locks by blast
  next
    case False
    with n new [of n] show ?thesis by (simp add: new_process_def)
  qed
  moreover have "spaces_ok hw (P \<union> N) s'" by (rule spaces_enlarged [OF sp e old new one])
  moreover have "stacks_ok hw (P \<union> N) s'" by (rule stacks_enlarged [OF st sp e old new one])
  ultimately have "machine_ok hw B' (P \<union> N) (User u', s')" using Q E unfolding machine_ok_def prod.case by (intro conjI) auto
  moreover have "step_keeps hw P s s'"
  proof -
    have "pmem s' f = pmem s f" if n: "n \<in> P" "n \<noteq> ?r" and f: "f \<in> frames_of hw (table_of s n) s" for n f
    proof -
      have "n \<in> ?I" using n(1) by simp
      then have "u_inv hw (table_of s n) s" "frames_of hw (table_of s n) s \<inter> frames_of hw (table_of s ?r) s = {}"
        using sp r n(2) unfolding spaces_ok_def by blast+
      moreover have "ptbr1 s = table_of s ?r" using own by (simp add: on_own_tables_def table_of_def)
      ultimately have "f \<in> used hw (free_frame s)" "f \<notin> frames_of hw (ptbr1 s) s" using frames_of_used [OF _ f] f by auto
      then have "f \<in> used hw (free_frame s)" "\<forall>i p. upages hw (ptbr1 s) s i \<noteq> Some (f, p)" by (auto simp: frames_of_def)
      then show ?thesis using e by (simp add: enlarged_def)
    qed
    moreover have "live s a \<longrightarrow> live s' a" for a using e by (simp add: enlarged_def)
    ultimately show ?thesis using locks O(3,4) E(1) by (simp add: step_keeps_def)
  qed
  ultimately show ?thesis ..
qed

end
