(* ===== verification/Growth_Spec.thy ===== *)
theory Growth_Spec
  imports Machine_Inv
begin

text \<open>
  The calls that create a process or an object, on a machine that is in order: the invariant holds for the larger machine.
\<close>

section \<open>New objects\<close>

text \<open>The tables hold what they held, and perhaps an entry at the end.\<close>

definition tables_grown :: "(addr \<rightharpoonup> addr list) \<Rightarrow> addr set \<Rightarrow> kernel \<Rightarrow> (addr \<rightharpoonup> addr list) \<Rightarrow> addr set \<Rightarrow> kernel \<Rightarrow> bool" where
  "tables_grown Q B s Q' B' s' \<longleftrightarrow>
     (\<exists>xs. Q' (plc_lock (pilocvar s)) = Some (the (Q (plc_lock (pilocvar s))) @ xs) \<and> (\<forall>n\<in>set xs. lock_ok s' B' (nd_data (nodes s' n)))) \<and>
     (\<exists>xs. Q' (plc_cvar (pilocvar s)) = Some (the (Q (plc_cvar (pilocvar s))) @ xs) \<and> (\<forall>n\<in>set xs. cvar_ok s' B' (nd_data (nodes s' n)))) \<and>
     Q' (plc_pipe (pilocvar s)) \<noteq> None \<and> plc_pipe (pilocvar s') = plc_pipe (pilocvar s) \<and>
     plc_lock (pilocvar s') = plc_lock (pilocvar s) \<and> plc_cvar (pilocvar s') = plc_cvar (pilocvar s)"

lemma list_live: "sched_inv s Q B \<Longrightarrow> l \<in> dom Q \<Longrightarrow> live s l"
  using lists_ok_hdr [OF sched_invD(3)] by blast

lemma tables_ok_grown:
  fixes s s' :: kernel
  assumes inv: "sched_inv s Q B" and t: "tables_ok s Q B" and e: "enlarged hw s s'" and g: "tables_grown Q B s Q' B' s'"
    and locks: "\<And>a. live s a \<Longrightarrow> l_blocked (locks s' a) = l_blocked (locks s a)" and cvars: "\<And>a. live s a \<Longrightarrow> cvars s' a = cvars s a"
    and B: "B \<subseteq> B'" "\<And>l. l \<in> B' \<Longrightarrow> l \<in> B \<or> \<not> live s l"
  shows "tables_ok s' Q' B'"
proof -
  let ?L = "plc_lock (pilocvar s)" and ?C = "plc_cvar (pilocvar s)" and ?P = "plc_pipe (pilocvar s)"
  obtain ls cs where T: "Q ?L = Some ls" "\<forall>n\<in>set ls. lock_ok s B (nd_data (nodes s n))" "?L \<notin> B" "Q ?C = Some cs"
      "\<forall>n\<in>set cs. cvar_ok s B (nd_data (nodes s n))" "?C \<notin> B" "Q ?P \<noteq> None" "?P \<notin> B" "distinct [?P, ?L, ?C]"
    using t by (auto simp: tables_ok_def)
  have l: "live s ?L" "live s ?C" "live s ?P" using list_live [OF inv] T(1,4,7) by auto
  have n: "live s n" if "n \<in> set ls \<or> n \<in> set cs" for n
    using that lists_ok_live [OF sched_invD(3) [OF inv]] queuedI [of Q, OF T(1)] queuedI [of Q, OF T(4)] by blast
  have E: "live s' a" "nd_data (nodes s' a) = nd_data (nodes s a)" "procs s' = procs s" if "live s a" for a using e that by (simp_all add: enlarged_def)
  have p: "procs s' = procs s" using e by (simp add: enlarged_def)
  have "lock_ok s' B' x" if "lock_ok s B x" for x using that locks E(1) p B(1) by (auto simp: lock_ok_def)
  moreover have "cvar_ok s' B' x" if "cvar_ok s B x" for x using that cvars E(1) p B(1) by (auto simp: cvar_ok_def)
  ultimately have "\<forall>n\<in>set ls. lock_ok s' B' (nd_data (nodes s' n))" "\<forall>n\<in>set cs. cvar_ok s' B' (nd_data (nodes s' n))"
    using T(2,5) E(2) n by simp_all
  moreover have "?L \<notin> B'" "?C \<notin> B'" "?P \<notin> B'" using B(2) T(3,6,8) l by blast+
  ultimately show ?thesis using g T(1,4,9) unfolding tables_grown_def tables_ok_def by fastforce
qed

lemma enlarged_procs: "enlarged hw s s' \<Longrightarrow> procs s' = procs s"
  by (simp add: enlarged_def)

lemma object_grows:
  fixes s s' :: kernel
  assumes ok: "machine_ok hw B P (User u, s)" and hw: "hw_ok hw" and Q: "sched_inv s Q B" "processes s Q B = P" "tables_ok s Q B" "families_ok s Q B P"
    and e: "enlarged hw s s'" and inv: "sched_inv s' Q' B'" and B: "B \<subseteq> B'" "\<And>l. l \<in> B' \<Longrightarrow> l \<in> B \<or> \<not> live s l \<and> Q' l = Some []"
    and same: "\<And>l. l \<in> dom Q \<Longrightarrow> l \<notin> {plc_pipe (pilocvar s), plc_lock (pilocvar s), plc_cvar (pilocvar s)} \<Longrightarrow> Q' l = Q l"
    and g: "tables_grown Q B s Q' B' s'"
    and locks: "\<And>a. live s a \<Longrightarrow> locks s' a = locks s a" and cvars: "\<And>a. live s a \<Longrightarrow> cvars s' a = cvars s a"
  shows "machine_ok hw B' P (User u', s') \<and> step_keeps hw P s s'"
proof -
  have p: "procs s' = procs s" "idle_node s' = idle_node s" using e by (simp_all add: enlarged_def)
  have plc: "l \<notin> B" if "l \<in> {plc_pipe (pilocvar s), plc_lock (pilocvar s), plc_cvar (pilocvar s)}" for l using Q(3) that by (auto simp: tables_ok_def)
  have dom: "B \<subseteq> dom Q" using sched_invD(1) [OF Q(1)] by (simp add: sched_mid_def)
  have Bs: "Q' l = Q l" if "l \<in> B" for l using same [of l] dom plc that by blast
  have "members Q' B' = members Q B"
  proof -
    have "set (the (Q' l)) \<subseteq> members Q B" if "l \<in> B'" for l
    proof (cases "l \<in> B")
      case True
      then show ?thesis by (simp add: Bs [OF True]) (auto simp: members_def)
    next
      case False
      with B(2) [OF that] show ?thesis by simp
    qed
    moreover have "set (the (Q l)) \<subseteq> members Q' B'" if "l \<in> B" for l
    proof -
      have "l \<in> B'" using that B(1) by blast
      then have "set (the (Q' l)) \<subseteq> members Q' B'" unfolding members_def by (rule UN_upper)
      then show ?thesis by (simp only: Bs [OF that])
    qed
    ultimately have "members Q' B' \<subseteq> members Q B" "members Q B \<subseteq> members Q' B'"
      unfolding members_def [of Q' B'] members_def [of Q B] by (intro UN_least, simp)+
    then show ?thesis by (rule subset_antisym)
  qed
  then have P': "processes s' Q' B' = P \<union> {}" using Q(2) by (simp add: processes_def p)
  have t: "tables_ok s' Q' B'" by (rule tables_ok_grown [OF Q(1,3) e g _ cvars B(1)]) (use locks B(2) in auto)
  have old: "proc_ok s n" if "n \<in> P" for n
    using that sched_invD(4) [OF Q(1)] sched_invD(1) [OF Q(1)] Q(2) by (auto simp: processes_def members_def sched_mid_def)
  have f: "families_ok s' Q' B' (P \<union> {})"
    unfolding families_ok_def
  proof (intro ballI)
    fix n assume "n \<in> P \<union> {}"
    then have n: "n \<in> P" by simp
    let ?l = "pcb_a_children (the_pcb s n)"
    have F: "?l \<in> dom Q" "?l \<notin> B" "?l \<notin> {plc_pipe (pilocvar s), plc_lock (pilocvar s), plc_cvar (pilocvar s)}"
      using Q(4) n by (auto simp: families_ok_def)
    have "Q' ?l = Q ?l" by (rule same [OF F(1,3)])
    moreover have "?l \<notin> B'" using F(2) B(2) list_live [OF Q(1) F(1)] by blast
    ultimately show "Q' (pcb_a_children (the_pcb s' n)) \<noteq> None \<and> pcb_a_children (the_pcb s' n) \<notin> B' \<and>
      pcb_a_children (the_pcb s' n) \<notin> {plc_pipe (pilocvar s'), plc_lock (pilocvar s'), plc_cvar (pilocvar s')}"
      using F g enlarged_old(1) [OF e old [OF n]] by (auto simp: tables_grown_def)
  qed
  show ?thesis using machine_ok_enlarged [OF ok hw e B(1) _ inv P' t f] locks by simp
qed


text \<open>The call is over, the process runs on, and the machine is in order, with what was created.\<close>

definition grows_to :: "hw \<Rightarrow> addr set \<Rightarrow> addr set \<Rightarrow> kernel \<Rightarrow> kernel \<Rightarrow> bool" where
  "grows_to hw B P s s' \<longleftrightarrow> (\<exists>B' P'. B \<subseteq> B' \<and> P \<subseteq> P' \<and> (\<forall>u. machine_ok hw B' P' (User u, s'))) \<and> step_keeps hw P s s' \<and> procs s' = procs s"

lemma grows_toI:
  assumes "\<And>u. machine_ok hw B' P' (User u, s') \<and> step_keeps hw P s s'" and "B \<subseteq> B'" and "P \<subseteq> P'" and "procs s' = procs s"
  shows "grows_to hw B P s s'"
  using assms unfolding grows_to_def by blast

lemma machine_ok_regs: "machine_ok hw B P (User u, s) \<Longrightarrow> machine_ok hw B P (User u', s)"
  by (simp add: machine_ok_def)

lemma grows_same: "machine_ok hw B P (User u, s) \<Longrightarrow> grows_to hw B P s s"
  using machine_ok_regs [of hw B P u s] step_keeps_refl [of hw P s] unfolding grows_to_def by (intro conjI exI [of _ B] exI [of _ P]) auto

text \<open>Where the number of the new object goes must be the process's own.\<close>

abbreviation own_word :: "hw \<Rightarrow> kernel \<Rightarrow> nat \<Rightarrow> bool" where
  "own_word hw s a \<equiv> own hw s a \<longrightarrow> (\<forall>b. a \<le> b \<and> b < a + 4 \<longrightarrow> own hw s b)"

lemma creation_facts:
  fixes s :: kernel
  assumes ok: "machine_ok hw B P (User u, s)" and run: "running (procs s) \<noteq> idle_node s"
  obtains Q where "sched_inv s Q B" "processes s Q B = P" "tables_ok s Q B" "families_ok s Q B P" "heap_ok s"
    "u_inv hw (ptbr1 s) s" "table_of s (running (procs s)) = ptbr1 s" "running (procs s) \<in> P" "region_ok hw (ptbr1 s) s"
    "\<forall>i. brk_next s + i \<notin> dom Q \<and> \<not> live s (brk_next s + i)"
    "\<forall>i. brk_next s + i \<notin> {ready_ll (procs s), plc_pipe (pilocvar s), plc_lock (pilocvar s), plc_cvar (pilocvar s)}"
proof -
  obtain Q where Q: "sched_inv s Q B" "processes s Q B = P" "tables_ok s Q B" "families_ok s Q B P" using ok by (auto simp: machine_ok_def)
  have h: "heap_ok s" and own: "on_own_tables hw s" and sp: "spaces_ok hw P s" using ok by (simp_all add: machine_ok_def)
  have r: "running (procs s) \<in> P" using running_in [of s Q B] Q(2) run by simp
  have t: "table_of s (running (procs s)) = ptbr1 s" using own by (simp add: on_own_tables_def table_of_def)
  have reg: "region_ok hw (ptbr1 s) s" using sp r t by (auto simp: spaces_ok_def)
  have below: "\<forall>l\<in>dom Q. l < brk_next s" using lists_ok_below [OF h sched_invD(3) [OF Q(1)]] by blast
  then have d: "\<forall>i. brk_next s + i \<notin> dom Q" by (metis not_add_less1)
  have l: "\<forall>i. \<not> live s (brk_next s + i)" using live_below [OF h] by (metis not_add_less1)
  have "ready_ll (procs s) \<in> dom Q" using sched_midD(5) [OF sched_invD(1) [OF Q(1)]] sched_invD(1) [OF Q(1)] by (auto simp: sched_mid_def)
  moreover have "plc_pipe (pilocvar s) \<in> dom Q" "plc_lock (pilocvar s) \<in> dom Q" "plc_cvar (pilocvar s) \<in> dom Q" using Q(3) by (auto simp: tables_ok_def)
  ultimately have "\<forall>i. brk_next s + i \<notin> {ready_ll (procs s), plc_pipe (pilocvar s), plc_lock (pilocvar s), plc_cvar (pilocvar s)}"
    using d by (metis empty_iff insert_iff)
  then show thesis using that [OF Q h region_okD(1) [OF reg] t r reg] d l by simp
qed

lemma lock_init_grows:
  fixes s :: kernel
  assumes ok: "machine_ok hw B P (User u, s)" and hw: "hw_ok hw" and run: "running (procs s) \<noteq> idle_node s" and idp: "own_word hw s idp"
  shows "\<exists>r s'. KernelLockInit hw idp s = Some (r, s') \<and> grows_to hw B P s s'"
proof -
  obtain Q where Q: "sched_inv s Q B" "processes s Q B = P" "tables_ok s Q B" "families_ok s Q B P" and h: "heap_ok s"
    and u: "u_inv hw (ptbr1 s) s" and t: "table_of s (running (procs s)) = ptbr1 s" and "running (procs s) \<in> P" "region_ok hw (ptbr1 s) s"
    and fresh: "\<forall>i. brk_next s + i \<notin> dom Q \<and> \<not> live s (brk_next s + i)"
    and ne: "\<forall>i. brk_next s + i \<notin> {ready_ll (procs s), plc_pipe (pilocvar s), plc_lock (pilocvar s), plc_cvar (pilocvar s)}"
    by (rule creation_facts [OF ok run])
  obtain zs where z: "Q (plc_lock (pilocvar s)) = Some zs" "plc_lock (pilocvar s) \<notin> B" using Q(3) by (auto simp: tables_ok_def)
  note K = KernelLockInit_ok [OF hw Q(1) h u t [unfolded table_of_def] z idp [THEN mp]]
  let ?k = "brk_next s"
  let ?Q = "Q(?k + 1 \<mapsto> [], plc_lock (pilocvar s) \<mapsto> zs @ [?k + 2])" and ?B = "insert (?k + 1) B"
  show ?thesis
  proof (cases "no_kernel_memory hw 1 s \<noteq> 0 \<or> \<not> own hw s idp")
    case True
    then have "KernelLockInit hw idp s = Some (ERROR hw, s)" using K by (simp only: if_True)
    then show ?thesis using grows_same [OF ok] by blast
  next
    case False
    then obtain s' where s': "KernelLockInit hw idp s = Some (0, s')" "sched_inv s' ?Q ?B"
        "locks s' = (locks s)(?k := \<lparr>l_owner = NULL, l_blocked = ?k + 1, l_unfulfilled = 0, l_cvar = 0\<rparr>)" "cvars s' = cvars s"
        "pilocvar s' = (pilocvar s)\<lparr>plc_count := plc_count (pilocvar s) + 1\<rparr>" "nd_data (nodes s' (?k + 2)) = ?k" "enlarged hw s s'" "live s' ?k"
      using K by (auto simp only: if_False)
    note new = fresh [rule_format, of 0] fresh [rule_format, of 1] ne [rule_format, of 1]
    have kl: "lock_ok s' ?B ?k" using s'(3,8) enlarged_procs [OF s'(7)] new(3) by (simp add: lock_ok_def)
    have g: "tables_grown Q B s ?Q ?B s'" using Q(3) new(3) s'(5,6) kl z(1) by (auto simp: tables_grown_def tables_ok_def)
    have m: "machine_ok hw ?B P (User v, s') \<and> step_keeps hw P s s'" for v
      by (rule object_grows [OF ok hw Q s'(7,2) _ _ _ g]) (use new s'(3,4) in auto)
    have "grows_to hw B P s s'" by (rule grows_toI [OF m]) (use enlarged_procs [OF s'(7)] in auto)
    with s'(1) show ?thesis by blast
  qed
qed

lemma cvar_init_grows:
  fixes s :: kernel
  assumes ok: "machine_ok hw B P (User u, s)" and hw: "hw_ok hw" and run: "running (procs s) \<noteq> idle_node s" and idp: "own_word hw s idp"
  shows "\<exists>r s'. KernelCvarInit hw idp s = Some (r, s') \<and> grows_to hw B P s s'"
proof -
  obtain Q where Q: "sched_inv s Q B" "processes s Q B = P" "tables_ok s Q B" "families_ok s Q B P" and h: "heap_ok s"
    and u: "u_inv hw (ptbr1 s) s" and t: "table_of s (running (procs s)) = ptbr1 s" and "running (procs s) \<in> P" "region_ok hw (ptbr1 s) s"
    and fresh: "\<forall>i. brk_next s + i \<notin> dom Q \<and> \<not> live s (brk_next s + i)"
    and ne: "\<forall>i. brk_next s + i \<notin> {ready_ll (procs s), plc_pipe (pilocvar s), plc_lock (pilocvar s), plc_cvar (pilocvar s)}"
    by (rule creation_facts [OF ok run])
  obtain zs where z: "Q (plc_cvar (pilocvar s)) = Some zs" "plc_cvar (pilocvar s) \<notin> B" using Q(3) by (auto simp: tables_ok_def)
  note K = KernelCvarInit_ok [OF hw Q(1) h u t [unfolded table_of_def] z idp [THEN mp]]
  let ?k = "brk_next s"
  let ?Q = "Q(?k + 1 \<mapsto> [], plc_cvar (pilocvar s) \<mapsto> zs @ [?k + 2])" and ?B = "insert (?k + 1) B"
  show ?thesis
  proof (cases "no_kernel_memory hw 1 s \<noteq> 0 \<or> \<not> own hw s idp")
    case True
    then have "KernelCvarInit hw idp s = Some (ERROR hw, s)" using K by (simp only: if_True)
    then show ?thesis using grows_same [OF ok] by blast
  next
    case False
    then obtain s' where s': "KernelCvarInit hw idp s = Some (0, s')" "sched_inv s' ?Q ?B"
        "cvars s' = (cvars s)(?k := \<lparr>c_blocked = ?k + 1\<rparr>)" "locks s' = locks s"
        "pilocvar s' = (pilocvar s)\<lparr>plc_count := plc_count (pilocvar s) + 1\<rparr>" "nd_data (nodes s' (?k + 2)) = ?k" "enlarged hw s s'" "live s' ?k"
      using K by (auto simp only: if_False)
    note new = fresh [rule_format, of 0] fresh [rule_format, of 1] ne [rule_format, of 1]
    have kl: "cvar_ok s' ?B ?k" using s'(3,8) enlarged_procs [OF s'(7)] new(3) by (simp add: cvar_ok_def)
    have g: "tables_grown Q B s ?Q ?B s'" using Q(3) new(3) s'(5,6) kl z(1) by (auto simp: tables_grown_def tables_ok_def)
    have m: "machine_ok hw ?B P (User v, s') \<and> step_keeps hw P s s'" for v
      by (rule object_grows [OF ok hw Q s'(7,2) _ _ _ g]) (use new s'(3,4) in auto)
    have "grows_to hw B P s s'" by (rule grows_toI [OF m]) (use enlarged_procs [OF s'(7)] in auto)
    with s'(1) show ?thesis by blast
  qed
qed

lemma pipe_init_grows:
  fixes s :: kernel
  assumes ok: "machine_ok hw B P (User u, s)" and hw: "hw_ok hw" and run: "running (procs s) \<noteq> idle_node s" and idp: "own_word hw s idp"
  shows "\<exists>r s'. KernelPipeInit hw idp s = Some (r, s') \<and> grows_to hw B P s s'"
proof -
  obtain Q where Q: "sched_inv s Q B" "processes s Q B = P" "tables_ok s Q B" "families_ok s Q B P" and h: "heap_ok s"
    and u: "u_inv hw (ptbr1 s) s" and t: "table_of s (running (procs s)) = ptbr1 s" and "running (procs s) \<in> P" "region_ok hw (ptbr1 s) s"
    and fresh: "\<forall>i. brk_next s + i \<notin> dom Q \<and> \<not> live s (brk_next s + i)"
    and ne: "\<forall>i. brk_next s + i \<notin> {ready_ll (procs s), plc_pipe (pilocvar s), plc_lock (pilocvar s), plc_cvar (pilocvar s)}"
    by (rule creation_facts [OF ok run])
  obtain zs where z: "Q (plc_pipe (pilocvar s)) = Some zs" "plc_pipe (pilocvar s) \<notin> B" using Q(3) by (auto simp: tables_ok_def)
  note K = KernelPipeInit_ok [OF hw Q(1) h u t [unfolded table_of_def] z idp [THEN mp]]
  let ?k = "brk_next s"
  let ?Q = "Q(?k + 2 \<mapsto> [], ?k + 3 \<mapsto> [], plc_pipe (pilocvar s) \<mapsto> zs @ [?k + 4])" and ?B = "insert (?k + 3) (insert (?k + 2) B)"
  show ?thesis
  proof (cases "no_kernel_memory hw 1 s \<noteq> 0 \<or> \<not> own hw s idp")
    case True
    then have "KernelPipeInit hw idp s = Some (ERROR hw, s)" using K by (simp only: if_True)
    then show ?thesis using grows_same [OF ok] by blast
  next
    case False
    then obtain s' where s': "KernelPipeInit hw idp s = Some (0, s')" "sched_inv s' ?Q ?B"
        "locks s' = locks s" "cvars s' = cvars s"
        "pilocvar s' = (pilocvar s)\<lparr>plc_count := plc_count (pilocvar s) + 1\<rparr>" "enlarged hw s s'"
      using K by (auto simp only: if_False)
    note new = fresh [rule_format, of 2] fresh [rule_format, of 3] ne [rule_format, of 2] ne [rule_format, of 3]
    obtain ls cs where T: "Q (plc_lock (pilocvar s)) = Some ls" "Q (plc_cvar (pilocvar s)) = Some cs"
        "plc_lock (pilocvar s) \<noteq> plc_pipe (pilocvar s)" "plc_cvar (pilocvar s) \<noteq> plc_pipe (pilocvar s)" using Q(3) by (auto simp: tables_ok_def)
    have "?Q (plc_lock (pilocvar s)) = Some (ls @ [])" "?Q (plc_cvar (pilocvar s)) = Some (cs @ [])" using new(3,4) T by auto
    then have g: "tables_grown Q B s ?Q ?B s'" using T(1,2) s'(5) unfolding tables_grown_def by (intro conjI exI [of _ "[]"]) simp_all
    have same: "?Q l = Q l" if "l \<in> dom Q" "l \<notin> {plc_pipe (pilocvar s), plc_lock (pilocvar s), plc_cvar (pilocvar s)}" for l
      using that new(1,2) by (metis fun_upd_other insertI1)
    have fresh_B: "l \<in> ?B \<Longrightarrow> l \<in> B \<or> \<not> live s l \<and> ?Q l = Some []" for l using new by auto
    have m: "machine_ok hw ?B P (User v, s') \<and> step_keeps hw P s s'" for v
      by (rule object_grows [OF ok hw Q s'(6,2) _ fresh_B same g]) (use s'(3,4) in auto)
    have "grows_to hw B P s s'" by (rule grows_toI [OF m]) (use enlarged_procs [OF s'(6)] in auto)
    with s'(1) show ?thesis by blast
  qed
qed

section \<open>A new process\<close>

text \<open>
  The memory check of \<open>KernelFork\<close> counts the pages the parent's table says it has, which is not what is copied; so a fork that passes
  the check must really find frames for the pages that are mapped and for a kernel stack.
\<close>

definition fork_fits :: "hw \<Rightarrow> kernel \<Rightarrow> bool" where
  "fork_fits hw s \<longleftrightarrow> no_kernel_memory hw (u_size (upts s (ptbr1 s)) + 3) s \<noteq> 0 \<or>
     int (card (mapped_pages hw (ptbr1 s) s)) + NUM_KSTACK_PAGES hw \<le> frames_left (free_frame s)"

lemma stack_mapped_running:
  assumes own: "on_own_tables hw s" and st: "own_stack hw s (running (procs s))"
  shows "stack_mapped hw s"
proof -
  have k: "k_pt (kernel_pt s) (ks_index hw j) = kstacks s (pcb_kstack (the_pcb s (running (procs s)))) j" if "0 \<le> j" "j < NUM_KSTACK_PAGES hw" for j
    using own that by (simp add: on_own_tables_def ks_index_def)
  have v: "\<forall>j. 0 \<le> j \<longrightarrow> j < NUM_KSTACK_PAGES hw \<longrightarrow> pte_valid (kstacks s (pcb_kstack (the_pcb s (running (procs s)))) j) \<noteq> 0"
    and u: "stack_frames hw s (running (procs s)) \<subseteq> used hw (free_frame s)" using st unfolding own_stack_def by blast+
  have "(\<lambda>j. pte_pfn (kstacks s (pcb_kstack (the_pcb s (running (procs s)))) j)) ` {0..<NUM_KSTACK_PAGES hw} \<subseteq> used hw (free_frame s)"
    using u unfolding stack_frames_valid [OF v] .
  with v k show ?thesis by (auto simp: stack_mapped_def stack_frame_def)
qed

text \<open>The child of a fork is a new process in this sense.\<close>

lemma forked_new:
  fixes s s' :: kernel
  assumes hw: "hw_ok hw" and f: "forked hw parent c F G s s'" and e: "enlarged hw s s'" and ch: "child_ok s c s'" and c: "\<not> live s c"
    and par: "live s parent" and idle: "live s (idle_node s)"
    and reg: "region_ok hw (table_of s parent) s" and sb: "same_breaks (upts s (table_of s parent)) (upts s' (table_of s' c))"
  shows "new_process hw s c s'"
proof -
  let ?up = "table_of s parent" and ?ch = "the_pcb s' c"
  define V where "V = mapped_pages hw ?up s"
  define K where "K = {0..<NUM_KSTACK_PAGES hw}"
  have f': "pcb_kc ?ch = KC_Fork parent c" "inj_on F V" "F ` V \<inter> G ` K = {}" "F ` V \<union> G ` K \<subseteq> pool hw (free_frame s)"
      "pool hw (free_frame s') = pool hw (free_frame s) - (F ` V \<union> G ` K)"
      "upages hw (table_of s' c) s' = (\<lambda>i. if i \<in> V then Some (F i, prot_of hw ?up s i) else None)"
      "kspages hw (pcb_kstack ?ch) s' = (\<lambda>i. if i \<in> K then Some (G i, PROT_RW hw) else None)"
    using f unfolding forked_def Let_def table_of_def V_def K_def by blast+
  have size: "ff_size (free_frame s') = ff_size (free_frame s)" and fr: "frames_ok hw (free_frame s')" using e by (simp_all add: enlarged_def)
  have used: "F ` V \<union> G ` K \<subseteq> used hw (free_frame s')" using f'(4,5) unfolding pool_def size by blast
  have sf: "stack_frames hw s' c = G ` K" by (auto simp: stack_frames_def f'(7))
  have uf: "frames_of hw (table_of s' c) s' = F ` V" by (auto simp: frames_of_def f'(6))
  have live: "live s' (table_of s' c)" using ch by (simp add: child_ok_def proc_ok_def table_of_def)
  have u: "u_inv hw (table_of s' c) s'"
    using live fr used f'(2) unfolding u_inv_def sound_def f'(6) by (auto simp: inj_on_def split: if_splits)
  have "i \<in> V \<longleftrightarrow> upages hw ?up s i \<noteq> None" for i by (simp add: V_def mapped_pages_def)
  then have r: "region_ok hw (table_of s' c) s'"
    using reg u sb by (simp add: region_ok_def Let_def same_breaks_def heap_end_def stack_start_def f'(6))
  have "pte_valid (kstacks s' (pcb_kstack ?ch) j) \<noteq> 0" if "0 \<le> j" "j < NUM_KSTACK_PAGES hw" for j
    using fun_cong [OF f'(7), of j] that by (auto simp: kspages_def entries_def K_def split: if_splits)
  then have "own_stack hw s' c" using used by (simp add: own_stack_def sf)
  then show ?thesis
    using f'(1,3,4) r ch c par idle unfolding new_process_def sf uf by (auto simp: child_ok_def table_of_def)
qed


lemma fork_grows:
  fixes s :: kernel
  assumes ok: "machine_ok hw B P (User u, s)" and hw: "hw_ok hw" and run: "running (procs s) \<noteq> idle_node s" and fits: "fork_fits hw s"
  shows "\<exists>r s'. KernelFork hw s = Some (r, s') \<and> grows_to hw B P s s'"
proof -
  let ?me = "running (procs s)"
  obtain Q where Q: "sched_inv s Q B" "processes s Q B = P" "tables_ok s Q B" "families_ok s Q B P" and h: "heap_ok s"
    and u: "u_inv hw (ptbr1 s) s" and t: "table_of s ?me = ptbr1 s" and me: "?me \<in> P" and reg: "region_ok hw (ptbr1 s) s"
    and fresh: "\<forall>i. brk_next s + i \<notin> dom Q \<and> \<not> live s (brk_next s + i)"
    and ne: "\<forall>i. brk_next s + i \<notin> {ready_ll (procs s), plc_pipe (pilocvar s), plc_lock (pilocvar s), plc_cvar (pilocvar s)}"
    by (rule creation_facts [OF ok run])
  have t': "pcb_userpt (the_pcb s ?me) = ptbr1 s" using t by (simp add: table_of_def)
  have pm: "proc_ok s ?me" "proc_ok s (idle_node s)" using sched_invD(4,5) [OF Q(1)] by simp_all
  have up: "live s (ptbr1 s)" using u by (simp add: u_inv_def)
  show ?thesis
  proof (cases "no_kernel_memory hw (u_size (upts s (ptbr1 s)) + 3) s = 0")
    case False
    have "curr_pcb s = Some (the_pcb s ?me)" "rd_upt s (ptbr1 s) = Some (upts s (ptbr1 s))"
      using pm(1) up by (simp_all add: curr_pcb_def rd_upt_def)
    then have "KernelFork hw s = Some (ERROR hw, s)" using False by (simp add: KernelFork_def t')
    then show ?thesis using grows_same [OF ok] by blast
  next
    case True
    let ?A = "pcb_a_children (the_pcb s ?me)" and ?R = "ready_ll (procs s)"
    have A: "?A \<in> dom Q" "?A \<notin> B" "?A \<notin> {plc_pipe (pilocvar s), plc_lock (pilocvar s), plc_cvar (pilocvar s)}"
      using Q(4) me by (auto simp: families_ok_def)
    then obtain as where as: "Q ?A = Some as" by blast
    have st: "stack_mapped hw s" using ok me by (intro stack_mapped_running) (simp_all add: machine_ok_def stacks_ok_def)
    have room: "int (card (mapped_pages hw (ptbr1 s) s)) + NUM_KSTACK_PAGES hw \<le> frames_left (free_frame s)"
      using fits True by (simp add: fork_fits_def)
    obtain c s' F G Q' m where s': "KernelFork hw s = Some (pcb_pid (the_pcb s' c), s')" "forked hw ?me c F G s s'" "sched_inv s' Q' B"
        "Q' ?R = Some (ready_of s Q @ [c])" "\<forall>l\<in>B. l \<noteq> ?R \<longrightarrow> Q' l = Q l" "Q' ?A = Some (as @ [m])" "enlarged hw s s'"
        "sched.more s' = sched.more s" "\<not> live s c" "child_ok s c s'" "same_breaks (upts s (ptbr1 s)) (upts s' (pcb_userpt (the_pcb s' c)))"
        "Q' (pcb_a_children (the_pcb s' c)) = Some []" "\<forall>l. l \<in> dom Q \<longrightarrow> l \<noteq> ?R \<longrightarrow> l \<noteq> ?A \<longrightarrow> Q' l = Q l"
      using fork_spec [OF hw h Q(1) as A(2) u [folded t'] t' [symmetric] st room True [folded t']] by blast
    have m: "locks s' = locks s" "cvars s' = cvars s" "pilocvar s' = pilocvar s" using s'(8) by (cases s; cases s'; simp)+
    have p: "procs s' = procs s" by (rule enlarged_procs [OF s'(7)])
    have i: "idle_node s' = idle_node s" using s'(7) by (simp add: enlarged_def)
    have R: "?R \<in> B" using sched_midD(5) [OF sched_invD(1) [OF Q(1)]] .
    have plc: "l \<in> dom Q \<and> l \<notin> B" if "l \<in> {plc_pipe (pilocvar s), plc_lock (pilocvar s), plc_cvar (pilocvar s)}" for l
      using Q(3) that by (auto simp: tables_ok_def)
    have keep: "Q' l = Q l" if "l \<in> {plc_pipe (pilocvar s), plc_lock (pilocvar s), plc_cvar (pilocvar s)}" for l
    proof -
      have "l \<noteq> ?A" using A(3) that by metis
      moreover have "l \<in> dom Q" "l \<noteq> ?R" using plc [OF that] R by auto
      ultimately show ?thesis using s'(13) by simp
    qed
    have "members Q' B = insert c (members Q B)"
    proof -
      have "Q' l = (Q(?R \<mapsto> ready_of s Q @ [c])) l" if "l \<in> B" for l using s'(4,5) that by simp
      then have "members Q' B = members (Q(?R \<mapsto> ready_of s Q @ [c])) B" by (simp add: members_def)
      also have "\<dots> = insert c (members Q B)" using R by (intro members_grow) auto
      finally show ?thesis .
    qed
    then have P': "processes s' Q' B = P \<union> {c}" using Q(2) by (auto simp: processes_def p i)
    have "tables_grown Q B s Q' B s'" using keep Q(3) by (auto simp: tables_grown_def tables_ok_def m)
    then have T: "tables_ok s' Q' B" by (rule tables_ok_grown [OF Q(1,3) s'(7)]) (simp_all add: m)
    have old: "proc_ok s n" if "n \<in> P" for n
      using that pm(1) sched_invD(1) [OF Q(1)] Q(2) by (auto simp: processes_def members_def sched_mid_def)
    have fam: "Q' (pcb_a_children (the_pcb s' n)) \<noteq> None \<and> pcb_a_children (the_pcb s' n) \<notin> B \<and>
        pcb_a_children (the_pcb s' n) \<notin> {plc_pipe (pilocvar s), plc_lock (pilocvar s), plc_cvar (pilocvar s)}" if n: "n \<in> P \<union> {c}" for n
    proof (cases "n \<in> P")
      case True
      let ?l = "pcb_a_children (the_pcb s n)"
      have F: "?l \<in> dom Q" "?l \<notin> B" "?l \<notin> {plc_pipe (pilocvar s), plc_lock (pilocvar s), plc_cvar (pilocvar s)}"
        using Q(4) True by (auto simp: families_ok_def)
      have "?l \<noteq> ?R" using F(2) R by metis
      then have "Q' ?l \<noteq> None" using s'(6,13) F(1) by (cases "?l = ?A") auto
      then show ?thesis using F enlarged_old(1) [OF s'(7) old [OF True]] by simp
    next
      case False
      let ?l = "pcb_a_children (the_pcb s' c)"
      have d: "B \<subseteq> dom Q" using sched_invD(1) [OF Q(1)] by (simp add: sched_mid_def)
      have "?l \<notin> dom Q" using s'(10) list_live [OF Q(1)] by (auto simp: child_ok_def)
      then have "?l \<notin> B" "?l \<notin> {plc_pipe (pilocvar s), plc_lock (pilocvar s), plc_cvar (pilocvar s)}" using d plc by blast+
      then show ?thesis using n False s'(12) by simp
    qed
    have N: "new_process hw s c s'"
      using forked_new [OF hw s'(2,7,10,9) proc_okD(1) [OF pm(1)] proc_okD(1) [OF pm(2)]] reg s'(11) by (simp add: t table_of_def t')
    have f: "families_ok s' Q' B (P \<union> {c})" unfolding families_ok_def m using fam by blast
    have "machine_ok hw B (P \<union> {c}) (User v, s') \<and> step_keeps hw P s s'" for v
      by (rule machine_ok_enlarged [OF ok hw s'(7) subset_refl _ s'(3) P' T f]) (use N m in auto)
    then have "grows_to hw B P s s'" by (rule grows_toI) (use p in auto)
    with s'(1) show ?thesis by blast
  qed
qed


section \<open>The calls\<close>

text \<open>The calls that create, and what makes one fit: memory for the child of a fork, and a place for the number of an object.\<close>

definition creation_calls :: "syscall set" where
  "creation_calls = {YALNIX_FORK, YALNIX_PIPE_INIT, YALNIX_LOCK_INIT, YALNIX_CVAR_INIT}"

definition creation_fits :: "hw \<Rightarrow> syscall \<Rightarrow> kernel \<Rightarrow> user_context \<Rightarrow> bool" where
  "creation_fits hw c s uc \<longleftrightarrow> (if c = YALNIX_FORK then fork_fits hw s else own_word hw s (ptr_arg uc 0))"

lemma creation_switch:
  fixes s :: kernel
  assumes ok: "machine_ok hw B P (User u, s)" and hw: "hw_ok hw" and run: "running (procs s) \<noteq> idle_node s"
    and c: "uc_code uc = code_of hw c" "c \<in> creation_calls" "creation_fits hw c s uc"
  shows "\<exists>r s'. syscall_switch hw uc s = Some (Ret r, s') \<and> grows_to hw B P s s'"
proof -
  have f: "\<exists>r s'. KernelFork hw s = Some (r, s') \<and> grows_to hw B P s s'" if "c = YALNIX_FORK"
    using fork_grows [OF ok hw run] c(3) that by (simp add: creation_fits_def)
  have o: "own_word hw s (ptr_arg uc 0)" if "c \<noteq> YALNIX_FORK" using c(3) that by (simp add: creation_fits_def)
  from c(2) consider "c = YALNIX_FORK" | "c = YALNIX_PIPE_INIT" | "c = YALNIX_LOCK_INIT" | "c = YALNIX_CVAR_INIT" by (auto simp: creation_calls_def)
  then show ?thesis
  proof cases
    case 1
    with f show ?thesis by (auto simp: syscall_switch_def Let_def c(1) code_of_eq [OF hw] returns_def)
  next
    case 2
    with pipe_init_grows [OF ok hw run o] show ?thesis by (auto simp: syscall_switch_def Let_def c(1) code_of_eq [OF hw] returns_def)
  next
    case 3
    with lock_init_grows [OF ok hw run o] show ?thesis by (auto simp: syscall_switch_def Let_def c(1) code_of_eq [OF hw] returns_def)
  next
    case 4
    with cvar_init_grows [OF ok hw run o] show ?thesis by (auto simp: syscall_switch_def Let_def c(1) code_of_eq [OF hw] returns_def)
  qed
qed

lemma leave_with_quiet:
  fixes s :: kernel
  assumes "sched_inv s Q B"
  shows "\<exists>u s'. leave_with r s = Some (Ret u, s') \<and> (\<forall>B Q. sched_inv s Q B \<longrightarrow> quiet hw B Q s s')"
proof -
  let ?p = "nd_data (nodes s (running (procs s)))"
  let ?s = "s\<lparr>pcbs := (pcbs s)(?p := (pcbs s ?p)\<lparr>pcb_uc := set_reg0 r (pcb_uc (pcbs s ?p))\<rparr>)\<rparr>"
  have p: "proc_ok s (running (procs s))" using sched_invD(4) [OF assms] .
  then have "leave_with r s = Some (Ret (set_reg0 r (pcb_uc (pcbs s ?p))), ?s)"
    by (simp add: leave_with_def add_return_val_def leave_def restore_uc_def pcb_of_def proc_ok_def live_def)
  moreover have "\<forall>B Q. sched_inv s Q B \<longrightarrow> quiet hw B Q s ?s" using quiet_upd_uc by blast
  ultimately show ?thesis by blast
qed

lemma grows_quiet:
  assumes g: "grows_to hw B P s s'" and q: "\<And>B' Q. sched_inv s' Q B' \<Longrightarrow> quiet hw B' Q s' s''" and P: "machine_ok hw B P (User u, s)"
  shows "grows_to hw B P s s''"
proof -
  obtain B' P' where B: "B \<subseteq> B'" "P \<subseteq> P'" "\<And>u. machine_ok hw B' P' (User u, s')" and k: "step_keeps hw P s s'" and p: "procs s' = procs s"
    using g by (auto simp: grows_to_def)
  have m: "machine_ok hw B' P' (User v, s'') \<and> step_keeps hw P' s' s''" for v by (rule machine_ok_same [OF B(3)]) (rule q)
  obtain Q where "sched_inv s' Q B'" using B(3) by (auto simp: machine_ok_def)
  then have "procs s'' = procs s'" using q by (simp add: quiet_def)
  moreover have "step_keeps hw P s s''" by (rule step_keeps_trans [OF k _ B(2) p]) (use m in blast)
  ultimately show ?thesis using m p by (intro grows_toI [OF _ B(1,2)]) simp_all
qed

text \<open>The whole trap: the context is saved, the call is made, and the process goes on with its result.\<close>

lemma trap_kernel_grows:
  fixes s :: kernel
  assumes ok: "machine_ok hw B P (User u, s)" and hw: "hw_ok hw" and run: "running (procs s) \<noteq> idle_node s"
    and c: "uc_code uc = code_of hw c" "c \<in> creation_calls" "creation_fits hw c s uc"
  shows "\<exists>r s'. TrapKernel hw uc s = Some (Ret r, s') \<and> grows_to hw B P s s'"
proof -
  let ?p = "nd_data (nodes s (running (procs s)))"
  define t where "t = s\<lparr>pcbs := (pcbs s)(?p := (pcbs s ?p)\<lparr>pcb_uc := uc\<rparr>)\<rparr>"
  have q: "quiet hw B Q s t" if "sched_inv s Q B" for Q unfolding t_def by (rule quiet_upd_uc [OF that])
  have m: "machine_ok hw B P (User v, t)" "step_keeps hw P s t" for v using machine_ok_same [OF ok q] by blast+
  have t: "running (procs t) \<noteq> idle_node t" "procs t = procs s" using run by (simp_all add: t_def)
  have own: "own hw t a = own hw s a" for a by (simp add: user_addr_def t_def upages_def live_def)
  have "fork_fits hw t = fork_fits hw s" by (simp add: fork_fits_def no_kernel_memory_def t_def mapped_pages_def upages_def)
  then have fits: "creation_fits hw c t uc" using c(3) own by (simp add: creation_fits_def)
  obtain r s1 where s1: "syscall_switch hw uc t = Some (Ret r, s1)" "grows_to hw B P t s1"
    using creation_switch [OF m(1) hw t(1) c(1,2) fits] by blast
  obtain Q where Q: "sched_inv s Q B" using ok by (auto simp: machine_ok_def)
  obtain B1 P1 Q1 where i1: "sched_inv s1 Q1 B1" using s1(2) by (auto simp: grows_to_def machine_ok_def)
  have "c \<noteq> YALNIX_EXEC" using c(2) by (auto simp: creation_calls_def)
  then have e: "TrapKernel hw uc s = leave_with r s1"
    using save_uc_eq [OF sched_invD(4) [OF Q], of uc] s1(1) by (simp add: TrapKernel_def c(1) code_of_eq [OF hw] t_def after_call_def)
  obtain v s2 where s2: "leave_with r s1 = Some (Ret v, s2)" "\<And>B Q. sched_inv s1 Q B \<Longrightarrow> quiet hw B Q s1 s2"
    using leave_with_quiet [OF i1, of r hw] by blast
  obtain B' P' where g: "B \<subseteq> B'" "P \<subseteq> P'" "\<And>u. machine_ok hw B' P' (User u, s2)" "step_keeps hw P t s2" "procs s2 = procs t"
    using grows_quiet [OF s1(2) s2(2) m(1)] by (auto simp: grows_to_def)
  have "step_keeps hw P s s2" by (rule step_keeps_trans [OF m(2) g(4) subset_refl t(2)])
  then have "grows_to hw B P s s2" using g t(2) by (intro grows_toI [OF _ g(1,2)]) simp_all
  with e s2(1) show ?thesis by auto
qed

end
