(* ===== verification/Machine_Spec.thy ===== *)
theory Machine_Spec
  imports Growth_Spec
begin

text \<open>
  The machine while its processes compute, use memory, fork, sleep and synchronise: an invariant of the whole state, kept by every
  step, in which no step meets undefined behaviour, locks exclude each other, and memory is isolated.
\<close>

section \<open>The machine\<close>

text \<open>
  Steps of the machine in which processes compute on their own memory, move their break, grow their stack, sleep, fork, create locks,
  condition variables and pipes, and use the locks and condition variables there are; the idle process makes no system call and does not fault.
\<close>

inductive calm_step :: "hw \<Rightarrow> mode \<times> kernel \<Rightarrow> mode \<times> kernel \<Rightarrow> bool" for hw :: hw where
  regs: "calm_step hw (User u, s) (User u', s)"
| writes: "VMEM_1_BASE hw \<le> a \<Longrightarrow> store hw a c s = Some s' \<Longrightarrow> calm_step hw (User u, s) (User u, s')"
| line: "calm_step hw (User u, s) (User u, s\<lparr>line_in := (line_in s)(tty := bytes)\<rparr>)"
| calls: "running (procs s) \<noteq> idle_node s \<Longrightarrow> uc_code u \<in> code_of hw ` calm_calls \<Longrightarrow> TrapKernel hw u s = Some (res, s') \<Longrightarrow>
    calm_step hw (User u, s) (mode_after res, s')"
| creates: "running (procs s) \<noteq> idle_node s \<Longrightarrow> c \<in> creation_calls \<Longrightarrow> uc_code u = code_of hw c \<Longrightarrow> creation_fits hw c s u \<Longrightarrow>
    TrapKernel hw u s = Some (res, s') \<Longrightarrow> calm_step hw (User u, s) (mode_after res, s')"
| clock: "TrapClock hw u s = Some (res, s') \<Longrightarrow> calm_step hw (User u, s) (mode_after res, s')"
| fault: "running (procs s) \<noteq> idle_node s \<Longrightarrow> stack_fault hw s u \<Longrightarrow> TrapMemory hw u s = Some (res, s') \<Longrightarrow>
    calm_step hw (User u, s) (mode_after res, s')"
| disk: "TrapDisk hw u s = Some (res, s') \<Longrightarrow> calm_step hw (User u, s) (mode_after res, s')"
| goes_on: "resume hw s = Some (res, s') \<Longrightarrow> calm_step hw (Kernel, s) (mode_after res, s')"

inductive_cases calm_step_user: "calm_step hw (User u, s) y"
inductive_cases calm_step_kernel: "calm_step hw (Kernel, s) y"

lemma calm_step_step: "calm_step hw x y \<Longrightarrow> step hw x y"
  by (induction rule: calm_step.induct) (auto intro: step.intros)

lemma machine_ok_running:
  assumes "machine_ok hw B P (Kernel, s)" and "sched_inv s Q B" "processes s Q B = P"
  defines "n \<equiv> running (procs s)"
  shows "to_user n (pcb_kc (the_pcb s n)) \<or> n \<noteq> idle_node s \<and> waits_at s B (pcb_kc (the_pcb s n))"
  using assms(1) running_in [of s Q B] assms(3) unfolding machine_ok_def n_def by fastforce

text \<open>After a step the machine is in order, with at least the processes and lists there were.\<close>

definition goes_well :: "hw \<Rightarrow> addr set \<Rightarrow> addr set \<Rightarrow> kernel \<Rightarrow> mode \<times> kernel \<Rightarrow> bool" where
  "goes_well hw B P s y \<longleftrightarrow> (\<exists>B' P'. B \<subseteq> B' \<and> P \<subseteq> P' \<and> machine_ok hw B' P' y) \<and> step_keeps hw P s (snd y)"

lemma goes_wellI: "machine_ok hw B P y \<and> step_keeps hw P s (snd y) \<Longrightarrow> goes_well hw B P s y"
  unfolding goes_well_def by blast

lemma machine_ok_step:
  assumes "calm_step hw x y" and hw: "hw_ok hw" and ok: "machine_ok hw B P x"
  shows "goes_well hw B P (snd x) y"
  using assms(1)
proof cases
  case (regs u s u')
  with ok machine_ok_same [of hw B P u s s u'] quiet_refl show ?thesis by (intro goes_wellI) fastforce
next
  case (writes a c s s' u)
  have own: "ptbr1 s = table_of s (running (procs s))" using ok by (simp add: writes(1) machine_ok_def on_own_tables_def table_of_def)
  obtain f where f: "frame_at hw s (int (drop_bit (PAGESHIFT hw) a)) = Some f" "s' = s\<lparr>pmem := (pmem s)(f := (pmem s f)(a mod PAGESIZE hw := c))\<rparr>"
    using writes(4) by (auto simp: store_def bind_Some_iff)
  have "f \<in> reach hw (table_of s (running (procs s))) s"
    using frame_in_table [OF hw writes(3) f(1)] unfolding own by (auto simp: reach_def frames_of_def)
  then have "own_memory hw s s'" unfolding own_memory_def Let_def f(2) by (auto simp: reach_def frames_of_def upages_def u_inv_def region_ok_def live_def)
  then have "quiet hw B Q s s'" if "sched_inv s Q B" for Q using that by (intro quiet_memory) (simp_all add: f(2) live_def owners_kept_def)
  with ok writes machine_ok_same [of hw B P u s s' u] show ?thesis by (intro goes_wellI) simp
next
  case (line u s tty bytes)
  have "sched_inv (s\<lparr>line_in := (line_in s)(tty := bytes)\<rparr>) Q B = sched_inv s Q B" for Q by (rule sched_inv_alike) simp_all
  then have "quiet hw B Q s (s\<lparr>line_in := (line_in s)(tty := bytes)\<rparr>)" if "sched_inv s Q B" for Q
    using that by (intro quietI) (simp_all add: live_def owners_kept_def)
  with ok line machine_ok_same [of hw B P u s] show ?thesis by (intro goes_wellI) simp
next
  case (calls s u res s')
  then obtain c where c: "uc_code u = code_of hw c" "c \<in> calm_calls" by blast
  have "calm hw B Q s (TrapKernel hw u s)" if Q: "sched_inv s Q B" "processes s Q B = P" "tables_ok s Q B" for Q
  proof -
    have "running (procs s) \<in> P" using running_in [of s Q B] Q(2) calls(3) by simp
    with ok have "region_ok hw (table_of s (running (procs s))) s" "ff_size (free_frame s) < 2 ^ 31" by (simp_all add: calls(1) machine_ok_def spaces_ok_def)
    then show ?thesis by (rule trap_kernel_calm [OF hw Q(1,3) calls(3) _ _ c])
  qed
  from machine_ok_calm [OF ok [unfolded calls(1)] this calls(5)] calls(1,2) show ?thesis by (intro goes_wellI) simp
next
  case (creates s c u res s')
  obtain r t where t: "TrapKernel hw u s = Some (Ret r, t)" "grows_to hw B P s t"
    using trap_kernel_grows [OF ok [unfolded creates(1)] hw creates(3,5,4,6)] by blast
  then have y: "y = (User r, t)" using creates(2,7) by (simp add: mode_after_def)
  show ?thesis using t(2) unfolding goes_well_def grows_to_def y creates(1) snd_conv by blast
next
  case (clock u s res s')
  show ?thesis using machine_ok_calm [OF ok [unfolded clock(1)] trap_clock_calm [OF hw] clock(3)] clock(1,2) by (intro goes_wellI) simp
next
  case (fault s u res s')
  have "calm hw B Q s (TrapMemory hw u s)" if Q: "sched_inv s Q B" "processes s Q B = P" for Q
  proof -
    have "running (procs s) \<in> P" using running_in [of s Q B] Q(2) fault(3) by simp
    with ok have "region_ok hw (table_of s (running (procs s))) s" "on_own_tables hw s" by (simp_all add: fault(1) machine_ok_def spaces_ok_def)
    then show ?thesis using trap_memory_calm [OF hw Q(1) _ _ fault(4)] by (auto intro: calm_ret)
  qed
  from machine_ok_calm [OF ok [unfolded fault(1)] this fault(5)] fault(1,2) show ?thesis by (intro goes_wellI) simp
next
  case (disk u s res s')
  then have "y = (User u, s)" by (auto simp: TrapDisk_def mode_after_def)
  with ok disk show ?thesis by (intro goes_wellI) (simp add: step_keeps_refl)
next
  case (goes_on s res s')
  have "calm hw B Q s (resume hw s)" if Q: "sched_inv s Q B" "processes s Q B = P" for Q
    using machine_ok_running [OF ok [unfolded goes_on(1)] Q] by (intro resume_calm [OF hw Q(1)]) auto
  from machine_ok_calm [OF ok [unfolded goes_on(1)] this goes_on(3)] goes_on(1,2) show ?thesis by (intro goes_wellI) simp
qed

lemma machine_ok_run:
  "(calm_step hw)\<^sup>*\<^sup>* x y \<Longrightarrow> hw_ok hw \<Longrightarrow> machine_ok hw B P x \<Longrightarrow> \<exists>B' P'. B \<subseteq> B' \<and> P \<subseteq> P' \<and> machine_ok hw B' P' y"
proof (induction rule: rtranclp_induct)
  case (step y z)
  then obtain B1 P1 where 1: "B \<subseteq> B1" "P \<subseteq> P1" "machine_ok hw B1 P1 y" by blast
  then obtain B2 P2 where "B1 \<subseteq> B2" "P1 \<subseteq> P2" "machine_ok hw B2 P2 z"
    using machine_ok_step [OF step.hyps(2) step.prems(1) 1(3)] by (auto simp: goes_well_def)
  with 1 show ?case by (meson subset_trans)
qed blast

lemma machine_goes_on:
  assumes "hw_ok hw" and ok: "machine_ok hw B P (Kernel, s)"
  shows "resume hw s \<noteq> None"
proof -
  obtain Q where Q: "sched_inv s Q B" "processes s Q B = P" using ok by (auto simp: machine_ok_def)
  have "calm hw B Q s (resume hw s)" using machine_ok_running [OF ok Q] by (intro resume_calm [OF assms(1) Q(1)]) auto
  then show ?thesis by (auto simp: calm_def)
qed

text \<open>
  C4: The whole machine, while its processes compute, move their break, grow their stack, sleep, fork, create locks, condition
  variables and pipes, and use the locks and condition variables there are.  However they are interleaved, in every state that is
  reached the processes are those of the start and those that were forked, each running or on exactly one list, each with memory and
  a kernel stack of its own; the hardware has the page table and kernel stack of the process that runs; and every process that does
  not run user code waits at a place in the kernel from which it can go on, with the lock it needs in place.
\<close>

theorem machine_invariant:
  fixes s s' :: kernel
  assumes "hw_ok hw" and "machine_ok hw B P (m, s)" and "(calm_step hw)\<^sup>*\<^sup>* (m, s) (m', s')"
  shows "\<exists>B' P'. B \<subseteq> B' \<and> P \<subseteq> P' \<and> machine_ok hw B' P' (m', s') \<and> (step hw)\<^sup>*\<^sup>* (m, s) (m', s') \<and>
    (\<exists>Q. sched_inv s' Q B' \<and> processes s' Q B' = P') \<and> ptbr1 s' = pcb_userpt (the_pcb s' (running (procs s')))"
proof -
  obtain B' P' where ok: "B \<subseteq> B'" "P \<subseteq> P'" "machine_ok hw B' P' (m', s')" using machine_ok_run [OF assms(3,1,2)] by blast
  have "(step hw)\<^sup>*\<^sup>* (m, s) (m', s')" using assms(3) rtranclp_mono [of "calm_step hw" "step hw"] calm_step_step by blast
  moreover have "(\<exists>Q. sched_inv s' Q B' \<and> processes s' Q B' = P') \<and> ptbr1 s' = pcb_userpt (the_pcb s' (running (procs s')))"
    using ok(3) by (auto simp: machine_ok_def on_own_tables_def)
  ultimately show ?thesis using ok by blast
qed

text \<open>The example machine with two processes beside the idle process: 10 runs, 11 is ready.\<close>

definition two_procs :: "(addr \<Rightarrow> lock) \<Rightarrow> kernel" where
  "two_procs L = demo_kernel\<lparr>lls := (\<lambda>_. \<lparr>ll_size = 0, ll_head = NULL, ll_tail = NULL\<rparr>)(1 := single 11, 5 := single 63, 6 := single 61, 7 := single 66),
     locks := L\<rparr>"

abbreviation two_Q :: "addr \<rightharpoonup> addr list" where
  "two_Q \<equiv> map_of [(1, [11]), (2, []), (3, []), (4, []), (5, [63]), (6, [61]), (7, [66]), (8, []), (9, []), (50, []), (51, []), (52, []), (70, [])]"

lemma two_simps [simp]:
  "procs (two_procs L) = \<lparr>running = 10, ready_ll = 1, waiting_ll = 2, delayed_ll = 3, orphans_ll = 4\<rparr>" "idle_node (two_procs L) = 12"
  "nodes (two_procs L) = demo_nodes" "pcbs (two_procs L) = demo_pcbs" "locks (two_procs L) = L" "live (two_procs L) a \<longleftrightarrow> 0 < a \<and> a < 100"
  "ptbr1 (two_procs L) = 30" "upts (two_procs L) = upts demo_kernel" "free_frame (two_procs L) = free_frame demo_kernel"
  "kstacks (two_procs L) = kstacks demo_kernel" "kernel_pt (two_procs L) = kernel_pt demo_kernel" "pmem (two_procs L) = pmem demo_kernel"
  "pilocvar (two_procs L) = pilocvar demo_kernel" "brk_next (two_procs L) = 100" "cvars (two_procs L) = cvars demo_kernel"
  by (auto simp: two_procs_def live_def) (auto simp: demo_kernel_def)

lemma two_inv: "sched_inv (two_procs L) two_Q demo_B"
proof -
  have d: "two_Q l = Some xs \<Longrightarrow> (l, xs) \<in> set [(1, [11]), (2, []), (3, []), (4, []), (5, [63]), (6, [61]), (7, [66]), (8, []), (9, []), (50, []), (51, []), (52, []), (70, [])]"
    for l xs by (rule map_of_SomeD)
  have "ll_at (two_procs L) l xs" if "two_Q l = Some xs" for l xs
    using d [OF that] by (auto simp: ll_at_def demo_nodes_def) (simp_all add: two_procs_def single_def)
  moreover have "set xs \<inter> set ys = {}" if "two_Q l = Some xs" "two_Q l' = Some ys" "l \<noteq> l'" for l l' xs ys
    using d [OF that(1)] d [OF that(2)] that(3) by auto
  ultimately have "lists_ok (two_procs L) two_Q" unfolding lists_ok_def by blast
  moreover have "\<not> queued two_Q n" if "n \<notin> {11, 61, 63, 66}" for n using that unfolding queued_def by (auto dest!: d)
  ultimately show ?thesis unfolding sched_inv_def sched_mid_def by (simp add: proc_ok_def demo_nodes_def demo_pcbs_def)
qed

lemma two_tables:
  "table_of (two_procs L) n = n + 20" "pcb_kstack (the_pcb (two_procs L) n) = n + 30" if "n \<in> {10, 11, 12}"
  using that by (auto simp: table_of_def demo_nodes_def demo_pcbs_def)

lemma two_spaces: "spaces_ok demo {10, 11} (two_procs L)"
proof -
  let ?s = "two_procs L"
  have u: "upages demo up ?s = upages demo up demo_kernel" for up by (simp add: upages_def)
  have i: "u_inv demo up ?s" if "up \<in> {30, 31, 32}" for up
    using that by (cases "up = 30") (auto simp: u_inv_def sound_def u demo_ff_ok demo_upages demo_used split: if_splits)
  have r: "region_ok demo 30 ?s" using region_ok_moved [of demo 30 demo_kernel ?s] demo_region i by simp
  have "region_ok demo 31 ?s"
    using i by (simp add: region_ok_def u demo_upages demo_empty_pt_def heap_end_def stack_start_def page_index_def Let_def)
  moreover have "frames_of demo up ?s = {}" if "up \<noteq> 30" for up using that by (simp add: frames_of_def u demo_upages)
  moreover have "ff_size (free_frame ?s) < 2 ^ 31" by (simp add: demo_kernel_def)
  ultimately show ?thesis unfolding spaces_ok_def using r i by (simp add: two_tables)
qed

lemma two_stacks: "stacks_ok demo {10, 11} (two_procs L)"
proof -
  let ?s = "two_procs L"
  have k: "kstacks ?s 40 = (\<lambda>i. entry (i + 14) 3)" "kstacks ?s 41 = (\<lambda>i. entry (i + 21) 3)" "kstacks ?s 42 = (\<lambda>i. entry (i + 23) 3)"
    by (simp_all add: demo_kernel_def)
  have K: "{0..<NUM_KSTACK_PAGES demo} = {0, 1 :: int}" by auto
  have v: "\<forall>j. 0 \<le> j \<longrightarrow> j < NUM_KSTACK_PAGES demo \<longrightarrow> pte_valid (kstacks ?s (pcb_kstack (the_pcb ?s n)) j) \<noteq> 0" if "n \<in> {10, 11, 12}" for n
    using that k two_tables(2) [OF that, of L] by (auto simp: entry_def)
  have "stack_frames demo ?s n = (\<lambda>j. pte_pfn (kstacks ?s (n + 30) j)) ` {0, 1}" if "n \<in> {10, 11, 12}" for n
    using stack_frames_valid [OF v [OF that]] unfolding K two_tables(2) [OF that] .
  then have f: "stack_frames demo ?s 10 = {14, 15}" "stack_frames demo ?s 11 = {21, 22}" "stack_frames demo ?s 12 = {23, 24}"
    using k by (simp_all add: entry_def)
  have p: "frames_of demo 30 ?s \<subseteq> {16, 17, 18}" "up \<noteq> 30 \<Longrightarrow> frames_of demo up ?s = {}" for up
  proof -
    have u: "upages demo up ?s = upages demo up demo_kernel" for up by (simp add: upages_def)
    show "up \<noteq> 30 \<Longrightarrow> frames_of demo up ?s = {}" by (simp add: frames_of_def u demo_upages)
    show "frames_of demo 30 ?s \<subseteq> {16, 17, 18}" unfolding frames_of_def u demo_upages(1) by (auto split: if_splits)
  qed
  have o: "own_stack demo ?s n" if "n \<in> {10, 11, 12}" for n
    using v [OF that] that f unfolding own_stack_def by (auto simp: demo_used)
  have q: "f \<notin> frames_of demo up ?s" if "f \<notin> {16, 17, 18}" for f up using p that by (cases "up = 30") auto
  show ?thesis unfolding stacks_ok_def using o f by (simp add: q)
qed

lemma two_machine:
  assumes "\<forall>a. l_blocked (L a) = 8"
  shows "machine_ok demo demo_B {10, 11} (User demo_uc, two_procs L)"
proof -
  let ?s = "two_procs L"
  have p: "processes ?s two_Q demo_B = {10, 11}" by (auto simp: processes_def members_def)
  have t: "plc_pipe (pilocvar demo_kernel) = 5" "plc_lock (pilocvar demo_kernel) = 6" "plc_cvar (pilocvar demo_kernel) = 7" by (simp_all add: demo_kernel_def)
  have tabs: "tables_ok ?s two_Q demo_B" using assms by (simp add: tables_ok_def t lock_ok_def cvar_ok_def demo_nodes_def)
  have fam: "families_ok ?s two_Q demo_B {10, 11}" by (simp add: families_ok_def t demo_nodes_def demo_pcbs_def)
  have own: "on_own_tables demo ?s" by (simp add: on_own_tables_def demo_nodes_def demo_pcbs_def) (simp add: demo_kernel_def)
  have "heap_ok ?s" by (simp add: heap_ok_def two_procs_def demo_kernel_def)
  moreover have "\<forall>n\<in>{10, 11}. nd_data (demo_nodes n) \<noteq> nd_data (demo_nodes 12)" by (simp add: demo_nodes_def)
  moreover have "\<forall>n\<in>{10, 11, 12}. pcb_kc (the_pcb ?s n) = KC_Clock" by (simp add: demo_pcbs_def)
  ultimately show ?thesis using p two_inv [of L] tabs fam own two_spaces [of L] two_stacks [of L] unfolding machine_ok_def by auto
qed

abbreviation two :: kernel where
  "two \<equiv> two_procs (locks demo_kernel)"

lemma two_ok: "machine_ok demo demo_B {10, 11} (User demo_uc, two)"
  by (rule two_machine) simp

lemma two_clock:
  obtains s1 where "TrapClock demo demo_uc (two_procs L) = Some (Switched, s1)" "running (procs s1) = 11"
    "calm_step demo (User demo_uc, two_procs L) (Kernel, s1)"
proof -
  have "ready_of (two_procs L) two_Q = 11 # []" by simp
  from trap_clock_next [OF demo_ok two_inv this, of demo_uc]
  obtain s1 where s1: "TrapClock demo demo_uc (two_procs L) = Some (Switched, s1)" "running (procs s1) = 11" by blast
  moreover have "calm_step demo (User demo_uc, two_procs L) (Kernel, s1)" using calm_step.clock [OF s1(1)] by (simp add: mode_after_def)
  ultimately show thesis by (rule that)
qed

theorem machine_invariant_witness:
  "\<exists>s1. (calm_step demo)\<^sup>*\<^sup>* (User demo_uc, two) (Kernel, s1) \<and> running (procs s1) \<noteq> 10 \<and>
    (\<exists>B' P'. demo_B \<subseteq> B' \<and> {10, 11} \<subseteq> P' \<and> machine_ok demo B' P' (Kernel, s1))"
proof -
  obtain s1 where s1: "running (procs s1) = 11" "calm_step demo (User demo_uc, two) (Kernel, s1)" by (rule two_clock)
  then have r: "(calm_step demo)\<^sup>*\<^sup>* (User demo_uc, two) (Kernel, s1)" by blast
  from machine_invariant [OF demo_ok two_ok r] have "\<exists>B' P'. demo_B \<subseteq> B' \<and> {10, 11} \<subseteq> P' \<and> machine_ok demo B' P' (Kernel, s1)" by blast
  with r s1(1) show ?thesis by (intro exI [of _ s1] conjI) simp_all
qed







section \<open>From boot on\<close>

text \<open>The state \<open>KernelStart\<close> leaves is in order, with the initial process as the only one beside the idle process.\<close>

lemma boot_machine:
  fixes s :: kernel
  defines "A \<equiv> pcb_a_children (the_pcb s (init_node s))"
  assumes b: "blank_tables hw s" and inv: "sched_inv s (no_queues (kernel_lists s)) (process_lists s)"
    and init: "started hw f li as uctxt s" and idle: "idles hw uctxt s" "init_node s \<noteq> idle_node s" "u_inv hw (table_of s (idle_node s)) s"
    and apart: "table_of s (idle_node s) \<noteq> ptbr1 s" "frames_of hw (table_of s (idle_node s)) s \<inter> frames_of hw (ptbr1 s) s = {}"
    and int32: "ff_size (free_frame s) < 2 ^ 31" and h: "heap_ok s" and st: "stacks_ok hw {init_node s} s"
    and A: "blank_list s A" "A \<notin> kernel_lists s"
  shows "machine_ok hw (process_lists s) {init_node s} (User u, s)"
proof -
  let ?Q = "(no_queues (kernel_lists s))(A \<mapsto> [])" and ?B = "process_lists s"
  have S: "running (procs s) = init_node s" "on_own_tables hw s" "region_ok hw (ptbr1 s) s" "ptbr1 s = table_of s (init_node s)"
    using init unfolding started_def Let_def table_of_def by blast+
  have AB: "A \<notin> ?B" using A(2) by (auto simp: kernel_lists_def)
  have "ll_at s A []" using A(1) by (simp add: blank_list_def ll_at_def)
  then have i: "sched_inv s ?Q ?B" by (rule sched_inv_new_list [OF inv _ AB])
  have m: "members ?Q ?B = {}" using AB by (auto simp: members_def no_queues_def kernel_lists_def split: if_splits)
  have p: "processes s ?Q ?B = {init_node s}" using S(1) idle(2) by (simp add: processes_def m)
  have plc: "plc_pipe (pilocvar s) \<in> kernel_lists s" "plc_lock (pilocvar s) \<in> kernel_lists s" "plc_cvar (pilocvar s) \<in> kernel_lists s"
    by (simp_all add: kernel_lists_def)
  then have ne: "plc_pipe (pilocvar s) \<noteq> A" "plc_lock (pilocvar s) \<noteq> A" "plc_cvar (pilocvar s) \<noteq> A" using A(2) by metis+
  have t: "tables_ok s ?Q ?B" using b plc ne by (simp add: tables_ok_def blank_tables_def)
  have fam: "families_ok s ?Q ?B {init_node s}" using AB ne by (simp add: families_ok_def A_def)
  have "nd_data (nodes s (init_node s)) \<noteq> nd_data (nodes s (idle_node s))" using apart(1) S(4) by (auto simp: table_of_def)
  moreover have "spaces_ok hw {init_node s} s"
    using S(3,4) idle(2,3) apart int32 region_okD(1) [OF S(3)] by (auto simp: spaces_ok_def)
  moreover have "pcb_kc (the_pcb s (idle_node s)) = KC_Start" using idle(1) by (simp add: idles_def Let_def)
  ultimately show ?thesis using i p t fam S(1,2) idle(2) h st unfolding machine_ok_def by auto
qed



end
