(* ===== verification/Spec2Isabelle.thy ===== *)
theory Spec2Isabelle
  imports Machine_Spec
begin

text \<open>
  The Yalnix kernel of \<open>src/ksrc\<close>, modelled function by function and verified.

  \<^bold>\<open>The program.\<close>  Yalnix is a small preemptive kernel for one processor.  \<open>kernel.c\<close> boots it: it
  maps region 0, sets the trap vector, makes the idle and the initial process and loads a program.
  From then on everything happens in the trap handlers of \<open>traps.c\<close>: a system call goes to
  \<open>syscalls.c\<close>, the clock to the scheduler of \<open>scheduling.c\<close>, a page fault grows the stack, a
  terminal interrupt goes to \<open>pilocvario.c\<close>.  A process is a node of a doubly linked list
  (\<open>linked_list.c\<close>) whose data is a control block (\<open>process.c\<close>) with a page table for region 1
  and the table of a kernel stack (\<open>memory.c\<close>), both on physical frames of a bit vector.  The
  scheduler moves nodes between lists, and switches kernel stacks and contexts (\<open>cswitch.c\<close>).
  Pipes, locks, condition variables and terminals are lists of waiting processes with some state.

  \<^bold>\<open>State.\<close>  The state is a record that grows from theory to theory, in the order in which the files
  of the kernel use each other: \<open>heap\<close> (allocated blocks, list nodes and headers by address), \<open>mem\<close>
  (frame allocator, page tables, physical memory, the register of the table of region 1),
  \<open>proc_state\<close> (control blocks, pids in use), \<open>sched\<close> (the process table, idle and initial process),
  \<open>kernel\<close> (buffers, pipes, locks, condition variables, terminals).  An operation of one level is
  polymorphic in what the levels above add.  Pointers to kernel blocks are addresses, natural
  numbers, with 0 for \<open>NULL\<close>; so sharing between blocks is as in the code.

  \<^bold>\<open>Conventions.\<close>  An operation is a function from states to \<open>option\<close>.  \<^const>\<open>None\<close> is undefined
  behaviour of C (a dereference of \<open>NULL\<close> or of a block that is not allocated, a double \<open>free\<close>, an
  index outside an array, an access through a page table entry that is not valid), or a loop
  that does not end: loops over pointers are \<open>partial_function (option)\<close>, loops with a counter are
  recursion over the range.  So every theorem that says that an operation gives a value says that
  it returns and that nothing undefined happens, and no fuel is used anywhere.  A failing system
  call is the value \<open>ERROR\<close>.  Addresses that user code passes are 32 bits wide with the
  wrap-around written out (\<open>uadd\<close>, \<open>usub\<close>, \<open>u32\<close>), registers are words, \<open>int\<close> counters are
  integers.  Uninitialised variables are the parameter \<open>uninit\<close>.

  A function that may switch to another process gives an \<open>outcome\<close>: it returns, or the machine
  has switched, or it has halted.  What the process still has to do when it runs again is the
  kernel context stored for it, a value of \<open>kernel_context\<close> with the local variables it needs;
  \<open>resume\<close> of theory Traps goes on from there.  The inductive relation \<open>step\<close> is the whole machine:
  user code that changes registers and its own pages, lines that arrive at terminals, every trap,
  and the resumption of a process in the kernel.

  \<^bold>\<open>The hardware.\<close>  What comes from headers that are not in the repository is the record \<open>hw\<close> of
  theory Machine: page size, region bounds, constants, the numbers of system calls, the file system
  of the loader, the choice of a new pid.  \<open>hw_ok\<close> states what the kernel relies on, \<open>demo\<close> is a
  machine with 16-byte pages that satisfies it.  The translation of addresses consults the page
  tables at every access, so a flush of the TLB has no effect.

  \<^bold>\<open>Theories\<close>, with what they model and show:

  \<^item> Prelude: undefined results, arrays, unsigned arithmetic, loops, and their rules.
  \<^item> Machine: the hardware interface and its laws.
  \<^item> Linked_List (\<open>linked_list.c\<close>, \<open>linked_list.h\<close>): every list operation on the heap.  \<open>ll_at\<close> says that
    a header represents a list of nodes, \<open>lists_ok\<close> that many lists do so at once and share no node.
    The locale \<open>node_lists\<close> is the interface the scheduler uses; it is interpreted on the pointer
    operations, whose refinement of list operations is proved there.
  \<^item> Buffer (the circular buffer of \<open>pilocvario.c\<close>): refinement of a bounded queue of bytes, stated as
    the locale \<open>byte_queue\<close>.
  \<^item> Frames (the allocator of \<open>memory.c\<close>): which frames are in use, what taking and releasing change.
  \<^item> Memory (the rest of \<open>memory.c\<close>, \<open>memory.h\<close>), Paging, Address_Space: page tables, the checks of
    user pointers, copying and releasing address spaces.  The locales \<open>page_release\<close> and \<open>page_space\<close>
    are the contract of a table whose pages come from the pool of frames; they are interpreted on the
    tables of processes, of the kernel and of kernel stacks.
  \<^item> Process (\<open>process.c\<close>), Cswitch (\<open>cswitch.c\<close>), Scheduling (\<open>scheduling.c\<close>): their operations.
    Scheduler_Spec has the invariant \<open>sched_inv\<close>: the lists are sound, everything a switch reads is
    there, and neither the running nor the idle process is on a list; every scheduling operation keeps
    it and its effect on the queues is given.  Delay: clock ticks and sleeping.  Scheduler_Runs: any
    sequence of calls.
  \<^item> Pilocvario (\<open>pilocvario.c\<close>, \<open>pilocvario.h\<close>) and Sync_Spec: terminals, pipes, locks, condition
    variables; the locale \<open>wait_queues\<close> is what they use of the scheduler, interpreted on it.
    Channel_Spec: readers of pipes and terminals and writers to terminals, from the memory of one
    process to that of another.  Monitor_Spec: condition variables, and locks from their creation to
    their reclamation.  Pipe_Spec: the creation and the reclamation of pipes.
  \<^item> Load (\<open>load.c\<close>), Arguments, Program_Image and Load_Spec: the loader, the stack it builds for a new
    program, the bytes of its segments, \<open>LoadProgram\<close> as a whole with all its failures, and the checks
    of \<open>KernelExec\<close> on the name and arguments.
  \<^item> Syscalls (\<open>syscalls.c\<close>), Traps (\<open>traps.c\<close>), Kernel (\<open>kernel.c\<close>): system calls, handlers, the machine,
    booting.  User_Memory and User_Stack: the break and the growth of the stack.  Kernel_Copy and
    Fork_Spec: \<open>KernelFork\<close> in full.  Process_Spec and Exit_Spec: the end of a process, \<open>KernelExit\<close>
    in full.  Wait_Spec: \<open>KernelWait\<close> in full.  Kernel_Heap: \<open>SetKernelBrk\<close> in full.  Boot_Spec and
    Start_Spec: the identity map that \<open>VM_setup\<close> builds, and \<open>KernelStart\<close> as a whole, whose result
    satisfies the invariants.  Clock_Spec: the clock trap, and progress.  User_Bytes: the memory of a process as bytes,
    and isolation.
  \<^item> Calm_Spec, Machine_Inv, Growth_Spec and Machine_Spec: the machine as a whole, while its processes
    compute, move their break, grow their stack, sleep, fork, create locks, condition variables and
    pipes, and use locks and condition variables.  Calm_Spec: what the handlers for this leave alone,
    also when they switch (\<open>calm\<close>).  Machine_Inv: the invariant \<open>machine_ok\<close> of the whole state, kept
    by such a handler, and by one that creates something (\<open>enlarged\<close>).  Growth_Spec: the calls that
    create.  Machine_Spec: the relation \<open>calm_step\<close>, a part of \<open>step\<close>, every step of which keeps the
    invariant; so the kernel does not get stuck, locks exclude each other, and memory is isolated, in
    every run and from boot on.
  \<^item> Demo and Demo_Memory: a concrete state of the kernel at which the theorems are instantiated.
  \<^item> This theory: properties of scheduler, memory, locks, pipes, traps, over all of the above.

  \<^bold>\<open>Hypotheses of the theorems.\<close>  \<open>hw_ok\<close> for the hardware; \<open>sched_inv s Q B\<close> with \<open>Q\<close> the nodes of
  every list and \<open>B\<close> the lists that hold processes; \<open>heap_ok\<close>, that the allocator hands out addresses
  above all allocated ones; \<open>u_inv\<close>, that the frames of a page table are in use and distinct;
  \<open>region_ok\<close>, that heap and stack are mapped as the break and stack fields say; \<open>stack_mapped\<close>, that
  the kernel stack in use is mapped; \<open>heap_typed\<close>, that no block has two uses; \<open>defuncts\<close>, that the
  children that ended and the orphans have their blocks; \<open>program_ok\<close> and \<open>args_fit\<close>, that an
  executable has the layout its header says and that the arguments fit on the stack; \<open>pipe_ok\<close>,
  \<open>tty_ok\<close>, \<open>lock_ok\<close> and \<open>cvar_ok\<close>, that an object has its buffer and its list of waiting processes;
  \<open>machine_ok\<close>, that all of this holds at once for the processes \<open>P\<close> of a running machine: \<open>spaces_ok\<close>
  and \<open>stacks_ok\<close> give each its memory and its kernel stack, \<open>families_ok\<close> its list of children, and
  \<open>tables_ok\<close> says that the tables of objects lead to objects.  \<open>fork_fits\<close> and \<open>own_word\<close> are what the
  code does not check before a fork and before it stores the number of a new object.
  \<open>kernel_starts\<close> and \<open>boots_into_machine\<close> show that the invariants of scheduler, memory and terminals,
  and \<open>machine_ok\<close>, hold when the first program starts.  Each theorem with hypotheses has a witness on \<open>demo_kernel\<close> or a state like it
  (\<open>two_procs\<close> for the running machine, \<open>demo_image\<close> for the loader, \<open>demo_off\<close> and \<open>demo_bare\<close> before the memory is on, \<open>demo_parent\<close> for
  children that ended).

  \<^bold>\<open>Not modelled.\<close>  The programs under \<open>test\<close> run in user mode; the relation \<open>step\<close> allows any user
  code.  \<open>TracePrintf\<close> has no effect.  \<open>malloc\<close> does not fail and does not hand out an address
  twice, so that a use of freed memory is always seen; the branches for a failing \<open>malloc\<close> are left out.
  File descriptors in the loader, the registers that hold constants for the table of region 0 and
  the lengths of tables, and the idle loop of user code are not part of the state.

  \<^bold>\<open>Limits of the theorems.\<close>  Every function of the kernel has its definition, and what each does is
  stated on every branch, apart from \<open>KernelReclaim\<close> of a condition variable, which is wrong in the code.
  The theorems on the machine as a whole leave out the calls that end a process or replace its
  program, wait for a child, transfer bytes through pipes and terminals, or reclaim an object: these
  are verified one call at a time.  Of them, \<open>KernelExit\<close> and \<open>KernelWait\<close> cannot keep the invariant as
  they are, since a process that has waited for a child uses freed memory when it exits
  (\<open>exit_after_wait\<close>).
\<close>

section \<open>The scheduler\<close>

text \<open>
  C1: Round robin.  When somebody is ready, the clock's \<open>rr_preempt\<close> runs the process at the
  head of the ready queue, on its own page table and kernel stack, and the process that ran
  goes to the back of the queue with its kernel context saved, unless it is the idle process;
  no process is lost or queued twice.  When nobody is ready nothing changes.
\<close>

theorem round_robin:
  assumes "hw_ok hw" and "sched_inv s Q B"
  shows "case ready_of s Q of [] \<Rightarrow> rr_preempt hw kc s = Some (Ret (), s)
    | n # R \<Rightarrow> \<exists>s'. rr_preempt hw kc s = Some (Switched, s') \<and> switched hw kc s s' n \<and>
        sched_inv s' (Q(ready_ll (procs s) \<mapsto>
          R @ (if running (procs s) = idle_node s then [] else [running (procs s)]))) B"
proof (cases "ready_of s Q")
  case Nil
  then show ?thesis using rr_preempt_ok(1) [OF assms] by simp
next
  case (Cons n R)
  have "dispatch (ready_ll (procs s)) (if running (procs s) = idle_node s then Q
      else Q(ready_ll (procs s) \<mapsto> ready_of s Q @ [running (procs s)])) =
    Q(ready_ll (procs s) \<mapsto> R @ (if running (procs s) = idle_node s then [] else [running (procs s)]))"
    using Cons by (simp add: dispatch_def)
  with rr_preempt_ok(2) [OF assms Cons, of kc] Cons show ?thesis by simp
qed

theorem round_robin_witness:
  "\<exists>s'. rr_preempt demo KC_Clock demo_kernel = Some (Switched, s') \<and> running (procs s') = 11 \<and> ptbr1 s' = 31 \<and>
    sched_inv s' (demo_Q(1 \<mapsto> [10])) demo_B"
  using round_robin [OF demo_ok demo_inv, of KC_Clock] by (auto simp: demo_lists_def switched_def demo_nodes_def)

text \<open>
  C2: Blocking.  \<open>block\<close> puts the running process at the end of the given list, leaves it in
  the kernel context of the caller, and runs the head of the ready queue, or the idle process
  when the queue is empty.
\<close>

theorem block_dispatches:
  assumes "hw_ok hw" and "sched_inv s Q B" and "l \<in> B" and "l \<noteq> ready_ll (procs s)"
    and "running (procs s) \<noteq> idle_node s"
  shows "\<exists>s'. block hw kc l s = Some s' \<and>
    switched hw kc s s' (case ready_of s Q of [] \<Rightarrow> idle_node s | n # _ \<Rightarrow> n) \<and>
    sched_inv s' (Q(l \<mapsto> the (Q l) @ [running (procs s)], ready_ll (procs s) \<mapsto> tl (ready_of s Q))) B"
proof -
  let ?Q = "Q(l \<mapsto> the (Q l) @ [running (procs s)])"
  have "next_up s ?Q = (case ready_of s Q of [] \<Rightarrow> idle_node s | n # _ \<Rightarrow> n)"
    using assms(4) by (simp add: next_up_def)
  moreover have "dispatch (ready_ll (procs s)) ?Q = ?Q(ready_ll (procs s) \<mapsto> tl (ready_of s Q))"
    using assms(4) by (simp add: dispatch_def)
  ultimately show ?thesis using block_ok [OF assms(1-3,5), of kc] by simp
qed

theorem block_dispatches_witness:
  "\<exists>s'. block demo (KC_Wait 20 0) 2 demo_kernel = Some s' \<and> running (procs s') = 11 \<and>
    sched_inv s' (demo_Q(2 \<mapsto> [10], 1 \<mapsto> [])) demo_B"
  using block_dispatches [OF demo_ok demo_inv, of 2 "KC_Wait 20 0"] by (auto simp: demo_lists_def switched_def)

text \<open>
  Waking.  \<open>unblock_all\<close> returns: it moves the processes of a list, however many, to the
  back of the ready queue in the order they waited in, and changes nothing but list links.
\<close>

lemma unblock_all_in_order:
  assumes "sched_inv s Q B" and "l \<in> B" and "l \<noteq> ready_ll (procs s)"
  shows "\<exists>s'. unblock_all l s = Some s' \<and> links_only s s' \<and>
    sched_inv s' (Q(l \<mapsto> [], ready_ll (procs s) \<mapsto> ready_of s Q @ the (Q l))) B"
  using unblock_all_ok [OF assms sched_midD(10) [OF sched_invD(1) [OF assms(1)] assms(2)]] .

text \<open>
  C34: A clock tick.  \<open>check_delay\<close> counts down the sleeping processes from the head of the
  list up to and including the first whose delay ends, which becomes ready; the processes
  behind that one are not counted down in this tick.
\<close>

theorem clock_tick:
  assumes "sched_inv s Q B" and "Q (delayed_ll (procs s)) = Some xs"
  defines "ys \<equiv> passed s xs"
  shows "case drop (length ys) xs of
      [] \<Rightarrow> check_delay s = Some (relabel (tick_codes s (set xs)) s)
    | n # zs \<Rightarrow> \<exists>s'. check_delay s = Some s' \<and> links_only (relabel (tick_codes s (set (ys @ [n]))) s) s' \<and>
        sched_inv s' (Q(delayed_ll (procs s) \<mapsto> ys @ zs, ready_ll (procs s) \<mapsto> ready_of s Q @ [n])) B"
proof -
  have xs: "xs = ys @ drop (length ys) xs" by (simp add: ys_def passed_def flip: dropWhile_eq_drop)
  show ?thesis
  proof (cases "drop (length ys) xs")
    case Nil
    with xs have "passed s xs = xs" by (simp add: ys_def)
    with Nil check_delay_ok(1) [OF assms(1,2)] show ?thesis by simp
  next
    case (Cons n zs)
    with xs have "xs = ys @ n # zs" by simp
    from check_delay_ok(2) [OF assms(1,2) this ys_def [symmetric, THEN meta_eq_to_obj_eq]] show ?thesis unfolding Cons list.case .
  qed
qed

theorem clock_tick_witness:
  "\<exists>s'. check_delay demo_kernel = Some s' \<and> code_in s' 13 = 0 \<and> code_in s' 14 = 5 \<and>
    sched_inv s' (demo_Q(3 \<mapsto> [14], 1 \<mapsto> [11, 13])) demo_B"
proof -
  have "demo_Q (delayed_ll (procs demo_kernel)) = Some [13, 14]" by (simp add: demo_lists_def)
  moreover have "passed demo_kernel [13, 14] = []" by (simp add: passed_def demo_nodes_def)
  ultimately obtain s' where "check_delay demo_kernel = Some s'"
      "links_only (relabel (tick_codes demo_kernel {13}) demo_kernel) s'"
      "sched_inv s' (demo_Q(3 \<mapsto> [14], 1 \<mapsto> [11, 13])) demo_B"
    using clock_tick [OF demo_inv, of "[13, 14]"] by (auto simp: demo_lists_def)
  with links_onlyD(5) [OF this(2)] show ?thesis by (auto simp: tick_codes_def demo_nodes_def)
qed

text \<open>
  Sleeping.  \<open>block_delay\<close> labels the running process with its delay, puts it at the end of
  the list of sleepers and dispatches.
\<close>

lemma block_delay_sleeps:
  assumes "hw_ok hw" and "sched_inv s Q B" and "running (procs s) \<noteq> idle_node s"
  shows "\<exists>s'. block_delay hw kc t s = Some s' \<and> code_in s' (running (procs s)) = t \<and>
    running (procs s') = (case ready_of s Q of [] \<Rightarrow> idle_node s | n # _ \<Rightarrow> n) \<and>
    sched_inv s' (Q(delayed_ll (procs s) \<mapsto> the (Q (delayed_ll (procs s))) @ [running (procs s)],
      ready_ll (procs s) \<mapsto> tl (ready_of s Q))) B"
proof -
  let ?Q = "Q(delayed_ll (procs s) \<mapsto> the (Q (delayed_ll (procs s))) @ [running (procs s)])"
  let ?s = "relabel ((code_in s)(running (procs s) := t)) s"
  have ne: "ready_ll (procs s) \<noteq> delayed_ll (procs s)" using sched_midD(13) [OF sched_invD(1) [OF assms(2)]] .
  obtain s' where s': "block_delay hw kc t s = Some s'" "switched hw kc ?s s' (next_up s ?Q)"
      "sched_inv s' (dispatch (ready_ll (procs s)) ?Q) B"
    using block_delay_ok [OF assms] by blast
  have "next_up s ?Q = (case ready_of s Q of [] \<Rightarrow> idle_node s | n # _ \<Rightarrow> n)" using ne by (simp add: next_up_def)
  moreover have "dispatch (ready_ll (procs s)) ?Q = ?Q(ready_ll (procs s) \<mapsto> tl (ready_of s Q))"
    using ne by (simp add: dispatch_def)
  moreover have "sched_frame hw ?s s'" using s'(2) by (simp add: switched_def)
  then have "code_in s' (running (procs s)) = t" using sched_frameD(3) [of hw ?s s'] by simp
  ultimately show ?thesis using s' by (auto simp: switched_def)
qed

section \<open>The memory of a process\<close>

text \<open>
  C25: \<open>KernelUserBrk\<close> accepts an address from the end of the data to one page below the stack,
  if the frames for it are left, and then makes exactly the pages up to it the heap: new pages
  are readable and writable and on frames nobody held, released frames are free again, all
  other pages stay, and so does everything else but this table and the allocator.  Otherwise it
  returns \<open>ERROR\<close> and changes nothing.
\<close>

theorem user_brk:
  fixes a :: nat
  assumes "hw_ok hw" and "proc_ok s (running (procs s))" and "pcb_userpt (the_pcb s (running (procs s))) = up"
    and "region_ok hw up s" and "ff_size (free_frame s) < 2 ^ 31"
  defines "b \<equiv> heap_end hw (upts s up)" and "n \<equiv> page_index hw (UP_TO_PAGE hw a)"
  shows "if \<not> brk_window hw (upts s up) a \<or> frames_left (free_frame s) < n - b
    then KernelUserBrk hw a s = Some (ERROR hw, s)
    else \<exists>s'. KernelUserBrk hw a s = Some (0, s') \<and> region_ok hw up s' \<and> u_brk (upts s' up) = UP_TO_PAGE hw a \<and>
      u_size (upts s' up) = u_size (upts s up) + (n - b) \<and>
      (\<forall>i. if b \<le> i \<and> i < n then \<exists>f. upages hw up s' i = Some (f, PROT_RW hw) \<and> f \<in> pool hw (free_frame s)
        else upages hw up s' i = (if n \<le> i \<and> i < b then None else upages hw up s i)) \<and>
      frames_left (free_frame s') = frames_left (free_frame s) - (n - b) \<and> (\<forall>x. x \<noteq> up \<longrightarrow> upts s' x = upts s x) \<and> table_only hw up s s'"
proof -
  have live: "live s up" using region_okD(1) [OF assms(4)] by (simp add: u_inv_def)
  consider "\<not> brk_window hw (upts s up) a" | "brk_window hw (upts s up) a" "frames_left (free_frame s) < n - b"
    | "brk_window hw (upts s up) a" "n - b \<le> frames_left (free_frame s)" "b < n" | "brk_window hw (upts s up) a" "n \<le> b"
      "\<not> frames_left (free_frame s) < n - b"
    using card_pool [OF u_inv_frames [OF region_okD(1) [OF assms(4)]]] by linarith
  then show ?thesis
  proof cases
    case 1
    with user_brk_refused [OF assms(2,3) live] show ?thesis by simp
  next
    case 2
    with user_brk_no_frames [OF assms(1-4) _ assms(5)] show ?thesis by (simp add: n_def b_def)
  next
    case 3
    then have e: "(if n \<le> i \<and> i < b then None else x) = x" for i and x :: "(int \<times> int) option" by auto
    from 3 show ?thesis
      using user_brk_grow [OF assms(1-4), of a] assms(5) unfolding b_def [symmetric] n_def [symmetric] e by simp
  next
    case 4
    then have e: "(if b \<le> i \<and> i < n then P else R) = R" for i P R by auto
    from 4 show ?thesis
      using user_brk_shrink [OF assms(1-4), of a] unfolding b_def [symmetric] n_def [symmetric] e by (simp add: algebra_simps)
  qed
qed

theorem user_brk_witness:
  "\<exists>s'. KernelUserBrk demo 320 demo_kernel = Some (0, s') \<and> u_brk (upts s' 30) = 320 \<and> u_size (upts s' 30) = 5 \<and>
    frames_left (free_frame s') = 13"
proof -
  have p: "proc_ok demo_kernel (running (procs demo_kernel))" using demo_inv sched_invD(4) by blast
  have up: "pcb_userpt (the_pcb demo_kernel (running (procs demo_kernel))) = 30" by (simp add: demo_nodes_def)
  have w: "brk_window demo (upts demo_kernel 30) 320" "heap_end demo (upts demo_kernel 30) = 2"
      "page_index demo (UP_TO_PAGE demo 320) = 4" "frames_left (free_frame demo_kernel) = 15"
    by (simp_all add: brk_window_def demo_user_pt_def heap_end_def page_index_def frames_left_def usub_exact)
  show ?thesis using user_brk [OF demo_ok p up demo_region, of 320] w by (auto simp: demo_user_pt_def)
qed

text \<open>
  C26: Stack growth.  For a fault at least one page above the break and not above the stack,
  with the frames left, \<open>TrapMemory\<close> maps the pages from the fault up to the stack on fresh
  frames, moves the low end of the stack to the page of the fault, and resumes the process
  with the user context it was given; nothing else changes.
\<close>

theorem stack_grows:
  assumes "hw_ok hw" and "proc_ok s (running (procs s))" and "pcb_userpt (the_pcb s (running (procs s))) = up"
    and "region_ok hw up s" and "stack_window hw (upts s up) (uc_addr uc)"
    and "stack_start hw (upts s up) - page_index hw (uc_addr uc) \<le> frames_left (free_frame s)"
  defines "n \<equiv> page_index hw (uc_addr uc)" and "t \<equiv> stack_start hw (upts s up)"
  shows "\<exists>s'. TrapMemory hw uc s = Some (Ret uc, s') \<and> region_ok hw up s' \<and>
    u_stack_low (upts s' up) = DOWN_TO_PAGE hw (uc_addr uc) \<and> u_size (upts s' up) = u_size (upts s up) + (t - n) \<and>
    (\<forall>i. if n \<le> i \<and> i < t then \<exists>f. upages hw up s' i = Some (f, PROT_RW hw) \<and> f \<in> pool hw (free_frame s)
      else upages hw up s' i = upages hw up s i) \<and>
    frames_left (free_frame s') = frames_left (free_frame s) - (t - n) \<and> (\<forall>x. x \<noteq> up \<longrightarrow> upts s' x = upts s x) \<and>
    table_only hw up (s\<lparr>pcbs := (pcbs s)(nd_data (nodes s (running (procs s))) := (the_pcb s (running (procs s)))\<lparr>pcb_uc := uc\<rparr>)\<rparr>) s'"
  unfolding n_def t_def by (rule trap_memory_grow [OF assms(1-6)])

theorem stack_grows_witness:
  "\<exists>s'. TrapMemory demo (demo_uc\<lparr>uc_addr := 450\<rparr>) demo_kernel = Some (Ret (demo_uc\<lparr>uc_addr := 450\<rparr>), s') \<and>
    u_stack_low (upts s' 30) = 448 \<and> u_size (upts s' 30) = 6 \<and> (\<exists>f. upages demo 30 s' 12 = Some (f, PROT_RW demo))"
proof -
  let ?uc = "demo_uc\<lparr>uc_addr := 450\<rparr>"
  have p: "proc_ok demo_kernel (running (procs demo_kernel))" using demo_inv sched_invD(4) by blast
  have up: "pcb_userpt (the_pcb demo_kernel (running (procs demo_kernel))) = 30" by (simp add: demo_nodes_def)
  have w: "stack_window demo (upts demo_kernel 30) (uc_addr ?uc)" "stack_start demo (upts demo_kernel 30) = 15"
      "page_index demo (uc_addr ?uc) = 12" "frames_left (free_frame demo_kernel) = 15"
    by (simp_all add: stack_window_def demo_user_pt_def stack_start_def page_index_def frames_left_def)
  obtain s' where s': "TrapMemory demo ?uc demo_kernel = Some (Ret ?uc, s')" "u_stack_low (upts s' 30) = 448"
      "u_size (upts s' 30) = 6"
      "\<forall>i. if 12 \<le> i \<and> i < 15 then \<exists>f. upages demo 30 s' i = Some (f, PROT_RW demo) \<and> f \<in> pool demo (free_frame demo_kernel)
        else upages demo 30 s' i = upages demo 30 demo_kernel i"
    using stack_grows [OF demo_ok p up demo_region w(1)] w(2-4) by (auto simp: demo_user_pt_def)
  from spec [OF s'(4), of 12] s'(1-3) show ?thesis by auto
qed

section \<open>Pointers from user code\<close>

text \<open>
  \<open>check_buffer\<close> accepts a buffer exactly when each of its bytes is in region 1 and on a
  mapped page.  The protection it is asked for plays no part.
\<close>

lemma buffer_check:
  assumes "hw_ok hw" and "live s up"
  shows "check_buffer hw len a prot up s = Some (of_bool (\<forall>j < nat len. user_addr hw up s (uadd a j)))"
  by (rule check_buffer_eq [OF assms])

section \<open>Locks\<close>

text \<open>
  C29: Mutual exclusion.  \<open>acquire\<close> returns, with the running process as the owner, exactly when
  the lock is free or already its own; otherwise the owner stays, and the process waits at the
  end of the lock's queue while the next one runs.
\<close>

theorem acquire_excludes:
  assumes "hw_ok hw" and "sched_inv s Q B" and "running (procs s) \<noteq> idle_node s"
    and "live s lock_n" and "live s (nd_data (nodes s lock_n))"
  defines "lock \<equiv> nd_data (nodes s lock_n)"
  assumes "l_blocked (locks s lock) \<in> B" and "l_blocked (locks s lock) \<noteq> ready_ll (procs s)"
  shows "if l_owner (locks s lock) \<in> {NULL, running (procs s)}
    then acquire hw lock_n s =
      Some (Ret 0, s\<lparr>locks := (locks s)(lock := (locks s lock)\<lparr>l_owner := running (procs s)\<rparr>)\<rparr>)
    else \<exists>s'. acquire hw lock_n s = Some (Switched, s') \<and> locks s' = locks s \<and>
      pcb_kc (the_pcb s' (running (procs s))) = KC_Acquire lock \<and>
      sched_inv s' (Q(l_blocked (locks s lock) \<mapsto> the (Q (l_blocked (locks s lock))) @ [running (procs s)],
        ready_ll (procs s) \<mapsto> tl (ready_of s Q))) B"
proof (cases "l_owner (locks s lock) \<in> {NULL, running (procs s)}")
  case True
  then show ?thesis using acquire_loop_free [of s lock hw] assms(4,5) by (auto simp: acquire_def lock_def)
next
  case False
  let ?l = "l_blocked (locks s lock)"
  let ?Q = "Q(?l \<mapsto> the (Q ?l) @ [running (procs s)])"
  obtain s' where s': "acquire_loop hw (KC_Acquire lock) lock s = Some (Switched, s')"
      "switched hw (KC_Acquire lock) s s' (next_up s ?Q)" "sched_inv s' (dispatch (ready_ll (procs s)) ?Q) B" "locks s' = locks s"
    using acquire_loop_taken [OF assms(1,2) _ assms(7,3), of "KC_Acquire lock"] assms(5) False by (auto simp: lock_def)
  have "sched_frame hw s s'" using s'(2) by (simp add: switched_def)
  then have "pcb_kc (the_pcb s' (running (procs s))) = KC_Acquire lock"
    using s'(2) sched_frameD(2) [of hw s s'] by (simp add: switched_def)
  moreover have "dispatch (ready_ll (procs s)) ?Q = ?Q(ready_ll (procs s) \<mapsto> tl (ready_of s Q))"
    using assms(8) by (simp add: dispatch_def)
  moreover have "acquire hw lock_n s = Some (Switched, s')" using s'(1) assms(4) by (simp add: acquire_def lock_def)
  ultimately show ?thesis using False s'(3,4) by simp
qed

theorem acquire_excludes_witness:
  "\<exists>s'. acquire demo 61 (demo_kernel\<lparr>locks := (\<lambda>_. \<lparr>l_owner = 14, l_blocked = 8, l_unfulfilled = 0, l_cvar = 0\<rparr>)\<rparr>) =
      Some (Switched, s') \<and> l_owner (locks s' 60) = 14 \<and> sched_inv s' (demo_Q(8 \<mapsto> [15, 10], 1 \<mapsto> [])) demo_B"
proof -
  let ?s = "demo_kernel\<lparr>locks := (\<lambda>_. \<lparr>l_owner = 14, l_blocked = 8, l_unfulfilled = 0, l_cvar = 0\<rparr>)\<rparr>"
  have inv: "sched_inv ?s demo_Q demo_B" using demo_inv by simp
  show ?thesis
    using acquire_excludes [OF demo_ok inv, of 61] by (auto simp: demo_nodes_def demo_lists_def)
qed

text \<open>
  \<open>release\<close> by the owner frees the lock and makes the first waiting process ready, counted
  as one that was woken and has not run; by anybody else it returns \<open>ERROR\<close> and changes nothing.
\<close>

lemma release_hands_over:
  assumes "sched_inv s Q B" and "live s lock_n" and "live s (nd_data (nodes s lock_n))"
  defines "lock \<equiv> nd_data (nodes s lock_n)"
  assumes "l_blocked (locks s lock) \<in> B" and "l_blocked (locks s lock) \<noteq> ready_ll (procs s)"
  shows "if l_owner (locks s lock) \<noteq> running (procs s) then release hw lock_n s = Some (ERROR hw, s)
    else \<exists>s'. release hw lock_n s = Some (0, s') \<and> l_owner (locks s' lock) = NULL \<and>
      (\<forall>a. a \<noteq> lock \<longrightarrow> locks s' a = locks s a) \<and>
      l_unfulfilled (locks s' lock) = l_unfulfilled (locks s lock) + of_bool (the (Q (l_blocked (locks s lock))) \<noteq> []) \<and>
      sched_inv s' (case the (Q (l_blocked (locks s lock))) of [] \<Rightarrow> Q
        | n # ns \<Rightarrow> Q(l_blocked (locks s lock) \<mapsto> ns, ready_ll (procs s) \<mapsto> ready_of s Q @ [n])) B"
proof (cases "l_owner (locks s lock) = running (procs s)")
  case True
  have Ql: "Q (l_blocked (locks s lock)) = Some (the (Q (l_blocked (locks s lock))))"
    using sched_midD(10) [OF sched_invD(1) [OF assms(1)] assms(5)] .
  then have w: "wake1 (ready_ll (procs s)) (l_blocked (locks s lock)) Q = (case the (Q (l_blocked (locks s lock))) of [] \<Rightarrow> Q
        | n # ns \<Rightarrow> Q(l_blocked (locks s lock) \<mapsto> ns, ready_ll (procs s) \<mapsto> ready_of s Q @ [n]))"
    by (cases "Q (l_blocked (locks s lock))") (auto simp: wake1_def split: list.splits)
  obtain s' where "release hw lock_n s = Some (0, s')"
      "sched_inv s' (wake1 (ready_ll (procs s)) (l_blocked (locks s lock)) Q) B"
      "locks s' = (locks s)(lock := (locks s lock)\<lparr>l_unfulfilled := l_unfulfilled (locks s lock) +
        (if the (Q (l_blocked (locks s lock))) = [] then 0 else 1), l_owner := NULL\<rparr>)"
    using release_ok [OF assms(1,2) lock_def [symmetric, THEN meta_eq_to_obj_eq] _ assms(5,6) True] assms(3)
    by (auto simp: lock_def)
  with w True show ?thesis by simp
next
  case False
  then show ?thesis using release_other [OF assms(2,3)] by (simp add: lock_def)
qed

section \<open>Pipes\<close>

text \<open>
  A write for which the pipe has room puts the bytes behind those already there and wakes
  all readers, but it returns the uninitialised variable \<open>total\<close>, not the number of bytes.
\<close>

lemma pipe_write_returns_garbage:
  assumes "sched_inv s Q B" and "live s pipe_n" and "nd_data (nodes s pipe_n) = pipe" and "pipe_ok s B pipe"
    and "0 \<le> len" and "len \<le> room (pipe_buf s pipe)"
    and "\<And>j. int j < len \<Longrightarrow> load hw s (u32 (int src + int j)) = Some (g j)"
  shows "\<exists>s'. write_pipe hw pipe_n src len s = Some (Ret (uninit hw), s') \<and>
    contents (pipe_buf s' pipe) = contents (pipe_buf s pipe) @ map g [0..<nat len] \<and>
    sched_inv s' (wakeall (ready_ll (procs s)) (p_readblocked (pipes s pipe)) Q) B"
proof -
  obtain s' where "write_pipe_loop hw pipe src len len (uninit hw) s = Some (Ret (uninit hw), s')"
      "sched_inv s' (wakeall (ready_ll (procs s)) (p_readblocked (pipes s pipe)) Q) B"
      "contents (pipe_buf s' pipe) = contents (pipe_buf s pipe) @ map g [0..<nat len]"
    using write_pipe_loop_fits [OF assms(1,4,5,6) order.refl, of hw src g] assms(7) by blast
  then show ?thesis using assms(2,3) by (simp add: write_pipe_def)
qed

lemma demo_load_256: "load demo demo_kernel 256 = Some 16"
  by (simp add: load_def frame_at_def rd_upte_def demo_user_pt_def entry_def drop_bit_eq_div)
    (simp add: demo_kernel_def)

text \<open>
  C37: A write for which the pipe has no room fills it and blocks the writer; readers that wait
  are not woken.
\<close>

theorem pipe_write_blocks:
  assumes "hw_ok hw" and "sched_inv s Q B" and "pipe_ok s B pipe" and "running (procs s) \<noteq> idle_node s"
    and "live s pipe_n" and "nd_data (nodes s pipe_n) = pipe"
    and "room (pipe_buf s pipe) < len"
    and "\<And>j. int j < room (pipe_buf s pipe) \<Longrightarrow> load hw s (u32 (int src + int j)) = Some (g j)"
  defines "r \<equiv> room (pipe_buf s pipe)" and "w \<equiv> p_writeblocked (pipes s pipe)"
  shows "\<exists>s'. write_pipe hw pipe_n src len s = Some (Switched, s') \<and>
    sched_inv s' (Q(w \<mapsto> the (Q w) @ [running (procs s)], ready_ll (procs s) \<mapsto> tl (ready_of s Q))) B \<and>
    pcb_kc (the_pcb s' (running (procs s))) = KC_PipeWrite pipe (u32 (int src + r)) len (len - r) (uninit hw + r) \<and>
    contents (pipe_buf s' pipe) = contents (pipe_buf s pipe) @ map g [0..<nat r] \<and> room (pipe_buf s' pipe) = 0"
proof -
  have len: "0 \<le> len" "room (pipe_buf s pipe) \<le> len"
    using assms(3,7) by (auto simp: pipe_ok_def room_def buf_ok_def)
  have "w \<noteq> ready_ll (procs s)" using assms(3) by (simp add: pipe_ok_def w_def)
  then have "dispatch (ready_ll (procs s)) (Q(w \<mapsto> the (Q w) @ [running (procs s)])) =
      Q(w \<mapsto> the (Q w) @ [running (procs s)], ready_ll (procs s) \<mapsto> tl (ready_of s Q))"
    by (simp add: dispatch_def)
  with write_pipe_loop_full [OF assms(1-4) len assms(7), of src g "uninit hw"] assms(8)
  obtain s' where "write_pipe_loop hw pipe src len len (uninit hw) s = Some (Switched, s')"
      "sched_inv s' (Q(w \<mapsto> the (Q w) @ [running (procs s)], ready_ll (procs s) \<mapsto> tl (ready_of s Q))) B"
      "pcb_kc (the_pcb s' (running (procs s))) = KC_PipeWrite pipe (u32 (int src + r)) len (len - r) (uninit hw + r)"
      "contents (pipe_buf s' pipe) = contents (pipe_buf s pipe) @ map g [0..<nat r]" "room (pipe_buf s' pipe) = 0"
    unfolding w_def r_def by fastforce
  then show ?thesis using assms(5,6) by (simp add: write_pipe_def)
qed

theorem pipe_write_blocks_witness:
  "\<exists>s'. write_pipe demo 63 256 5 demo_kernel = Some (Switched, s') \<and> contents (pipe_buf s' 62) = [7, 8, 16] \<and>
    sched_inv s' (demo_Q(50 \<mapsto> [10], 1 \<mapsto> [])) demo_B"
proof -
  have p: "pipe_ok demo_kernel demo_B 62" by (simp add: pipe_ok_def demo_buffer_ok)
  have r: "room (pipe_buf demo_kernel 62) = 1" by (simp add: room_def demo_buffer_def)
  have n: "nd_data (nodes demo_kernel 63) = 62" by (simp add: demo_nodes_def)
  have l: "load demo demo_kernel (u32 (int 256 + int j)) = Some ((\<lambda>_. 16) j)"
    if "int j < room (pipe_buf demo_kernel 62)" for j
    using that demo_load_256 unfolding r by (simp add: u32_id)
  show ?thesis
    using pipe_write_blocks [OF demo_ok demo_inv p _ _ n _ l, of 5] r by (auto simp: demo_buffer_ok demo_lists_def)
qed

section \<open>Exit\<close>

text \<open>
  A process that exits with a child that has exited before it, and that it has not waited
  for, makes the kernel use freed memory: the loop over defunct children reads the link of the
  node it has just destroyed.
\<close>

lemma exit_with_defunct_child:
  assumes "ll_head (lls s (pcb_d_children (the_pcb s proc))) \<noteq> NULL"
  shows "process_terminate hw proc rc s = None"
  using process_terminate_defunct [of hw proc rc s] assms by fastforce

section \<open>Traps\<close>

text \<open>
  The trap vector has for every trap the handler of that name, and NULL behind the last.
\<close>

lemma trap_vector_complete:
  fixes v :: "nat \<rightharpoonup> handler"
  assumes "distinct [TRAP_KERNEL t, TRAP_CLOCK t, TRAP_TTY_RECEIVE t, TRAP_TTY_TRANSMIT t, TRAP_ILLEGAL t,
      TRAP_MEMORY t, TRAP_MATH t, TRAP_DISK t]"
    and "\<forall>i\<in>{TRAP_KERNEL t, TRAP_CLOCK t, TRAP_TTY_RECEIVE t, TRAP_TTY_TRANSMIT t, TRAP_ILLEGAL t,
      TRAP_MEMORY t, TRAP_MATH t}. i < TRAP_DISK t"
  defines "v' \<equiv> trap_setup t v"
  shows "v' (TRAP_KERNEL t) = Some H_TrapKernel \<and> v' (TRAP_CLOCK t) = Some H_TrapClock \<and>
    v' (TRAP_TTY_RECEIVE t) = Some H_TrapTtyReceive \<and> v' (TRAP_TTY_TRANSMIT t) = Some H_TrapTtyTransmit \<and>
    v' (TRAP_ILLEGAL t) = Some H_TrapIllegal \<and> v' (TRAP_MEMORY t) = Some H_TrapMemory \<and>
    v' (TRAP_MATH t) = Some H_TrapMath \<and> v' (TRAP_DISK t) = Some H_TrapDisk \<and>
    (\<forall>i. TRAP_DISK t < i \<longrightarrow> i < TRAP_VECTOR_SIZE t \<longrightarrow> v' i = None)"
proof -
  have "foldl (\<lambda>v i. v(i := None)) w is = (\<lambda>i. if i \<in> set is then None else w i)" for w :: "nat \<rightharpoonup> handler" and "is"
    by (induction "is" arbitrary: w) auto
  then show ?thesis using assms(1,2) by (simp add: v'_def trap_setup_def Let_def)
qed

text \<open>
  The system call \<open>GetPid\<close>, from trap to return: the process gets its pid in register 0, and
  nothing else of its user context changes; it goes on running.
\<close>

lemma getpid_returns_pid:
  assumes "hw_ok hw" and "proc_ok s (running (procs s))" and "uc_code uc = code_of hw YALNIX_GETPID"
  shows "\<exists>s'. TrapKernel hw uc s = Some (Ret (set_reg0 (pcb_pid (the_pcb s (running (procs s)))) uc), s') \<and>
    running (procs s') = running (procs s) \<and>
    (\<forall>a. a \<noteq> nd_data (nodes s (running (procs s))) \<longrightarrow> pcbs s' a = pcbs s a)"
proof -
  have i: "inj (code_of hw)" using assms(1) by (simp add: hw_ok_def)
  have c: "(code_of hw YALNIX_GETPID = code_of hw x) = (x = YALNIX_GETPID)" for x using i by (auto dest: injD)
  show ?thesis
    using assms(2,3)
    by (simp add: TrapKernel_def save_uc_def proc_ok_def syscall_switch_def Let_def c KernelGetPid_def get_pid_def
        pcb_of_def after_call_def leave_with_def leave_def add_return_val_def restore_uc_def)
qed

end
